(* ===== verification/Prelude.thy ===== *)
theory Prelude
  imports Complex_Main "HOL-Library.Word" "HOL-Library.Signed_Division"
begin

text \<open>
  What every component shares: the fixed-width integers of the C and C++ sources, written as
  \<open>int\<close> with the wrap-around of each conversion spelled out (signed types are read in two's
  complement, as the armeabi and x86 compilers of the build do), the C library's character
  classification, and the list and option facts the component proofs use.

  The ABI is that of \<^verbatim>\<open>jni/Application.mk\<close> (armeabi, armeabi-v7a, x86): \<open>int\<close>, \<open>long\<close>,
  \<open>time_t\<close> and pointers have 32 bits, \<open>long long\<close> and \<open>int64_t\<close> have 64.
\<close>

named_theorems c_arith \<open>conversions between the C integer types on values that fit\<close>
named_theorems frame_simps \<open>fields an operation leaves alone\<close>

section \<open>Fixed-width integers\<close>

definition wrap_u :: "nat \<Rightarrow> int \<Rightarrow> int" where
  "wrap_u n x = x mod 2 ^ n"

definition wrap_s :: "nat \<Rightarrow> int \<Rightarrow> int" where
  "wrap_s n x = (x + 2 ^ (n - 1)) mod 2 ^ n - 2 ^ (n - 1)"

abbreviation u16 :: "int \<Rightarrow> int" where "u16 \<equiv> wrap_u 16"
abbreviation u32 :: "int \<Rightarrow> int" where "u32 \<equiv> wrap_u 32"
abbreviation u64 :: "int \<Rightarrow> int" where "u64 \<equiv> wrap_u 64"
abbreviation s32 :: "int \<Rightarrow> int" where "s32 \<equiv> wrap_s 32"
abbreviation s64 :: "int \<Rightarrow> int" where "s64 \<equiv> wrap_s 64"

lemma wrap_u_id [c_arith]: "0 \<le> x \<Longrightarrow> x < 2 ^ n \<Longrightarrow> wrap_u n x = x"
  by (simp add: wrap_u_def)

lemma wrap_u_range: "0 \<le> wrap_u n x \<and> wrap_u n x < 2 ^ n"
  by (simp add: wrap_u_def)

lemma wrap_s_id [c_arith]:
  assumes "0 < n" and "- (2 ^ (n - 1)) \<le> x" and "x < 2 ^ (n - 1)"
  shows "wrap_s n x = x"
proof -
  have "(2::int) ^ n = 2 ^ (n - 1) + 2 ^ (n - 1)"
    using assms(1) by (cases n) simp_all
  with assms have "(x + 2 ^ (n - 1)) mod 2 ^ n = x + 2 ^ (n - 1)"
    by (intro mod_pos_pos_trivial) linarith+
  then show ?thesis by (simp add: wrap_s_def)
qed

lemma wrap_s_range:
  assumes "0 < n"
  shows "- (2 ^ (n - 1)) \<le> wrap_s n x \<and> wrap_s n x < 2 ^ (n - 1)"
proof -
  have "(2::int) ^ n = 2 ^ (n - 1) + 2 ^ (n - 1)"
    using assms by (cases n) simp_all
  moreover have "0 \<le> (x + 2 ^ (n - 1)) mod 2 ^ n" and "(x + 2 ^ (n - 1)) mod 2 ^ n < (2::int) ^ n"
    by simp_all
  ultimately show ?thesis by (simp add: wrap_s_def)
qed

lemma wrap_s_wrap_u [simp]: "wrap_s n (wrap_u n x) = wrap_s n x"
  by (simp add: wrap_s_def wrap_u_def mod_simps)

lemma wrap_u_wrap_u [simp]: "wrap_u n (wrap_u n x) = wrap_u n x"
  by (simp add: wrap_u_def)

lemma wrap_u_add_left [simp]: "wrap_u n (wrap_u n x + y) = wrap_u n (x + y)"
  by (simp add: wrap_u_def mod_simps)

lemma wrap_u_diff_right [simp]: "wrap_u n (x - wrap_u n y) = wrap_u n (x - y)"
  by (simp add: wrap_u_def mod_simps)

text \<open>C's \<open>/\<close> and \<open>%\<close> truncate; on a non-negative dividend they are \<open>div\<close> and \<open>mod\<close>.\<close>

lemma sdiv_nonneg [c_arith]: "0 \<le> (a::int) \<Longrightarrow> 0 < b \<Longrightarrow> a sdiv b = a div b"
  by (auto simp: signed_divide_int_def sgn_if)

lemma smod_nonneg [c_arith]: "0 \<le> (a::int) \<Longrightarrow> 0 < b \<Longrightarrow> a smod b = a mod b"
  by (auto simp: signed_modulo_int_def sgn_if)

text \<open>The unsigned types of the bit-level code.\<close>

type_synonym u1 = "8 word"
type_synonym u2 = "16 word"
type_synonym u4 = "32 word"

lemma unat_of_nat_u4: "n < 2 ^ 32 \<Longrightarrow> unat (of_nat n :: u4) = n"
  by (simp add: unat_of_nat)

lemma unat_u4_less: "unat (w :: u4) < 2 ^ 32"
  using unsigned_less [of w, where ?'a = nat] by simp

section \<open>Lists\<close>

lemma sorted_Cons2: "sorted (x # y # zs) \<longleftrightarrow> (x::'a::linorder) \<le> y \<and> sorted (y # zs)"
  by auto

lemma map_upt_eqI: "length xs = n \<Longrightarrow> (\<And>i. i < n \<Longrightarrow> xs ! i = f i) \<Longrightarrow> xs = map f [0..<n]"
  by (rule nth_equalityI) simp_all

text \<open>How an update changes the number of elements with a property.\<close>

lemma length_filter_update:
  "i < length xs \<Longrightarrow> length (filter P (xs[i := x])) + (if P (xs ! i) then 1 else 0) =
    length (filter P xs) + (if P x then 1 else 0)"
proof (induction xs arbitrary: i)
  case (Cons y ys)
  show ?case
  proof (cases i)
    case (Suc j)
    with Cons.IH [of j] Cons.prems show ?thesis by (simp split: if_splits)
  qed simp
qed simp

lemma option_eqI: "(\<And>d. x = Some d \<longleftrightarrow> y = Some d) \<Longrightarrow> x = y"
  by (cases x; cases y) auto

end
