(* ===== verification/CFloat.thy ===== *)
theory CFloat
  imports Prelude "HOL-Library.Log_Nat"
begin

text \<open>
  The C types \<open>float\<close> and \<open>double\<close> as the sources use them: IEEE 754 binary32 and binary64 with
  round-to-nearest-even and no excess precision. A finite number is the rational it denotes
  (the sign of a zero is not observed by any of the modelled code); the result of an operation is the rounding of the exact
  result. Converting to an integer type truncates, and is undefined behaviour (\<open>None\<close>) for a
  value that does not fit.
\<close>

datatype cfloat = Fin rat | Inf bool | NaN

definition pow2 :: "int \<Rightarrow> rat" where
  "pow2 k = (if 0 \<le> k then 2 ^ nat k else 1 / 2 ^ nat (- k))"

definition round_half_even :: "rat \<Rightarrow> int" where
  "round_half_even x =
     (let f = \<lfloor>x\<rfloor>; r = x - of_int f in
      if r < 1 / 2 then f else if 1 / 2 < r then f + 1 else if even f then f else f + 1)"

text \<open>The exponent of a positive rational: \<open>2 ^ e \<le> x < 2 ^ (e + 1)\<close>.\<close>

definition exponent :: "rat \<Rightarrow> int" where
  "exponent x =
     (let (n, d) = quotient_of x; e = bitlen n - bitlen d in if pow2 e \<le> x then e else e - 1)"

text \<open>
  Rounding to \<open>p\<close> significant bits with least quantum \<open>2 ^ qmin\<close>; magnitudes that reach
  \<open>2 ^ emax\<close> after rounding overflow to an infinity.
\<close>

definition quantum :: "nat \<Rightarrow> int \<Rightarrow> rat \<Rightarrow> int" where
  "quantum p qmin x = max qmin (exponent \<bar>x\<bar> - int p + 1)"

definition round_to :: "nat \<Rightarrow> int \<Rightarrow> int \<Rightarrow> rat \<Rightarrow> cfloat" where
  "round_to p qmin emax x =
     (if x = 0 then Fin 0
      else let q = quantum p qmin x; r = of_int (round_half_even (x / pow2 q)) * pow2 q
           in if \<bar>r\<bar> < pow2 emax then Fin r else Inf (x < 0))"

definition f32 :: "rat \<Rightarrow> cfloat" where "f32 = round_to 24 (-149) 128"
definition f64 :: "rat \<Rightarrow> cfloat" where "f64 = round_to 53 (-1074) 1024"

fun is_finite :: "cfloat \<Rightarrow> bool" where
  "is_finite (Fin _) = True"
| "is_finite _ = False"

fun f_value :: "cfloat \<Rightarrow> rat" where
  "f_value (Fin x) = x"
| "f_value _ = 0"

text \<open>\<open>(float) d\<close> for a \<open>double\<close>, and \<open>(float) n\<close> for an integer.\<close>

fun f32_of :: "cfloat \<Rightarrow> cfloat" where
  "f32_of (Fin x) = f32 x"
| "f32_of v = v"

definition f32_of_int :: "int \<Rightarrow> cfloat" where
  "f32_of_int n = f32 (of_int n)"

fun f32_add :: "cfloat \<Rightarrow> cfloat \<Rightarrow> cfloat" where
  "f32_add (Fin x) (Fin y) = f32 (x + y)"
| "f32_add NaN _ = NaN"
| "f32_add _ NaN = NaN"
| "f32_add (Inf s) (Inf t) = (if s = t then Inf s else NaN)"
| "f32_add (Inf s) (Fin _) = Inf s"
| "f32_add (Fin _) (Inf t) = Inf t"

fun f32_mul :: "cfloat \<Rightarrow> cfloat \<Rightarrow> cfloat" where
  "f32_mul (Fin x) (Fin y) = f32 (x * y)"
| "f32_mul NaN _ = NaN"
| "f32_mul _ NaN = NaN"
| "f32_mul (Inf s) (Inf t) = Inf (s \<noteq> t)"
| "f32_mul (Inf s) (Fin y) = (if y = 0 then NaN else Inf (s \<noteq> (y < 0)))"
| "f32_mul (Fin x) (Inf t) = (if x = 0 then NaN else Inf ((x < 0) \<noteq> t))"

text \<open>\<open>v >= 0\<close>: false for a NaN.\<close>

fun f_ge0 :: "cfloat \<Rightarrow> bool" where
  "f_ge0 (Fin x) = (0 \<le> x)"
| "f_ge0 (Inf neg) = (\<not> neg)"
| "f_ge0 NaN = False"

definition trunc :: "rat \<Rightarrow> int" where
  "trunc x = (if 0 \<le> x then \<lfloor>x\<rfloor> else \<lceil>x\<rceil>)"

fun f_to_int :: "nat \<Rightarrow> cfloat \<Rightarrow> int option" where
  "f_to_int n (Fin x) =
     (let k = trunc x in if - (2 ^ (n - 1)) \<le> k \<and> k < 2 ^ (n - 1) then Some k else None)"
| "f_to_int n _ = None"

section \<open>Powers of two and exponents\<close>

lemma pow2_pos [simp]: "0 < pow2 k"
  by (simp add: pow2_def)

lemma pow2_abs [simp]: "\<bar>pow2 k\<bar> = pow2 k"
  by (simp add: less_imp_le)

lemma pow2_nonzero [simp]: "pow2 k \<noteq> 0"
  using pow2_pos [of k] by linarith

lemma pow2_powr: "of_rat (pow2 k) = (2::real) powr real_of_int k"
  by (simp add: pow2_def powr_real_of_int of_rat_power of_rat_inverse divide_inverse)

lemma pow2_add: "pow2 (j + k) = pow2 j * pow2 k"
proof -
  have "(of_rat (pow2 (j + k)) :: real) = of_rat (pow2 j * pow2 k)"
    by (simp add: of_rat_mult pow2_powr powr_add)
  then show ?thesis by simp
qed

lemma pow2_le_iff [simp]: "pow2 j \<le> pow2 k \<longleftrightarrow> j \<le> k"
proof -
  have "(of_rat (pow2 j) :: real) \<le> of_rat (pow2 k) \<longleftrightarrow> j \<le> k"
    by (simp add: pow2_powr)
  then show ?thesis by (simp add: of_rat_less_eq)
qed

lemma pow2_less_iff [simp]: "pow2 j < pow2 k \<longleftrightarrow> j < k"
  using pow2_le_iff [of k j] by linarith

lemma pow2_of_nat: "pow2 (int n) = 2 ^ n"
  by (simp add: pow2_def)

lemma pow2_0 [simp]: "pow2 0 = 1"
  by (simp add: pow2_def)

lemma pow2_1 [simp]: "pow2 1 = 2"
  by (simp add: pow2_def)


lemma exponent_bounds:
  assumes "0 < x"
  shows "pow2 (exponent x) \<le> x" and "x < pow2 (exponent x + 1)"
proof -
  obtain n d where q: "quotient_of x = (n, d)" by (cases "quotient_of x")
  have d: "0 < d" and x: "x = of_int n / of_int d"
    using quotient_of_denom_pos [OF q] quotient_of_div [OF q] by simp_all
  have n: "0 < n" using assms d x by (simp add: zero_less_divide_iff)
  define e where "e = bitlen n - bitlen d"
  have pos: "0 < bitlen n" "0 < bitlen d"
    using n d bitlen_nonneg [of n] bitlen_nonneg [of d]
    by (auto simp: order_less_le bitlen_eq_zero_iff dest: sym)
  have bnd: "pow2 (bitlen k - 1) \<le> of_int k \<and> of_int k < pow2 (bitlen k)" if "0 < k" for k
  proof -
    have "2 ^ nat (bitlen k - 1) \<le> k \<and> k < 2 ^ nat (bitlen k)"
      using bitlen_bounds [OF that] .
    moreover have "0 < bitlen k"
      using that bitlen_nonneg [of k] by (auto simp: order_less_le bitlen_eq_zero_iff dest: sym)
    ultimately have "(of_int (2 ^ nat (bitlen k - 1)) :: rat) \<le> of_int k"
      and "(of_int k :: rat) < of_int (2 ^ nat (bitlen k))"
      by (simp_all only: of_int_le_iff of_int_less_iff)
    with \<open>0 < bitlen k\<close> show ?thesis by (simp add: pow2_def)
  qed
  have "of_int n < pow2 (e + 1) * of_int d"
  proof -
    have "pow2 (bitlen n) = pow2 (e + 1) * pow2 (bitlen d - 1)"
      by (simp add: e_def flip: pow2_add)
    also have "\<dots> \<le> pow2 (e + 1) * of_int d"
      using bnd [OF d] by (intro mult_left_mono) (auto intro: less_imp_le)
    finally show ?thesis using bnd [OF n] by linarith
  qed
  then have up: "x < pow2 (e + 1)" using d by (simp add: x pos_divide_less_eq)
  have "pow2 (e - 1) * of_int d < of_int n"
  proof -
    have "pow2 (e - 1) * of_int d < pow2 (e - 1) * pow2 (bitlen d)"
      using bnd [OF d] by simp
    also have "\<dots> = pow2 (bitlen n - 1)"
      by (simp add: e_def flip: pow2_add)
    finally show ?thesis using bnd [OF n] by linarith
  qed
  then have lo: "pow2 (e - 1) \<le> x" using d by (simp add: x pos_le_divide_eq)
  have ex: "exponent x = (if pow2 e \<le> x then e else e - 1)"
    by (simp add: exponent_def q e_def)
  show "pow2 (exponent x) \<le> x" using lo by (simp add: ex)
  show "x < pow2 (exponent x + 1)" using up by (auto simp: ex)
qed

lemma exponent_less: "0 < x \<Longrightarrow> x < pow2 k \<Longrightarrow> exponent x < k"
  using exponent_bounds(1) [of x] pow2_less_iff [of "exponent x" k] by linarith

section \<open>Rounding\<close>

lemma round_half_even_int [simp]: "round_half_even (of_int k) = k"
  by (simp add: round_half_even_def)

lemma round_half_even_error: "\<bar>of_int (round_half_even x) - x\<bar> \<le> 1 / 2"
proof -
  have "of_int \<lfloor>x\<rfloor> \<le> x" "x < of_int \<lfloor>x\<rfloor> + 1" by linarith+
  then show ?thesis by (auto simp: round_half_even_def Let_def)
qed

lemma round_half_even_nonneg: "0 \<le> x \<Longrightarrow> 0 \<le> round_half_even x"
  by (auto simp: round_half_even_def Let_def)

lemma round_half_even_nonpos: "x \<le> 0 \<Longrightarrow> round_half_even x \<le> 0"
proof -
  assume "x \<le> 0"
  then have "x = 0 \<or> \<lfloor>x\<rfloor> < 0" by (auto simp: floor_less_iff)
  then show ?thesis by (auto simp: round_half_even_def Let_def)
qed

lemma round_to_nonneg:
  "0 \<le> x \<Longrightarrow> round_to p qmin emax x = Fin y \<Longrightarrow> 0 \<le> y"
  by (auto simp: round_to_def Let_def round_half_even_nonneg less_imp_le split: if_splits)

lemma round_to_nonpos:
  "x \<le> 0 \<Longrightarrow> round_to p qmin emax x = Fin y \<Longrightarrow> y \<le> 0"
  by (auto simp: round_to_def Let_def round_half_even_nonpos less_imp_le mult_nonpos_nonneg
      divide_nonpos_nonneg split: if_splits)

lemma pow2_int:
  assumes "0 \<le> k" shows "pow2 k = of_int (2 ^ nat k)"
  using assms by (simp add: pow2_def)

text \<open>An integer of at most \<open>p\<close> bits is its own rounding.\<close>

lemma round_to_int_exact:
  assumes k: "\<bar>k\<bar> \<le> 2 ^ p" and p: "0 < p" and qmin: "qmin \<le> 0" and emax: "int p < emax"
  shows "round_to p qmin emax (of_int k) = Fin (of_int k)"
proof (cases "k = 0")
  case True
  then show ?thesis by (simp add: round_to_def)
next
  case False
  define q where "q = quantum p qmin (of_int k)"
  have abs: "(of_int \<bar>k\<bar> :: rat) \<le> pow2 (int p)"
    using k of_int_le_iff [of "\<bar>k\<bar>" "2 ^ p", where ?'a = rat] by (simp add: pow2_of_nat)
  have dvd: "\<exists>j. (of_int k :: rat) / pow2 q = of_int j"
  proof (cases "\<bar>k\<bar> = 2 ^ p")
    case True
    then have "(of_int \<bar>k\<bar> :: rat) = pow2 (int p)" by (simp add: pow2_of_nat)
    then have "exponent \<bar>of_int k\<bar> = int p"
      using exponent_bounds [of "\<bar>of_int k\<bar> :: rat"] False by (auto simp flip: of_int_abs simp: less_le_trans)
    then have q: "q = 1" using qmin by (simp add: q_def quantum_def)
    have "k = 2 ^ p \<or> k = - (2 ^ p)" using True by linarith
    then have "even k" using p by auto
    then obtain j where "k = 2 * j" ..
    then show ?thesis by (simp add: q)
  next
    case False
    with k have "\<bar>k\<bar> < 2 ^ p" by simp
    then have "(of_int \<bar>k\<bar> :: rat) < pow2 (int p)"
      using of_int_less_iff [of "\<bar>k\<bar>" "2 ^ p", where ?'a = rat] by (simp add: pow2_of_nat)
    then have "exponent \<bar>of_int k\<bar> < int p"
      using \<open>k \<noteq> 0\<close> by (intro exponent_less) auto
    then have q: "q \<le> 0" using qmin by (simp add: q_def quantum_def)
    then have "(of_int k :: rat) / pow2 q = of_int k * pow2 (- q)"
      using pow2_add [of "- q" q] by (simp add: field_simps)
    then show ?thesis using q pow2_int [of "- q"] by (metis neg_0_le_iff_le of_int_mult)
  qed
  then obtain j where j: "(of_int k :: rat) / pow2 q = of_int j" ..
  then have r: "of_int j * pow2 q = (of_int k :: rat)" by (simp add: field_simps)
  have "(of_int \<bar>k\<bar> :: rat) < pow2 emax"
    using abs emax pow2_less_iff [of "int p" emax] by linarith
  with False j r show ?thesis by (simp add: round_to_def Let_def flip: q_def)
qed

text \<open>Where the quantum is not clipped, the relative error is at most half a unit.\<close>

lemma round_to_error:
  assumes r: "round_to p qmin emax x = Fin y" and big: "pow2 (qmin + int p - 1) \<le> \<bar>x\<bar>"
  shows "\<bar>y - x\<bar> \<le> \<bar>x\<bar> * pow2 (- int p)"
proof (cases "x = 0")
  case True
  with r show ?thesis by (simp add: round_to_def)
next
  case False
  then have e: "pow2 (exponent \<bar>x\<bar>) \<le> \<bar>x\<bar>" "\<bar>x\<bar> < pow2 (exponent \<bar>x\<bar> + 1)"
    using exponent_bounds [of "\<bar>x\<bar>"] by auto
  with big have "pow2 (qmin + int p - 1) < pow2 (exponent \<bar>x\<bar> + 1)" by linarith
  then have q: "quantum p qmin x = exponent \<bar>x\<bar> - int p + 1"
    by (simp add: quantum_def)
  define q where "q = quantum p qmin x"
  have y: "y = of_int (round_half_even (x / pow2 q)) * pow2 q"
    using r False by (auto simp: round_to_def Let_def q_def split: if_splits)
  have "\<bar>y - x\<bar> = \<bar>of_int (round_half_even (x / pow2 q)) - x / pow2 q\<bar> * pow2 q"
    unfolding y by (simp add: field_simps abs_mult flip: abs_mult_pos)
  also have "\<dots> \<le> 1 / 2 * pow2 q"
    by (intro mult_right_mono round_half_even_error) (simp add: less_imp_le)
  also have "\<dots> = pow2 (exponent \<bar>x\<bar>) * pow2 (- int p)"
    unfolding q_def q using pow2_add [of "exponent \<bar>x\<bar> - int p" 1]
    by (simp flip: pow2_add)
  also have "\<dots> \<le> \<bar>x\<bar> * pow2 (- int p)"
    using e(1) by (intro mult_right_mono) (simp_all add: less_imp_le)
  finally show ?thesis .
qed


section \<open>The two formats, and conversion to integers\<close>

lemma f32_int_exact [c_arith]: "\<bar>k\<bar> \<le> 2 ^ 24 \<Longrightarrow> f32 (of_int k) = Fin (of_int k)"
  unfolding f32_def by (rule round_to_int_exact) auto

lemma f32_of_int_exact [c_arith]: "\<bar>k\<bar> \<le> 2 ^ 24 \<Longrightarrow> f32_of_int k = Fin (of_int k)"
  by (simp add: f32_of_int_def f32_int_exact)

lemma f32_numeral [simp]: "numeral n \<le> (16777216::int) \<Longrightarrow> f32 (numeral n) = Fin (numeral n)"
  using f32_int_exact [of "numeral n"] by simp

lemma f32_0 [simp]: "f32 0 = Fin 0" and f32_1 [simp]: "f32 1 = Fin 1"
  using f32_int_exact [of 0] f32_int_exact [of 1] by simp_all

lemma f32_nonneg: "0 \<le> x \<Longrightarrow> f32 x = Fin y \<Longrightarrow> 0 \<le> y"
  unfolding f32_def by (rule round_to_nonneg)

lemma f32_nonpos: "x \<le> 0 \<Longrightarrow> f32 x = Fin y \<Longrightarrow> y \<le> 0"
  unfolding f32_def by (rule round_to_nonpos)

lemma f32_Inf_sign: "f32 x = Inf s \<Longrightarrow> s \<longleftrightarrow> x < 0"
  by (auto simp: f32_def round_to_def Let_def split: if_splits)

lemma f32_not_NaN [simp]: "f32 x \<noteq> NaN"
  by (auto simp: f32_def round_to_def Let_def)

lemma f32_error:
  "f32 x = Fin y \<Longrightarrow> pow2 (-126) \<le> \<bar>x\<bar> \<Longrightarrow> \<bar>y - x\<bar> \<le> \<bar>x\<bar> / 2 ^ 24"
  using round_to_error [of 24 "-149" 128 x y]
  by (simp add: f32_def pow2_def)

lemma f32_ge0: "0 \<le> x \<Longrightarrow> f_ge0 (f32 x)"
  by (cases "f32 x") (auto dest: f32_nonneg f32_Inf_sign)

lemma f32_mul_ge0: "f_ge0 a \<Longrightarrow> f_ge0 b \<Longrightarrow> f32_mul a b = Fin y \<Longrightarrow> 0 \<le> y"
  by (cases a; cases b) (auto dest: f32_nonneg [rotated] split: if_splits)

lemma trunc_of_int [simp]: "trunc (of_int k) = k"
  by (simp add: trunc_def)

lemma trunc_nonneg: "0 \<le> x \<Longrightarrow> 0 \<le> trunc x"
  by (simp add: trunc_def)

lemma trunc_error: "\<bar>of_int (trunc x) - x\<bar> < 1"
  using floor_correct [of x] ceiling_correct [of x] by (simp add: trunc_def)

lemma f_to_int_SomeD:
  "f_to_int n v = Some k \<Longrightarrow>
     \<exists>x. v = Fin x \<and> k = trunc x \<and> - (2 ^ (n - 1)) \<le> k \<and> k < 2 ^ (n - 1)"
  by (cases v) (auto simp: Let_def split: if_splits)

end
