(* ===== verification/VirtualClock.thy ===== *)
theory VirtualClock
  imports Prelude
begin

text \<open>
  What a hooked clock promises, independently of the clock: after its first reading it reports
  \<open>shown + rate (now - base)\<close>, and then makes the pair of the real and the reported reading its
  new base. \<open>virtual_run\<close> is that specification over a sequence of real readings; the locale
  \<open>clock_hook\<close> is the contract a hook must meet to implement it, and proves once what follows
  for every hook: refinement of the specification, monotonicity, and transparency at unit rate.
\<close>

fun virtual_run :: "(int \<Rightarrow> int option) \<Rightarrow> int \<Rightarrow> int \<Rightarrow> int list \<Rightarrow> int list option" where
  "virtual_run rate base shown [] = Some []"
| "virtual_run rate base shown (c # cs) =
     (case rate (c - base) of
        None \<Rightarrow> None
      | Some d \<Rightarrow> map_option ((#) (shown + d)) (virtual_run rate c (shown + d) cs))"

text \<open>A hook, run over the same real readings and threading its state.\<close>

fun run_clock :: "('s \<Rightarrow> int \<Rightarrow> (int \<times> 's) option) \<Rightarrow> 's \<Rightarrow> int list \<Rightarrow> (int list \<times> 's) option" where
  "run_clock read s [] = Some ([], s)"
| "run_clock read s (c # cs) =
     (case read s c of
        None \<Rightarrow> None
      | Some (r, s') \<Rightarrow>
          (case run_clock read s' cs of
             None \<Rightarrow> None
           | Some (rs, s'') \<Rightarrow> Some (r # rs, s'')))"

lemma virtual_run_Cons_Some:
  "virtual_run rate base shown (c # cs) = Some rs \<longleftrightarrow>
     (\<exists>d rs'. rate (c - base) = Some d \<and> virtual_run rate c (shown + d) cs = Some rs' \<and>
        rs = (shown + d) # rs')"
  by (auto split: option.splits)

lemma virtual_run_mono:
  assumes "\<And>d r. 0 \<le> d \<Longrightarrow> rate d = Some r \<Longrightarrow> 0 \<le> r"
  shows "virtual_run rate base shown cs = Some rs \<Longrightarrow> sorted (base # cs) \<Longrightarrow> sorted (shown # rs)"
proof (induction cs arbitrary: base shown rs)
  case Nil
  then show ?case by simp
next
  case (Cons c cs)
  then obtain d rs' where d: "rate (c - base) = Some d"
    and rs': "virtual_run rate c (shown + d) cs = Some rs'" and rs: "rs = (shown + d) # rs'"
    unfolding virtual_run_Cons_Some by blast
  from Cons.prems(2) have "0 \<le> c - base" by simp
  with assms d have "0 \<le> d" by blast
  moreover have "sorted ((shown + d) # rs')"
    using Cons.IH [OF rs'] Cons.prems(2) by simp
  ultimately show ?case by (auto simp: rs)
qed

lemma virtual_run_linear:
  assumes "\<And>d. 0 \<le> d \<Longrightarrow> d \<le> gap \<Longrightarrow> rate d = Some (k * d)"
  shows "sorted (base # cs) \<Longrightarrow> successively (\<lambda>a b. b - a \<le> gap) (base # cs) \<Longrightarrow>
    virtual_run rate base shown cs = Some (map (\<lambda>c. shown + k * (c - base)) cs)"
proof (induction cs arbitrary: base shown)
  case Nil
  then show ?case by simp
next
  case (Cons c cs)
  then have "0 \<le> c - base" "c - base \<le> gap" by simp_all
  with assms have "rate (c - base) = Some (k * (c - base))" by blast
  moreover have "virtual_run rate c (shown + k * (c - base)) cs =
      Some (map (\<lambda>c'. shown + k * (c - base) + k * (c' - c)) cs)"
    using Cons by (intro Cons.IH) simp_all
  ultimately show ?case by (simp add: algebra_simps)
qed

locale clock_hook =
  fixes read :: "'s \<Rightarrow> int \<Rightarrow> (int \<times> 's) option"
    and base :: "'s \<Rightarrow> int"
    and shown :: "'s \<Rightarrow> int"
    and rate :: "'s \<Rightarrow> int \<Rightarrow> int option"
    and limit :: int
  assumes read_first:
      "base s = 0 \<Longrightarrow> 0 < c \<Longrightarrow> c < limit \<Longrightarrow>
         \<exists>s'. read s c = Some (c, s') \<and> base s' = c \<and> shown s' = c \<and> rate s' = rate s"
    and read_next:
      "0 < base s \<Longrightarrow> base s < limit \<Longrightarrow> 0 \<le> shown s \<Longrightarrow> shown s < limit \<Longrightarrow>
       0 < c \<Longrightarrow> c < limit \<Longrightarrow> rate s (c - base s) = Some d \<Longrightarrow>
       0 \<le> shown s + d \<Longrightarrow> shown s + d < limit \<Longrightarrow>
         \<exists>s'. read s c = Some (shown s + d, s') \<and> base s' = c \<and> shown s' = shown s + d \<and>
              rate s' = rate s"
begin

lemma run_refines:
  assumes "0 < base s" "base s < limit" "0 \<le> shown s" "shown s < limit"
    and "\<forall>c \<in> set cs. 0 < c \<and> c < limit"
    and "virtual_run (rate s) (base s) (shown s) cs = Some rs"
    and "\<forall>r \<in> set rs. 0 \<le> r \<and> r < limit"
  shows "\<exists>s'. run_clock read s cs = Some (rs, s') \<and> rate s' = rate s"
  using assms
proof (induction cs arbitrary: s rs)
  case Nil
  then show ?case by simp
next
  case (Cons c cs)
  from Cons.prems(6) obtain d rs' where d: "rate s (c - base s) = Some d"
    and v: "virtual_run (rate s) c (shown s + d) cs = Some rs'" and rs: "rs = (shown s + d) # rs'"
    unfolding virtual_run_Cons_Some by blast
  have "0 \<le> shown s + d" "shown s + d < limit" using Cons.prems(7) rs by simp_all
  with d Cons.prems obtain s' where s': "read s c = Some (shown s + d, s')"
    "base s' = c" "shown s' = shown s + d" "rate s' = rate s"
    using read_next [of s c d] by auto
  have "\<exists>s''. run_clock read s' cs = Some (rs', s'') \<and> rate s'' = rate s'"
    using Cons.prems v rs s' by (intro Cons.IH) auto
  with s' rs show ?case by auto
qed

lemma run_refines_from_start:
  assumes "base s = 0" "\<forall>c \<in> set (c0 # cs). 0 < c \<and> c < limit"
    and "virtual_run (rate s) c0 c0 cs = Some rs" "\<forall>r \<in> set rs. 0 \<le> r \<and> r < limit"
  shows "\<exists>s'. run_clock read s (c0 # cs) = Some (c0 # rs, s') \<and> rate s' = rate s"
proof -
  from assms obtain s1 where s1: "read s c0 = Some (c0, s1)" "base s1 = c0" "shown s1 = c0"
    "rate s1 = rate s" using read_first [of s c0] by auto
  have "\<exists>s'. run_clock read s1 cs = Some (rs, s') \<and> rate s' = rate s1"
    using assms s1 by (intro run_refines) auto
  with s1 show ?thesis by auto
qed

lemma run_monotone:
  assumes "base s = 0" "\<forall>c \<in> set (c0 # cs). 0 < c \<and> c < limit" "sorted (c0 # cs)"
    and "\<And>d r. 0 \<le> d \<Longrightarrow> rate s d = Some r \<Longrightarrow> 0 \<le> r"
    and "virtual_run (rate s) c0 c0 cs = Some rs" "\<forall>r \<in> set rs. 0 \<le> r \<and> r < limit"
  shows "\<exists>s'. run_clock read s (c0 # cs) = Some (c0 # rs, s') \<and> sorted (c0 # rs)"
proof -
  have "sorted (c0 # rs)" using assms(4) by (rule virtual_run_mono [OF _ assms(5,3)])
  with run_refines_from_start [OF assms(1,2,5,6)] show ?thesis by blast
qed

lemma run_linear:
  assumes "base s = 0" "\<forall>c \<in> set (c0 # cs). 0 < c \<and> c < limit" "sorted (c0 # cs)"
    and "0 \<le> k" "\<And>d. 0 \<le> d \<Longrightarrow> d \<le> gap \<Longrightarrow> rate s d = Some (k * d)"
    and "successively (\<lambda>a b. b - a \<le> gap) (c0 # cs)"
    and "\<forall>c \<in> set cs. c0 + k * (c - c0) < limit"
  shows "\<exists>s'. run_clock read s (c0 # cs) = Some (c0 # map (\<lambda>c. c0 + k * (c - c0)) cs, s') \<and>
    rate s' = rate s"
proof -
  have "virtual_run (rate s) c0 c0 cs = Some (map (\<lambda>c. c0 + k * (c - c0)) cs)"
    using assms(5) by (rule virtual_run_linear [OF _ assms(3,6)])
  moreover have "\<forall>c \<in> set cs. 0 \<le> k * (c - c0)" using assms(3,4) by simp
  ultimately show ?thesis
    using assms(1,2,7) by (intro run_refines_from_start) fastforce+
qed

end

end
