(* ===== verification/Speed.thy ===== *)
theory Speed
  imports CFloat VirtualClock
begin

text \<open>
  \<^verbatim>\<open>jni/speed.cpp\<close>: the hooks the injected library puts in place of \<open>gettimeofday\<close> and
  \<open>clock_gettime\<close>, the static variables they keep, and \<open>ElfSpeed::SetTimeScale\<close>, which sets
  the factor \<open>g_times\<close>. A hook is a function of what the original call returned and wrote; its
  result is \<open>None\<close> where the C++ has undefined behaviour (a null buffer is dereferenced, a
  float that does not fit is converted to an integer, a signed sum overflows).
\<close>

record timeval =
  tv_sec :: int
  tv_usec :: int

record timespec =
  ts_sec :: int
  ts_nsec :: int

datatype hook_target = Sym_gettimeofday | Sym_clock_gettime

record speed_state =
  IsHooked :: int
  g_times :: cfloat
  g_gettimeofday_saved_usecs :: int
  g_gettimeofday_saved_usecs_last :: int
  g_clock_gettime_saved_nsecs_clk_MONO :: int
  g_clock_gettime_saved_nsecs_clk_MONO_last :: int
  g_clock_gettime_saved_nsecs_clk_Real :: int
  g_clock_gettime_saved_nsecs_clk_Real_last :: int
  hook_calls :: "hook_target list" \<comment> \<open>the calls of \<open>MSHookFunction\<close>, latest first\<close>

definition initial_speed :: speed_state where
  "initial_speed = \<lparr>IsHooked = 1, g_times = Fin 1,
     g_gettimeofday_saved_usecs = 0, g_gettimeofday_saved_usecs_last = 0,
     g_clock_gettime_saved_nsecs_clk_MONO = 0, g_clock_gettime_saved_nsecs_clk_MONO_last = 0,
     g_clock_gettime_saved_nsecs_clk_Real = 0, g_clock_gettime_saved_nsecs_clk_Real_last = 0,
     hook_calls = []\<rparr>"

section \<open>The hooks\<close>

text \<open>\<open>diff = diff * g_times\<close>: the integer becomes a float, the product is a float, and the
  assignment truncates it to \<open>int64_t\<close>.\<close>

definition scale_diff :: "cfloat \<Rightarrow> int \<Rightarrow> int option" where
  "scale_diff g d = f_to_int 64 (f32_mul (f32_of_int d) g)"

text \<open>A signed 64-bit sum; overflow is undefined.\<close>

definition s64_add :: "int \<Rightarrow> int \<Rightarrow> int option" where
  "s64_add a b = (if - (2 ^ 63) \<le> a + b \<and> a + b < 2 ^ 63 then Some (a + b) else None)"

text \<open>
  \<open>ptv = None\<close> is the null pointer. The first argument is the result of
  \<open>old_gettimeofday(ptv, ptz)\<close>, the second the contents of \<open>*ptv\<close> after that call.
\<close>

definition new_gettimeofday ::
    "int \<Rightarrow> timeval option \<Rightarrow> speed_state \<Rightarrow> (int \<times> timeval option \<times> speed_state) option" where
  "new_gettimeofday res ptv s =
     (if res \<noteq> 0 then Some (res, ptv, s)
      else case ptv of None \<Rightarrow> None | Some tv \<Rightarrow>
        let cur = tv_sec tv * 1000000 + tv_usec tv in
        if g_gettimeofday_saved_usecs s = 0
        then Some (0, Some tv, s\<lparr>g_gettimeofday_saved_usecs := u64 cur,
                                g_gettimeofday_saved_usecs_last := u64 cur\<rparr>)
        else
          let diff = s64 (u64 (u64 cur - g_gettimeofday_saved_usecs s)) in
          case scale_diff (g_times s) diff of None \<Rightarrow> None | Some diff' \<Rightarrow>
            let ret = s64 (u64 (g_gettimeofday_saved_usecs_last s + diff')) in
            Some (0,
              Some \<lparr>tv_sec = s32 (ret sdiv 1000000), tv_usec = s32 (ret smod 1000000)\<rparr>,
              s\<lparr>g_gettimeofday_saved_usecs := u64 cur,
                g_gettimeofday_saved_usecs_last := u64 ret\<rparr>))"

definition CLOCK_REALTIME :: int where "CLOCK_REALTIME = 0"
definition CLOCK_MONOTONIC :: int where "CLOCK_MONOTONIC = 1"

definition new_clock_gettime ::
    "int \<Rightarrow> int \<Rightarrow> timespec option \<Rightarrow> speed_state \<Rightarrow> (int \<times> timespec option \<times> speed_state) option" where
  "new_clock_gettime clk_id res ptp s =
     (if res \<noteq> 0 then Some (res, ptp, s)
      else case ptp of None \<Rightarrow> None | Some tp \<Rightarrow>
        let cur = ts_sec tp * 1000000000 + ts_nsec tp in
        if clk_id = CLOCK_MONOTONIC then
          if g_clock_gettime_saved_nsecs_clk_MONO s = 0
          then Some (0, Some tp, s\<lparr>g_clock_gettime_saved_nsecs_clk_MONO := cur,
                                  g_clock_gettime_saved_nsecs_clk_MONO_last := cur\<rparr>)
          else
            case scale_diff (g_times s) (cur - g_clock_gettime_saved_nsecs_clk_MONO s) of
              None \<Rightarrow> None
            | Some diff' \<Rightarrow>
                (case s64_add (g_clock_gettime_saved_nsecs_clk_MONO_last s) diff' of
                   None \<Rightarrow> None
                 | Some ret \<Rightarrow>
                     Some (0,
                       Some \<lparr>ts_sec = s32 (ret sdiv 1000000000), ts_nsec = s32 (ret smod 1000000000)\<rparr>,
                       s\<lparr>g_clock_gettime_saved_nsecs_clk_MONO := cur,
                         g_clock_gettime_saved_nsecs_clk_MONO_last := ret\<rparr>))
        else
          if g_clock_gettime_saved_nsecs_clk_Real s = 0
          then Some (0, Some tp, s\<lparr>g_clock_gettime_saved_nsecs_clk_Real := u64 cur,
                                  g_clock_gettime_saved_nsecs_clk_Real_last := u64 cur\<rparr>)
          else
            let diff = s64 (u64 (u64 cur - g_clock_gettime_saved_nsecs_clk_Real s)) in
            case scale_diff (g_times s) diff of None \<Rightarrow> None | Some diff' \<Rightarrow>
              let ret = s64 (u64 (g_clock_gettime_saved_nsecs_clk_Real_last s + diff')) in
              Some (0,
                Some \<lparr>ts_sec = s32 (ret sdiv 1000000000), ts_nsec = s32 (ret smod 1000000000)\<rparr>,
                s\<lparr>g_clock_gettime_saved_nsecs_clk_Real := u64 cur,
                  g_clock_gettime_saved_nsecs_clk_Real_last := u64 ret\<rparr>))"

section \<open>Setting the speed\<close>

text \<open>
  \<open>MSHookFunction\<close> belongs to the substrate library, of which the repository holds only
  binaries: the model records each call of it.
\<close>

definition do_speed_hook :: "speed_state \<Rightarrow> speed_state" where
  "do_speed_hook s =
     s\<lparr>hook_calls := Sym_clock_gettime # Sym_gettimeofday # hook_calls s\<rparr>"

definition SetTimeScale :: "cfloat \<Rightarrow> speed_state \<Rightarrow> speed_state option" where
  "SetTimeScale result s =
     (let s = (if IsHooked s \<noteq> 0 then (do_speed_hook s)\<lparr>IsHooked := 0\<rparr> else s) in
      if f_ge0 result then Some (s\<lparr>g_times := f32_add result (Fin 1)\<rparr>)
      else case f_to_int 32 result of None \<Rightarrow> None | Some k \<Rightarrow>
        Some (if k = -1 then s\<lparr>g_times := f32_of (f64 0.5)\<rparr>
              else if k = -2 then s\<lparr>g_times := f32_of (f64 0.4)\<rparr>
              else if k = -3 then s\<lparr>g_times := f32_of (f64 0.33)\<rparr>
              else if k = -4 then s\<lparr>g_times := f32_of (f64 0.25)\<rparr>
              else if k = -5 then s\<lparr>g_times := f32_of (f64 0.2)\<rparr>
              else if k = -10 then s\<lparr>g_times := f32_of (f64 0.1)\<rparr>
              else s))"


section \<open>The hooks as clocks\<close>

text \<open>
  A normalised reading of a clock is a count of micro- or nanoseconds. Below \<open>2 ^ 31\<close> seconds
  it survives the trip through the 32-bit fields.
\<close>

definition to_timeval :: "int \<Rightarrow> timeval" where
  "to_timeval c = \<lparr>tv_sec = c div 1000000, tv_usec = c mod 1000000\<rparr>"

definition to_timespec :: "int \<Rightarrow> timespec" where
  "to_timespec c = \<lparr>ts_sec = c div 1000000000, ts_nsec = c mod 1000000000\<rparr>"

definition usecs :: "timeval \<Rightarrow> int" where
  "usecs tv = tv_sec tv * 1000000 + tv_usec tv"

definition nsecs :: "timespec \<Rightarrow> int" where
  "nsecs tp = ts_sec tp * 1000000000 + ts_nsec tp"

definition usec_limit :: int where "usec_limit = 2 ^ 31 * 1000000"
definition nsec_limit :: int where "nsec_limit = 2 ^ 31 * 1000000000"

definition read_gettimeofday :: "speed_state \<Rightarrow> int \<Rightarrow> (int \<times> speed_state) option" where
  "read_gettimeofday s c =
     (case new_gettimeofday 0 (Some (to_timeval c)) s of
        Some (_, Some tv, s') \<Rightarrow> Some (usecs tv, s') | _ \<Rightarrow> None)"

definition read_clock :: "int \<Rightarrow> speed_state \<Rightarrow> int \<Rightarrow> (int \<times> speed_state) option" where
  "read_clock clk s c =
     (case new_clock_gettime clk 0 (Some (to_timespec c)) s of
        Some (_, Some tp, s') \<Rightarrow> Some (nsecs tp, s') | _ \<Rightarrow> None)"

lemma usecs_to_timeval [simp]: "usecs (to_timeval c) = c"
  by (simp add: usecs_def to_timeval_def)

lemma nsecs_to_timespec [simp]: "nsecs (to_timespec c) = c"
  by (simp add: nsecs_def to_timespec_def)

lemma tv_cur [simp]: "tv_sec (to_timeval c) * 1000000 + tv_usec (to_timeval c) = c"
  by (simp add: to_timeval_def)

lemma ts_cur [simp]: "ts_sec (to_timespec c) * 1000000000 + ts_nsec (to_timespec c) = c"
  by (simp add: to_timespec_def)

text \<open>The split of a count into 32-bit fields, as each hook writes it back, loses nothing.\<close>

lemma split_count:
  assumes "0 \<le> c" "c < 2 ^ 31 * m" "0 < m" "m < 2 ^ 31"
  shows "s32 (c sdiv m) = c div m" and "s32 (c smod m) = c mod m"
proof -
  have "c div m < 2 ^ 31"
  proof (rule ccontr)
    assume "\<not> c div m < 2 ^ 31"
    then have "2 ^ 31 * m \<le> c div m * m" using assms(3) by (intro mult_right_mono) simp_all
    also have "c div m * m \<le> c"
      using assms(3) pos_mod_sign [of m c] div_mult_mod_eq [of c m] by linarith
    finally show False using assms(2) by simp
  qed
  moreover have "0 \<le> c div m" using assms by (simp add: pos_imp_zdiv_nonneg_iff)
  ultimately show "s32 (c sdiv m) = c div m" using assms by (simp add: c_arith)
  have "0 \<le> c mod m" "c mod m < 2 ^ 31"
    using assms(3,4) pos_mod_bound [of m c] by (simp, linarith)
  then have "s32 (c mod m) = c mod m" by (simp add: wrap_s_def)
  then show "s32 (c smod m) = c mod m" using assms by (simp add: c_arith)
qed

lemma s64_small: "- (2 ^ 63) \<le> c \<Longrightarrow> c < 2 ^ 63 \<Longrightarrow> s64 c = c"
  by (simp add: c_arith)

lemma count_facts:
  assumes "0 \<le> c" and "c < usec_limit \<or> c < nsec_limit"
  shows "u64 c = c" and "s64 c = c"
  using assms by (auto simp: usec_limit_def nsec_limit_def c_arith)

text \<open>Every hook meets the contract of a hooked clock.\<close>

interpretation gtod: clock_hook read_gettimeofday g_gettimeofday_saved_usecs
  g_gettimeofday_saved_usecs_last "\<lambda>s. scale_diff (g_times s)" usec_limit
proof (unfold_locales, goal_cases)
  case (1 s c)
  then show ?case
    by (simp add: read_gettimeofday_def new_gettimeofday_def Let_def count_facts)
next
  case (2 s c d)
  define r where "r = g_gettimeofday_saved_usecs_last s + d"
  have r: "0 \<le> r" "r < usec_limit" "r < 2 ^ 31 * 1000000" "r < 2 ^ 63"
    using 2 by (simp_all add: r_def usec_limit_def)
  have "s64 (c - g_gettimeofday_saved_usecs s) = c - g_gettimeofday_saved_usecs s"
    using 2 by (simp add: usec_limit_def s64_small)
  moreover have "s64 r = r" and "u64 c = c" using r 2 by (simp_all add: count_facts)
  moreover note split_count [OF r(1,3)]
  ultimately show ?case
    using 2 r by (simp add: read_gettimeofday_def new_gettimeofday_def Let_def usecs_def
        count_facts flip: r_def)
qed

interpretation mono: clock_hook "read_clock CLOCK_MONOTONIC" g_clock_gettime_saved_nsecs_clk_MONO
  g_clock_gettime_saved_nsecs_clk_MONO_last "\<lambda>s. scale_diff (g_times s)" nsec_limit
proof (unfold_locales, goal_cases)
  case (1 s c)
  then show ?case by (simp add: read_clock_def new_clock_gettime_def Let_def)
next
  case (2 s c d)
  define r where "r = g_clock_gettime_saved_nsecs_clk_MONO_last s + d"
  have r: "0 \<le> r" "r < 2 ^ 31 * 1000000000" "r < 2 ^ 63"
    using 2 by (simp_all add: r_def nsec_limit_def)
  moreover from r have "s64_add (g_clock_gettime_saved_nsecs_clk_MONO_last s) d = Some r"
    by (simp add: s64_add_def r_def)
  ultimately show ?case
    using 2 split_count [OF r(1,2)]
    by (simp add: read_clock_def new_clock_gettime_def Let_def nsecs_def flip: r_def)
qed

interpretation real: clock_hook "read_clock CLOCK_REALTIME" g_clock_gettime_saved_nsecs_clk_Real
  g_clock_gettime_saved_nsecs_clk_Real_last "\<lambda>s. scale_diff (g_times s)" nsec_limit
proof (unfold_locales, goal_cases)
  case (1 s c)
  then show ?case
    by (simp add: read_clock_def new_clock_gettime_def Let_def count_facts
        CLOCK_REALTIME_def CLOCK_MONOTONIC_def)
next
  case (2 s c d)
  define r where "r = g_clock_gettime_saved_nsecs_clk_Real_last s + d"
  have r: "0 \<le> r" "r < nsec_limit" "r < 2 ^ 31 * 1000000000" "r < 2 ^ 63"
    using 2 by (simp_all add: r_def nsec_limit_def)
  have "s64 (c - g_clock_gettime_saved_nsecs_clk_Real s) = c - g_clock_gettime_saved_nsecs_clk_Real s"
    using 2 by (simp add: nsec_limit_def s64_small)
  moreover have "s64 r = r" and "u64 c = c" using r 2 by (simp_all add: count_facts)
  moreover note split_count [OF r(1,3)]
  ultimately show ?case
    using 2 r by (simp add: read_clock_def new_clock_gettime_def Let_def nsecs_def
        CLOCK_REALTIME_def CLOCK_MONOTONIC_def count_facts flip: r_def)
qed


section \<open>The scaling of a difference\<close>

lemma scale_diff_nonneg: "f_ge0 g \<Longrightarrow> 0 \<le> d \<Longrightarrow> scale_diff g d = Some r \<Longrightarrow> 0 \<le> r"
proof -
  assume a: "f_ge0 g" "0 \<le> d" "scale_diff g d = Some r"
  then obtain x where x: "f32_mul (f32 (of_int d)) g = Fin x" and r: "r = trunc x"
    by (auto simp: scale_diff_def f32_of_int_def dest!: f_to_int_SomeD)
  have "f_ge0 (f32 (of_int d))" using a(2) by (intro f32_ge0) simp
  then have "0 \<le> x" using a(1) x by (rule f32_mul_ge0)
  then show "0 \<le> r" unfolding r by (rule trunc_nonneg)
qed

lemma scale_diff_exact:
  assumes "\<bar>d\<bar> \<le> 2 ^ 24" "\<bar>k * d\<bar> \<le> 2 ^ 24"
  shows "scale_diff (Fin (of_int k)) d = Some (k * d)"
proof -
  have "f32_mul (f32_of_int d) (Fin (of_int k)) = f32 (of_int (k * d))"
    using assms(1) by (simp add: f32_of_int_exact mult.commute)
  also have "\<dots> = Fin (of_int (k * d))" using assms(2) by (rule f32_int_exact)
  finally have "scale_diff (Fin (of_int k)) d = f_to_int 64 (Fin (of_int (k * d)))"
    by (simp add: scale_diff_def)
  moreover have "- (2 ^ 63) \<le> k * d" "k * d < 2 ^ 63"
    using abs_le_D1 [OF assms(2)] abs_le_D2 [OF assms(2)] by simp_all
  ultimately show ?thesis by (simp add: Let_def del: of_int_mult)
qed

text \<open>
  The two roundings and the truncation: the relative error is at most \<open>3 / 2 ^ 24\<close>, plus one
  unit.
\<close>

lemma scale_diff_error:
  assumes r: "scale_diff (Fin g) d = Some r" and d: "d \<noteq> 0" and g: "pow2 (-100) \<le> \<bar>g\<bar>"
  shows "\<bar>of_int r - g * of_int d\<bar> \<le> 3 / 2 ^ 24 * \<bar>g * of_int d\<bar> + 1"
proof -
  define e :: rat where "e = 1 / 2 ^ 24"
  have e: "0 < e" "e \<le> 1 / 4" by (simp_all add: e_def)
  obtain x where x: "f32 (of_int d) = Fin x"
    using r by (cases "f32 (of_int d)") (auto simp: scale_diff_def f32_of_int_def split: if_splits)
  obtain y where y: "f32 (x * g) = Fin y" "r = trunc y"
    using r x by (auto simp: scale_diff_def f32_of_int_def dest!: f_to_int_SomeD)
  have big: "(1::rat) \<le> \<bar>of_int d\<bar>"
    using d by (metis abs_ge_zero of_int_1 of_int_abs of_int_le_iff zero_less_abs_iff zless_imp_add1_zle add_0)
  have "pow2 (-126) \<le> pow2 0" by (simp only: pow2_le_iff)
  with big have "pow2 (-126) \<le> \<bar>of_int d\<bar>" by simp
  from f32_error [OF x this] have ex: "\<bar>x - of_int d\<bar> \<le> e * \<bar>of_int d\<bar>"
    by (simp add: e_def)
  have "e * \<bar>of_int d\<bar> \<le> \<bar>of_int d\<bar> / 4" using mult_right_mono [OF e(2)] by simp
  with ex have x2: "\<bar>of_int d\<bar> / 2 \<le> \<bar>x\<bar>" "\<bar>x\<bar> \<le> (1 + e) * \<bar>of_int d\<bar>"
    by (auto simp: algebra_simps)
  have "pow2 (-126) \<le> pow2 (-1) * pow2 (-100)" by (simp flip: pow2_add)
  also have "\<dots> \<le> \<bar>x\<bar> * \<bar>g\<bar>"
    using g x2 big by (intro mult_mono) (simp_all add: pow2_def)
  finally have "pow2 (-126) \<le> \<bar>x * g\<bar>" by (simp add: abs_mult)
  from f32_error [OF y(1) this] have ey: "\<bar>y - x * g\<bar> \<le> e * \<bar>x * g\<bar>" by (simp add: e_def)
  have "\<bar>x * g\<bar> \<le> (1 + e) * \<bar>g * of_int d\<bar>"
    using mult_right_mono [OF x2(2), of "\<bar>g\<bar>"] by (simp add: abs_mult mult_ac)
  then have "e * \<bar>x * g\<bar> \<le> e * ((1 + e) * \<bar>g * of_int d\<bar>)"
    using e by (intro mult_left_mono) simp_all
  also have "\<dots> \<le> 2 * e * \<bar>g * of_int d\<bar>"
    using e mult_right_mono [of "e * (1 + e)" "2 * e" "\<bar>g * of_int d\<bar>"] by (simp add: algebra_simps)
  finally have 1: "\<bar>y - x * g\<bar> \<le> 2 * e * \<bar>g * of_int d\<bar>" using ey by linarith
  have "\<bar>(x - of_int d) * g\<bar> \<le> e * \<bar>g * of_int d\<bar>"
    using mult_right_mono [OF ex, of "\<bar>g\<bar>"] by (simp add: abs_mult mult_ac)
  then have 2: "\<bar>x * g - g * of_int d\<bar> \<le> e * \<bar>g * of_int d\<bar>" by (simp add: algebra_simps)
  have 3: "\<bar>of_int r - y\<bar> < 1" using trunc_error [of y] y by simp
  have "3 / 2 ^ 24 * \<bar>g * of_int d\<bar> = 2 * e * \<bar>g * of_int d\<bar> + e * \<bar>g * of_int d\<bar>"
    by (simp add: e_def)
  with 1 2 3 show ?thesis by linarith
qed


section \<open>Invariants of the speed factor\<close>

lemma f64_ge0: "0 \<le> x \<Longrightarrow> f_ge0 (f64 x)"
  by (auto simp: f64_def round_to_def Let_def round_half_even_nonneg less_imp_le)

lemma f32_of_ge0: "f_ge0 v \<Longrightarrow> f_ge0 (f32_of v)"
  by (cases v) (simp_all add: f32_ge0)

lemma f32_add_ge0: "f_ge0 v \<Longrightarrow> f_ge0 (f32_add v (Fin 1))"
  by (cases v) (simp_all add: f32_ge0)

text \<open>
  The factor is never negative, and once the library is hooked it stays hooked exactly once.
\<close>

definition speed_inv :: "speed_state \<Rightarrow> bool" where
  "speed_inv s \<longleftrightarrow> f_ge0 (g_times s) \<and>
     (if IsHooked s \<noteq> 0 then hook_calls s = []
      else hook_calls s = [Sym_clock_gettime, Sym_gettimeofday])"

lemma speed_inv_initial [simp]: "speed_inv initial_speed"
  by (simp add: speed_inv_def initial_speed_def)

lemma SetTimeScale_inv:
  assumes "speed_inv s" "SetTimeScale v s = Some s'"
  shows "speed_inv s'" and "IsHooked s' = 0"
  using assms
  by (auto simp: SetTimeScale_def speed_inv_def do_speed_hook_def Let_def f32_add_ge0 f32_of_ge0
      f64_ge0 split: if_splits option.splits)

text \<open>No call of \<open>SetTimeScale\<close> touches the bases of the clocks.\<close>

lemma SetTimeScale_frame [frame_simps]:
  assumes "SetTimeScale v s = Some s'"
  shows "g_gettimeofday_saved_usecs s' = g_gettimeofday_saved_usecs s"
    and "g_gettimeofday_saved_usecs_last s' = g_gettimeofday_saved_usecs_last s"
  using assms by (auto simp: SetTimeScale_def do_speed_hook_def Let_def
      split: if_splits option.splits)

lemma read_gettimeofday_frame:
  assumes "read_gettimeofday s c = Some (r, s')"
  shows "g_times s' = g_times s" "IsHooked s' = IsHooked s" "hook_calls s' = hook_calls s"
  using assms by (auto simp: read_gettimeofday_def new_gettimeofday_def Let_def
      split: if_splits option.splits)

fun set_speeds :: "cfloat list \<Rightarrow> speed_state \<Rightarrow> speed_state option" where
  "set_speeds [] s = Some s"
| "set_speeds (v # vs) s = (case SetTimeScale v s of None \<Rightarrow> None | Some s' \<Rightarrow> set_speeds vs s')"

lemma set_speeds_inv: "speed_inv s \<Longrightarrow> set_speeds vs s = Some s' \<Longrightarrow> speed_inv s'"
  by (induction vs arbitrary: s) (auto split: option.splits dest: SetTimeScale_inv(1))

lemma set_speeds_hooked:
  "speed_inv s \<Longrightarrow> IsHooked s = 0 \<or> vs \<noteq> [] \<Longrightarrow> set_speeds vs s = Some s' \<Longrightarrow> IsHooked s' = 0"
  by (induction vs arbitrary: s) (auto split: option.splits dest: SetTimeScale_inv)

section \<open>Readings interleaved with changes of speed\<close>

text \<open>
  The program's use of one clock: the hooked application reads it, and the server changes the
  speed in between. A state of this system is the static variables, the latest real reading and
  the readings reported so far, latest first. The rule for a reading asks that the reported time
  still fits the 32-bit seconds.
\<close>

inductive gtod_reach :: "speed_state \<Rightarrow> int \<Rightarrow> int list \<Rightarrow> bool" where
  start: "gtod_reach initial_speed 0 []"
| read: "gtod_reach s c rs \<Longrightarrow> c \<le> c' \<Longrightarrow> 0 < c' \<Longrightarrow> c' < usec_limit \<Longrightarrow>
    read_gettimeofday s c' = Some (r, s') \<Longrightarrow> g_gettimeofday_saved_usecs_last s' < usec_limit \<Longrightarrow>
    gtod_reach s' c' (r # rs)"
| set_speed: "gtod_reach s c rs \<Longrightarrow> SetTimeScale v s = Some s' \<Longrightarrow> gtod_reach s' c rs"

lemma read_gettimeofday_next:
  assumes base: "0 < g_gettimeofday_saved_usecs s" "g_gettimeofday_saved_usecs s \<le> c"
    and shown: "0 \<le> g_gettimeofday_saved_usecs_last s" "g_gettimeofday_saved_usecs_last s < usec_limit"
    and c: "c < usec_limit" and g: "f_ge0 (g_times s)"
    and read: "read_gettimeofday s c = Some (r, s')"
    and fits: "g_gettimeofday_saved_usecs_last s' < usec_limit"
  shows "g_gettimeofday_saved_usecs_last s \<le> r \<and> r = g_gettimeofday_saved_usecs_last s' \<and>
    g_gettimeofday_saved_usecs s' = c"
proof -
  let ?d = "c - g_gettimeofday_saved_usecs s"
  have "s64 ?d = ?d" using base c by (intro s64_small) (simp_all add: usec_limit_def)
  moreover have uc: "u64 c = c" using base c by (intro count_facts) simp_all
  ultimately obtain d where d: "scale_diff (g_times s) ?d = Some d"
    using read base by (auto simp: read_gettimeofday_def new_gettimeofday_def Let_def
        split: option.splits if_splits)
  have d0: "0 \<le> d" using scale_diff_nonneg [OF g _ d] base by simp
  have d63: "d < 2 ^ 63" using d by (auto simp: scale_diff_def dest!: f_to_int_SomeD)
  define ret where "ret = g_gettimeofday_saved_usecs_last s + d"
  have last': "g_gettimeofday_saved_usecs_last s' = u64 (s64 ret)"
    using read base d \<open>s64 ?d = ?d\<close> uc
    by (auto simp: read_gettimeofday_def new_gettimeofday_def Let_def ret_def
        split: option.splits if_splits)
  have lo: "0 \<le> ret" and hi: "ret < 2 ^ 64" using d0 d63 shown
    by (simp_all add: ret_def usec_limit_def)
  have "u64 (s64 ret) = ret"
    using lo hi by (simp add: wrap_u_def wrap_s_def mod_simps)
  then have "ret < usec_limit" using fits last' by simp
  with gtod.read_next [of s c d] base shown c d lo read show ?thesis
    using d0 by (auto simp: ret_def)
qed

definition gtod_inv :: "speed_state \<Rightarrow> int \<Rightarrow> int list \<Rightarrow> bool" where
  "gtod_inv s c rs \<longleftrightarrow>
     speed_inv s \<and> g_gettimeofday_saved_usecs s = c \<and> 0 \<le> c \<and> c < usec_limit \<and>
     sorted (rev rs) \<and> g_gettimeofday_saved_usecs_last s < usec_limit \<and>
     (if c = 0 then rs = [] else rs \<noteq> [] \<and> hd rs = g_gettimeofday_saved_usecs_last s \<and> 0 \<le> hd rs)"

lemma gtod_inv_read:
  assumes inv: "gtod_inv s c rs" and c': "c \<le> c'" "0 < c'" "c' < usec_limit"
    and read: "read_gettimeofday s c' = Some (r, s')"
    and fits: "g_gettimeofday_saved_usecs_last s' < usec_limit"
  shows "gtod_inv s' c' (r # rs)"
proof -
  have frame: "speed_inv s'"
    using inv read_gettimeofday_frame [OF read] by (simp add: gtod_inv_def speed_inv_def)
  show ?thesis
  proof (cases "c = 0")
    case True
    with inv have "g_gettimeofday_saved_usecs s = 0" "rs = []" by (simp_all add: gtod_inv_def)
    with gtod.read_first [of s c'] c' read frame fits show ?thesis
      by (auto simp: gtod_inv_def)
  next
    case False
    with inv have s: "0 < g_gettimeofday_saved_usecs s" "g_gettimeofday_saved_usecs s \<le> c'"
      "0 \<le> g_gettimeofday_saved_usecs_last s" "g_gettimeofday_saved_usecs_last s < usec_limit"
      "f_ge0 (g_times s)" and rs: "rs \<noteq> []" "hd rs = g_gettimeofday_saved_usecs_last s"
      "sorted (rev rs)"
      using c' by (auto simp: gtod_inv_def speed_inv_def)
    from read_gettimeofday_next [OF s(1-4) c'(3) s(5) read fits]
    have r: "g_gettimeofday_saved_usecs_last s \<le> r" "r = g_gettimeofday_saved_usecs_last s'"
      "g_gettimeofday_saved_usecs s' = c'" by simp_all
    obtain r0 rs0 where "rs = r0 # rs0" using rs(1) by (cases rs) simp_all
    then have "sorted (rev (r # rs))"
      using rs r by (auto simp: sorted_append)
    then show ?thesis using frame r s c' fits by (simp add: gtod_inv_def)
  qed
qed

lemma gtod_reach_inv: "gtod_reach s c rs \<Longrightarrow> gtod_inv s c rs"
proof (induction rule: gtod_reach.induct)
  case start
  then show ?case by (simp add: gtod_inv_def initial_speed_def speed_inv_def usec_limit_def)
next
  case (read s c rs c' r s')
  then show ?case by (blast intro: gtod_inv_read)
next
  case (set_speed s c rs v s')
  then show ?case
    using SetTimeScale_inv(1) [of s v s'] SetTimeScale_frame [of v s s'] by (auto simp: gtod_inv_def)
qed


section \<open>Properties\<close>


lemma scale_diff_2 [simp]: "\<bar>2 * d\<bar> \<le> 2 ^ 24 \<Longrightarrow> scale_diff (Fin 2) d = Some (2 * d)"
  using scale_diff_exact [of d 2] by simp

lemma read_first_example:
  "read_gettimeofday initial_speed 1000000 =
     Some (1000000, initial_speed\<lparr>g_gettimeofday_saved_usecs := 1000000,
                                  g_gettimeofday_saved_usecs_last := 1000000\<rparr>)"
  by (simp add: read_gettimeofday_def new_gettimeofday_def initial_speed_def wrap_u_def)


text \<open>C2. The hooked \<open>gettimeofday\<close> implements the abstract virtual clock: from its first
  reading on, it reports exactly the run of \<open>virtual_run\<close> at the factor in force, as long as the
  virtual time fits 32-bit seconds.\<close>

theorem gettimeofday_refines_virtual_clock:
  assumes "g_gettimeofday_saved_usecs s = 0" "\<forall>c \<in> set (c0 # cs). 0 < c \<and> c < usec_limit"
    and "virtual_run (scale_diff (g_times s)) c0 c0 cs = Some rs"
    and "\<forall>r \<in> set rs. 0 \<le> r \<and> r < usec_limit"
  shows "\<exists>s'. run_clock read_gettimeofday s (c0 # cs) = Some (c0 # rs, s')"
  using gtod.run_refines_from_start [OF assms] by blast

theorem gettimeofday_refines_virtual_clock_witness:
  "\<exists>s'. run_clock read_gettimeofday (initial_speed\<lparr>g_times := Fin 2\<rparr>)
     [1000000, 1000300, 1000400] = Some ([1000000, 1000600, 1000800], s')"
  by (rule gettimeofday_refines_virtual_clock) (simp_all add: initial_speed_def usec_limit_def)

text \<open>C3. At an integral factor \<open>k\<close> the hooked monotonic clock reports exactly \<open>k\<close> times the
  elapsed real time, when consecutive readings are at most \<open>2 ^ 24 div k\<close> nanoseconds apart.\<close>

theorem monotonic_clock_exact_multiple:
  assumes "g_clock_gettime_saved_nsecs_clk_MONO s = 0" "g_times s = Fin (of_int k)" "1 \<le> k"
    and "\<forall>c \<in> set (c0 # cs). 0 < c \<and> c < nsec_limit" "sorted (c0 # cs)"
    and "successively (\<lambda>a b. b - a \<le> 2 ^ 24 div k) (c0 # cs)"
    and "\<forall>c \<in> set cs. c0 + k * (c - c0) < nsec_limit"
  shows "\<exists>s'. run_clock (read_clock CLOCK_MONOTONIC) s (c0 # cs) =
    Some (c0 # map (\<lambda>c. c0 + k * (c - c0)) cs, s')"
proof -
  have rate: "scale_diff (g_times s) d = Some (k * d)" if "0 \<le> d" "d \<le> 2 ^ 24 div k" for d
  proof -
    have "k * d \<le> k * (2 ^ 24 div k)" using that assms(3) by (intro mult_left_mono) simp_all
    also have "\<dots> \<le> 2 ^ 24"
      using assms(3) pos_mod_sign [of k "2 ^ 24"] mult_div_mod_eq [of k "2 ^ 24"] by linarith
    finally have "k * d \<le> 2 ^ 24" .
    moreover have "d \<le> k * d" using that assms(3) mult_right_mono [of 1 k d] by simp
    moreover have "0 \<le> k * d" using that assms(3) by simp
    ultimately show ?thesis
      unfolding assms(2) using that by (intro scale_diff_exact) simp_all
  qed
  show ?thesis
    using mono.run_linear [OF assms(1,4,5) _ rate assms(6,7)] assms(3) by auto
qed

theorem monotonic_clock_exact_multiple_witness:
  "\<exists>s'. run_clock (read_clock CLOCK_MONOTONIC) (initial_speed\<lparr>g_times := Fin 3\<rparr>)
     [1000, 2000, 5000] = Some ([1000, 4000, 13000], s')"
  using monotonic_clock_exact_multiple
    [where s = "initial_speed\<lparr>g_times := Fin 3\<rparr>" and k = 3 and ?c0.0 = 1000 and cs = "[2000, 5000]"]
  by (simp add: initial_speed_def nsec_limit_def)

text \<open>The scaled difference is the exact product up to the two float roundings and the
  truncation: a relative error of at most \<open>3 / 2 ^ 24\<close> and one unit.\<close>

theorem scaled_difference_accuracy:
  assumes "scale_diff (Fin g) d = Some r" "d \<noteq> 0" "pow2 (-100) \<le> \<bar>g\<bar>"
  shows "\<bar>of_int r - g * of_int d\<bar> \<le> 3 / 2 ^ 24 * \<bar>g * of_int d\<bar> + 1"
  using assms by (rule scale_diff_error)

theorem scaled_difference_accuracy_witness:
  "\<bar>of_int 200 - (2 :: rat) * of_int 100\<bar> \<le> 3 / 2 ^ 24 * \<bar>(2 :: rat) * of_int 100\<bar> + 1"
  by (rule scaled_difference_accuracy) (simp_all add: pow2_def)

text \<open>Even at the neutral factor 1 the hook is not transparent: a difference of
  \<open>2 ^ 24 + 1\<close> nanoseconds (17 ms) does not fit a float, and the reported clock loses a
  nanosecond.\<close>

theorem neutral_speed_loses_time:
  "\<exists>s'. run_clock (read_clock CLOCK_MONOTONIC) initial_speed [1000, 16778217] =
     Some ([1000, 16778216], s')"
proof -
  have "f32 16777217 = Fin 16777216" by code_simp
  then have "scale_diff (Fin 1) 16777217 = Some 16777216"
    by (simp add: scale_diff_def f32_of_int_def trunc_def)
  then show ?thesis
    using mono.run_refines_from_start [of initial_speed 1000 "[16778217]" "[16778216]"]
    by (auto simp: initial_speed_def nsec_limit_def)
qed

text \<open>Every clock other than the monotonic one shares the variables of the real-time clock:
  at factor 2, reading another clock (say a CPU-time clock, whose counts are smaller) right after
  the real-time clock gives a negative time.\<close>

theorem other_clocks_disturb_realtime:
  assumes "clk \<noteq> CLOCK_MONOTONIC" "0 < c1" "2 * c1 < c0" "c0 \<le> 2 ^ 23"
  shows "\<exists>s1 s2 r. read_clock CLOCK_REALTIME (initial_speed\<lparr>g_times := Fin 2\<rparr>) c0 = Some (c0, s1) \<and>
    read_clock clk s1 c1 = Some (r, s2) \<and> r = 2 * c1 - c0 \<and> r < 0"
proof -
  have c0: "u64 c0 = c0" "u64 c1 = c1" "s64 (c1 - c0) = c1 - c0" "s64 (2 * c1 - c0) = 2 * c1 - c0"
    using assms by (simp_all add: wrap_u_def wrap_s_def)
  let ?r = "2 * c1 - c0"
  have r: "- (2 ^ 23) \<le> ?r" "?r < 0" using assms by simp_all
  have "s32 (?r sdiv 1000000000) = ?r sdiv 1000000000" "s32 (?r smod 1000000000) = ?r smod 1000000000"
    using r by (simp_all add: wrap_s_def signed_divide_int_def signed_modulo_int_def)
  moreover have "?r sdiv 1000000000 * 1000000000 + ?r smod 1000000000 = ?r"
    by (rule sdiv_mult_smod_eq)
  moreover define s1 where "s1 = initial_speed\<lparr>g_times := Fin 2,
    g_clock_gettime_saved_nsecs_clk_Real := c0, g_clock_gettime_saved_nsecs_clk_Real_last := c0\<rparr>"
  moreover have "c0 + 2 * (c1 - c0) = ?r" by simp
  moreover have "scale_diff (Fin 2) (c1 - c0) = Some (2 * (c1 - c0))"
    using assms by (intro scale_diff_2) simp
  ultimately have "\<exists>s2. read_clock clk s1 c1 = Some (?r, s2)"
    using assms(1-3) c0 by (simp add: read_clock_def new_clock_gettime_def initial_speed_def
        nsecs_def Let_def del: scale_diff_2)
  moreover have "read_clock CLOCK_REALTIME (initial_speed\<lparr>g_times := Fin 2\<rparr>) c0 = Some (c0, s1)"
    using c0 by (simp add: read_clock_def new_clock_gettime_def CLOCK_REALTIME_def
        CLOCK_MONOTONIC_def initial_speed_def s1_def Let_def)
  ultimately show ?thesis using r by blast
qed

theorem other_clocks_disturb_realtime_witness:
  "\<exists>s1 s2 r. read_clock CLOCK_REALTIME (initial_speed\<lparr>g_times := Fin 2\<rparr>) 5000 = Some (5000, s1) \<and>
    read_clock 2 s1 7 = Some (r, s2) \<and> r = 2 * 7 - 5000 \<and> r < 0"
  by (rule other_clocks_disturb_realtime) (simp_all add: CLOCK_MONOTONIC_def)

text \<open>Any sequence of speed requests leaves a factor that is not negative, and the two
  functions hooked exactly once.\<close>

theorem speed_requests_hook_once:
  assumes "set_speeds vs initial_speed = Some s" "vs \<noteq> []"
  shows "f_ge0 (g_times s) \<and> hook_calls s = [Sym_clock_gettime, Sym_gettimeofday] \<and> IsHooked s = 0"
  using set_speeds_inv [OF speed_inv_initial assms(1)]
    set_speeds_hooked [OF speed_inv_initial disjI2 [OF assms(2)] assms(1)]
  by (simp add: speed_inv_def)

theorem speed_requests_hook_once_witness:
  "\<exists>s. set_speeds [Fin 2, Fin (-1)] initial_speed = Some s \<and> f_ge0 (g_times s) \<and>
     hook_calls s = [Sym_clock_gettime, Sym_gettimeofday] \<and> IsHooked s = 0"
proof -
  obtain s where s: "set_speeds [Fin 2, Fin (-1)] initial_speed = Some s"
    by (simp add: SetTimeScale_def initial_speed_def trunc_def Let_def)
  from speed_requests_hook_once [OF s] s show ?thesis by simp
qed

text \<open>Of the slow-downs, only those that truncate to -1 to -5 or -10 have an effect: every
  other negative request, any between -1 and 0 among them, leaves the factor as it was.\<close>

theorem other_slowdowns_ignored:
  assumes "x < 0" "- (2 ^ 31) \<le> x" "trunc x \<notin> {-1, -2, -3, -4, -5, -10}"
  shows "\<exists>s'. SetTimeScale (Fin x) s = Some s' \<and> g_times s' = g_times s"
proof -
  have "- (2 ^ 31) \<le> trunc x" "trunc x \<le> 0"
    using assms(1,2) by (simp_all add: trunc_def le_ceiling_iff ceiling_le_iff)
  with assms show ?thesis
    by (auto simp: SetTimeScale_def do_speed_hook_def Let_def)
qed

theorem other_slowdowns_ignored_witness:
  "\<exists>s'. SetTimeScale (Fin (-1 / 2)) initial_speed = Some s' \<and> g_times s' = g_times initial_speed"
proof -
  have "trunc (-1 / 2) = 0" by code_simp
  then show ?thesis by (intro other_slowdowns_ignored) simp_all
qed

end
