(* ===== verification/CLib.thy ===== *)
theory CLib
  imports CFloat
begin

text \<open>
  The parts of the C library the sources call on text: \<open>atoi\<close>, \<open>atof\<close>, \<open>strtoul\<close> in base 16,
  \<open>strstr\<close>, \<open>fgets\<close>, and the formats \<open>%d\<close> and \<open>%.4f\<close> of \<open>sprintf\<close>. A C string in memory is
  a list of characters with a terminating NUL; a fixed buffer is a list of its length, and
  reading past its end is \<open>None\<close>.
\<close>

abbreviation NUL :: char where "NUL \<equiv> CHR 0x00"
abbreviation NL :: char where "NL \<equiv> CHR 0x0A"

definition is_digit :: "char \<Rightarrow> bool" where
  "is_digit c = (let n = of_char c :: nat in 48 \<le> n \<and> n \<le> 57)"

definition is_space :: "char \<Rightarrow> bool" where
  "is_space c = (let n = of_char c :: nat in n = 32 \<or> (9 \<le> n \<and> n \<le> 13))"

definition digit_val :: "char \<Rightarrow> int" where
  "digit_val c = int (of_char c) - 48"

definition digits_val :: "string \<Rightarrow> int" where
  "digits_val ds = foldl (\<lambda>a c. 10 * a + digit_val c) 0 ds"

definition scan_sign :: "string \<Rightarrow> int \<times> string" where
  "scan_sign s = (case s of
       [] \<Rightarrow> (1, [])
     | c # cs \<Rightarrow> if c = CHR ''-'' then (-1, cs) else if c = CHR ''+'' then (1, cs) else (1, s))"

text \<open>The characters of a string up to its terminator, as \<open>strcmp\<close>, \<open>strlen\<close> and \<open>strstr\<close> see them.\<close>

definition c_str :: "char list \<Rightarrow> string" where
  "c_str buf = takeWhile (\<lambda>c. c \<noteq> NUL) buf"

text \<open>\<open>atoi\<close>; the behaviour on overflow is undefined in C, and wraps in the C libraries at hand.\<close>

definition atoi :: "string \<Rightarrow> int" where
  "atoi s = (let (sg, t) = scan_sign (dropWhile is_space s) in
     s32 (sg * digits_val (takeWhile is_digit t)))"

text \<open>
  \<open>atof\<close> on the decimal grammar of C90 (the \<open>inf\<close>, \<open>nan\<close> and hexadecimal spellings of C99 are
  not read): optional space and sign, digits with an optional point, an optional exponent. The
  result is the value and the unread rest; without any digit nothing is converted.
\<close>

definition scan_exp :: "string \<Rightarrow> int \<times> string" where
  "scan_exp s = (case s of
       [] \<Rightarrow> (0, [])
     | c # cs \<Rightarrow>
         if c = CHR ''e'' \<or> c = CHR ''E'' then
           let (sg, t) = scan_sign cs; ds = takeWhile is_digit t in
           if ds = [] then (0, s) else (sg * digits_val ds, dropWhile is_digit t)
         else (0, s))"

definition scan_frac :: "string \<Rightarrow> string \<times> string" where
  "scan_frac s = (case s of
       [] \<Rightarrow> ([], [])
     | c # cs \<Rightarrow> if c = CHR ''.'' then (takeWhile is_digit cs, dropWhile is_digit cs) else ([], s))"

definition pow10 :: "int \<Rightarrow> rat" where
  "pow10 k = (if 0 \<le> k then 10 ^ nat k else 1 / 10 ^ nat (- k))"

definition scan_decimal :: "string \<Rightarrow> rat \<times> string" where
  "scan_decimal s =
     (let (sg, t) = scan_sign (dropWhile is_space s);
          ip = takeWhile is_digit t; (fp, u) = scan_frac (dropWhile is_digit t)
      in if ip = [] \<and> fp = [] then (0, s)
         else let (e, v) = scan_exp u in
           (of_int (sg * digits_val (ip @ fp)) * pow10 (e - int (length fp)), v))"

text \<open>
  On a buffer without a terminator: the character that ends the number has to be inside the
  buffer, else the scan reads past it.
\<close>

definition atof :: "char list \<Rightarrow> cfloat option" where
  "atof buf = (case scan_decimal buf of (x, rest) \<Rightarrow> if rest = [] then None else Some (f64 x))"

section \<open>Formatting\<close>

fun nat_digits :: "nat \<Rightarrow> string" where
  "nat_digits n = (if n < 10 then [char_of (48 + n)] else nat_digits (n div 10) @ [char_of (48 + n mod 10)])"

declare nat_digits.simps [simp del]

definition format_d :: "int \<Rightarrow> string" where
  "format_d n = (if n < 0 then CHR ''-'' # nat_digits (nat (- n)) else nat_digits (nat n))"

definition pad0 :: "nat \<Rightarrow> string \<Rightarrow> string" where
  "pad0 n s = replicate (n - length s) (CHR ''0'') @ s"

text \<open>\<open>%.4f\<close>: the value rounded to four decimals.\<close>

fun format_f4 :: "cfloat \<Rightarrow> string" where
  "format_f4 (Fin x) =
     (let n = nat (round_half_even (\<bar>x\<bar> * 10000)) in
      (if x < 0 then ''-'' else []) @ nat_digits (n div 10000) @ ''.'' @ pad0 4 (nat_digits (n mod 10000)))"
| "format_f4 (Inf neg) = (if neg then ''-inf'' else ''inf'')"
| "format_f4 NaN = ''nan''"

section \<open>Reading\<close>

text \<open>
  \<open>fgets(buf, n, fp)\<close> on the unread contents of a file: at most \<open>n - 1\<close> characters, up to and
  with a newline, then a NUL; at the end of the file the buffer is left as it was.
\<close>

definition fgets_line :: "nat \<Rightarrow> string \<Rightarrow> string" where
  "fgets_line n s =
     (let l = takeWhile (\<lambda>c. c \<noteq> NL) s;
          l' = (if length l < length s then l @ [NL] else l)
      in take (n - 1) l')"

definition fgets_buf :: "char list \<Rightarrow> string \<Rightarrow> char list" where
  "fgets_buf buf s =
     (if s = [] then buf
      else let l = fgets_line (length buf) s @ [NUL] in l @ drop (length l) buf)"

definition is_substring :: "string \<Rightarrow> string \<Rightarrow> bool" where
  "is_substring p s \<longleftrightarrow> (\<exists>i \<in> set [0..<Suc (length s)]. take (length p) (drop i s) = p)"

definition hex_val :: "char \<Rightarrow> int option" where
  "hex_val c = (let n = of_char c :: int in
     if 48 \<le> n \<and> n \<le> 57 then Some (n - 48)
     else if 97 \<le> n \<and> n \<le> 102 then Some (n - 87)
     else if 65 \<le> n \<and> n \<le> 70 then Some (n - 55) else None)"

fun scan_hex :: "int \<Rightarrow> string \<Rightarrow> int" where
  "scan_hex a [] = a"
| "scan_hex a (c # cs) = (case hex_val c of None \<Rightarrow> a | Some d \<Rightarrow> scan_hex (16 * a + d) cs)"

text \<open>\<open>strtoul(s, NULL, 16)\<close> on a number that fits (the addresses of \<open>/proc/<pid>/maps\<close>); a larger
  one saturates.\<close>

definition strtoul16 :: "string \<Rightarrow> int" where
  "strtoul16 s =
     (let (sg, t) = scan_sign (dropWhile is_space s);
          t' = (if take 2 t = ''0x'' \<or> take 2 t = ''0X'' then drop 2 t else t);
          v = scan_hex 0 t' in
      if v < 2 ^ 32 then u32 (sg * v) else 2 ^ 32 - 1)"

section \<open>Printing and reading back\<close>

lemma digit_chars [simp]:
  "char_of (48 :: nat) = CHR ''0''" "char_of (49 :: nat) = CHR ''1''"
  "char_of (50 :: nat) = CHR ''2''" "char_of (51 :: nat) = CHR ''3''"
  "char_of (52 :: nat) = CHR ''4''" "char_of (53 :: nat) = CHR ''5''"
  "char_of (54 :: nat) = CHR ''6''" "char_of (55 :: nat) = CHR ''7''"
  "char_of (56 :: nat) = CHR ''8''" "char_of (57 :: nat) = CHR ''9''"
  by code_simp+

lemma digit_char [simp]:
  assumes "n < 10"
  shows "is_digit (char_of (48 + n))" and "digit_val (char_of (48 + n)) = int n"
  using assms by (simp_all add: is_digit_def digit_val_def)

lemma nat_digits_digits: "\<forall>c \<in> set (nat_digits n). is_digit c"
proof (induction n rule: nat_digits.induct)
  case (1 n)
  then show ?case by (subst nat_digits.simps) auto
qed

lemma nat_digits_nonempty [simp]: "nat_digits n \<noteq> []"
  by (subst nat_digits.simps) simp

lemma digits_val_snoc: "digits_val (ds @ [c]) = 10 * digits_val ds + digit_val c"
  by (simp add: digits_val_def)

lemma digits_val_nat_digits [simp]: "digits_val (nat_digits n) = int n"
proof (induction n rule: nat_digits.induct)
  case (1 n)
  show ?case
  proof (cases "n < 10")
    case True
    then show ?thesis by (subst nat_digits.simps) (simp add: digits_val_def)
  next
    case False
    have "int n = 10 * int (n div 10) + int (n mod 10)"
      by (metis mult_div_mod_eq of_nat_add of_nat_mult of_nat_numeral)
    with False 1 show ?thesis by (subst nat_digits.simps) (simp add: digits_val_snoc)
  qed
qed

lemma digits_val_append:
  "digits_val (as @ bs) = digits_val as * 10 ^ length bs + digits_val bs"
proof (induction bs rule: rev_induct)
  case Nil
  then show ?case by (simp add: digits_val_def)
next
  case (snoc c cs)
  have "digits_val (as @ cs @ [c]) = digits_val ((as @ cs) @ [c])" by simp
  also have "\<dots> = 10 * digits_val (as @ cs) + digit_val c" by (rule digits_val_snoc)
  finally show ?case using snoc by (simp add: digits_val_snoc algebra_simps)
qed

lemma digits_val_pad0 [simp]: "digits_val (pad0 n s) = digits_val s"
proof -
  have "digits_val (replicate k (CHR ''0'')) = 0" for k
    by (induction k) (simp_all add: digits_val_append [of "[_]", simplified]
        digits_val_def digit_val_def)
  then show ?thesis by (simp add: pad0_def digits_val_append)
qed

lemma nat_digits_length: "n < 10 ^ k \<Longrightarrow> 0 < k \<Longrightarrow> length (nat_digits n) \<le> k"
proof (induction k arbitrary: n)
  case (Suc k)
  show ?case
  proof (cases "n < 10")
    case True
    then show ?thesis by (subst nat_digits.simps) simp
  next
    case False
    with Suc.prems have "n div 10 < 10 ^ k" "0 < k" by (auto intro!: Nat.gr0I)
    with Suc.IH have "length (nat_digits (n div 10)) \<le> k" by blast
    with False show ?thesis by (subst nat_digits.simps) simp
  qed
qed simp

lemma length_pad0: "length s \<le> n \<Longrightarrow> length (pad0 n s) = n"
  by (simp add: pad0_def)

lemma takeWhile_digits:
  assumes "\<forall>d \<in> set ds. is_digit d" "\<not> is_digit c"
  shows "takeWhile is_digit (ds @ c # rest) = ds" "dropWhile is_digit (ds @ c # rest) = c # rest"
  using assms by (auto simp: takeWhile_append dropWhile_append)

end
