(* ===== verification/IpcServer.thy ===== *)
theory IpcServer
  imports Speed CLib
begin

text \<open>
  \<^verbatim>\<open>jni/ElfIPCServer.cpp\<close>: the server the injected library runs inside the target. It accepts
  one connection at a time, reads messages of at most 32 bytes into a buffer on the stack, sets
  the speed to the number they start with and echoes them. The sockets are the environment:
  what each \<open>recv\<close>, \<open>send\<close> and \<open>accept\<close> returned is an input of the model.
\<close>

definition BUFFSIZE :: nat where "BUFFSIZE = 32"

text \<open>One \<open>recv\<close>: an error, the end of the stream, or some bytes together with what the
  \<open>send\<close> that echoes them will return.\<close>

datatype recv_event = Recv_error | Recv_eof | Recv_data "char list" int

datatype outcome = Waiting | Closed | Died string | Undefined

record session =
  speed :: speed_state
  buffer :: "char list"
  echoed :: "char list list"

definition overlay :: "char list \<Rightarrow> char list \<Rightarrow> char list" where
  "overlay bs buf = bs @ drop (length bs) buf"

text \<open>The body of the loop for one message; \<open>Inl\<close> ends the process.\<close>

definition handle_message :: "char list \<Rightarrow> int \<Rightarrow> session \<Rightarrow> outcome + session" where
  "handle_message bs sent ss =
     (let buf = overlay bs (buffer ss) in
      case atof buf of None \<Rightarrow> Inl Undefined | Some v \<Rightarrow>
        (case SetTimeScale (f32_of v) (speed ss) of
           None \<Rightarrow> Inl Undefined
         | Some s' \<Rightarrow>
             if sent \<noteq> int (length bs) then Inl (Died ''Failed to send bytes to client'')
             else Inr (ss\<lparr>speed := s', buffer := buf, echoed := echoed ss @ [bs]\<rparr>)))"

fun handle_loop :: "string \<Rightarrow> recv_event list \<Rightarrow> session \<Rightarrow> outcome \<times> session" where
  "handle_loop failure [] ss = (Waiting, ss)"
| "handle_loop failure (Recv_error # es) ss = (Died failure, ss)"
| "handle_loop failure (Recv_eof # es) ss = (Closed, ss)"
| "handle_loop failure (Recv_data bs sent # es) ss =
     (case handle_message bs sent ss of
        Inl out \<Rightarrow> (out, ss)
      | Inr ss' \<Rightarrow> handle_loop ''Failed to receive additional bytes from client'' es ss')"

text \<open>The buffer is not initialised: its first contents are an argument.\<close>

definition HandleClient :: "char list \<Rightarrow> recv_event list \<Rightarrow> speed_state \<Rightarrow> outcome \<times> session" where
  "HandleClient stack es s =
     handle_loop ''Failed to receive initial bytes from client'' es
       \<lparr>speed = s, buffer = stack, echoed = []\<rparr>"

text \<open>A connection: the result of \<open>accept\<close>, the stack under the buffer, the \<open>recv\<close>s.\<close>

type_synonym connection = "int \<times> char list \<times> recv_event list"

fun accept_loop :: "connection list \<Rightarrow> speed_state \<Rightarrow> outcome \<times> speed_state" where
  "accept_loop [] s = (Waiting, s)"
| "accept_loop ((sock, stack, es) # cs) s =
     (if sock < 0 then (Died ''Failed to accept client connection'', s)
      else case HandleClient stack es s of (out, ss) \<Rightarrow>
        if out = Closed then accept_loop cs (speed ss) else (out, speed ss))"

record server_env =
  socket_ret :: int
  bind_ret :: int
  listen_ret :: int
  server_pid :: int
  connections :: "connection list"

text \<open>The port is the process id, cut to 16 bits by \<open>htons\<close>.\<close>

definition server_port :: "int \<Rightarrow> int" where
  "server_port pid = u16 pid"

definition StartIPCServer :: "server_env \<Rightarrow> speed_state \<Rightarrow> outcome \<times> speed_state" where
  "StartIPCServer e s =
     (if socket_ret e < 0 then (Died ''Failed to create socket'', s)
      else if bind_ret e < 0 then (Died ''Failed to bind the server socket'', s)
      else if listen_ret e < 0 then (Died ''Failed to listen on server socket'', s)
      else accept_loop (connections e) s)"

definition startServer :: "server_env \<Rightarrow> speed_state \<Rightarrow> outcome \<times> speed_state" where
  "startServer e s = StartIPCServer e ((do_speed_hook s)\<lparr>IsHooked := 0\<rparr>)"

section \<open>Lemmas\<close>

lemma handle_message_inv:
  "handle_message bs n ss = Inr ss' \<Longrightarrow> speed_inv (speed ss) \<Longrightarrow> speed_inv (speed ss')"
  by (auto simp: handle_message_def Let_def split: option.splits if_splits dest: SetTimeScale_inv(1))

lemma handle_loop_inv:
  "handle_loop f es ss = (out, ss') \<Longrightarrow> speed_inv (speed ss) \<Longrightarrow> speed_inv (speed ss')"
proof (induction f es ss rule: handle_loop.induct)
  case (4 f bs n es ss)
  then show ?case by (auto split: sum.splits dest: handle_message_inv)
qed simp_all

lemma handle_loop_hooked:
  "handle_loop f es ss = (out, ss') \<Longrightarrow> speed_inv (speed ss) \<Longrightarrow> IsHooked (speed ss) = 0 \<Longrightarrow>
    IsHooked (speed ss') = 0"
proof (induction f es ss rule: handle_loop.induct)
  case (4 f bs n es ss)
  have "handle_message bs n ss = Inr s1 \<Longrightarrow> IsHooked (speed s1) = 0" for s1
    using 4(3) by (auto simp: handle_message_def Let_def split: option.splits if_splits
        dest: SetTimeScale_inv(2))
  with 4 show ?case by (auto split: sum.splits dest: handle_message_inv)
qed simp_all

lemma accept_loop_inv:
  "accept_loop cs s = (out, s') \<Longrightarrow> speed_inv s \<Longrightarrow> IsHooked s = 0 \<Longrightarrow>
     speed_inv s' \<and> IsHooked s' = 0"
proof (induction cs s rule: accept_loop.induct)
  case (2 sock stack es cs s)
  obtain o1 ss where h: "HandleClient stack es s = (o1, ss)" by (cases "HandleClient stack es s")
  then have "speed_inv (speed ss) \<and> IsHooked (speed ss) = 0"
    using 2(3,4) by (auto simp: HandleClient_def dest: handle_loop_inv handle_loop_hooked)
  with 2 h show ?case by (auto split: if_splits)
qed simp

text \<open>A number that ends inside the message is read from the message alone.\<close>

definition decimal_text :: "string \<Rightarrow> string \<Rightarrow> string" where
  "decimal_text ip fp = ip @ ''.'' @ fp"

definition ends_number :: "char \<Rightarrow> bool" where
  "ends_number c \<longleftrightarrow> \<not> is_digit c \<and> c \<noteq> CHR ''e'' \<and> c \<noteq> CHR ''E''"

lemma scan_decimal_text:
  assumes "\<forall>d \<in> set ip. is_digit d" "ip \<noteq> []" "\<forall>d \<in> set fp. is_digit d" "ends_number c"
  shows "scan_decimal (decimal_text ip fp @ c # rest) =
    (of_int (digits_val (ip @ fp)) * pow10 (- int (length fp)), c # rest)"
proof -
  obtain d ds where ip: "ip = d # ds" using assms(2) by (cases ip) simp_all
  then have "is_digit d" using assms(1) by simp
  then have "\<not> is_space d" "d \<noteq> CHR ''-''" "d \<noteq> CHR ''+''"
    by (auto simp: is_digit_def is_space_def Let_def)
  then have sgn: "scan_sign (dropWhile is_space (decimal_text ip fp @ c # rest)) =
      (1, ip @ CHR ''.'' # fp @ c # rest)"
    by (simp add: ip decimal_text_def scan_sign_def)
  have dot: "\<not> is_digit (CHR ''.'')" by (simp add: is_digit_def)
  have c: "\<not> is_digit c" "c \<noteq> CHR ''e''" "c \<noteq> CHR ''E''"
    using assms(4) by (simp_all add: ends_number_def)
  show ?thesis
    unfolding scan_decimal_def Let_def sgn
    using takeWhile_digits [OF assms(1) dot] takeWhile_digits [OF assms(3) c(1)] assms(2) c
    by (simp add: scan_frac_def scan_exp_def)
qed


lemma atof_text:
  assumes "\<forall>d \<in> set ip. is_digit d" "ip \<noteq> []" "\<forall>d \<in> set fp. is_digit d" "ends_number c"
  shows "atof (overlay (decimal_text ip fp @ c # rest) buf) = Some (f64 (of_int (digits_val (ip @ fp)) * pow10 (- int (length fp))))"
proof -
  let ?m = "decimal_text ip fp @ c # rest"
  have "overlay ?m buf = decimal_text ip fp @ c # (rest @ drop (length ?m) buf)" by (simp add: overlay_def)
  then show ?thesis by (simp only: atof_def scan_decimal_text [OF assms]) simp
qed

subsection \<open>Clients that behave\<close>

text \<open>A message as the protocol means it: an unsigned decimal number, a character that ends it, and anything behind
  it, at most a buffer long.\<close>

record speed_message =
  whole_part :: string
  fraction :: string
  ending :: char
  trailer :: string

definition message_text :: "speed_message \<Rightarrow> char list" where
  "message_text m = decimal_text (whole_part m) (fraction m) @ ending m # trailer m"

definition message_ok :: "speed_message \<Rightarrow> bool" where
  "message_ok m \<longleftrightarrow> list_all is_digit (whole_part m) \<and> whole_part m \<noteq> [] \<and> list_all is_digit (fraction m) \<and> ends_number (ending m) \<and>
     length (message_text m) \<le> BUFFSIZE"

definition message_speed :: "speed_message \<Rightarrow> cfloat" where
  "message_speed m = f32_of (f64 (of_int (digits_val (whole_part m @ fraction m)) * pow10 (- int (length (fraction m)))))"

text \<open>It sends its messages, takes the echoes and closes.\<close>

definition says :: "speed_message list \<Rightarrow> recv_event list" where
  "says ms = map (\<lambda>m. Recv_data (message_text m) (int (length (message_text m)))) ms @ [Recv_eof]"

lemma digits_val_ge0: "list_all is_digit ds \<Longrightarrow> 0 \<le> digits_val ds"
proof (induction ds rule: rev_induct)
  case (snoc d ds)
  then have "0 \<le> digit_val d" by (simp add: is_digit_def digit_val_def Let_def)
  with snoc show ?case by (simp add: digits_val_snoc)
qed (simp add: digits_val_def)

lemma message_speed_ge0: "message_ok m \<Longrightarrow> f_ge0 (message_speed m)"
  unfolding message_speed_def using digits_val_ge0 [of "whole_part m @ fraction m"]
  by (intro f32_of_ge0 f64_ge0 mult_nonneg_nonneg) (auto simp: message_ok_def pow10_def)

lemma message_handled:
  assumes "message_ok m"
  shows "\<exists>s'. SetTimeScale (message_speed m) (speed ss) = Some s' \<and>
    handle_message (message_text m) (int (length (message_text m))) ss =
      Inr (ss\<lparr>speed := s', buffer := overlay (message_text m) (buffer ss), echoed := echoed ss @ [message_text m]\<rparr>)"
proof -
  have "atof (overlay (message_text m) (buffer ss)) =
      Some (f64 (of_int (digits_val (whole_part m @ fraction m)) * pow10 (- int (length (fraction m)))))"
    unfolding message_text_def using assms by (intro atof_text) (auto simp: message_ok_def list_all_iff)
  moreover obtain s' where "SetTimeScale (message_speed m) (speed ss) = Some s'"
    using message_speed_ge0 [OF assms] by (simp add: SetTimeScale_def Let_def)
  ultimately show ?thesis by (simp add: handle_message_def message_speed_def [symmetric] Let_def)
qed

lemma says_handled:
  "list_all message_ok ms \<Longrightarrow> \<exists>ss'. handle_loop f (says ms) ss = (Closed, ss') \<and>
     set_speeds (map message_speed ms) (speed ss) = Some (speed ss') \<and> echoed ss' = echoed ss @ map message_text ms"
proof (induction ms arbitrary: f ss)
  case (Cons m ms)
  from message_handled [of m ss] Cons.prems obtain s' where
    s': "SetTimeScale (message_speed m) (speed ss) = Some s'"
      "handle_message (message_text m) (int (length (message_text m))) ss =
        Inr (ss\<lparr>speed := s', buffer := overlay (message_text m) (buffer ss), echoed := echoed ss @ [message_text m]\<rparr>)" by auto
  from Cons.IH [of "''Failed to receive additional bytes from client''"
      "ss\<lparr>speed := s', buffer := overlay (message_text m) (buffer ss), echoed := echoed ss @ [message_text m]\<rparr>"] Cons.prems s'
  show ?case by (auto simp: says_def)
qed (simp add: says_def)

lemma set_speeds_append:
  "set_speeds (vs @ ws) s = (case set_speeds vs s of None \<Rightarrow> None | Some s' \<Rightarrow> set_speeds ws s')"
  by (induction vs arbitrary: s) (simp_all split: option.split)

lemma all_accepted:
  "list_all (\<lambda>(sock, stack, ms). 0 \<le> sock \<and> list_all message_ok ms) cs \<Longrightarrow>
     \<exists>s'. accept_loop (map (\<lambda>(sock, stack, ms). (sock, stack, says ms)) cs) s = (Waiting, s') \<and>
       set_speeds (concat (map (\<lambda>(sock, stack, ms). map message_speed ms) cs)) s = Some s'"
proof (induction cs arbitrary: s)
  case (Cons c cs)
  obtain sock stack ms where c: "c = (sock, stack, ms)" by (cases c)
  from says_handled [of ms "''Failed to receive initial bytes from client''" "\<lparr>speed = s, buffer = stack, echoed = []\<rparr>"] Cons.prems
  obtain ss where "HandleClient stack (says ms) s = (Closed, ss)" "set_speeds (map message_speed ms) s = Some (speed ss)"
    by (auto simp: c HandleClient_def)
  with Cons.IH [of "speed ss"] Cons.prems show ?case by (simp add: c set_speeds_append)
qed simp

section \<open>Properties\<close>

text \<open>C39. Whatever clients connect and whatever they send, the server never hooks the clock
  functions a second time (a second \<open>MSHookFunction\<close> would make a hook its own original), and the
  factor stays non-negative.\<close>

theorem server_never_hooks_twice:
  assumes "startServer e initial_speed = (out, s)"
  shows "hook_calls s = [Sym_clock_gettime, Sym_gettimeofday] \<and> f_ge0 (g_times s)"
proof -
  let ?s = "(do_speed_hook initial_speed)\<lparr>IsHooked := 0\<rparr>"
  have inv: "speed_inv ?s \<and> IsHooked ?s = 0"
    by (simp add: speed_inv_def do_speed_hook_def initial_speed_def)
  have "s = ?s \<or> accept_loop (connections e) ?s = (out, s)"
    using assms by (auto simp: startServer_def StartIPCServer_def split: if_splits)
  then have "speed_inv s \<and> IsHooked s = 0"
    using inv accept_loop_inv by blast
  then show ?thesis by (simp add: speed_inv_def)
qed

theorem server_never_hooks_twice_witness:
  "hook_calls (snd (startServer \<lparr>socket_ret = 3, bind_ret = 0, listen_ret = 0, server_pid = 99,
       connections = [(4, replicate 32 NUL, [Recv_data ''2.5000'' 6, Recv_eof])]\<rparr> initial_speed))
   = [Sym_clock_gettime, Sym_gettimeofday]"
  (is "hook_calls (snd (startServer ?e initial_speed)) = _")
  using server_never_hooks_twice [of ?e "fst (startServer ?e initial_speed)"] by simp



lemma message_2: "scan_decimal (''2.0'' @ NUL # rest) = (2, NUL # rest)"
  using scan_decimal_text [of "''2''" "''0''" NUL rest]
  by (simp add: decimal_text_def is_digit_def ends_number_def digits_val_def digit_val_def pow10_def)

lemma f64_int [simp]: "\<bar>k\<bar> \<le> 2 ^ 53 \<Longrightarrow> f64 (of_int k) = Fin (of_int k)"
  unfolding f64_def by (rule round_to_int_exact) auto

lemma f64_numeral [simp]: "numeral n \<le> (9007199254740992 :: int) \<Longrightarrow> f64 (numeral n) = Fin (numeral n)"
  using f64_int [of "numeral n"] by simp

text \<open>A message in which the number is followed by a character that ends it sets the speed
  to exactly that number, whatever the buffer held before.\<close>

theorem terminated_message_sets_speed:
  assumes "\<forall>d \<in> set ip. is_digit d" "ip \<noteq> []" "\<forall>d \<in> set fp. is_digit d" "ends_number c"
    and "handle_message (decimal_text ip fp @ c # rest) sent ss = Inr ss'"
  shows "SetTimeScale (f32_of (f64 (of_int (digits_val (ip @ fp)) * pow10 (- int (length fp)))))
    (speed ss) = Some (speed ss')"
  using assms(5) atof_text [OF assms(1-4), of rest "buffer ss"]
  by (auto simp: handle_message_def Let_def split: option.splits if_splits)

lemma message_2_handled:
  "\<exists>ss'. handle_message (decimal_text ''2'' ''0'' @ NUL # []) 4
     \<lparr>speed = initial_speed, buffer = replicate 32 NUL, echoed = []\<rparr> = Inr ss'"
proof -
  have "overlay (decimal_text ''2'' ''0'' @ NUL # []) (replicate 32 NUL) = ''2.0'' @ NUL # replicate 28 NUL"
    by (simp add: overlay_def decimal_text_def numeral_eq_Suc)
  then have "atof (overlay (decimal_text ''2'' ''0'' @ NUL # []) (replicate 32 NUL)) = Some (Fin 2)"
    by (simp only: atof_def message_2) simp
  then show ?thesis
    by (simp add: handle_message_def Let_def SetTimeScale_def initial_speed_def decimal_text_def)
qed

theorem terminated_message_sets_speed_witness:
  "\<exists>ss' :: session. SetTimeScale (f32_of (f64 (of_int (digits_val (''2'' @ ''0'')) * pow10 (- int (length ''0'')))))
     initial_speed = Some (speed ss')"
proof -
  obtain ss' where h: "handle_message (decimal_text ''2'' ''0'' @ NUL # []) 4
      \<lparr>speed = initial_speed, buffer = replicate 32 NUL, echoed = []\<rparr> = Inr ss'"
    using message_2_handled by blast
  have "SetTimeScale (f32_of (f64 (of_int (digits_val (''2'' @ ''0'')) * pow10 (- int (length ''0'')))))
      (speed \<lparr>speed = initial_speed, buffer = replicate 32 NUL, echoed = []\<rparr>) = Some (speed ss')"
    by (rule terminated_message_sets_speed [OF _ _ _ _ h]) (simp_all add: is_digit_def ends_number_def)
  then show ?thesis by auto
qed

text \<open>The buffer is never cleared and messages carry no terminator: after \<open>10\<close>, the message
  \<open>5\<close> is read as \<open>50\<close>, and the factor becomes 51 instead of 6.\<close>

theorem stale_bytes_change_the_speed:
  "\<exists>ss. HandleClient (replicate 32 NUL) [Recv_data ''10'' 2, Recv_data ''5'' 1, Recv_eof]
     initial_speed = (Closed, ss) \<and> g_times (speed ss) = Fin 51"
proof -
  have "overlay ''10'' (replicate 32 NUL) = ''10'' @ replicate 30 NUL"
    "overlay ''5'' (''10'' @ replicate 30 NUL) = ''50'' @ replicate 30 NUL"
    by (simp_all add: overlay_def numeral_eq_Suc)
  moreover have "scan_decimal (''10'' @ replicate 30 NUL) = (10, replicate 30 NUL)"
    "scan_decimal (''50'' @ replicate 30 NUL) = (50, replicate 30 NUL)"
    by code_simp+
  ultimately show ?thesis
    by (simp add: HandleClient_def handle_message_def atof_def Let_def SetTimeScale_def
        initial_speed_def)
qed

end
