(* ===== verification/Client.thy ===== *)
theory Client
  imports IpcServer
begin

text \<open>
  \<^verbatim>\<open>jni/serverClient.cpp\<close>: the controller's side. \<open>find_pid_of\<close> looks a process up by its
  command line, \<open>upspeed\<close> connects to the server inside it and sends the speed as text, and
  \<open>itoa\<close> prints a number. The contents of \<open>/proc\<close> and the results of the socket calls are
  inputs; the calls \<open>upspeed\<close> makes are recorded in its result.
\<close>

section \<open>Looking up a process\<close>

text \<open>
  An entry of \<open>/proc\<close>: its name, and the contents of \<open>/proc/<atoi name>/cmdline\<close> if that file
  opens. \<open>cmdline\<close> is the 256-byte stack buffer, which the loop keeps from one process to the
  next.
\<close>

type_synonym proc_entry = "string \<times> string option"

fun find_pid_loop :: "string \<Rightarrow> char list \<Rightarrow> proc_entry list \<Rightarrow> int" where
  "find_pid_loop process_name cmdline [] = -1"
| "find_pid_loop process_name cmdline ((d_name, file) # es) =
     (if atoi d_name \<noteq> 0 then
        case file of
          None \<Rightarrow> find_pid_loop process_name cmdline es
        | Some contents \<Rightarrow>
            let cmdline' = fgets_buf cmdline contents in
            if process_name = c_str cmdline' then atoi d_name
            else find_pid_loop process_name cmdline' es
      else find_pid_loop process_name cmdline es)"

text \<open>\<open>None\<close> as the name is the null pointer, \<open>None\<close> as the directory a failed \<open>opendir\<close>.\<close>

definition find_pid_of :: "string option \<Rightarrow> proc_entry list option \<Rightarrow> char list \<Rightarrow> int" where
  "find_pid_of process_name dir cmdline =
     (case process_name of None \<Rightarrow> -1 | Some name \<Rightarrow>
       (case dir of None \<Rightarrow> -1 | Some es \<Rightarrow> find_pid_loop name cmdline es))"

section \<open>Sending the speed\<close>

datatype client_call =
    Socket | Connect int | Format_into_buf4 nat | Send string | Recv int | Close_socket

record client_env =
  proc_dir :: "proc_entry list option"
  cmdline_stack :: "char list"
  c_socket_ret :: int
  c_connect_ret :: int
  c_send_ret :: int
  c_recv_rets :: "int list"

text \<open>The loop that reads the echo; \<open>None\<close>: still waiting in \<open>recv\<close>.\<close>

fun read_echo :: "int \<Rightarrow> int \<Rightarrow> int list \<Rightarrow> int option \<times> client_call list" where
  "read_echo echolen received bytes =
     (if received < echolen then
        case bytes of
          [] \<Rightarrow> (None, [])
        | b # bs \<Rightarrow>
            if b < 1 then (Some (-1), [Recv b])
            else case read_echo echolen (received + b) bs of (r, t) \<Rightarrow> (r, Recv b # t)
      else (Some 0, [Close_socket]))"

declare read_echo.simps [simp del]

text \<open>
  \<open>sprintf\<close> writes the text and its NUL into \<open>char buf[4]\<close>; the event records how many bytes.
  The rest of the model goes on as the code does when the bytes past \<open>buf\<close> are harmless.
\<close>

definition upspeed :: "client_env \<Rightarrow> string \<Rightarrow> cfloat \<Rightarrow> int option \<times> client_call list" where
  "upspeed e package v =
     (let pid = find_pid_of (Some package) (proc_dir e) (cmdline_stack e);
          port = u16 pid; text = format_f4 v; echolen = int (length text)
      in if c_socket_ret e < 0 then (Some (-1), [Socket])
         else if c_connect_ret e < 0 then (Some (-1), [Socket, Connect port])
         else if c_send_ret e \<noteq> echolen
           then (Some (-1), [Socket, Connect port, Format_into_buf4 (length text + 1), Send text])
         else case read_echo echolen 0 (c_recv_rets e) of (r, t) \<Rightarrow>
           (r, [Socket, Connect port, Format_into_buf4 (length text + 1), Send text] @ t))"

section \<open>Printing a number\<close>

text \<open>
  \<open>itoa\<close> fills a static buffer of 36 bytes from its end, starting with the constant \<open>'/0'\<close>:
  not the terminator \<open>'\0'\<close> but a multi-character constant, whose low byte is the character
  \<open>0\<close>. The result is the bytes from \<open>p\<close> to the end of the buffer.
\<close>

definition hex_digit :: "int \<Rightarrow> char" where
  "hex_digit d = ''0123456789abcdef'' ! nat d"

function itoa_digits :: "int \<Rightarrow> int \<Rightarrow> char list \<Rightarrow> char list" where
  "itoa_digits base n acc =
     (if 0 < n \<and> 2 \<le> base then itoa_digits base (n div base) (hex_digit (n mod base) # acc) else acc)"
  by pat_completeness auto
termination
  by (relation "measure (\<lambda>(base, n, acc). nat n)") (auto simp: int_div_less_self)

declare itoa_digits.simps [simp del]

text \<open>A base outside 2 to 16 divides by zero, never ends or indexes past the digits; negating
  the least \<open>long\<close> overflows: \<open>None\<close>.\<close>

definition itoa :: "int \<Rightarrow> int \<Rightarrow> char list option" where
  "itoa n base =
     (if base < 2 \<or> 16 < base \<or> n = - (2 ^ 31) then None
      else
        let p = ''0'';
            m = (if n < 0 then - n else n);
            p' = (if m = 0 then CHR ''0'' # p else itoa_digits base m p)
        in Some (if n < 0 then CHR ''-'' # p' else p'))"


section \<open>Lemmas\<close>

definition entry_matches :: "string \<Rightarrow> proc_entry \<Rightarrow> bool" where
  "entry_matches name e \<longleftrightarrow> atoi (fst e) \<noteq> 0 \<and>
     (case snd e of None \<Rightarrow> False | Some s \<Rightarrow> s \<noteq> [] \<and> c_str (fgets_line 256 s) = name)"

lemma c_str_append_NUL [simp]: "c_str (s @ NUL # t) = c_str s"
  by (induction s) (simp_all add: c_str_def)

lemma fgets_buf_nonempty:
  assumes "s \<noteq> []" "length buf = 256"
  shows "c_str (fgets_buf buf s) = c_str (fgets_line 256 s)" and "length (fgets_buf buf s) = 256"
proof -
  have "length (fgets_line 256 s) \<le> 255" by (simp add: fgets_line_def Let_def)
  with assms show "length (fgets_buf buf s) = 256" by (simp add: fgets_buf_def)
  show "c_str (fgets_buf buf s) = c_str (fgets_line 256 s)"
    using assms by (simp add: fgets_buf_def Let_def)
qed

lemma fgets_buf_empty [simp]: "fgets_buf buf [] = buf"
  by (simp add: fgets_buf_def)

lemma find_pid_loop_find:
  "length buf = 256 \<Longrightarrow> c_str buf \<noteq> name \<Longrightarrow>
   find_pid_loop name buf es =
     (case find (entry_matches name) es of None \<Rightarrow> -1 | Some e \<Rightarrow> atoi (fst e))"
proof (induction es arbitrary: buf)
  case Nil
  then show ?case by simp
next
  case (Cons e es)
  obtain d f where e: "e = (d, f)" by (cases e)
  show ?case
  proof (cases "atoi d \<noteq> 0 \<and> (\<exists>s. f = Some s \<and> s \<noteq> [])")
    case True
    then obtain s where s: "f = Some s" "s \<noteq> []" by blast
    with Cons True show ?thesis
      using fgets_buf_nonempty [OF s(2) Cons.prems(1)]
      by (auto simp: e entry_matches_def Let_def)
  next
    case False
    then show ?thesis
      using Cons by (cases f) (auto simp: e entry_matches_def)
  qed
qed

lemma itoa_digits_10: "itoa_digits 10 (int n) acc = (if n = 0 then [] else nat_digits n) @ acc"
proof (induction n arbitrary: acc rule: nat_digits.induct)
  case (1 n)
  have hd: "hex_digit (int (n mod 10)) = char_of (48 + n mod 10)"
  proof -
    have "n mod 10 < 10" by simp
    then have "n mod 10 \<in> {0, 1, 2, 3, 4, 5, 6, 7, 8, 9}" unfolding insert_iff empty_iff by presburger
    then show ?thesis by (auto simp: hex_digit_def)
  qed
  have step: "0 < n \<Longrightarrow> itoa_digits 10 (int n) acc =
      itoa_digits 10 (int (n div 10)) (char_of (48 + n mod 10) # acc)"
    by (subst itoa_digits.simps) (simp add: hd [symmetric] zdiv_int zmod_int)
  show ?case
  proof (cases "n < 10")
    case True
    then show ?thesis
      using step by (cases "n = 0") (simp_all add: itoa_digits.simps [of 10 0] nat_digits.simps [of n])
  next
    case False
    then have "n div 10 \<noteq> 0" by simp
    with False show ?thesis
      using step 1 [of "char_of (48 + n mod 10) # acc"] by (simp add: nat_digits.simps [of n])
  qed
qed

lemma itoa_digits_length:
  "0 \<le> n \<Longrightarrow> n < 2 ^ k \<Longrightarrow> length (itoa_digits base n acc) \<le> k + length acc"
proof (induction k arbitrary: n acc)
  case 0
  then show ?case by (subst itoa_digits.simps) simp
next
  case (Suc k)
  show ?case
  proof (cases "0 < n \<and> 2 \<le> base")
    case True
    have "n div base \<le> n div 2" using True Suc.prems by (intro zdiv_mono2) simp_all
    also have "\<dots> < 2 ^ k" using Suc.prems by simp
    finally have "length (itoa_digits base (n div base) (hex_digit (n mod base) # acc)) \<le>
        k + length (hex_digit (n mod base) # acc)"
      using True by (intro Suc.IH) (simp_all add: pos_imp_zdiv_nonneg_iff)
    with True show ?thesis by (subst itoa_digits.simps) simp
  next
    case False
    then show ?thesis by (subst itoa_digits.simps) auto
  qed
qed

lemma format_f4_length: "6 \<le> length (format_f4 (Fin x))"
proof -
  let ?n = "nat (round_half_even (\<bar>x\<bar> * 10000))"
  have "0 < length (nat_digits (?n div 10000))" by simp
  moreover have "4 \<le> length (pad0 4 (nat_digits (?n mod 10000)))" by (simp add: pad0_def)
  ultimately have "5 \<le> length (nat_digits (?n div 10000)) + length (pad0 4 (nat_digits (?n mod 10000)))"
    by linarith
  then show ?thesis by (simp add: Let_def)
qed


section \<open>Properties\<close>

text \<open>\<open>find_pid_of\<close> returns the id of the first process whose command line is the name, and
  -1 if there is none. The buffer it keeps between processes does no harm: what an empty
  command line leaves in it has already been compared.\<close>

theorem find_pid_of_first_match:
  assumes "length buf = 256" "c_str buf \<noteq> name"
  shows "find_pid_of (Some name) (Some es) buf =
    (case find (entry_matches name) es of None \<Rightarrow> -1 | Some e \<Rightarrow> atoi (fst e))"
  using find_pid_loop_find [OF assms] by (simp add: find_pid_of_def)

theorem find_pid_of_first_match_witness:
  "find_pid_of (Some ''app'') (Some [(''self'', Some ''app''), (''12'', Some []), (''34'', Some ''app'')])
     (replicate 256 NUL) = 34"
proof -
  let ?es = "[(''self'', Some ''app''), (''12'', Some []), (''34'', Some ''app'')]"
  have "find (entry_matches ''app'') ?es = Some (''34'', Some ''app'')" "atoi ''34'' = 34"
    by code_simp+
  moreover have "c_str (replicate 256 NUL) \<noteq> ''app''" by (simp add: c_str_def)
  ultimately show ?thesis
    using find_pid_of_first_match [of "replicate 256 NUL" "''app''" ?es] by simp
qed

text \<open>A process that is not found is not reported: \<open>upspeed\<close> goes on with the id -1 and
  connects to port 65535.\<close>

theorem missing_process_is_contacted:
  assumes "find_pid_of (Some package) (proc_dir e) (cmdline_stack e) = -1" "0 \<le> c_socket_ret e"
  shows "\<exists>r t. upspeed e package v = (r, Socket # Connect 65535 # t)"
  using assms by (cases "read_echo (int (length (format_f4 v))) 0 (c_recv_rets e)")
    (auto simp: upspeed_def Let_def wrap_u_def)

theorem missing_process_is_contacted_witness:
  "\<exists>r t. upspeed \<lparr>proc_dir = None, cmdline_stack = [], c_socket_ret = 5, c_connect_ret = 0,
     c_send_ret = 6, c_recv_rets = []\<rparr> ''app'' (Fin 2) = (r, Socket # Connect 65535 # t)"
  by (rule missing_process_is_contacted) (simp_all add: find_pid_of_def)

text \<open>The text of a finite speed never fits the four bytes of \<open>buf\<close>: every \<open>upspeed\<close> that
  gets as far as \<open>sprintf\<close> writes at least three bytes past its end.\<close>

theorem upspeed_overflows_buf:
  assumes "0 \<le> c_socket_ret e" "0 \<le> c_connect_ret e"
  shows "\<exists>n \<ge> 7. Format_into_buf4 n \<in> set (snd (upspeed e package (Fin x)))"
  using assms format_f4_length [of x]
  by (intro exI [of _ "length (format_f4 (Fin x)) + 1"])
    (auto simp: upspeed_def Let_def simp del: format_f4.simps split: prod.splits)

theorem upspeed_overflows_buf_witness:
  "\<exists>n \<ge> 7. Format_into_buf4 n \<in> set (snd (upspeed \<lparr>proc_dir = None, cmdline_stack = [],
     c_socket_ret = 5, c_connect_ret = 0, c_send_ret = 6, c_recv_rets = []\<rparr> ''app'' (Fin 2)))"
  by (rule upspeed_overflows_buf) simp_all

lemma read_echo_close:
  "read_echo n k bs = (r, t) \<Longrightarrow> (Close_socket \<in> set t \<longleftrightarrow> r = Some 0)"
proof (induction n k bs arbitrary: r t rule: read_echo.induct)
  case (1 n k bs)
  then show ?case
    by (cases bs) (auto simp: read_echo.simps [of n k] split: if_splits prod.splits)
qed

text \<open>\<open>upspeed\<close> closes its socket exactly when it succeeds: every error return leaks the
  descriptor.\<close>

theorem upspeed_closes_iff_success:
  "Close_socket \<in> set (snd (upspeed e package v)) \<longleftrightarrow> fst (upspeed e package v) = Some 0"
proof (cases "read_echo (int (length (format_f4 v))) 0 (c_recv_rets e)")
  case (Pair r t)
  with read_echo_close [OF Pair] show ?thesis by (simp add: upspeed_def Let_def)
qed

text \<open>In base 10 \<open>itoa\<close> returns the decimal digits followed by a spurious \<open>0\<close> and no
  terminator.\<close>

theorem itoa_decimal:
  assumes "- (2 ^ 31) < n" "n < 2 ^ 31"
  shows "itoa n 10 = Some (format_d n @ ''0'')"
  using assms itoa_digits_10 [of "nat \<bar>n\<bar>" "''0''"]
  by (auto simp: itoa_def format_d_def Let_def nat_digits.simps [of 0] abs_if split: if_splits)

theorem itoa_decimal_witness: "itoa (-42) 10 = Some ''-420''"
proof -
  have "format_d (-42) = ''-42''" by (simp add: format_d_def nat_digits.simps)
  with itoa_decimal [of "-42"] show ?thesis by simp
qed

text \<open>For every \<open>long\<close> and every base the function supports, the digits and the sign stay
  within the 36 bytes of the static buffer.\<close>

theorem itoa_fits_buffer:
  assumes "- (2 ^ 31) < n" "n < 2 ^ 31" "2 \<le> base" "base \<le> 16"
  shows "\<exists>s. itoa n base = Some s \<and> length s \<le> 36"
proof -
  have "length (itoa_digits base m ''0'') \<le> 32" if "0 \<le> m" "m < 2 ^ 31" for m
    using itoa_digits_length [OF that, of base "''0''"] by simp
  then have "length (itoa_digits base \<bar>n\<bar> ''0'') \<le> 32" using assms by simp
  with assms show ?thesis by (auto simp: itoa_def Let_def abs_if split: if_splits)
qed

theorem itoa_fits_buffer_witness: "\<exists>s. itoa (-2147483647) 2 = Some s \<and> length s \<le> 36"
  by (rule itoa_fits_buffer) simp_all

end
