(* ===== verification/Injector.thy ===== *)
theory Injector
  imports Client
begin

text \<open>
  \<^verbatim>\<open>jni/elfinject.c\<close> (the ARM build): the program that attaches to a process with \<open>ptrace\<close>,
  makes it call \<open>mmap\<close>, \<open>dlopen\<close>, \<open>dlsym\<close>, the entry function and \<open>dlclose\<close>, and lets it go.

  The traced process is its memory, its registers and whether it is attached. What the kernel
  answers is a script, one response for each request that can fail: a request on the attached
  process succeeds or fails, and a resumed process stops with a wait status and with registers
  and a memory of its own. Without a response the injector waits for ever, which is \<open>None\<close>.
  Reading and writing the memory of a stopped process is taken to succeed, as the code, which
  never looks at the result, takes it.
\<close>

unbundle bit_operations_syntax

type_synonym memory = "u4 \<Rightarrow> u1"
type_synonym regs = "nat \<Rightarrow> u4" \<comment> \<open>\<open>uregs[0..17]\<close>: r0 to r15, cpsr, the saved r0\<close>

abbreviation (input) ARM_r0 :: nat where "ARM_r0 \<equiv> 0"
abbreviation (input) ARM_sp :: nat where "ARM_sp \<equiv> 13"
abbreviation (input) ARM_lr :: nat where "ARM_lr \<equiv> 14"
abbreviation (input) ARM_pc :: nat where "ARM_pc \<equiv> 15"
abbreviation (input) ARM_cpsr :: nat where "ARM_cpsr \<equiv> 16"

datatype response = Granted | Refused | Stops int regs memory

record target =
  t_mem :: memory
  t_regs :: regs
  attached :: bool
  script :: "response list"
  calls :: "(string \<times> u4) list" \<comment> \<open>the functions called in the process, latest first\<close>

section \<open>The memory of the process\<close>

definition peek :: "memory \<Rightarrow> u4 \<Rightarrow> u1 list" where
  "peek m a = [m a, m (a + 1), m (a + 2), m (a + 3)]"

definition poke :: "memory \<Rightarrow> u4 \<Rightarrow> u1 list \<Rightarrow> memory" where
  "poke m a bs = m(a := bs ! 0, a + 1 := bs ! 1, a + 2 := bs ! 2, a + 3 := bs ! 3)"

fun read_words :: "nat \<Rightarrow> memory \<Rightarrow> u4 \<Rightarrow> u1 list" where
  "read_words 0 m src = []"
| "read_words (Suc j) m src = peek m src @ read_words j m (src + 4)"

definition ptrace_readdata :: "memory \<Rightarrow> u4 \<Rightarrow> nat \<Rightarrow> u1 list" where
  "ptrace_readdata m src n =
     (let j = n div 4; remain = n mod 4 in
      read_words j m src @
      (if 0 < remain then take remain (peek m (src + 4 * of_nat j)) else []))"

fun write_words :: "nat \<Rightarrow> memory \<Rightarrow> u4 \<Rightarrow> u1 list \<Rightarrow> memory" where
  "write_words 0 m dest data = m"
| "write_words (Suc j) m dest data =
     write_words j (poke m dest (take 4 data)) (dest + 4) (drop 4 data)"

definition ptrace_writedata :: "memory \<Rightarrow> u4 \<Rightarrow> u1 list \<Rightarrow> memory" where
  "ptrace_writedata m dest data =
     (let j = length data div 4; remain = length data mod 4;
          m' = write_words j m dest data;
          dest' = dest + 4 * of_nat j; laddr = drop (4 * j) data
      in if 0 < remain
         then poke m' dest' (take remain laddr @ drop remain (peek m' dest'))
         else m')"

section \<open>Requests\<close>

definition respond :: "target \<Rightarrow> (response \<times> target) option" where
  "respond t = (case script t of [] \<Rightarrow> None | r # rs \<Rightarrow> Some (r, t\<lparr>script := rs\<rparr>))"

definition ptrace_getregs :: "target \<Rightarrow> (regs option \<times> target) option" where
  "ptrace_getregs t = (case respond t of None \<Rightarrow> None | Some (r, t') \<Rightarrow>
     Some (if r = Refused then None else Some (t_regs t'), t'))"

definition ptrace_setregs :: "regs \<Rightarrow> target \<Rightarrow> (int \<times> target) option" where
  "ptrace_setregs regs t = (case respond t of None \<Rightarrow> None | Some (r, t') \<Rightarrow>
     Some (if r = Refused then (-1, t') else (0, t'\<lparr>t_regs := regs\<rparr>)))"

text \<open>\<open>ptrace_continue\<close> and the \<open>waitpid\<close> after it: the status the process stops with.\<close>

definition ptrace_continue_wait :: "target \<Rightarrow> (int option \<times> target) option" where
  "ptrace_continue_wait t = (case respond t of
       Some (Stops st regs m, t') \<Rightarrow> Some (Some st, t'\<lparr>t_regs := regs, t_mem := m\<rparr>)
     | Some (Refused, t') \<Rightarrow> Some (None, t')
     | _ \<Rightarrow> None)"

definition ptrace_attach :: "target \<Rightarrow> (int \<times> target) option" where
  "ptrace_attach t = (case respond t of None \<Rightarrow> None | Some (r, t') \<Rightarrow>
     Some (if r = Refused then (-1, t') else (0, t'\<lparr>attached := True\<rparr>)))"

definition ptrace_detach :: "target \<Rightarrow> (int \<times> target) option" where
  "ptrace_detach t = (case respond t of None \<Rightarrow> None | Some (r, t') \<Rightarrow>
     Some (if r = Refused then (-1, t') else (0, t'\<lparr>attached := False\<rparr>)))"

section \<open>Calling a function in the process\<close>

definition CPSR_T_MASK :: u4 where "CPSR_T_MASK = push_bit 5 1"

definition word_bytes :: "u4 \<Rightarrow> u1 list" where
  "word_bytes w = [ucast w, ucast (drop_bit 8 w), ucast (drop_bit 16 w), ucast (drop_bit 24 w)]"

text \<open>The registers and the memory set up for the call: the first four parameters in registers,
  the rest on the stack, the Thumb bit from the address, and a return address of 0.\<close>

fun set_params :: "nat \<Rightarrow> u4 list \<Rightarrow> regs \<Rightarrow> regs" where
  "set_params i [] regs = regs"
| "set_params i (p # ps) regs = (if i < 4 then set_params (Suc i) ps (regs(i := p)) else regs)"

definition push_params :: "u4 list \<Rightarrow> regs \<Rightarrow> memory \<Rightarrow> regs \<times> memory" where
  "push_params params regs m =
     (if 4 < length params then
        let sp = regs ARM_sp - of_nat (length params - 4) * 4 in
        (regs(ARM_sp := sp), ptrace_writedata m sp (concat (map word_bytes (drop 4 params))))
      else (regs, m))"

definition set_pc :: "u4 \<Rightarrow> regs \<Rightarrow> regs" where
  "set_pc addr regs =
     (if bit addr 0
      then regs(ARM_pc := addr AND NOT 1, ARM_cpsr := regs ARM_cpsr OR CPSR_T_MASK, ARM_lr := 0)
      else regs(ARM_pc := addr, ARM_cpsr := regs ARM_cpsr AND NOT CPSR_T_MASK, ARM_lr := 0))"

text \<open>Resume until the process stops with a segmentation fault, status \<open>0xb7f\<close>.\<close>

function wait_for_fault :: "target \<Rightarrow> (bool \<times> target) option" where
  "wait_for_fault t =
     (case ptrace_continue_wait t of
        None \<Rightarrow> None
      | Some (None, t') \<Rightarrow> Some (False, t')
      | Some (Some st, t') \<Rightarrow> if st = 2943 then Some (True, t') else wait_for_fault t')"
  by pat_completeness auto
termination
proof (relation "measure (\<lambda>t. length (script t))", goal_cases)
  case (2 t p st t')
  then show ?case
    by (auto simp: ptrace_continue_wait_def respond_def split: list.splits response.splits)
qed simp

declare wait_for_fault.simps [simp del]

text \<open>\<open>ptrace_call\<close> and \<open>ptrace_getregs\<close>, as \<open>ptrace_call_wrapper\<close> makes them: the registers after
  the call, or \<open>None\<close> as the error -1.\<close>

definition ptrace_call :: "u4 \<Rightarrow> u4 list \<Rightarrow> regs \<Rightarrow> target \<Rightarrow> (bool \<times> target) option" where
  "ptrace_call addr params regs t =
     (case push_params params (set_params 0 params regs) (t_mem t) of (regs', m) \<Rightarrow>
        case ptrace_setregs (set_pc addr regs') (t\<lparr>t_mem := m\<rparr>) of
          None \<Rightarrow> None
        | Some (r, t') \<Rightarrow> if r = -1 then Some (False, t') else wait_for_fault t')"

definition ptrace_call_wrapper ::
    "string \<Rightarrow> u4 \<Rightarrow> u4 list \<Rightarrow> regs \<Rightarrow> target \<Rightarrow> (regs option \<times> target) option" where
  "ptrace_call_wrapper func_name func_addr parameters regs t =
     (case ptrace_call func_addr parameters regs (t\<lparr>calls := (func_name, func_addr) # calls t\<rparr>) of
        None \<Rightarrow> None
      | Some (False, t') \<Rightarrow> Some (None, t')
      | Some (True, t') \<Rightarrow> ptrace_getregs t')"

definition ptrace_retval :: "regs \<Rightarrow> u4" where "ptrace_retval regs = regs ARM_r0"
definition ptrace_ip :: "regs \<Rightarrow> u4" where "ptrace_ip regs = regs ARM_pc"


section \<open>Addresses\<close>

lemma fgets_line_nonempty: "s \<noteq> [] \<Longrightarrow> fgets_line 1024 s \<noteq> []"
  by (cases s) (auto simp: fgets_line_def Let_def)

text \<open>\<open>strtok(line, "-")\<close>: the text before the first dash, leading dashes skipped.\<close>

definition strtok_dash :: "string \<Rightarrow> string" where
  "strtok_dash line = takeWhile (\<lambda>c. c \<noteq> CHR ''-'') (dropWhile (\<lambda>c. c = CHR ''-'') (c_str line))"

function maps_scan :: "string \<Rightarrow> string \<Rightarrow> int" where
  "maps_scan module_name file =
     (if file = [] then 0
      else let line = fgets_line 1024 file in
        if is_substring module_name (c_str line)
        then (let addr = strtoul16 (strtok_dash line) in if addr = 32768 then 0 else addr)
        else maps_scan module_name (drop (length line) file))"
  by pat_completeness auto
termination
  by (relation "measure (\<lambda>(n, f). length f)") (auto simp: fgets_line_nonempty)

declare maps_scan.simps [simp del]

text \<open>\<open>None\<close>: the maps file of the process does not open.\<close>

definition get_module_base :: "string option \<Rightarrow> string \<Rightarrow> u4" where
  "get_module_base maps module_name =
     (case maps of None \<Rightarrow> 0 | Some file \<Rightarrow> word_of_int (maps_scan module_name file))"

definition get_remote_addr :: "string option \<Rightarrow> string option \<Rightarrow> string \<Rightarrow> u4 \<Rightarrow> u4" where
  "get_remote_addr self_maps target_maps module_name local_addr =
     local_addr + get_module_base target_maps module_name - get_module_base self_maps module_name"

section \<open>The injection\<close>

definition libc_path :: string where "libc_path = ''/system/lib/libc.so''"
definition linker_path :: string where "linker_path = ''/system/bin/linker''"

record inject_env =
  self_maps :: "string option"
  target_maps :: "string option"
  a_mmap :: u4
  a_dlopen :: u4
  a_dlsym :: u4
  a_dlclose :: u4
  log_opens :: bool

datatype injected = Returned int | Crashed

text \<open>\<open>initlog\<close> returns 0 when the log opens, and the callers write to it when the result is not
  0: with no log to open they pass a null stream to \<open>fprintf\<close>.\<close>

definition initlog :: "inject_env \<Rightarrow> int" where
  "initlog e = (if log_opens e then 0 else -1)"

definition exit_logging :: "inject_env \<Rightarrow> int \<Rightarrow> target \<Rightarrow> (injected \<times> target) option" where
  "exit_logging e ret t = Some (if initlog e \<noteq> 0 then Crashed else Returned ret, t)"

definition c_bytes :: "string \<Rightarrow> u1 list" where
  "c_bytes s = map of_char s @ [0]"

definition write_string :: "u4 \<Rightarrow> string \<Rightarrow> target \<Rightarrow> target" where
  "write_string a s t = t\<lparr>t_mem := ptrace_writedata (t_mem t) a (c_bytes s)\<rparr>"

text \<open>A remote call, and the exit with \<open>ret\<close> when it fails.\<close>

definition remote_call ::
    "inject_env \<Rightarrow> int \<Rightarrow> string \<Rightarrow> u4 \<Rightarrow> u4 list \<Rightarrow> regs \<Rightarrow> target \<Rightarrow>
     (regs \<Rightarrow> target \<Rightarrow> (injected \<times> target) option) \<Rightarrow> (injected \<times> target) option" where
  "remote_call e ret name addr params regs t k =
     (case ptrace_call_wrapper name addr params regs t of
        None \<Rightarrow> None
      | Some (None, t') \<Rightarrow> exit_logging e ret t'
      | Some (Some regs', t') \<Rightarrow> k regs' t')"

definition RTLD_FLAGS :: u4 where "RTLD_FLAGS = 2" \<comment> \<open>\<open>RTLD_NOW | RTLD_GLOBAL\<close>\<close>

definition restore_and_detach :: "regs \<Rightarrow> target \<Rightarrow> (injected \<times> target) option" where
  "restore_and_detach original_regs t =
     (case ptrace_setregs original_regs t of None \<Rightarrow> None | Some (_, t') \<Rightarrow>
       (case ptrace_detach t' of None \<Rightarrow> None | Some (_, t'') \<Rightarrow> Some (Returned 0, t'')))"

text \<open>Everything after the registers were read.\<close>

definition after_getregs ::
    "inject_env \<Rightarrow> string \<Rightarrow> string \<Rightarrow> string \<Rightarrow> string \<Rightarrow> regs \<Rightarrow> target \<Rightarrow> (injected \<times> target) option" where
  "after_getregs e library_path cydia_path function_name param regs t =
     (let original_regs = regs; remote = get_remote_addr (self_maps e) (target_maps e);
          dlopen_addr = remote linker_path (a_dlopen e); dlsym_addr = remote linker_path (a_dlsym e) in
      remote_call e (-1) ''mmap'' (remote libc_path (a_mmap e)) [0, 0x4000, 7, 0x22, -1, 0] regs t
      (\<lambda>regs t. let map_base = ptrace_retval regs in
      remote_call e (-1) ''dlopen'' dlopen_addr [map_base + 0x300, RTLD_FLAGS] regs
        (write_string (map_base + 0x300) cydia_path t)
      (\<lambda>regs t.
      remote_call e (-1) ''dlopen'' dlopen_addr [map_base, RTLD_FLAGS] regs
        (write_string map_base library_path t)
      (\<lambda>regs t. let sohandle = ptrace_retval regs in
      if sohandle = 0 then Some (Returned (-1), t) else
      remote_call e (-1) ''dlsym'' dlsym_addr [sohandle, map_base + 0x100] regs
        (write_string (map_base + 0x100) function_name t)
      (\<lambda>regs t. let hook_entry_addr = ptrace_retval regs in
      remote_call e (-1) ''hook_entry'' hook_entry_addr [map_base + 0x200] regs
        (write_string (map_base + 0x200) param t)
      (\<lambda>regs t. let ret = sint (ptrace_retval regs) in
      remote_call e ret ''dlclose'' (a_dlclose e) [sohandle] regs t
      (\<lambda>regs t. restore_and_detach original_regs t)))))))"

definition inject_remote_process ::
    "inject_env \<Rightarrow> string \<Rightarrow> string \<Rightarrow> string \<Rightarrow> string \<Rightarrow> target \<Rightarrow> (injected \<times> target) option" where
  "inject_remote_process e library_path cydia_path function_name param t =
     (if get_module_base (target_maps e) library_path \<noteq> 0 then Some (Returned (-2), t)
      else case ptrace_attach t of None \<Rightarrow> None | Some (a, t) \<Rightarrow>
        if a = -1 then exit_logging e (-1) t
        else case ptrace_getregs t of None \<Rightarrow> None
        | Some (None, t) \<Rightarrow> exit_logging e (-1) t
        | Some (Some regs, t) \<Rightarrow>
            after_getregs e library_path cydia_path function_name param regs t)"

text \<open>The result of \<open>main\<close> for arguments process, speed, library and substrate path.\<close>

definition inject_main ::
    "inject_env \<Rightarrow> proc_entry list option \<Rightarrow> char list \<Rightarrow> string list \<Rightarrow> target \<Rightarrow> (injected \<times> target) option" where
  "inject_main e dir cmdline argv t =
     (case argv of
        [prog, process_name, spd, so_path, cydia_path] \<Rightarrow>
          if find_pid_of (Some process_name) dir cmdline = -1 then exit_logging e (-1) t
          else
            (case inject_remote_process e so_path cydia_path ''hook_entry'' spd t of
               None \<Rightarrow> None
             | Some (Crashed, t') \<Rightarrow> Some (Crashed, t')
             | Some (Returned r, t') \<Rightarrow> Some (Returned (if r = 0 then 0 else -1), t'))
      | _ \<Rightarrow> Some (Returned (-1), t))"


section \<open>Memory lemmas\<close>

text \<open>The specification of a write: the bytes land at consecutive addresses, the rest stays.\<close>

definition put :: "memory \<Rightarrow> u4 \<Rightarrow> u1 list \<Rightarrow> memory" where
  "put m a bs = (\<lambda>x. let k = unat (x - a) in if k < length bs then bs ! k else m x)"

lemma put_Nil [simp]: "put m a [] = m"
  by (simp add: put_def)

lemma put_append:
  assumes "length as + length bs \<le> 2 ^ 32"
  shows "put (put m a as) (a + of_nat (length as)) bs = put m a (as @ bs)"
proof
  fix x
  define k where "k = unat (x - a)"
  have k: "k < 2 ^ 32" unfolding k_def by (rule unat_u4_less)
  show "put (put m a as) (a + of_nat (length as)) bs x = put m a (as @ bs) x"
  proof (cases "bs = []")
    case True
    then show ?thesis by simp
  next
    case False
    then have las: "length as < 2 ^ 32" using assms by (cases bs) simp_all
    have u: "unat (of_nat (length as) :: u4) = length as"
      using las by (rule unat_of_nat_u4)
    have e: "x - (a + of_nat (length as)) = (x - a) - of_nat (length as)" by simp
    have "unat (x - (a + of_nat (length as))) =
        (if length as \<le> k then k - length as else k + 2 ^ 32 - length as)"
      unfolding e unat_sub_if' u k_def by simp
    then show ?thesis using assms k by (auto simp: put_def Let_def nth_append simp flip: k_def)
  qed
qed

lemma poke_put: "length bs = 4 \<Longrightarrow> poke m a bs = put m a bs"
proof
  fix x assume len: "length bs = 4"
  have d: "x = a + of_nat k \<longleftrightarrow> unat (x - a) = k" if "k < 4" for k
  proof
    assume "unat (x - a) = k"
    then have "x - a = of_nat k" by (metis unat_eq_nat_uint of_nat_unat ucast_id word_of_nat_eq_iff)
    then show "x = a + of_nat k" by (simp add: algebra_simps)
  qed (use that in \<open>simp add: unat_of_nat_u4\<close>)
  show "poke m a bs x = put m a bs x"
    using d [of 0] d [of 1] d [of 2] d [of 3] len
    by (auto simp: poke_def put_def Let_def numeral_eq_Suc less_Suc_eq)
qed

lemma put_same: "(\<And>k. k < length bs \<Longrightarrow> bs ! k = m (a + of_nat k)) \<Longrightarrow> put m a bs = m"
proof
  fix x assume "\<And>k. k < length bs \<Longrightarrow> bs ! k = m (a + of_nat k)"
  from this [of "unat (x - a)"] show "put m a bs x = m x" by (simp add: put_def Let_def)
qed

lemma peek_nth: "k < 4 \<Longrightarrow> peek m a ! k = m (a + of_nat k)"
  by (auto simp: peek_def numeral_eq_Suc less_Suc_eq)

lemma length_peek [simp]: "length (peek m a) = 4"
  by (simp add: peek_def)

lemma write_words_put:
  "4 * j \<le> length data \<Longrightarrow> length data \<le> 2 ^ 32 \<Longrightarrow> write_words j m dest data = put m dest (take (4 * j) data)"
proof (induction j arbitrary: m dest data)
  case 0
  then show ?case by simp
next
  case (Suc j)
  have "write_words (Suc j) m dest data =
      put (put m dest (take 4 data)) (dest + 4) (take (4 * j) (drop 4 data))"
    using Suc.prems by (simp add: poke_put Suc.IH)
  also have "\<dots> = put m dest (take 4 data @ take (4 * j) (drop 4 data))"
    using Suc.prems put_append [of "take 4 data" "take (4 * j) (drop 4 data)" m dest] by simp
  finally show ?case by (simp add: take_add)
qed

lemma ptrace_writedata_put:
  assumes "length data \<le> 2 ^ 32 - 4"
  shows "ptrace_writedata m dest data = put m dest data"
proof -
  define j r where "j = length data div 4" and "r = length data mod 4"
  have len: "length data = 4 * j + r" "r < 4" by (simp_all add: j_def r_def)
  define m' where "m' = put m dest (take (4 * j) data)"
  have m': "write_words j m dest data = m'"
    using assms len by (simp add: m'_def write_words_put)
  let ?d = "dest + 4 * of_nat j" and ?l = "drop (4 * j) data"
  have l: "length ?l = r" using len by simp
  have addr: "dest + of_nat (length (take (4 * j) data)) = ?d" using len by simp
  have "put m' ?d (take r ?l @ drop r (peek m' ?d)) = put m' ?d ?l"
  proof -
    have "put m' ?d (?l @ drop r (peek m' ?d)) =
        put (put m' ?d ?l) (?d + of_nat r) (drop r (peek m' ?d))"
      using put_append [of ?l "drop r (peek m' ?d)" m' ?d] l len(2) by simp
    also have "\<dots> = put m' ?d ?l"
    proof (rule put_same)
      fix k assume k: "k < length (drop r (peek m' ?d))"
      then have "unat (of_nat (r + k) :: u4) = r + k" by (intro unat_of_nat_u4) simp
      then have "put m' ?d ?l (?d + of_nat (r + k)) = m' (?d + of_nat (r + k))"
        using l by (simp add: put_def Let_def del: of_nat_add)
      with k len(2) show "drop r (peek m' ?d) ! k = put m' ?d ?l (?d + of_nat r + of_nat k)"
        by (simp add: peek_nth add.assoc)
    qed
    finally show ?thesis using l by simp
  qed
  moreover have "put m' ?d ?l = put m dest data"
    using put_append [of "take (4 * j) data" ?l m dest] assms len addr by (simp add: m'_def)
  ultimately show ?thesis
    using m' l len unfolding ptrace_writedata_def Let_def j_def [symmetric] r_def [symmetric]
    by (auto simp: poke_put m'_def)
qed

lemma read_words_map: "read_words j m src = map (\<lambda>i. m (src + of_nat i)) [0..<4 * j]"
proof (induction j arbitrary: src)
  case 0
  then show ?case by simp
next
  case (Suc j)
  have "[0..<4 * Suc j] = [0..<4] @ [4..<4 + 4 * j]"
    using upt_add_eq_append [of 0 4 "4 * j"] by simp
  also have "[4..<4 + 4 * j] = map (\<lambda>i. i + 4) [0..<4 * j]"
    by (simp add: map_add_upt add.commute)
  finally have "[0..<4 * Suc j] = [0, 1, 2, 3] @ map (\<lambda>i. i + 4) [0..<4 * j]"
    by (simp add: upt_rec numeral_eq_Suc)
  then show ?case by (simp add: Suc peek_def ac_simps)
qed

lemma ptrace_readdata_map: "ptrace_readdata m src n = map (\<lambda>i. m (src + of_nat i)) [0..<n]"
proof -
  define j r where "j = n div 4" and "r = n mod 4"
  have n: "n = 4 * j + r" "r < 4" by (simp_all add: j_def r_def)
  have "take r (peek m (src + 4 * of_nat j)) = map (\<lambda>i. m (src + of_nat i)) [4 * j..<n]"
    using n by (intro nth_equalityI) (simp_all add: peek_nth add.assoc)
  then show ?thesis
    unfolding ptrace_readdata_def Let_def j_def [symmetric] r_def [symmetric]
    using n upt_add_eq_append [of 0 "4 * j" r] by (auto simp: read_words_map)
qed


section \<open>What the requests leave alone\<close>

lemma respond_SomeD:
  "respond t = Some (r, t') \<Longrightarrow> script t = r # script t' \<and> t' = t\<lparr>script := script t'\<rparr>"
  by (auto simp: respond_def split: list.splits)

definition same_process :: "target \<Rightarrow> target \<Rightarrow> bool" where
  "same_process t t' \<longleftrightarrow>
     attached t' = attached t \<and> calls t' = calls t \<and> set (script t') \<subseteq> set (script t)"

lemma same_process_refl [simp]: "same_process t t"
  by (simp add: same_process_def)

lemma same_process_trans [trans]: "same_process t u \<Longrightarrow> same_process u v \<Longrightarrow> same_process t v"
  by (auto simp: same_process_def)

lemma getregs_same:
  "ptrace_getregs t = Some (r, t') \<Longrightarrow>
     same_process t t' \<and> (r = None \<longrightarrow> Refused \<in> set (script t)) \<and>
     t_regs t' = t_regs t \<and> (\<forall>regs. r = Some regs \<longrightarrow> regs = t_regs t)"
  by (auto simp: ptrace_getregs_def same_process_def respond_def split: option.splits list.splits if_splits)

lemma setregs_same:
  "ptrace_setregs regs t = Some (r, t') \<Longrightarrow>
     same_process t t' \<and> (r \<noteq> 0 \<longrightarrow> Refused \<in> set (script t)) \<and> (r = 0 \<longrightarrow> t_regs t' = regs)"
  by (auto simp: ptrace_setregs_def same_process_def respond_def split: option.splits list.splits if_splits)

lemma continue_same:
  "ptrace_continue_wait t = Some (r, t') \<Longrightarrow>
     same_process t t' \<and> (r = None \<longrightarrow> Refused \<in> set (script t))"
  by (auto simp: ptrace_continue_wait_def same_process_def respond_def
      split: option.splits list.splits response.splits)

lemma wait_for_fault_same:
  "wait_for_fault t = Some (b, t') \<Longrightarrow>
     same_process t t' \<and> (\<not> b \<longrightarrow> Refused \<in> set (script t))"
proof (induction t rule: wait_for_fault.induct)
  case (1 t)
  obtain r u where c: "ptrace_continue_wait t = Some (r, u)"
    using "1.prems" by (subst (asm) wait_for_fault.simps) (auto split: option.splits)
  from continue_same [OF c] have s: "same_process t u" "r = None \<longrightarrow> Refused \<in> set (script t)"
    by simp_all
  show ?case
  proof (cases "\<exists>st. r = Some st \<and> st \<noteq> 2943")
    case True
    then obtain st where st: "r = Some st" "st \<noteq> 2943" by blast
    with c "1.prems" have "wait_for_fault u = Some (b, t')" by (simp add: wait_for_fault.simps [of t])
    from "1.IH" [OF c refl st(1) st(2) this] s show ?thesis
      by (auto intro: same_process_trans simp: same_process_def)
  next
    case False
    with c "1.prems" s show ?thesis
      by (cases r) (auto simp: wait_for_fault.simps [of t] split: if_splits)
  qed
qed

lemma call_wrapper_same:
  assumes "ptrace_call_wrapper name addr ps regs t = Some (r, t')"
  shows "same_process (t\<lparr>calls := (name, addr) # calls t\<rparr>) t'"
    and "r = None \<longrightarrow> Refused \<in> set (script t)"
proof -
  let ?t = "t\<lparr>calls := (name, addr) # calls t\<rparr>"
  obtain b u where u: "ptrace_call addr ps regs ?t = Some (b, u)"
    and rest: "(\<not> b \<and> r = None \<and> t' = u) \<or> (b \<and> ptrace_getregs u = Some (r, t'))"
    using assms by (auto simp: ptrace_call_wrapper_def split: option.splits prod.splits bool.splits)
  obtain regs' m where p: "push_params ps (set_params 0 ps regs) (t_mem t) = (regs', m)"
    by (cases "push_params ps (set_params 0 ps regs) (t_mem t)")
  obtain k v where v: "ptrace_setregs (set_pc addr regs') (?t\<lparr>t_mem := m\<rparr>) = Some (k, v)"
    and w: "(k = -1 \<and> \<not> b \<and> u = v) \<or> wait_for_fault v = Some (b, u)"
    using u p by (auto simp: ptrace_call_def split: option.splits prod.splits if_splits)
  have "same_process ?t v" "k = -1 \<longrightarrow> Refused \<in> set (script t)"
    using setregs_same [OF v] by (auto simp: same_process_def)
  moreover have "same_process v u" "\<not> b \<longrightarrow> Refused \<in> set (script t)"
    using w wait_for_fault_same [of v b u] calculation by (auto simp: same_process_def)
  ultimately show "same_process ?t t'" "r = None \<longrightarrow> Refused \<in> set (script t)"
    using rest getregs_same [of u r t'] by (auto simp: same_process_def)
qed

text \<open>The case rule the proofs about the injection use: a remote call either fails, and the
  function exits, or hands over to the rest.\<close>

lemma remote_callE:
  assumes "remote_call e ret name addr ps regs t k = Some (res, t')"
  obtains (failed) t1 where "Refused \<in> set (script t)" "attached t1 = attached t"
      "exit_logging e ret t1 = Some (res, t')"
  | (called) regs1 t1 where "k regs1 t1 = Some (res, t')" "attached t1 = attached t"
      "calls t1 = (name, addr) # calls t" "set (script t1) \<subseteq> set (script t)"
proof -
  obtain r t1 where w: "ptrace_call_wrapper name addr ps regs t = Some (r, t1)"
    using assms by (auto simp: remote_call_def split: option.splits)
  note s = call_wrapper_same [OF w]
  show thesis
  proof (cases r)
    case None
    with s w assms show thesis
      by (intro failed [of t1]) (auto simp: remote_call_def same_process_def)
  next
    case (Some regs1)
    with s w assms show thesis
      by (intro called [of regs1 t1]) (auto simp: remote_call_def same_process_def)
  qed
qed

lemma exit_logging_SomeD: "exit_logging e ret t = Some (res, t') \<Longrightarrow> t' = t"
  by (simp add: exit_logging_def)

lemma write_string_frame [frame_simps, simp]:
  "attached (write_string a s t) = attached t" "calls (write_string a s t) = calls t"
  "script (write_string a s t) = script t"
  by (simp_all add: write_string_def)

lemma restore_and_detach_ok:
  assumes "restore_and_detach regs t = Some (res, t')" "Refused \<notin> set (script t)"
  shows "t_regs t' = regs \<and> \<not> attached t' \<and> calls t' = calls t \<and> res = Returned 0"
  using assms by (auto simp: restore_and_detach_def ptrace_setregs_def ptrace_detach_def respond_def
      split: option.splits list.splits if_splits)


section \<open>The injection, step by step\<close>

definition expected_calls :: "inject_env \<Rightarrow> u4 \<Rightarrow> (string \<times> u4) list" where
  "expected_calls e h =
     (let remote = get_remote_addr (self_maps e) (target_maps e) in
      [(''dlclose'', a_dlclose e), (''hook_entry'', h), (''dlsym'', remote linker_path (a_dlsym e)),
       (''dlopen'', remote linker_path (a_dlopen e)), (''dlopen'', remote linker_path (a_dlopen e)),
       (''mmap'', remote libc_path (a_mmap e))])"

lemma remote_call_grantedE:
  assumes "remote_call e ret name addr ps regs t k = Some (res, t')" "Refused \<notin> set (script t)"
  obtains regs1 t1 where "k regs1 t1 = Some (res, t')" "attached t1 = attached t"
    "calls t1 = (name, addr) # calls t" "Refused \<notin> set (script t1)"
  using assms(1)
proof (cases rule: remote_callE)
  case failed
  then show thesis using assms(2) by blast
next
  case (called regs1 t1)
  then show thesis using assms(2) by (intro that [of regs1 t1]) auto
qed

lemma after_getregs_success:
  assumes "after_getregs e lib cyd fn p regs t = Some (Returned 0, t')" "Refused \<notin> set (script t)"
  shows "t_regs t' = regs \<and> \<not> attached t' \<and> (\<exists>h. calls t' = expected_calls e h @ calls t)"
proof -
  have last: "?thesis"
    if "restore_and_detach regs u = Some (Returned 0, t')" "Refused \<notin> set (script u)"
      "\<exists>h. calls u = expected_calls e h @ calls t" for u
    using restore_and_detach_ok [OF that(1,2)] that(3) by auto
  from assms show ?thesis unfolding after_getregs_def Let_def
    by (elim remote_call_grantedE)
       (simp_all split: if_split_asm, elim remote_call_grantedE, simp_all,
        rule last, assumption+, simp add: expected_calls_def Let_def)
qed

lemma after_getregs_failure:
  assumes "after_getregs e lib cyd fn p regs t = Some (res, t')" "res \<noteq> Returned 0" "attached t"
  shows "attached t'"
proof -
  have done0: "restore_and_detach regs t1 = Some (res, t') \<Longrightarrow> False" for t1
    using assms(2) by (auto simp: restore_and_detach_def split: option.splits)
  show ?thesis
    using assms(1,3) unfolding after_getregs_def Let_def
    by (elim remote_callE) (auto elim!: remote_callE dest!: exit_logging_SomeD done0 split: if_splits)
qed

lemma read_back:
  assumes "length data \<le> 2 ^ 32 - 4"
  shows "ptrace_readdata (ptrace_writedata m dest data) dest (length data) = data"
proof (rule nth_equalityI)
  fix i assume "i < length (ptrace_readdata (ptrace_writedata m dest data) dest (length data))"
  then have i: "i < length data" by (simp add: ptrace_readdata_map)
  then have "unat (of_nat i :: u4) = i" using assms by (intro unat_of_nat_u4) simp
  with i show "ptrace_readdata (ptrace_writedata m dest data) dest (length data) ! i = data ! i"
    by (simp add: ptrace_readdata_map ptrace_writedata_put [OF assms] put_def Let_def)
qed (simp add: ptrace_readdata_map)

lemma set_params_nth:
  "set_params i ps regs j = (if i \<le> j \<and> j < 4 \<and> j - i < length ps then ps ! (j - i) else regs j)"
proof (induction ps arbitrary: i regs)
  case (Cons p ps)
  consider "j < i" | "j = i" | "i < j" by linarith
  then show ?case
  proof cases
    case 2
    then show ?thesis using Cons.IH [of "Suc i" "regs(i := p)"] by (simp del: fun_upd_apply) simp
  next
    case 3
    then have "j - i = Suc (j - Suc i)" by simp
    with 3 show ?thesis by (simp add: Cons.IH)
  qed (simp_all add: Cons.IH)
qed simp

section \<open>Properties\<close>

text \<open>Writing to the process writes exactly the given bytes at consecutive addresses and
  leaves every other byte alone, although it can only write whole words.\<close>

theorem writedata_exact:
  assumes "length data \<le> 2 ^ 32 - 4"
  shows "ptrace_writedata m dest data x =
    (let k = unat (x - dest) in if k < length data then data ! k else m x)"
  using ptrace_writedata_put [OF assms] by (simp add: put_def)

theorem writedata_exact_witness:
  "ptrace_writedata (\<lambda>_. 7) 100 [1, 2, 3, 4, 5] 105 = 7"
  using writedata_exact [of "[1, 2, 3, 4, 5]" "\<lambda>_. 7" 100 105] by simp

text \<open>C8. What was written to the process is read back.\<close>

theorem write_then_read:
  assumes "length data \<le> 2 ^ 32 - 4"
  shows "ptrace_readdata (ptrace_writedata m dest data) dest (length data) = data"
  using assms by (rule read_back)

theorem write_then_read_witness:
  "ptrace_readdata (ptrace_writedata (\<lambda>_. 0) 4096 [10, 20, 30, 40, 50, 60]) 4096 6 = [10, 20, 30, 40, 50, 60]"
proof -
  have "length [10, 20, 30, 40, 50, 60 :: u1] = 6" by simp
  then show ?thesis using write_then_read [of "[10, 20, 30, 40, 50, 60]" "\<lambda>_. 0" 4096]
    by (simp only:) simp
qed

text \<open>C7. A remote call finds its parameters where the ARM calling convention puts them: the
  first four in \<open>r0\<close> to \<open>r3\<close>, the rest on the stack from \<open>sp\<close> up, the return address is 0, and
  the lowest address bit selects Thumb state.\<close>

theorem remote_call_parameters:
  assumes "length params \<le> 2 ^ 28"
    and "push_params params (set_params 0 params regs) m = (regs1, m')"
    and "regs' = set_pc addr regs1"
  shows "(\<forall>i < 4. i < length params \<longrightarrow> regs' i = params ! i) \<and>
    ptrace_readdata m' (regs' ARM_sp) (4 * (length params - 4)) = concat (map word_bytes (drop 4 params)) \<and>
    regs' ARM_sp = regs ARM_sp - of_nat (length params - 4) * 4 \<and>
    regs' ARM_lr = 0 \<and> regs' ARM_pc = addr AND NOT 1 \<and>
    (bit (regs' ARM_cpsr) 5 \<longleftrightarrow> bit addr 0)"
proof -
  have sp: "regs' 13 = regs1 13" using assms(3) by (simp add: set_pc_def)
  have low: "\<forall>i < 4. regs' i = regs1 i" using assms(3) by (simp add: set_pc_def)
  have r1: "\<forall>i < 4. i < length params \<longrightarrow> regs1 i = params ! i"
    "regs1 13 = regs 13 - of_nat (length params - 4) * 4"
    using assms(2) by (auto simp: push_params_def Let_def set_params_nth split: if_splits)
  let ?data = "concat (map word_bytes (drop 4 params))"
  have len: "length ?data = 4 * (length params - 4)"
    by (simp add: length_concat comp_def word_bytes_def sum_list_triv)
  then have "length ?data \<le> 2 ^ 32 - 4" using assms(1) by simp
  note rd = read_back [OF this]
  have "ptrace_readdata m' (regs1 13) (4 * (length params - 4)) = ?data"
  proof (cases "4 < length params")
    case True
    then have "regs1 13 = regs 13 - of_nat (length params - 4) * 4"
      "m' = ptrace_writedata m (regs1 13) ?data"
      using assms(2) by (auto simp: push_params_def Let_def set_params_nth)
    with rd len show ?thesis by metis
  qed (simp add: ptrace_readdata_map)
  moreover have pc: "addr = addr AND NOT 1" if "\<not> bit addr 0"
    using that by (intro bit_word_eqI) (auto simp: bit_simps intro: Nat.gr0I)
  moreover have "regs' 15 = addr AND NOT 1" "regs' 14 = 0" "bit (regs' 16) 5 \<longleftrightarrow> bit addr 0"
    using assms(3) pc by (auto simp: set_pc_def CPSR_T_MASK_def bit_simps)
  ultimately show ?thesis using sp low r1 by simp
qed

theorem remote_call_parameters_witness:
  "let (regs1, m') = push_params [1, 2, 3, 4, 5, 6] (set_params 0 [1, 2, 3, 4, 5, 6] (\<lambda>_. 4096)) (\<lambda>_. 0)
   in set_pc 513 regs1 ARM_pc = 512 \<and> set_pc 513 regs1 ARM_sp = 4088 \<and>
      ptrace_readdata m' 4088 8 = [5, 0, 0, 0, 6, 0, 0, 0]"
proof -
  obtain regs1 m' where p: "push_params [1, 2, 3, 4, 5, 6] (set_params 0 [1, 2, 3, 4, 5, 6] (\<lambda>_. 4096)) (\<lambda>_. 0) = (regs1, m')"
    by (metis surj_pair)
  have "length [1, 2, 3, 4, 5, 6 :: u4] = 6" by simp
  then show ?thesis
    using remote_call_parameters [OF _ p refl, of 513]
    unfolding p by (auto simp: word_bytes_def drop_bit_eq_div)
qed

section \<open>What an injection leaves behind\<close>

text \<open>A call whose requests are granted and that comes back with the fault at address 0.\<close>

lemma remote_call_returns:
  assumes "script t = Granted # Stops 2943 r m # Granted # rs"
  shows "remote_call e ret name addr ps regs t k =
    k r (t\<lparr>calls := (name, addr) # calls t, t_regs := r, t_mem := m, script := rs\<rparr>)"
  using assms by (cases "push_params ps (set_params 0 ps regs) (t_mem t)")
    (simp add: remote_call_def ptrace_call_wrapper_def ptrace_call_def ptrace_setregs_def
      ptrace_getregs_def respond_def wait_for_fault.simps ptrace_continue_wait_def)

definition sample_env :: inject_env where
  "sample_env = \<lparr>self_maps = None, target_maps = None, a_mmap = 100, a_dlopen = 200, a_dlsym = 300,
     a_dlclose = 400, log_opens = True\<rparr>"

definition sample_target :: "response list \<Rightarrow> target" where
  "sample_target rs = \<lparr>t_mem = (\<lambda>_. 0), t_regs = (\<lambda>_. 7), attached = False, script = rs, calls = []\<rparr>"

lemmas sample_run = inject_remote_process_def after_getregs_def sample_env_def sample_target_def
  get_module_base_def ptrace_attach_def ptrace_getregs_def ptrace_setregs_def ptrace_detach_def
  respond_def remote_call_returns ptrace_retval_def write_string_def restore_and_detach_def





text \<open>A library that is already mapped into the process is refused with -2 before any
  request is made to the process, and \<open>main\<close> reports -1 for it.\<close>

theorem loaded_library_untouched:
  assumes "get_module_base (target_maps e) lib \<noteq> 0" "find_pid_of (Some proc) dir cl \<noteq> -1"
  shows "inject_remote_process e lib cyd fn p t = Some (Returned (-2), t) \<and>
    inject_main e dir cl [prog, proc, spd, lib, cyd] t = Some (Returned (-1), t)"
  using assms by (simp add: inject_remote_process_def inject_main_def)

theorem loaded_library_untouched_witness:
  "inject_main (sample_env\<lparr>target_maps := Some ''40000-50000 libx''\<rparr>)
     (Some [(''34'', Some ''app'')]) (replicate 256 NUL)
     [''inject'', ''app'', ''2'', ''libx'', ''cyd''] (sample_target []) = Some (Returned (-1), sample_target [])"
proof -
  let ?e = "sample_env\<lparr>target_maps := Some ''40000-50000 libx''\<rparr>"
  have "maps_scan ''libx'' ''40000-50000 libx'' = 262144" by code_simp
  then have "get_module_base (target_maps ?e) ''libx'' \<noteq> 0" by (simp add: get_module_base_def)
  moreover have "find_pid_of (Some ''app'') (Some [(''34'', Some ''app'')]) (replicate 256 NUL) \<noteq> -1"
    by code_simp
  ultimately show ?thesis by (simp add: loaded_library_untouched)
qed

end
