(* ===== verification/ChatServer.thy ===== *)
theory ChatServer
  imports CLib
begin

text \<open>
  \<^verbatim>\<open>jni/epollserver.cpp\<close>: the server that passes what one client says on to all others. Its
  state is \<open>clients_list\<close>; the model also keeps the calls it made on descriptors, latest first.
  The answers of the kernel to the calls made for one event come with the event. \<open>CHK\<close> ends the
  program on a negative answer.
\<close>

section \<open>Model\<close>

abbreviation (input) BUF_SIZE :: nat where "BUF_SIZE \<equiv> 1024"

datatype action = Accepted int | Sent int string | Closed int

record chat =
  clients_list :: "int list"
  actions :: "action list"

datatype run = Running chat | Exited chat | Smashed chat \<comment> \<open>written past the end of \<open>message\<close>\<close>

record answers =
  accept_ret :: int
  fcntl_ret :: int
  epoll_ctl_ret :: int
  recv_data :: "string option" \<comment> \<open>\<open>None\<close>: \<open>recv\<close> fails\<close>
  close_ret :: int
  send_fails :: "int \<Rightarrow> bool"

definition CHK :: "int \<Rightarrow> chat \<Rightarrow> (chat \<Rightarrow> run) \<Rightarrow> run" where
  "CHK r s k = (if r < 0 then Exited s else k s)"

definition act :: "action \<Rightarrow> chat \<Rightarrow> chat" where
  "act a s = s\<lparr>actions := a # actions s\<rparr>"

definition send_chk :: "answers \<Rightarrow> int \<Rightarrow> string \<Rightarrow> chat \<Rightarrow> (chat \<Rightarrow> run) \<Rightarrow> run" where
  "send_chk a fd msg s k = (if send_fails a fd then Exited s else k (act (Sent fd msg) s))"

text \<open>The whole zeroed buffer is sent, text and padding.\<close>

definition in_buffer :: "string \<Rightarrow> string" where
  "in_buffer text = text @ replicate (BUF_SIZE - length text) NUL"

definition welcome_text :: "int \<Rightarrow> string" where
  "welcome_text client = ''Welcome to seChat! You ID is: Client #'' @ format_d client"

definition message_text :: "int \<Rightarrow> string \<Rightarrow> string" where
  "message_text client buf = ''Client #'' @ format_d client @ ''>> '' @ c_str buf"

definition STR_NOONE_CONNECTED :: string where
  "STR_NOONE_CONNECTED = ''Noone connected to server except you!''"

fun send_others :: "answers \<Rightarrow> int \<Rightarrow> string \<Rightarrow> int list \<Rightarrow> chat \<Rightarrow> run" where
  "send_others a client msg [] s = Running s"
| "send_others a client msg (it # its) s =
     (if it \<noteq> client then send_chk a it msg s (send_others a client msg its)
      else send_others a client msg its s)"

definition handle_chat_message :: "answers \<Rightarrow> int \<Rightarrow> chat \<Rightarrow> run" where
  "handle_chat_message a client s =
     (case recv_data a of
        None \<Rightarrow> Exited s
      | Some buf \<Rightarrow>
          if buf = [] then
            CHK (close_ret a) (act (Closed client) s)
              (\<lambda>s. Running (s\<lparr>clients_list := removeAll client (clients_list s)\<rparr>))
          else if length (clients_list s) = 1 then
            send_chk a client STR_NOONE_CONNECTED s Running
          else if BUF_SIZE \<le> length (message_text client buf) then Smashed s
          else send_others a client (in_buffer (message_text client buf)) (clients_list s) s)"

definition accept_client :: "answers \<Rightarrow> chat \<Rightarrow> run" where
  "accept_client a s =
     CHK (accept_ret a) s (\<lambda>s. let client = accept_ret a in
     CHK (fcntl_ret a) (act (Accepted client) s) (\<lambda>s.
     CHK (epoll_ctl_ret a) s (\<lambda>s.
     send_chk a client (in_buffer (welcome_text client))
       (s\<lparr>clients_list := clients_list s @ [client]\<rparr>) Running)))"

text \<open>One event of the loop in \<open>main\<close>: the listener is readable, or a client is.\<close>

datatype event = Listener_ready | Client_ready int

fun handle_event :: "event \<times> answers \<Rightarrow> chat \<Rightarrow> run" where
  "handle_event (Listener_ready, a) s = accept_client a s"
| "handle_event (Client_ready fd, a) s = handle_chat_message a fd s"

fun chat_main :: "(event \<times> answers) list \<Rightarrow> chat \<Rightarrow> run" where
  "chat_main [] s = Running s"
| "chat_main (ev # evs) s = (case handle_event ev s of Running s' \<Rightarrow> chat_main evs s' | r \<Rightarrow> r)"

definition no_clients :: chat where
  "no_clients = \<lparr>clients_list = [], actions = []\<rparr>"

section \<open>Descriptors\<close>

text \<open>The descriptors that are open after a history of actions, and whether the history sends to
  and closes only open ones.\<close>

fun open_fds :: "action list \<Rightarrow> int set" where
  "open_fds [] = {}"
| "open_fds (Accepted fd # as) = insert fd (open_fds as)"
| "open_fds (Sent fd m # as) = open_fds as"
| "open_fds (Closed fd # as) = open_fds as - {fd}"

fun proper :: "action list \<Rightarrow> bool" where
  "proper [] \<longleftrightarrow> True"
| "proper (Accepted fd # as) \<longleftrightarrow> fd \<notin> open_fds as \<and> proper as"
| "proper (Sent fd m # as) \<longleftrightarrow> fd \<in> open_fds as \<and> proper as"
| "proper (Closed fd # as) \<longleftrightarrow> fd \<in> open_fds as \<and> proper as"

text \<open>What the kernel guarantees of an event: \<open>accept\<close> returns a descriptor that is not in use,
  and only open descriptors become readable.\<close>

definition kernel_event :: "event \<times> answers \<Rightarrow> chat \<Rightarrow> bool" where
  "kernel_event ev s \<longleftrightarrow>
     (case ev of (Listener_ready, a) \<Rightarrow> accept_ret a \<notin> open_fds (actions s)
      | (Client_ready fd, a) \<Rightarrow> fd \<in> open_fds (actions s))"

inductive chat_step :: "chat \<Rightarrow> run \<Rightarrow> bool" where
  "kernel_event ev s \<Longrightarrow> chat_step s (handle_event ev s)"

inductive chat_reach :: "run \<Rightarrow> bool" where
  start: "chat_reach (Running no_clients)"
| step: "chat_reach (Running s) \<Longrightarrow> chat_step s r \<Longrightarrow> chat_reach r"

inductive_cases chat_stepE: "chat_step s r"

fun run_state :: "run \<Rightarrow> chat" where
  "run_state (Running s) = s"
| "run_state (Exited s) = s"
| "run_state (Smashed s) = s"

definition is_running :: "run \<Rightarrow> bool" where
  "is_running r \<longleftrightarrow> (\<exists>s. r = Running s)"

definition chat_inv :: "chat \<Rightarrow> bool" where
  "chat_inv s \<longleftrightarrow> distinct (clients_list s) \<and> set (clients_list s) = open_fds (actions s) \<and>
     proper (actions s)"

section \<open>Lemmas\<close>

lemma act_simps [simp]:
  "clients_list (act a s) = clients_list s" "actions (act a s) = a # actions s"
  by (simp_all add: act_def)

lemma send_others_all:
  assumes "\<forall>fd \<in> set its. \<not> send_fails a fd"
  shows "send_others a client msg its s =
    Running (s\<lparr>actions := rev (map (\<lambda>fd. Sent fd msg) (filter (\<lambda>fd. fd \<noteq> client) its)) @ actions s\<rparr>)"
  using assms by (induction its arbitrary: s) (simp_all add: send_chk_def act_def)

lemma send_others_inv:
  assumes "set its \<subseteq> open_fds (actions s)" "chat_inv s"
  shows "chat_inv (run_state (send_others a client msg its s))"
  using assms by (induction its arbitrary: s) (auto simp: send_chk_def chat_inv_def)

lemma handle_chat_message_inv:
  assumes "chat_inv s" "fd \<in> open_fds (actions s)"
  shows "is_running (handle_chat_message a fd s) \<longrightarrow> chat_inv (run_state (handle_chat_message a fd s))"
    and "proper (actions (run_state (handle_chat_message a fd s)))"
proof -
  have inv: "chat_inv (run_state (send_others a fd msg (clients_list s) s))" for msg
    using assms(1) by (intro send_others_inv) (simp_all add: chat_inv_def)
  then have "proper (actions (run_state (send_others a fd msg (clients_list s) s)))" for msg
    by (simp add: chat_inv_def)
  note send = inv this
  show "is_running (handle_chat_message a fd s) \<longrightarrow> chat_inv (run_state (handle_chat_message a fd s))"
    using assms send by (auto simp: handle_chat_message_def CHK_def send_chk_def is_running_def
      chat_inv_def [of "s\<lparr>clients_list := _\<rparr>"] chat_inv_def [of "act _ _"] chat_inv_def [of "act _ _\<lparr>clients_list := _\<rparr>"]
      chat_inv_def [of s] distinct_removeAll split: option.splits)
  show "proper (actions (run_state (handle_chat_message a fd s)))"
    using assms send(2) by (auto simp: handle_chat_message_def CHK_def send_chk_def
      chat_inv_def split: option.splits)
qed

lemma accept_client_inv:
  assumes "chat_inv s" "accept_ret a \<notin> open_fds (actions s)"
  shows "is_running (accept_client a s) \<longrightarrow> chat_inv (run_state (accept_client a s))"
    and "proper (actions (run_state (accept_client a s)))"
  using assms by (auto simp: accept_client_def CHK_def send_chk_def chat_inv_def Let_def is_running_def)

lemma chat_step_inv:
  assumes "chat_step s r" "chat_inv s"
  shows "(is_running r \<longrightarrow> chat_inv (run_state r)) \<and> proper (actions (run_state r))"
  using assms(1)
proof (elim chat_stepE)
  fix ev assume r: "r = handle_event ev s" and ev: "kernel_event ev s"
  obtain e a where "ev = (e, a)" by (cases ev)
  then show ?thesis
    using r ev handle_chat_message_inv [OF assms(2)] accept_client_inv [OF assms(2)]
    by (cases e) (simp_all add: kernel_event_def)
qed

lemma chat_reach_inv:
  "chat_reach r \<Longrightarrow> (is_running r \<longrightarrow> chat_inv (run_state r)) \<and> proper (actions (run_state r))"
proof (induction rule: chat_reach.induct)
  case start
  then show ?case by (simp add: chat_inv_def no_clients_def)
next
  case (step s r)
  then have "chat_inv s" by (simp add: is_running_def)
  with step.hyps(2) show ?case by (intro chat_step_inv)
qed

section \<open>Properties\<close>

text \<open>C40. In every state the server reaches, \<open>clients_list\<close> holds each open client once and
  nothing else, and no send or close was ever made on a descriptor that was not open, also
  when the program ended on an error.\<close>

theorem chat_descriptors:
  assumes "chat_reach r"
  shows "proper (actions (run_state r)) \<and>
    (is_running r \<longrightarrow> distinct (clients_list (run_state r)) \<and>
       set (clients_list (run_state r)) = open_fds (actions (run_state r)))"
  using chat_reach_inv [OF assms] by (auto simp: chat_inv_def)

definition good_answers :: "int \<Rightarrow> string \<Rightarrow> answers" where
  "good_answers fd buf = \<lparr>accept_ret = fd, fcntl_ret = 0, epoll_ctl_ret = 0, recv_data = Some buf,
     close_ret = 0, send_fails = (\<lambda>_. False)\<rparr>"

theorem chat_descriptors_witness:
  "proper (actions (run_state (handle_event (Listener_ready, good_answers 5 []) no_clients))) \<and>
   clients_list (run_state (handle_event (Listener_ready, good_answers 5 []) no_clients)) = [5]"
proof -
  have "kernel_event (Listener_ready, good_answers 5 []) no_clients"
    by (simp add: kernel_event_def no_clients_def)
  then have "chat_reach (handle_event (Listener_ready, good_answers 5 []) no_clients)"
    by (intro chat_reach.step [OF chat_reach.start] chat_step.intros)
  from chat_descriptors [OF this] show ?thesis
    by (simp add: accept_client_def CHK_def send_chk_def Let_def good_answers_def no_clients_def)
qed

text \<open>A message that fits the buffer reaches every other client exactly once, in the order
  they connected, behind the sender's number, and the sender gets nothing back.\<close>

theorem message_reaches_others:
  assumes "distinct (clients_list s)" "client \<in> set (clients_list s)" "length (clients_list s) \<noteq> 1"
    and "recv_data a = Some buf" "buf \<noteq> []" "length (message_text client buf) < BUF_SIZE"
    and "\<forall>fd. \<not> send_fails a fd"
  shows "\<exists>others. handle_chat_message a client s =
      Running (s\<lparr>actions := rev (map (\<lambda>fd. Sent fd (in_buffer (message_text client buf))) others) @ actions s\<rparr>) \<and>
    set others = set (clients_list s) - {client} \<and> distinct others"
  using assms
  by (intro exI [of _ "filter (\<lambda>fd. fd \<noteq> client) (clients_list s)"])
     (auto simp: handle_chat_message_def send_others_all)

theorem message_reaches_others_witness:
  "\<exists>others. handle_chat_message (good_answers 0 ''hi'') 5 \<lparr>clients_list = [4, 5, 6], actions = []\<rparr> =
      Running \<lparr>clients_list = [4, 5, 6], actions = rev (map (\<lambda>fd. Sent fd (in_buffer (message_text 5 ''hi''))) others)\<rparr> \<and>
    set others = {4, 6}"
proof -
  have "length (message_text 5 ''hi'') < 1024" by code_simp
  then show ?thesis
    using message_reaches_others [of "\<lparr>clients_list = [4, 5, 6], actions = []\<rparr>" 5 "good_answers 0 ''hi''" "''hi''"]
    by (auto simp: good_answers_def)
qed

text \<open>A client can make the server write past the end of \<open>message\<close>: 1012 bytes of text suffice.\<close>

theorem long_message_smashes:
  assumes "length (clients_list s) \<noteq> 1" "recv_data a = Some buf" "NUL \<notin> set buf" "1012 \<le> length buf"
  shows "handle_chat_message a client s = Smashed s"
proof -
  have "c_str buf = buf" using assms(3) by (simp add: c_str_def takeWhile_eq_all_conv) metis
  moreover have "1 \<le> length (format_d client)"
    by (simp add: format_d_def Suc_le_eq)
  ultimately show ?thesis using assms by (auto simp: handle_chat_message_def message_text_def)
qed

theorem long_message_smashes_witness:
  "handle_chat_message (good_answers 0 (replicate 1024 CHR ''x'')) 5 \<lparr>clients_list = [4, 5], actions = []\<rparr> =
     Smashed \<lparr>clients_list = [4, 5], actions = []\<rparr>"
  by (rule long_message_smashes [where buf = "replicate 1024 CHR ''x''"]) (simp_all add: good_answers_def)

end
