(* ===== verification/Leb128.thy ===== *)
theory Leb128
  imports Prelude "HOL-Library.Monad_Syntax"
begin

text \<open>
  \<^verbatim>\<open>jni/dalvik/libdex/Leb128.h\<close> and \<^verbatim>\<open>Leb128.cpp\<close>: variable-length integers. A pointer into the
  data is the list of the bytes from there on, and a reader returns what it read with the rest,
  or \<open>None\<close> when it would read past the last byte there is.

  The interface to the parsers that use it is the locale \<open>codec\<close>: a writer whose output the reader
  reads back, whatever follows it.
\<close>

unbundle bit_operations_syntax

section \<open>Interface\<close>

type_synonym 'a reader = "u1 list \<Rightarrow> ('a \<times> u1 list) option"

fun read_many :: "nat \<Rightarrow> 'a reader \<Rightarrow> 'a list reader" where
  "read_many 0 dec s = Some ([], s)"
| "read_many (Suc n) dec s =
     do { (x, s) \<leftarrow> dec s; (xs, s) \<leftarrow> read_many n dec s; Some (x # xs, s) }"

locale codec =
  fixes enc :: "'a \<Rightarrow> u1 list" and dec :: "'a reader" and valid :: "'a \<Rightarrow> bool"
  assumes dec_enc: "valid x \<Longrightarrow> dec (enc x @ s) = Some (x, s)"
    and dec_shrinks: "dec s = Some (x, t) \<Longrightarrow> \<exists>u. u \<noteq> [] \<and> s = u @ t"
begin

lemma enc_prefix_free:
  assumes "valid x" "valid y" "enc x @ s = enc y @ t"
  shows "x = y \<and> s = t"
proof -
  have "Some (x, s) = Some (y, t)"
    unfolding dec_enc [OF assms(1), of s, symmetric] dec_enc [OF assms(2), of t, symmetric] assms(3) ..
  then show ?thesis by simp
qed

lemma enc_nonempty: "valid x \<Longrightarrow> enc x \<noteq> []"
  using dec_enc [of x "[]"] dec_shrinks [of "enc x" x "[]"] by auto

lemma read_many_enc:
  "(\<And>x. x \<in> set xs \<Longrightarrow> valid x) \<Longrightarrow> read_many (length xs) dec (concat (map enc xs) @ s) = Some (xs, s)"
  by (induction xs) (simp_all add: dec_enc)

lemma read_many_shrinks: "read_many n dec s = Some (xs, t) \<Longrightarrow> length xs = n \<and> (\<exists>u. s = u @ t \<and> n \<le> length u)"
proof (induction n arbitrary: s xs)
  case (Suc n)
  then obtain x s' ys where "dec s = Some (x, s')" "read_many n dec s' = Some (ys, t)" "xs = x # ys"
    by (auto split: Option.bind_splits)
  with Suc.IH [OF this(2)] dec_shrinks [OF this(1)] show ?case
    by (auto simp: Suc_le_eq)
       (metis append.assoc length_append add.commute add_less_le_mono length_greater_0_conv add_0)
qed simp

end

section \<open>Readers and writers\<close>

fun next_byte :: "u1 list \<Rightarrow> (u4 \<times> u1 list) option" where
  "next_byte [] = None"
| "next_byte (b # s) = Some (ucast b, s)"

definition readUnsignedLeb128 :: "u4 reader" where
  "readUnsignedLeb128 ptr =
     do { (result, ptr) \<leftarrow> next_byte ptr;
     if result \<le> 0x7f then Some (result, ptr) else
     do { (cur, ptr) \<leftarrow> next_byte ptr;
     let result = (result AND 0x7f) OR push_bit 7 (cur AND 0x7f);
     if cur \<le> 0x7f then Some (result, ptr) else
     do { (cur, ptr) \<leftarrow> next_byte ptr;
     let result = result OR push_bit 14 (cur AND 0x7f);
     if cur \<le> 0x7f then Some (result, ptr) else
     do { (cur, ptr) \<leftarrow> next_byte ptr;
     let result = result OR push_bit 21 (cur AND 0x7f);
     if cur \<le> 0x7f then Some (result, ptr) else
     do { (cur, ptr) \<leftarrow> next_byte ptr;
     Some (result OR push_bit 28 cur, ptr) }}}}}"

text \<open>\<open>(x << n) >> n\<close> on an \<open>int\<close>.\<close>

definition sign_extend :: "nat \<Rightarrow> u4 \<Rightarrow> u4" where
  "sign_extend n x = signed_drop_bit n (push_bit n x)"

definition readSignedLeb128 :: "u4 reader" where
  "readSignedLeb128 ptr =
     do { (result, ptr) \<leftarrow> next_byte ptr;
     if result \<le> 0x7f then Some (sign_extend 25 result, ptr) else
     do { (cur, ptr) \<leftarrow> next_byte ptr;
     let result = (result AND 0x7f) OR push_bit 7 (cur AND 0x7f);
     if cur \<le> 0x7f then Some (sign_extend 18 result, ptr) else
     do { (cur, ptr) \<leftarrow> next_byte ptr;
     let result = result OR push_bit 14 (cur AND 0x7f);
     if cur \<le> 0x7f then Some (sign_extend 11 result, ptr) else
     do { (cur, ptr) \<leftarrow> next_byte ptr;
     let result = result OR push_bit 21 (cur AND 0x7f);
     if cur \<le> 0x7f then Some (sign_extend 4 result, ptr) else
     do { (cur, ptr) \<leftarrow> next_byte ptr;
     Some (result OR push_bit 28 cur, ptr) }}}}}"

text \<open>The checking readers. The limit is how many bytes are left before it, \<open>None\<close> a null limit;
  \<open>okay\<close> is only ever cleared.\<close>

definition verify_leb128 :: "u4 reader \<Rightarrow> nat option \<Rightarrow> bool \<Rightarrow> u1 list \<Rightarrow> (u4 \<times> bool \<times> u1 list) option" where
  "verify_leb128 rd limit okay ptr =
     do { (result, rest) \<leftarrow> rd ptr;
     let n = length ptr - length rest;
     Some (result,
       if ((case limit of None \<Rightarrow> False | Some l \<Rightarrow> l < n) \<or> (n = 5 \<and> 0x0f < ptr ! 4))
       then False else okay, rest) }"

definition readAndVerifyUnsignedLeb128 ::
    "nat option \<Rightarrow> bool \<Rightarrow> u1 list \<Rightarrow> (u4 \<times> bool \<times> u1 list) option" where
  "readAndVerifyUnsignedLeb128 = verify_leb128 readUnsignedLeb128"

definition readAndVerifySignedLeb128 ::
    "nat option \<Rightarrow> bool \<Rightarrow> u1 list \<Rightarrow> (u4 \<times> bool \<times> u1 list) option" where
  "readAndVerifySignedLeb128 = verify_leb128 readSignedLeb128"

lemma drop_bit_less: "\<not> x \<le> (0x7f::u4) \<Longrightarrow> unat (drop_bit 7 x) < unat x"
  by (simp add: unat_div drop_bit_eq_div word_le_nat_alt)

lemma and_7f: "x AND 0x7f = take_bit 7 (x::u4)"
  by (simp add: take_bit_eq_mask mask_eq_exp_minus_1)

lemma le_7f_iff: "x \<le> (0x7f::u4) \<longleftrightarrow> take_bit 7 x = x"
proof -
  have "take_bit 7 x = x \<longleftrightarrow> unat x mod 128 = unat x"
    by (simp add: word_unat_eq_iff unat_mod take_bit_eq_mod)
  also have "\<dots> \<longleftrightarrow> unat x < 128" by (metis mod_less mod_less_divisor zero_less_numeral)
  finally show ?thesis by (simp add: word_le_nat_alt) linarith
qed

lemma and_7f_neq: "x AND 0x7f \<noteq> (x::u4) \<longleftrightarrow> \<not> x \<le> 0x7f"
  by (simp add: and_7f le_7f_iff)

function writeUnsignedLeb128 :: "u4 \<Rightarrow> u1 list" where
  "writeUnsignedLeb128 data =
     (let out = data AND 0x7f in
      if out \<noteq> data then ucast (out OR 0x80) # writeUnsignedLeb128 (drop_bit 7 data)
      else [ucast out])"
  by pat_completeness auto
termination
  by (relation "measure unat") (simp_all add: drop_bit_less and_7f_neq)

function unsignedLeb128Size :: "u4 \<Rightarrow> nat" where
  "unsignedLeb128Size data =
     (let data = drop_bit 7 data in Suc (if data \<noteq> 0 then unsignedLeb128Size data else 0))"
  by pat_completeness auto
termination
proof (relation "measure unat", goal_cases)
  case (2 data x)
  then have "\<not> data \<le> 0x7f"
    by (auto simp: word_le_nat_alt unat_div drop_bit_eq_div simp flip: unat_eq_0)
  with 2 show ?case by (simp add: drop_bit_less)
qed simp

declare writeUnsignedLeb128.simps [simp del] unsignedLeb128Size.simps [simp del]


section \<open>Encodings of a fixed length\<close>

text \<open>The \<open>n\<close>-byte encoding of the low \<open>7 n\<close> bits of a word, the specification of both formats.\<close>

fun leb_bytes :: "nat \<Rightarrow> u4 \<Rightarrow> u1 list" where
  "leb_bytes 0 w = []"
| "leb_bytes (Suc 0) w = [ucast (w AND 0x7f)]"
| "leb_bytes (Suc (Suc n)) w = ucast ((w AND 0x7f) OR 0x80) # leb_bytes (Suc n) (drop_bit 7 w)"

lemma length_leb_bytes [simp]: "length (leb_bytes n w) = n"
  by (induction n w rule: leb_bytes.induct) simp_all

lemma bit_80: "bit (0x80::int) n \<longleftrightarrow> n = 7"
  using bit_push_bit_iff [of 7 "1::int" n] by (auto simp: push_bit_eq_mult bit_1_iff)

lemma more_byte:
  "(ucast (ucast ((w AND 0x7f) OR 0x80 :: u4) :: u1) :: u4) AND 0x7f = take_bit 7 w"
  "\<not> (ucast (ucast ((w AND 0x7f) OR 0x80 :: u4) :: u1) :: u4) \<le> 0x7f"
proof -
  have e: "(ucast (ucast ((w AND 0x7f) OR 0x80 :: u4) :: u1) :: u4) = take_bit 7 w OR 0x80"
    by (rule bit_word_eqI) (auto simp: and_7f bit_simps bit_80)
  show "(ucast (ucast ((w AND 0x7f) OR 0x80 :: u4) :: u1) :: u4) AND 0x7f = take_bit 7 w"
    unfolding e by (rule bit_word_eqI) (auto simp: and_7f bit_simps bit_80)
  have "bit (take_bit 7 w OR 0x80) 7" "\<not> bit (take_bit 7 (take_bit 7 w OR 0x80)) 7"
    by (simp_all add: bit_simps bit_80)
  then show "\<not> (ucast (ucast ((w AND 0x7f) OR 0x80 :: u4) :: u1) :: u4) \<le> 0x7f"
    unfolding e le_7f_iff by metis
qed

lemma last_byte:
  "(ucast (ucast (w AND 0x7f :: u4) :: u1) :: u4) = take_bit 7 w"
  "(ucast (ucast (w AND 0x7f :: u4) :: u1) :: u4) \<le> 0x7f"
proof -
  show e: "(ucast (ucast (w AND 0x7f :: u4) :: u1) :: u4) = take_bit 7 w"
    by (rule bit_word_eqI) (auto simp: and_7f bit_simps)
  show "(ucast (ucast (w AND 0x7f :: u4) :: u1) :: u4) \<le> 0x7f"
    unfolding e le_7f_iff by simp
qed

lemma join_bits:
  "take_bit k w OR push_bit k (take_bit 7 (drop_bit k w)) = take_bit (k + 7) (w :: u4)"
  by (rule bit_word_eqI) (auto simp: bit_simps)

lemma join_last: "take_bit 28 w OR push_bit 28 (take_bit 7 (drop_bit 28 w)) = (w :: u4)"
  by (rule bit_word_eqI) (auto simp: bit_simps)

lemma length_cases:
  assumes "1 \<le> n" "n \<le> 5"
  obtains "n = 1" | "n = 2" | "n = 3" | "n = 4" | "n = (5 :: nat)"
  using assms by linarith

definition more :: "u4 \<Rightarrow> u1" where "more w = ucast ((w AND 0x7f) OR 0x80)"
definition final :: "u4 \<Rightarrow> u1" where "final w = ucast (w AND 0x7f)"

lemma leb_bytes_1: "leb_bytes 1 w = [final w]"
  by (simp add: final_def)

lemma leb_bytes_more: "0 < n \<Longrightarrow> leb_bytes (Suc n) w = more w # leb_bytes n (drop_bit 7 w)"
  by (cases n) (simp_all add: more_def)

lemma leb_bytes_2: "leb_bytes 2 w = [more w, final (drop_bit 7 w)]"
  using leb_bytes_more [of 1 w] leb_bytes_1 by (simp add: numeral_2_eq_2)

lemma leb_bytes_3: "leb_bytes 3 w = [more w, more (drop_bit 7 w), final (drop_bit 14 w)]"
  using leb_bytes_more [of 2 w] by (simp add: leb_bytes_2 drop_bit_drop_bit)

lemma leb_bytes_4:
  "leb_bytes 4 w = [more w, more (drop_bit 7 w), more (drop_bit 14 w), final (drop_bit 21 w)]"
  using leb_bytes_more [of 3 w] by (simp add: leb_bytes_3 drop_bit_drop_bit)

lemma leb_bytes_5:
  "leb_bytes 5 w = [more w, more (drop_bit 7 w), more (drop_bit 14 w), more (drop_bit 21 w),
     final (drop_bit 28 w)]"
  using leb_bytes_more [of 4 w] by (simp add: leb_bytes_4 drop_bit_drop_bit)

lemmas leb_bytes_numeral = leb_bytes_2 leb_bytes_3 leb_bytes_4 leb_bytes_5

lemma leb_steps:
  "(ucast (more w) :: u4) AND 0x7f = take_bit 7 w" "(ucast (more w) :: u4) \<le> 0x7f \<longleftrightarrow> False"
  "(ucast (final w) :: u4) = take_bit 7 w" "take_bit 7 w \<le> (0x7f::u4) \<longleftrightarrow> True"
  "take_bit 7 w AND 0x7f = take_bit 7 (w::u4)"
  "take_bit 7 w OR push_bit 7 (take_bit 7 (drop_bit 7 w)) = take_bit 14 (w::u4)"
  "take_bit 14 w OR push_bit 14 (take_bit 7 (drop_bit 14 w)) = take_bit 21 (w::u4)"
  "take_bit 21 w OR push_bit 21 (take_bit 7 (drop_bit 21 w)) = take_bit 28 (w::u4)"
  using more_byte [of w] last_byte [of w] join_bits [of 7 w] join_bits [of 14 w] join_bits [of 21 w]
  by (simp_all add: more_def final_def and_7f le_7f_iff)

lemmas leb_eval = next_byte.simps Option.bind.simps prod.case if_False if_True Let_def append.simps
  leb_steps join_last leb_bytes_1 leb_bytes_numeral

lemma readUnsigned_bytes:
  assumes "1 \<le> n" "n \<le> 5"
  shows "readUnsignedLeb128 (leb_bytes n w @ s) = Some (take_bit (7 * n) w, s)"
  using assms
proof (cases n rule: length_cases)
  case 5
  have "take_bit 35 w = w" by (rule bit_word_eqI) (auto simp: bit_simps)
  with 5 show ?thesis by (simp only: readUnsignedLeb128_def leb_eval) simp
qed (simp_all only: readUnsignedLeb128_def leb_eval, simp_all)

lemma sign_extend_take:
  "0 < k \<Longrightarrow> k \<le> 32 \<Longrightarrow> sign_extend (32 - k) (take_bit k w) = signed_take_bit (k - 1) w"
  unfolding sign_extend_def by (cases k; rule bit_word_eqI) (auto simp: bit_simps min_def not_le less_Suc_eq)

lemma readSigned_bytes:
  assumes "1 \<le> n" "n \<le> 5"
  shows "readSignedLeb128 (leb_bytes n w @ s) =
    Some (if n = 5 then w else signed_take_bit (7 * n - 1) w, s)"
  using assms
  apply (cases n rule: length_cases)
  apply (simp_all only: readSignedLeb128_def leb_eval)
  using sign_extend_take [of 7 w] sign_extend_take [of 14 w] sign_extend_take [of 21 w] sign_extend_take [of 28 w]
  apply simp_all
  done

lemma leb128Size_range: "1 \<le> unsignedLeb128Size w \<and> unsignedLeb128Size w \<le> 5"
proof -
  have zero: "drop_bit 7 (drop_bit 7 (drop_bit 7 (drop_bit 7 (drop_bit 7 w)))) = 0"
    by (rule bit_word_eqI) (auto simp: bit_simps)
  show ?thesis
    by (simp add: unsignedLeb128Size.simps [of w] unsignedLeb128Size.simps [of "drop_bit 7 w"]
      unsignedLeb128Size.simps [of "drop_bit 7 (drop_bit 7 w)"]
      unsignedLeb128Size.simps [of "drop_bit 7 (drop_bit 7 (drop_bit 7 w))"]
      unsignedLeb128Size.simps [of "drop_bit 7 (drop_bit 7 (drop_bit 7 (drop_bit 7 w)))"]
      zero Let_def del: drop_bit_drop_bit)
qed

lemma take_bit_7_iff: "take_bit 7 w = w \<longleftrightarrow> drop_bit 7 w = (0::u4)"
  by (metis bits_ident drop_bit_take_bit take_bit_0 add.right_neutral diff_self_eq_0 push_bit_of_0 add.left_neutral concat_bit_def concat_bit_0 concat_bit_of_zero_2 take_bit_eq_self_iff_drop_bit_eq_0)

lemma write_leb_bytes: "writeUnsignedLeb128 w = leb_bytes (unsignedLeb128Size w) w"
proof (induction w rule: writeUnsignedLeb128.induct)
  case (1 w)
  show ?case
  proof (cases "drop_bit 7 w = 0")
    case True
    then show ?thesis
      by (simp add: writeUnsignedLeb128.simps [of w] unsignedLeb128Size.simps [of w] and_7f take_bit_7_iff)
  next
    case False
    then have "w AND 0x7f \<noteq> w" by (simp add: and_7f take_bit_7_iff)
    moreover have "0 < unsignedLeb128Size (drop_bit 7 w)"
      using leb128Size_range [of "drop_bit 7 w"] by simp
    ultimately show ?thesis using 1 False
      by (simp add: writeUnsignedLeb128.simps [of w] unsignedLeb128Size.simps [of w] leb_bytes_more
        more_def Let_def)
  qed
qed

lemma take_bit_size: "take_bit (7 * unsignedLeb128Size w) w = w"
proof (induction w rule: unsignedLeb128Size.induct)
  case (1 w)
  show ?case
  proof (cases "drop_bit 7 w = 0")
    case True
    then show ?thesis by (simp add: unsignedLeb128Size.simps [of w] flip: take_bit_7_iff)
  next
    case False
    have IH: "take_bit (7 * unsignedLeb128Size (drop_bit 7 w)) (drop_bit 7 w) = drop_bit 7 w"
      by (rule 1) (simp_all add: False)
    show ?thesis
    proof (rule bit_word_eqI)
      fix n assume "n < LENGTH(32)"
      show "bit (take_bit (7 * unsignedLeb128Size w) w) n = bit w n"
      proof (cases "n < 7")
        case False
        then obtain m where "n = 7 + m" by (metis le_iff_add not_less)
        then show ?thesis
          using \<open>drop_bit 7 w \<noteq> 0\<close> arg_cong [OF IH, of "\<lambda>x. bit x m"]
          by (auto simp: unsignedLeb128Size.simps [of w] bit_simps Let_def)
      qed (auto simp: unsignedLeb128Size.simps [of w] bit_simps Let_def)
    qed
  qed
qed

lemma read_write: "readUnsignedLeb128 (writeUnsignedLeb128 w @ s) = Some (w, s)"
  using leb128Size_range [of w] by (simp add: write_leb_bytes readUnsigned_bytes take_bit_size)

lemma readUnsigned_shrinks:
  "readUnsignedLeb128 s = Some (w, t) \<Longrightarrow> \<exists>u. u \<noteq> [] \<and> s = u @ t \<and> length u \<le> 5"
  by (auto simp: readUnsignedLeb128_def Let_def elim!: next_byte.elims split: Option.bind_splits if_splits)

interpretation uleb: codec writeUnsignedLeb128 readUnsignedLeb128 "\<lambda>_. True"
proof unfold_locales
  show "\<exists>u. u \<noteq> [] \<and> s = u @ t" if "readUnsignedLeb128 s = Some (x, t)" for s x t
    using readUnsigned_shrinks [OF that] by blast
qed (rule read_write)

lemma sign_extend_signed: "0 < k \<Longrightarrow> k \<le> 32 \<Longrightarrow> sign_extend (32 - k) w = signed_take_bit (k - 1) w"
  unfolding sign_extend_def
  by (cases k; rule bit_word_eqI) (auto simp: bit_simps min_def not_le less_Suc_eq)

lemmas sign_extends = sign_extend_signed [of 7, simplified] sign_extend_signed [of 14, simplified]
  sign_extend_signed [of 21, simplified] sign_extend_signed [of 28, simplified]

lemma not_le_7f: "\<not> (ucast (b::u1) :: u4) \<le> 0x7f \<longleftrightarrow> bit b 7"
proof -
  have u: "unat b < 256" using unsigned_less [of b, where ?'a = nat] by simp
  have "bit b 7 \<longleftrightarrow> odd (unat b div 128)" 
    using bit_unsigned_iff [of b 7, where ?'a = nat] by (auto simp: bit_iff_odd dest: bit_imp_le_length)
  also have "\<dots> \<longleftrightarrow> \<not> unat b \<le> 127"
  proof (cases "unat b \<le> 127")
    case False
    with u have "unat b div 128 = 1" by (intro div_nat_eqI) simp_all
    with False show ?thesis by simp
  qed simp
  finally show ?thesis using u by (simp add: word_le_nat_alt unsigned_ucast_eq take_bit_eq_mod)
qed

lemma and_0f: "take_bit 4 (b::u1) = b \<longleftrightarrow> b \<le> 0x0f"
proof -
  have "take_bit 4 b = b \<longleftrightarrow> unat b mod 16 = unat b"
    by (simp add: word_unat_eq_iff unat_mod take_bit_eq_mod)
  also have "\<dots> \<longleftrightarrow> unat b < 16" by (metis mod_less mod_less_divisor zero_less_numeral)
  finally show ?thesis by (simp add: word_le_nat_alt) linarith
qed

lemma eight: "n < 8 \<Longrightarrow> \<not> n < 7 \<Longrightarrow> n = (7::nat)"
  by simp

lemmas byte_bits = more_def final_def and_7f bit_simps bit_80

lemma one_byte: "\<not> bit (b0::u1) 7 \<Longrightarrow> final (ucast b0) = b0"
  by (intro bit_word_eqI) (auto simp: byte_bits dest: eight)

lemma two_bytes:
  fixes b0 b1 :: u1
  assumes "bit b0 7" "\<not> bit b1 7" "r = (ucast b0 AND 0x7f) OR push_bit 7 (ucast b1 AND 0x7f)"
  shows "more r = b0" "final (drop_bit 7 r) = b1"
  using assms by (auto intro!: bit_word_eqI simp: byte_bits dest: eight)

lemma three_bytes:
  fixes b0 b1 b2 :: u1
  assumes "bit b0 7" "bit b1 7" "\<not> bit b2 7"
    and "r = ((ucast b0 AND 0x7f) OR push_bit 7 (ucast b1 AND 0x7f)) OR push_bit 14 (ucast b2 AND 0x7f)"
  shows "more r = b0" "more (drop_bit 7 r) = b1" "final (drop_bit 14 r) = b2"
  using assms by (auto intro!: bit_word_eqI simp: byte_bits dest: eight)

lemma four_bytes:
  fixes b0 b1 b2 b3 :: u1
  assumes "bit b0 7" "bit b1 7" "bit b2 7" "\<not> bit b3 7"
    and "r = (((ucast b0 AND 0x7f) OR push_bit 7 (ucast b1 AND 0x7f)) OR push_bit 14 (ucast b2 AND 0x7f)) OR
      push_bit 21 (ucast b3 AND 0x7f)"
  shows "more r = b0" "more (drop_bit 7 r) = b1" "more (drop_bit 14 r) = b2" "final (drop_bit 21 r) = b3"
  using assms by (auto intro!: bit_word_eqI simp: byte_bits dest: eight)

lemma five_bytes:
  fixes b0 b1 b2 b3 b4 :: u1
  assumes "bit b0 7" "bit b1 7" "bit b2 7" "bit b3 7"
    and "r = ((((ucast b0 AND 0x7f) OR push_bit 7 (ucast b1 AND 0x7f)) OR push_bit 14 (ucast b2 AND 0x7f)) OR
      push_bit 21 (ucast b3 AND 0x7f)) OR push_bit 28 (ucast b4 :: u4)"
  shows "more r = b0" "more (drop_bit 7 r) = b1" "more (drop_bit 14 r) = b2" "more (drop_bit 21 r) = b3"
    "final (drop_bit 28 r) = b4 \<longleftrightarrow> b4 \<le> 0x0f"
proof -
  have "final (drop_bit 28 r) = take_bit 4 b4"
    using assms(5) by (intro bit_word_eqI) (auto simp: byte_bits)
  then show "final (drop_bit 28 r) = b4 \<longleftrightarrow> b4 \<le> 0x0f" by (simp add: and_0f)
qed (use assms in \<open>auto intro!: bit_word_eqI simp: byte_bits dest: eight\<close>)

lemma next_byteE:
  assumes "next_byte s = Some (w, t)"
  obtains b where "s = b # t" "w = ucast b"
  using assms by (cases s) simp_all

definition clean :: "u1 list \<Rightarrow> u4 \<Rightarrow> bool" where
  "clean bs w \<longleftrightarrow> 1 \<le> length bs \<and> length bs \<le> 5 \<and>
     (bs = leb_bytes (length bs) w \<longleftrightarrow> \<not> (length bs = 5 \<and> 0x0f < bs ! 4))"

lemma le_7f_bit: "(ucast (b::u1) :: u4) \<le> 0x7f \<longleftrightarrow> \<not> bit b 7"
  using not_le_7f [of b] by blast

lemma clean_1: "\<not> bit b0 7 \<Longrightarrow> w = ucast b0 \<Longrightarrow> clean [b0] w"
  using leb_bytes_1 [of w] by (simp add: clean_def one_byte)

lemma clean_2:
  "bit b0 7 \<Longrightarrow> \<not> bit b1 7 \<Longrightarrow> w = (ucast b0 AND 0x7f) OR push_bit 7 (ucast b1 AND 0x7f) \<Longrightarrow>
   clean [b0, b1] w"
  using leb_bytes_2 [of w] two_bytes [of b0 b1 w] by (simp add: clean_def numeral_2_eq_2)

lemma clean_3:
  "bit b0 7 \<Longrightarrow> bit b1 7 \<Longrightarrow> \<not> bit b2 7 \<Longrightarrow>
   w = ((ucast b0 AND 0x7f) OR push_bit 7 (ucast b1 AND 0x7f)) OR push_bit 14 (ucast b2 AND 0x7f) \<Longrightarrow>
   clean [b0, b1, b2] w"
  using leb_bytes_3 [of w] three_bytes [of b0 b1 b2 w] by (simp add: clean_def numeral_3_eq_3)

lemma clean_4:
  assumes "bit b0 7" "bit b1 7" "bit b2 7" "\<not> bit b3 7"
    "w = (((ucast b0 AND 0x7f) OR push_bit 7 (ucast b1 AND 0x7f)) OR push_bit 14 (ucast b2 AND 0x7f)) OR
      push_bit 21 (ucast b3 AND 0x7f)"
  shows "clean [b0, b1, b2, b3] w"
proof -
  have "length [b0, b1, b2, b3] = 4" by simp
  then show ?thesis using leb_bytes_4 [of w] four_bytes [OF assms] by (simp only: clean_def) simp
qed

lemma clean_5:
  assumes "bit b0 7" "bit b1 7" "bit b2 7" "bit b3 7"
    "w = ((((ucast b0 AND 0x7f) OR push_bit 7 (ucast b1 AND 0x7f)) OR push_bit 14 (ucast b2 AND 0x7f)) OR
      push_bit 21 (ucast b3 AND 0x7f)) OR push_bit 28 (ucast b4)"
  shows "clean [b0, b1, b2, b3, b4] w"
proof -
  have "length [b0, b1, b2, b3, b4] = 5" "[b0, b1, b2, b3, b4] ! 4 = b4" by simp_all
  then show ?thesis
    using leb_bytes_5 [of w] five_bytes [OF assms] by (simp only: clean_def) (auto simp: not_less)
qed

lemma readUnsigned_consumes:
  assumes "readUnsignedLeb128 s = Some (w, t)"
  shows "\<exists>bs. s = bs @ t \<and> clean bs w"
  using assms unfolding readUnsignedLeb128_def Let_def
  by (auto elim!: next_byteE simp: le_7f_bit intro!: clean_1 clean_2 clean_3 clean_4 clean_5
      split: Option.bind_split_asm if_split_asm)

section \<open>Properties\<close>

text \<open>What \<open>writeUnsignedLeb128\<close> writes is read back by \<open>readUnsignedLeb128\<close> whatever
  follows, it takes \<open>unsignedLeb128Size\<close> bytes and never more than five, and no encoding is the
  beginning of another.\<close>

theorem uleb128_roundtrip:
  "readUnsignedLeb128 (writeUnsignedLeb128 w @ s) = Some (w, s) \<and>
   length (writeUnsignedLeb128 w) = unsignedLeb128Size w \<and> unsignedLeb128Size w \<le> 5 \<and>
   (writeUnsignedLeb128 v @ t = writeUnsignedLeb128 w @ s \<longleftrightarrow> v = w \<and> t = s)"
  using leb128Size_range [of w] uleb.enc_prefix_free [where x = v and y = w and s = t and t = s]
  by (auto simp: read_write) (simp_all add: write_leb_bytes)

text \<open>The signed reader takes the same bytes as the unsigned one and sign-extends the value
  from the last bit it read.\<close>

theorem sleb128_sign_extends:
  assumes "readUnsignedLeb128 s = Some (u, t)" "n = length s - length t"
  shows "readSignedLeb128 s = Some (if n = 5 then u else signed_take_bit (7 * n - 1) u, t)"
  using assms
  by (auto simp: readUnsignedLeb128_def readSignedLeb128_def Let_def sign_extends elim!: next_byte.elims
      split: Option.bind_splits if_splits)

theorem sleb128_sign_extends_witness: "readSignedLeb128 [0x80, 0x7f, 9] = Some (- 128, [9])"
proof -
  have "readUnsignedLeb128 [0x80, 0x7f, 9] = Some (0x3f80, [9])" by code_simp
  from sleb128_sign_extends [OF this refl] show ?thesis by simp
qed

text \<open>The checking reader returns what the plain one returns, and clears \<open>okay\<close> unless the
  bytes lie before the limit and are exactly an encoding of the value: anything else in them
  would be lost bits in a fifth byte.\<close>

theorem verified_uleb128:
  assumes "readUnsignedLeb128 s = Some (w, t)" "n = length s - length t"
  shows "readAndVerifyUnsignedLeb128 limit okay s =
    Some (w, okay \<and> (\<forall>l. limit = Some l \<longrightarrow> n \<le> l) \<and> take n s = leb_bytes n w, t)"
proof -
  obtain bs where bs: "s = bs @ t" "length bs \<le> 5"
    "bs = leb_bytes (length bs) w \<longleftrightarrow> \<not> (length bs = 5 \<and> 0x0f < bs ! 4)"
    using readUnsigned_consumes [OF assms(1)] by (auto simp: clean_def)
  then have "n = length bs" "take n s = bs" using assms(2) by simp_all
  moreover from this have "n = 5 \<Longrightarrow> s ! 4 = bs ! 4" using bs(1) by (simp add: nth_append)
  ultimately show ?thesis using assms bs(3)
    by (auto simp: readAndVerifyUnsignedLeb128_def verify_leb128_def Let_def not_less split: option.splits)
qed

theorem verified_uleb128_witness:
  "readAndVerifyUnsignedLeb128 (Some 9) True [0x80, 0x80, 0x80, 0x80, 0x10, 7] = Some (0, False, [7])"
proof -
  have r: "readUnsignedLeb128 [0x80, 0x80, 0x80, 0x80, 0x10, 7] = Some (0, [7])" by code_simp
  have "leb_bytes 5 0 = [0x80, 0x80, 0x80, 0x80, 0]" by code_simp
  with verified_uleb128 [OF r refl, of "Some 9" True] show ?thesis by simp
qed

end
