(* ===== verification/DexCatch.thy ===== *)
theory DexCatch
  imports Leb128
begin

text \<open>
  \<^verbatim>\<open>jni/dalvik/libdex/DexCatch.h\<close> and \<^verbatim>\<open>DexCatch.cpp\<close>: which handlers an address of a method has.
  The try table is searched by bisection; the handlers of a try are a list of LEB128 numbers that
  an iterator reads. A \<open>DexCode\<close> is its try table (\<open>dexGetTries\<close>, with \<open>triesSize\<close> entries) and the
  bytes after it (\<open>dexGetCatchHandlerData\<close>). \<open>None\<close> is a read outside the table or the bytes.
\<close>

unbundle bit_operations_syntax

section \<open>Model\<close>

record dex_try =
  startAddr :: u4
  insnCount :: u2
  handlerOff :: u2

record dex_code =
  tries :: "dex_try list"
  handler_data :: "u1 list"

type_synonym catch_handler = "u4 \<times> u4" \<comment> \<open>\<open>typeIdx\<close> and \<open>address\<close>\<close>

record catch_iterator =
  pEncodedData :: "u1 list"
  catchesAll :: bool
  countRemaining :: u4

definition kDexNoIndex :: u4 where "kDexNoIndex = 0xffffffff"

definition dexGetFirstHandlerOffset :: "dex_code \<Rightarrow> u4 option" where
  "dexGetFirstHandlerOffset c =
     (if tries c = [] then Some 0
      else do { (_, rest) \<leftarrow> readUnsignedLeb128 (handler_data c);
        Some (of_nat (length (handler_data c) - length rest)) })"

definition dexGetHandlersSize :: "dex_code \<Rightarrow> u4 option" where
  "dexGetHandlersSize c =
     (if tries c = [] then Some 0
      else do { (n, _) \<leftarrow> readUnsignedLeb128 (handler_data c); Some n })"

definition dexCatchIteratorClear :: catch_iterator where
  "dexCatchIteratorClear = \<lparr>pEncodedData = [], catchesAll = False, countRemaining = 0\<rparr>"

definition dexCatchIteratorInitToPointer :: "u1 list \<Rightarrow> catch_iterator option" where
  "dexCatchIteratorInitToPointer data =
     do { (count, rest) \<leftarrow> readSignedLeb128 data;
       Some (if sint count \<le> 0
         then \<lparr>pEncodedData = rest, catchesAll = True, countRemaining = - count\<rparr>
         else \<lparr>pEncodedData = rest, catchesAll = False, countRemaining = count\<rparr>) }"

definition dexCatchIteratorInit :: "dex_code \<Rightarrow> u4 \<Rightarrow> catch_iterator option" where
  "dexCatchIteratorInit c offset = dexCatchIteratorInitToPointer (drop (unat offset) (handler_data c))"

text \<open>\<open>Some (None, it)\<close>: the iterator is at its end.\<close>

definition dexCatchIteratorNext :: "catch_iterator \<Rightarrow> (catch_handler option \<times> catch_iterator) option" where
  "dexCatchIteratorNext it =
     (if countRemaining it = 0 then
        (if \<not> catchesAll it then Some (None, it)
         else do { (address, rest) \<leftarrow> readUnsignedLeb128 (pEncodedData it);
           Some (Some (kDexNoIndex, address), it\<lparr>catchesAll := False, pEncodedData := rest\<rparr>) })
      else do { (typeIdx, rest) \<leftarrow> readUnsignedLeb128 (pEncodedData it);
        (address, rest) \<leftarrow> readUnsignedLeb128 rest;
        Some (Some (typeIdx, address),
          it\<lparr>countRemaining := countRemaining it - 1, pEncodedData := rest\<rparr>) })"

definition items_left :: "catch_iterator \<Rightarrow> nat" where
  "items_left it = unat (countRemaining it) + (if catchesAll it then 1 else 0)"

lemma next_items_left:
  "dexCatchIteratorNext it = Some (Some h, it') \<Longrightarrow> items_left it = Suc (items_left it')"
  by (auto simp: dexCatchIteratorNext_def items_left_def unat_minus_one unat_gt_0 split: if_splits Option.bind_splits)

text \<open>\<open>while (dexCatchIteratorNext(pIterator) != NULL)\<close>, with the handlers it passes.\<close>

function drain :: "catch_iterator \<Rightarrow> (catch_handler list \<times> catch_iterator) option" where
  "drain it =
     (case dexCatchIteratorNext it of
        None \<Rightarrow> None
      | Some (None, it') \<Rightarrow> Some ([], it')
      | Some (Some h, it') \<Rightarrow> do { (hs, it'') \<leftarrow> drain it'; Some (h # hs, it'') })"
  by pat_completeness auto
termination
  by (relation "measure items_left") (auto dest: next_items_left)

declare drain.simps [simp del]

definition dexCatchIteratorGetEndOffset :: "catch_iterator \<Rightarrow> dex_code \<Rightarrow> u4 option" where
  "dexCatchIteratorGetEndOffset it c =
     do { (_, it') \<leftarrow> drain it; Some (of_nat (length (handler_data c) - length (pEncodedData it'))) }"

function offset0_loop :: "dex_try list \<Rightarrow> u4 \<Rightarrow> int \<Rightarrow> int \<Rightarrow> int option" where
  "offset0_loop pTries address lo hi =
     (if hi \<ge> lo then
        let guess = (lo + hi) div 2 in
        if guess < 0 \<or> int (length pTries) \<le> guess then None
        else
          let pTry = pTries ! nat guess; start = startAddr pTry in
          if address < start then offset0_loop pTries address lo (guess - 1)
          else if address \<ge> start + ucast (insnCount pTry) then offset0_loop pTries address (guess + 1) hi
          else Some (uint (handlerOff pTry))
      else Some (-1))"
  by pat_completeness auto
termination
  by (relation "measure (\<lambda>(ts, a, lo, hi). nat (hi - lo + 1))") auto

declare offset0_loop.simps [simp del]

definition dexFindCatchHandlerOffset0 :: "dex_try list \<Rightarrow> u4 \<Rightarrow> int option" where
  "dexFindCatchHandlerOffset0 pTries address = offset0_loop pTries address 0 (int (length pTries) - 1)"

definition dexFindCatchHandler :: "dex_code \<Rightarrow> u4 \<Rightarrow> (bool \<times> catch_iterator) option" where
  "dexFindCatchHandler c address =
     do { offset \<leftarrow> (case tries c of
          [] \<Rightarrow> Some (-1)
        | [t] \<Rightarrow> if address < startAddr t then Some (-1)
            else if address \<ge> startAddr t + ucast (insnCount t) then Some (-1)
            else Some (uint (handlerOff t))
        | _ \<Rightarrow> dexFindCatchHandlerOffset0 (tries c) address);
     if offset < 0 then Some (False, dexCatchIteratorClear)
     else do { it \<leftarrow> dexCatchIteratorInit c (word_of_int offset); Some (True, it) } }"

section \<open>The try table\<close>

definition try_end :: "dex_try \<Rightarrow> nat" where
  "try_end t = unat (startAddr t) + unat (insnCount t)"

definition covers :: "u4 \<Rightarrow> dex_try \<Rightarrow> bool" where
  "covers address t \<longleftrightarrow> unat (startAddr t) \<le> unat address \<and> unat address < try_end t"

text \<open>A well-formed table: the ranges end below \<open>2\<^sup>3\<^sup>2\<close>, are in order and do not overlap.\<close>

definition tries_ok :: "dex_try list \<Rightarrow> bool" where
  "tries_ok ts \<longleftrightarrow> (\<forall>t \<in> set ts. try_end t < 2 ^ 32) \<and> sorted_wrt (\<lambda>t u. try_end t \<le> unat (startAddr u)) ts"

lemma end_word:
  assumes "try_end t < 2 ^ 32"
  shows "unat (startAddr t + ucast (insnCount t)) = try_end t"
proof -
  have "unat (ucast (insnCount t) :: u4) = unat (insnCount t)"
    using unsigned_less [of "insnCount t", where ?'a = nat] by (simp add: unsigned_ucast_eq take_bit_eq_mod)
  then show ?thesis using assms by (simp add: try_end_def unat_word_ariths)
qed

lemma tries_ok_nth:
  "tries_ok ts \<Longrightarrow> i < j \<Longrightarrow> j < length ts \<Longrightarrow> try_end (ts ! i) \<le> unat (startAddr (ts ! j))"
  using sorted_wrt_nth_less [of "\<lambda>t u. try_end t \<le> unat (startAddr u)" ts i j]
  by (auto simp: tries_ok_def)

lemma tries_ok_unique:
  assumes "tries_ok ts" "i < length ts" "j < length ts" "covers a (ts ! i)" "covers a (ts ! j)"
  shows "i = j"
  using tries_ok_nth [OF assms(1), of i j] tries_ok_nth [OF assms(1), of j i] assms(2-5)
  by (cases i j rule: linorder_cases) (auto simp: covers_def)

definition try_result :: "dex_try option \<Rightarrow> int" where
  "try_result t = (case t of None \<Rightarrow> -1 | Some t \<Rightarrow> uint (handlerOff t))"

lemma find_unique:
  assumes "tries_ok ts" "i < length ts" "covers a (ts ! i)"
  shows "find (covers a) ts = Some (ts ! i)"
  unfolding find_Some_iff
  using assms tries_ok_unique [OF assms(1,2)] by (metis less_trans less_irrefl)

lemma loop_correct:
  assumes "tries_ok ts" "0 \<le> lo" "hi < int (length ts)"
    and "\<forall>i < length ts. covers a (ts ! i) \<longrightarrow> lo \<le> int i \<and> int i \<le> hi"
  shows "offset0_loop ts a lo hi = Some (try_result (find (covers a) ts))"
  using assms
proof (induction ts a lo hi rule: offset0_loop.induct)
  case (1 ts a lo hi)
  show ?case
  proof (cases "lo \<le> hi")
    case False
    with "1.prems"(4) have "find (covers a) ts = None" by (force simp: find_None_iff in_set_conv_nth)
    with False show ?thesis by (simp add: offset0_loop.simps [of ts a lo hi] try_result_def)
  next
    case True
    define g where "g = nat ((lo + hi) div 2)"
    have g: "(lo + hi) div 2 = int g" "lo \<le> int g" "int g \<le> hi" "g < length ts"
      using True "1.prems"(2,3) by (auto simp: g_def)
    have e: "unat (startAddr (ts ! g) + ucast (insnCount (ts ! g))) = try_end (ts ! g)"
      using "1.prems"(1) g(4) by (intro end_word) (simp add: tries_ok_def)
    consider "a < startAddr (ts ! g)"
      | "\<not> a < startAddr (ts ! g)" "startAddr (ts ! g) + ucast (insnCount (ts ! g)) \<le> a"
      | "\<not> a < startAddr (ts ! g)" "\<not> startAddr (ts ! g) + ucast (insnCount (ts ! g)) \<le> a"
      by blast
    then show ?thesis
    proof cases
      case 1
      have "int i \<le> int g - 1" if "i < length ts" "covers a (ts ! i)" for i
      proof (rule ccontr)
        assume "\<not> int i \<le> int g - 1"
        then have "i = g \<or> g < i" by linarith
        with that 1 g(4) tries_ok_nth [OF "1.prems"(1), of g i] show False
          by (auto simp: covers_def word_less_nat_alt try_end_def)
      qed
      with "1.IH"(1) [of "int g" "ts ! g" "startAddr (ts ! g)"] 1 "1.prems" True g show ?thesis
        by (simp add: offset0_loop.simps [of ts a lo hi] Let_def)
    next
      case 2
      have "int g + 1 \<le> int i" if "i < length ts" "covers a (ts ! i)" for i
      proof (rule ccontr)
        assume "\<not> int g + 1 \<le> int i"
        then have "i = g \<or> i < g" by linarith
        with that 2 e g(4) tries_ok_nth [OF "1.prems"(1), of i g] show False
          by (auto simp: covers_def word_le_nat_alt try_end_def)
      qed
      with "1.IH"(2) [of "int g" "ts ! g" "startAddr (ts ! g)"] 2 "1.prems" True g show ?thesis
        by (simp add: offset0_loop.simps [of ts a lo hi] Let_def)
    next
      case 3
      then have "covers a (ts ! g)" using e by (simp add: covers_def word_less_nat_alt word_le_nat_alt)
      with find_unique [OF "1.prems"(1) g(4)] 3 True g show ?thesis
        by (simp add: offset0_loop.simps [of ts a lo hi] Let_def try_result_def)
    qed
  qed
qed

section \<open>The handler list\<close>

definition handler_bytes :: "catch_handler \<Rightarrow> u1 list" where
  "handler_bytes h = writeUnsignedLeb128 (fst h) @ writeUnsignedLeb128 (snd h)"

definition catch_count :: "catch_handler list \<Rightarrow> u4 option \<Rightarrow> u4" where
  "catch_count typed all = (case all of None \<Rightarrow> of_nat (length typed) | Some _ \<Rightarrow> - of_nat (length typed))"

text \<open>The encoded form of a handler list, with its count in \<open>n\<close> bytes.\<close>

definition catch_bytes :: "nat \<Rightarrow> catch_handler list \<Rightarrow> u4 option \<Rightarrow> u1 list" where
  "catch_bytes n typed all = leb_bytes n (catch_count typed all) @ concat (map handler_bytes typed) @
     (case all of None \<Rightarrow> [] | Some a \<Rightarrow> writeUnsignedLeb128 a)"

definition catch_list :: "catch_handler list \<Rightarrow> u4 option \<Rightarrow> catch_handler list" where
  "catch_list typed all = typed @ (case all of None \<Rightarrow> [] | Some a \<Rightarrow> [(kDexNoIndex, a)])"

definition count_fits :: "nat \<Rightarrow> u4 \<Rightarrow> bool" where
  "count_fits n w \<longleftrightarrow> 1 \<le> n \<and> n \<le> 5 \<and> (n = 5 \<or> signed_take_bit (7 * n - 1) w = w)"

lemma drain_typed:
  assumes "length typed < 2 ^ 32"
    and "pEncodedData it = concat (map handler_bytes typed) @ s" "countRemaining it = of_nat (length typed)"
  shows "drain it = (case drain (it\<lparr>countRemaining := 0, pEncodedData := s\<rparr>) of
     None \<Rightarrow> None | Some (hs, it') \<Rightarrow> Some (typed @ hs, it'))"
  using assms
proof (induction typed arbitrary: it)
  case Nil
  then have "it\<lparr>countRemaining := 0, pEncodedData := s\<rparr> = it" by simp
  then show ?case by (simp split: option.splits)
next
  case (Cons h typed)
  let ?it = "it\<lparr>countRemaining := of_nat (length typed), pEncodedData := concat (map handler_bytes typed) @ s\<rparr>"
  have n: "of_nat (length (h # typed)) \<noteq> (0 :: u4)"
    using Cons.prems(1) unat_of_nat_u4 [of "length (h # typed)"] by (metis length_0_conv list.distinct(1) unat_0)
  have "dexCatchIteratorNext it = Some (Some h, ?it)"
    using Cons.prems n by (simp add: dexCatchIteratorNext_def handler_bytes_def [of h] read_write)
  then show ?case
    using Cons.prems(1) Cons.IH [of ?it] by (simp add: drain.simps [of it] split: option.splits)
qed

lemma drain_all:
  assumes "countRemaining it = 0"
    and "pEncodedData it = (case all of None \<Rightarrow> [] | Some a \<Rightarrow> writeUnsignedLeb128 a) @ s"
    and "catchesAll it \<longleftrightarrow> all \<noteq> None"
  shows "drain it = Some (case all of None \<Rightarrow> [] | Some a \<Rightarrow> [(kDexNoIndex, a)],
    it\<lparr>catchesAll := False, pEncodedData := s\<rparr>)"
proof -
  have atend: "drain it' = Some ([], it')" if "countRemaining it' = 0" "\<not> catchesAll it'" for it'
    using that by (simp add: drain.simps [of it'] dexCatchIteratorNext_def)
  show ?thesis
  proof (cases all)
    case None
    with assms atend [of it] show ?thesis by simp
  next
    case (Some a)
    with assms have "dexCatchIteratorNext it =
        Some (Some (kDexNoIndex, a), it\<lparr>catchesAll := False, pEncodedData := s\<rparr>)"
      by (simp add: dexCatchIteratorNext_def read_write)
    with Some assms atend [of "it\<lparr>catchesAll := False, pEncodedData := s\<rparr>"] show ?thesis
      by (simp add: drain.simps [of it])
  qed
qed

lemma init_catch_bytes:
  assumes "count_fits n (catch_count typed all)" "length typed < 2 ^ 31" "all = None \<longrightarrow> typed \<noteq> []"
  shows "dexCatchIteratorInitToPointer (leb_bytes n (catch_count typed all) @ s) =
    Some \<lparr>pEncodedData = s, catchesAll = (all \<noteq> None), countRemaining = of_nat (length typed)\<rparr>"
proof -
  have r: "readSignedLeb128 (leb_bytes n (catch_count typed all) @ s) = Some (catch_count typed all, s)"
    using assms(1) readSigned_bytes [of n "catch_count typed all" s] by (auto simp: count_fits_def)
  have u: "sint (of_nat (length typed) :: u4) = int (length typed)"
    using assms(2) by (simp add: signed_of_nat signed_take_bit_int_eq_self)
  have "sint (word_of_int (- int (length typed)) :: u4) = - int (length typed)"
    using assms(2) by (simp only: signed_of_int) (simp add: signed_take_bit_int_eq_self)
  then have v: "sint (- of_nat (length typed) :: u4) = - int (length typed)" by simp
  show ?thesis
    using assms(2,3) r u v by (cases all) (auto simp: dexCatchIteratorInitToPointer_def catch_count_def)
qed

lemma drain_catch_bytes:
  assumes "count_fits n (catch_count typed all)" "length typed < 2 ^ 31" "all = None \<longrightarrow> typed \<noteq> []"
  obtains it where "dexCatchIteratorInitToPointer (catch_bytes n typed all @ s) = Some it"
    "drain it = Some (catch_list typed all, \<lparr>pEncodedData = s, catchesAll = False, countRemaining = 0\<rparr>)"
proof -
  let ?rest = "(case all of None \<Rightarrow> [] | Some a \<Rightarrow> writeUnsignedLeb128 a) @ s"
  define it where "it = \<lparr>pEncodedData = concat (map handler_bytes typed) @ ?rest,
    catchesAll = (all \<noteq> None), countRemaining = of_nat (length typed)\<rparr>"
  have "drain it = Some (catch_list typed all, \<lparr>pEncodedData = s, catchesAll = False, countRemaining = 0\<rparr>)"
    using assms(2) drain_typed [of typed it ?rest]
      drain_all [of "it\<lparr>countRemaining := 0, pEncodedData := ?rest\<rparr>" all s]
    by (simp add: it_def catch_list_def)
  moreover have "dexCatchIteratorInitToPointer (catch_bytes n typed all @ s) = Some it"
    using init_catch_bytes [OF assms] by (simp add: catch_bytes_def it_def)
  ultimately show ?thesis by (intro that)
qed

lemma find_in_tries:
  assumes "tries_ok (tries c)"
  shows "dexFindCatchHandler c address =
    (case find (covers address) (tries c) of
       None \<Rightarrow> Some (False, dexCatchIteratorClear)
     | Some t \<Rightarrow> map_option (Pair True) (dexCatchIteratorInit c (ucast (handlerOff t))))"
proof -
  have w: "word_of_int (uint h) = (ucast h :: u4)" for h :: u2 by (rule ucast_eq [symmetric])
  have loop: "dexFindCatchHandlerOffset0 (tries c) address = Some (try_result (find (covers address) (tries c)))"
    unfolding dexFindCatchHandlerOffset0_def by (rule loop_correct [OF assms]) simp_all
  have one: "(if address < startAddr t then Some (-1)
      else if address \<ge> startAddr t + ucast (insnCount t) then Some (-1) else Some (uint (handlerOff t))) =
      Some (try_result (find (covers address) [t]))" if "tries c = [t]" for t
    using assms that end_word [of t]
    by (auto simp: tries_ok_def try_result_def covers_def word_less_nat_alt word_le_nat_alt)
  have "(case tries c of [] \<Rightarrow> Some (-1)
        | [t] \<Rightarrow> if address < startAddr t then Some (-1)
            else if address \<ge> startAddr t + ucast (insnCount t) then Some (-1)
            else Some (uint (handlerOff t))
        | _ \<Rightarrow> dexFindCatchHandlerOffset0 (tries c) address) =
      Some (try_result (find (covers address) (tries c)))"
  proof (cases "tries c" rule: remdups_adj.cases)
    case 1
    then show ?thesis by (simp add: try_result_def)
  next
    case (2 t)
    then show ?thesis using one [OF 2] by (simp only: list.case)
  next
    case (3 t u ts)
    then show ?thesis using loop by (simp only: list.case)
  qed
  then show ?thesis
    by (simp add: dexFindCatchHandler_def try_result_def w map_option_case split: option.splits)
qed

section \<open>Properties\<close>

text \<open>On a table of ordered, disjoint ranges the handler search (bisection, with its two short
  cuts for small tables) never reads outside the table and finds the handlers of the one range
  that contains the address, or reports that there is none.\<close>

theorem find_catch_handler_correct:
  assumes "tries_ok (tries c)"
  shows "dexFindCatchHandler c address =
    (case find (covers address) (tries c) of
       None \<Rightarrow> Some (False, dexCatchIteratorClear)
     | Some t \<Rightarrow> map_option (Pair True) (dexCatchIteratorInit c (ucast (handlerOff t))))"
  using assms by (rule find_in_tries)

theorem find_catch_handler_correct_witness:
  "dexFindCatchHandler \<lparr>tries = [\<lparr>startAddr = 2, insnCount = 3, handlerOff = 1\<rparr>,
       \<lparr>startAddr = 8, insnCount = 4, handlerOff = 0\<rparr>], handler_data = [1, 5, 6]\<rparr> 11 =
     Some (True, \<lparr>pEncodedData = [5, 6], catchesAll = False, countRemaining = 1\<rparr>)"
proof -
  let ?c = "\<lparr>tries = [\<lparr>startAddr = 2, insnCount = 3, handlerOff = 1\<rparr>,
       \<lparr>startAddr = 8, insnCount = 4, handlerOff = 0\<rparr>], handler_data = [1, 5, 6]\<rparr>"
  have "tries_ok (tries ?c)" by (simp add: tries_ok_def try_end_def)
  moreover have "dexCatchIteratorInit ?c 0 = Some \<lparr>pEncodedData = [5, 6], catchesAll = False, countRemaining = 1\<rparr>"
    by code_simp
  ultimately show ?thesis
    using find_catch_handler_correct [of ?c 11] by (simp add: covers_def try_end_def)
qed

text \<open>C34. Iterating over an encoded handler list yields its typed handlers in order and then the
  handler for everything, if there is one, and the end offset is where the next list starts.\<close>

theorem catch_handlers_roundtrip:
  assumes "count_fits n (catch_count typed all)" "length typed < 2 ^ 31" "all = None \<longrightarrow> typed \<noteq> []"
    and "handler_data c = pre @ catch_bytes n typed all @ s" "length pre < 2 ^ 32"
  shows "\<exists>it. dexCatchIteratorInit c (of_nat (length pre)) = Some it \<and>
    map_option fst (drain it) = Some (catch_list typed all) \<and>
    dexCatchIteratorGetEndOffset it c = Some (of_nat (length pre + length (catch_bytes n typed all)))"
  using assms(1-3)
proof (rule drain_catch_bytes)
  fix it assume "dexCatchIteratorInitToPointer (catch_bytes n typed all @ s) = Some it"
    "drain it = Some (catch_list typed all, \<lparr>pEncodedData = s, catchesAll = False, countRemaining = 0\<rparr>)"
  with assms(4,5) show ?thesis
    by (simp add: dexCatchIteratorInit_def unat_of_nat_u4 dexCatchIteratorGetEndOffset_def)
qed

theorem catch_handlers_roundtrip_witness:
  "\<exists>it. dexCatchIteratorInit \<lparr>tries = [], handler_data = [2, 0x7f, 3, 4, 9]\<rparr> 1 = Some it \<and>
    map_option fst (drain it) = Some [(3, 4), (kDexNoIndex, 9)] \<and>
    dexCatchIteratorGetEndOffset it \<lparr>tries = [], handler_data = [2, 0x7f, 3, 4, 9]\<rparr> = Some 5"
proof -
  have b: "catch_bytes (Suc 0) [(3, 4)] (Some 9) = [0x7f, 3, 4, 9]" by code_simp
  have "count_fits (Suc 0) (catch_count [(3, 4)] (Some 9))" by code_simp
  from catch_handlers_roundtrip [OF this, of "\<lparr>tries = [], handler_data = [2, 0x7f, 3, 4, 9]\<rparr>" "[2]" "[]"]
  show ?thesis by (simp add: b catch_list_def)
qed

end
