(* ===== verification/InstrUtils.thy ===== *)
theory InstrUtils
  imports Leb128
begin

text \<open>
  \<^verbatim>\<open>jni/dalvik/libdex/InstrUtils.h\<close>, \<^verbatim>\<open>InstrUtils.cpp\<close> and \<open>dexOpcodeFromCodeUnit\<close> of \<^verbatim>\<open>DexOpcodes.h\<close>:
  the four opcode tables and the instruction decoder that is driven by them. Code is a list of
  code units; \<open>None\<close> is a read past its end or past the end of a table.
\<close>

unbundle bit_operations_syntax

section \<open>Tables\<close>

datatype InstructionFormat =
     kFmt00x | kFmt10x | kFmt12x | kFmt11n | kFmt11x | kFmt10t | kFmt20bc | kFmt20t | kFmt22x |
     kFmt21t | kFmt21s | kFmt21h | kFmt21c | kFmt23x | kFmt22b | kFmt22t | kFmt22s | kFmt22c |
     kFmt22cs | kFmt30t | kFmt32x | kFmt31i | kFmt31t | kFmt31c | kFmt35c | kFmt35ms | kFmt3rc |
     kFmt3rms | kFmt51l | kFmt35mi | kFmt3rmi

datatype InstructionIndexType =
     kIndexUnknown | kIndexNone | kIndexVaries | kIndexTypeRef | kIndexStringRef | kIndexMethodRef |
     kIndexFieldRef | kIndexInlineMethod | kIndexVtableOffset | kIndexFieldOffset

definition kInstrCanBranch :: u1 where "kInstrCanBranch = 1"
definition kInstrCanContinue :: u1 where "kInstrCanContinue = 2"
definition kInstrCanSwitch :: u1 where "kInstrCanSwitch = 4"
definition kInstrCanThrow :: u1 where "kInstrCanThrow = 8"
definition kInstrCanReturn :: u1 where "kInstrCanReturn = 16"
definition kInstrInvoke :: u1 where "kInstrInvoke = 32"

definition gInstructionWidthTable :: "nat list" where
  "gInstructionWidthTable = [
     1, 1, 2, 3, 1, 2, 3, 1, 2, 3, 1, 1, 1, 1, 1, 1, 1, 1, 1, 2, 3, 2, 2, 3, 5, 2, 2, 3, 2, 1, 1, 2,
     2, 1, 2, 2, 3, 3, 3, 1, 1, 2, 3, 3, 3, 2, 2, 2, 2, 2, 2, 2, 2, 2, 2, 2, 2, 2, 2, 2, 2, 2, 0, 0,
     0, 0, 0, 0, 2, 2, 2, 2, 2, 2, 2, 2, 2, 2, 2, 2, 2, 2, 2, 2, 2, 2, 2, 2, 2, 2, 2, 2, 2, 2, 2, 2,
     2, 2, 2, 2, 2, 2, 2, 2, 2, 2, 2, 2, 2, 2, 3, 3, 3, 3, 3, 0, 3, 3, 3, 3, 3, 0, 0, 1, 1, 1, 1, 1,
     1, 1, 1, 1, 1, 1, 1, 1, 1, 1, 1, 1, 1, 1, 1, 1, 2, 2, 2, 2, 2, 2, 2, 2, 2, 2, 2, 2, 2, 2, 2, 2,
     2, 2, 2, 2, 2, 2, 2, 2, 2, 2, 2, 2, 2, 2, 2, 2, 1, 1, 1, 1, 1, 1, 1, 1, 1, 1, 1, 1, 1, 1, 1, 1,
     1, 1, 1, 1, 1, 1, 1, 1, 1, 1, 1, 1, 1, 1, 1, 1, 2, 2, 2, 2, 2, 2, 2, 2, 2, 2, 2, 2, 2, 2, 2, 2,
     2, 2, 2, 2, 2, 2, 2, 2, 2, 2, 2, 2, 0, 2, 3, 3, 3, 1, 2, 2, 2, 2, 2, 2, 3, 3, 3, 3, 2, 2, 2, 0]"

definition gOpcodeFlagsTable :: "u1 list" where
  "gOpcodeFlagsTable = [
     kInstrCanContinue, kInstrCanContinue, kInstrCanContinue, kInstrCanContinue, kInstrCanContinue,
     kInstrCanContinue, kInstrCanContinue, kInstrCanContinue, kInstrCanContinue, kInstrCanContinue,
     kInstrCanContinue, kInstrCanContinue, kInstrCanContinue, kInstrCanContinue, kInstrCanReturn,
     kInstrCanReturn, kInstrCanReturn, kInstrCanReturn, kInstrCanContinue, kInstrCanContinue,
     kInstrCanContinue, kInstrCanContinue, kInstrCanContinue, kInstrCanContinue, kInstrCanContinue,
     kInstrCanContinue, kInstrCanContinue OR kInstrCanThrow, kInstrCanContinue OR kInstrCanThrow,
     kInstrCanContinue OR kInstrCanThrow, kInstrCanContinue OR kInstrCanThrow, kInstrCanContinue OR
     kInstrCanThrow, kInstrCanContinue OR kInstrCanThrow, kInstrCanContinue OR kInstrCanThrow,
     kInstrCanContinue OR kInstrCanThrow, kInstrCanContinue OR kInstrCanThrow, kInstrCanContinue OR
     kInstrCanThrow, kInstrCanContinue OR kInstrCanThrow, kInstrCanContinue OR kInstrCanThrow,
     kInstrCanContinue, kInstrCanThrow, kInstrCanBranch, kInstrCanBranch, kInstrCanBranch,
     kInstrCanContinue OR kInstrCanSwitch, kInstrCanContinue OR kInstrCanSwitch, kInstrCanContinue,
     kInstrCanContinue, kInstrCanContinue, kInstrCanContinue, kInstrCanContinue, kInstrCanContinue
     OR kInstrCanBranch, kInstrCanContinue OR kInstrCanBranch, kInstrCanContinue OR kInstrCanBranch,
     kInstrCanContinue OR kInstrCanBranch, kInstrCanContinue OR kInstrCanBranch, kInstrCanContinue
     OR kInstrCanBranch, kInstrCanContinue OR kInstrCanBranch, kInstrCanContinue OR kInstrCanBranch,
     kInstrCanContinue OR kInstrCanBranch, kInstrCanContinue OR kInstrCanBranch, kInstrCanContinue
     OR kInstrCanBranch, kInstrCanContinue OR kInstrCanBranch, 0, 0, 0, 0, 0, 0, kInstrCanContinue
     OR kInstrCanThrow, kInstrCanContinue OR kInstrCanThrow, kInstrCanContinue OR kInstrCanThrow,
     kInstrCanContinue OR kInstrCanThrow, kInstrCanContinue OR kInstrCanThrow, kInstrCanContinue OR
     kInstrCanThrow, kInstrCanContinue OR kInstrCanThrow, kInstrCanContinue OR kInstrCanThrow,
     kInstrCanContinue OR kInstrCanThrow, kInstrCanContinue OR kInstrCanThrow, kInstrCanContinue OR
     kInstrCanThrow, kInstrCanContinue OR kInstrCanThrow, kInstrCanContinue OR kInstrCanThrow,
     kInstrCanContinue OR kInstrCanThrow, kInstrCanContinue OR kInstrCanThrow, kInstrCanContinue OR
     kInstrCanThrow, kInstrCanContinue OR kInstrCanThrow, kInstrCanContinue OR kInstrCanThrow,
     kInstrCanContinue OR kInstrCanThrow, kInstrCanContinue OR kInstrCanThrow, kInstrCanContinue OR
     kInstrCanThrow, kInstrCanContinue OR kInstrCanThrow, kInstrCanContinue OR kInstrCanThrow,
     kInstrCanContinue OR kInstrCanThrow, kInstrCanContinue OR kInstrCanThrow, kInstrCanContinue OR
     kInstrCanThrow, kInstrCanContinue OR kInstrCanThrow, kInstrCanContinue OR kInstrCanThrow,
     kInstrCanContinue OR kInstrCanThrow, kInstrCanContinue OR kInstrCanThrow, kInstrCanContinue OR
     kInstrCanThrow, kInstrCanContinue OR kInstrCanThrow, kInstrCanContinue OR kInstrCanThrow,
     kInstrCanContinue OR kInstrCanThrow, kInstrCanContinue OR kInstrCanThrow, kInstrCanContinue OR
     kInstrCanThrow, kInstrCanContinue OR kInstrCanThrow, kInstrCanContinue OR kInstrCanThrow,
     kInstrCanContinue OR kInstrCanThrow, kInstrCanContinue OR kInstrCanThrow, kInstrCanContinue OR
     kInstrCanThrow, kInstrCanContinue OR kInstrCanThrow, kInstrCanContinue OR kInstrCanThrow OR
     kInstrInvoke, kInstrCanContinue OR kInstrCanThrow OR kInstrInvoke, kInstrCanContinue OR
     kInstrCanThrow OR kInstrInvoke, kInstrCanContinue OR kInstrCanThrow OR kInstrInvoke,
     kInstrCanContinue OR kInstrCanThrow OR kInstrInvoke, 0, kInstrCanContinue OR kInstrCanThrow OR
     kInstrInvoke, kInstrCanContinue OR kInstrCanThrow OR kInstrInvoke, kInstrCanContinue OR
     kInstrCanThrow OR kInstrInvoke, kInstrCanContinue OR kInstrCanThrow OR kInstrInvoke,
     kInstrCanContinue OR kInstrCanThrow OR kInstrInvoke, 0, 0, kInstrCanContinue,
     kInstrCanContinue, kInstrCanContinue, kInstrCanContinue, kInstrCanContinue, kInstrCanContinue,
     kInstrCanContinue, kInstrCanContinue, kInstrCanContinue, kInstrCanContinue, kInstrCanContinue,
     kInstrCanContinue, kInstrCanContinue, kInstrCanContinue, kInstrCanContinue, kInstrCanContinue,
     kInstrCanContinue, kInstrCanContinue, kInstrCanContinue, kInstrCanContinue, kInstrCanContinue,
     kInstrCanContinue, kInstrCanContinue, kInstrCanContinue, kInstrCanContinue OR kInstrCanThrow,
     kInstrCanContinue OR kInstrCanThrow, kInstrCanContinue, kInstrCanContinue, kInstrCanContinue,
     kInstrCanContinue, kInstrCanContinue, kInstrCanContinue, kInstrCanContinue, kInstrCanContinue,
     kInstrCanContinue, kInstrCanContinue OR kInstrCanThrow, kInstrCanContinue OR kInstrCanThrow,
     kInstrCanContinue, kInstrCanContinue, kInstrCanContinue, kInstrCanContinue, kInstrCanContinue,
     kInstrCanContinue, kInstrCanContinue, kInstrCanContinue, kInstrCanContinue, kInstrCanContinue,
     kInstrCanContinue, kInstrCanContinue, kInstrCanContinue, kInstrCanContinue, kInstrCanContinue,
     kInstrCanContinue, kInstrCanContinue, kInstrCanContinue, kInstrCanContinue, kInstrCanContinue
     OR kInstrCanThrow, kInstrCanContinue OR kInstrCanThrow, kInstrCanContinue, kInstrCanContinue,
     kInstrCanContinue, kInstrCanContinue, kInstrCanContinue, kInstrCanContinue, kInstrCanContinue,
     kInstrCanContinue, kInstrCanContinue, kInstrCanContinue OR kInstrCanThrow, kInstrCanContinue OR
     kInstrCanThrow, kInstrCanContinue, kInstrCanContinue, kInstrCanContinue, kInstrCanContinue,
     kInstrCanContinue, kInstrCanContinue, kInstrCanContinue, kInstrCanContinue, kInstrCanContinue,
     kInstrCanContinue, kInstrCanContinue, kInstrCanContinue, kInstrCanContinue, kInstrCanContinue,
     kInstrCanContinue, kInstrCanContinue, kInstrCanContinue, kInstrCanContinue, kInstrCanContinue,
     kInstrCanContinue OR kInstrCanThrow, kInstrCanContinue OR kInstrCanThrow, kInstrCanContinue,
     kInstrCanContinue, kInstrCanContinue, kInstrCanContinue, kInstrCanContinue, kInstrCanContinue,
     kInstrCanContinue OR kInstrCanThrow, kInstrCanContinue OR kInstrCanThrow, kInstrCanContinue,
     kInstrCanContinue, kInstrCanContinue, kInstrCanContinue, kInstrCanContinue, kInstrCanContinue,
     kInstrCanContinue OR kInstrCanThrow, kInstrCanContinue OR kInstrCanThrow, kInstrCanContinue OR
     kInstrCanThrow, kInstrCanContinue OR kInstrCanThrow, kInstrCanContinue OR kInstrCanThrow,
     kInstrCanContinue OR kInstrCanThrow, kInstrCanContinue OR kInstrCanThrow, kInstrCanContinue OR
     kInstrCanThrow, kInstrCanContinue OR kInstrCanThrow, 0, kInstrCanThrow, kInstrCanContinue OR
     kInstrCanThrow, kInstrCanContinue OR kInstrCanThrow, kInstrCanContinue OR kInstrCanThrow OR
     kInstrInvoke, kInstrCanReturn, kInstrCanContinue OR kInstrCanThrow, kInstrCanContinue OR
     kInstrCanThrow, kInstrCanContinue OR kInstrCanThrow, kInstrCanContinue OR kInstrCanThrow,
     kInstrCanContinue OR kInstrCanThrow, kInstrCanContinue OR kInstrCanThrow, kInstrCanContinue OR
     kInstrCanThrow OR kInstrInvoke, kInstrCanContinue OR kInstrCanThrow OR kInstrInvoke,
     kInstrCanContinue OR kInstrCanThrow OR kInstrInvoke, kInstrCanContinue OR kInstrCanThrow OR
     kInstrInvoke, kInstrCanContinue OR kInstrCanThrow, kInstrCanContinue OR kInstrCanThrow,
     kInstrCanContinue OR kInstrCanThrow, 0]"

definition gInstructionFormatTable :: "InstructionFormat list" where
  "gInstructionFormatTable = [
     kFmt10x, kFmt12x, kFmt22x, kFmt32x, kFmt12x, kFmt22x, kFmt32x, kFmt12x, kFmt22x, kFmt32x,
     kFmt11x, kFmt11x, kFmt11x, kFmt11x, kFmt10x, kFmt11x, kFmt11x, kFmt11x, kFmt11n, kFmt21s,
     kFmt31i, kFmt21h, kFmt21s, kFmt31i, kFmt51l, kFmt21h, kFmt21c, kFmt31c, kFmt21c, kFmt11x,
     kFmt11x, kFmt21c, kFmt22c, kFmt12x, kFmt21c, kFmt22c, kFmt35c, kFmt3rc, kFmt31t, kFmt11x,
     kFmt10t, kFmt20t, kFmt30t, kFmt31t, kFmt31t, kFmt23x, kFmt23x, kFmt23x, kFmt23x, kFmt23x,
     kFmt22t, kFmt22t, kFmt22t, kFmt22t, kFmt22t, kFmt22t, kFmt21t, kFmt21t, kFmt21t, kFmt21t,
     kFmt21t, kFmt21t, kFmt00x, kFmt00x, kFmt00x, kFmt00x, kFmt00x, kFmt00x, kFmt23x, kFmt23x,
     kFmt23x, kFmt23x, kFmt23x, kFmt23x, kFmt23x, kFmt23x, kFmt23x, kFmt23x, kFmt23x, kFmt23x,
     kFmt23x, kFmt23x, kFmt22c, kFmt22c, kFmt22c, kFmt22c, kFmt22c, kFmt22c, kFmt22c, kFmt22c,
     kFmt22c, kFmt22c, kFmt22c, kFmt22c, kFmt22c, kFmt22c, kFmt21c, kFmt21c, kFmt21c, kFmt21c,
     kFmt21c, kFmt21c, kFmt21c, kFmt21c, kFmt21c, kFmt21c, kFmt21c, kFmt21c, kFmt21c, kFmt21c,
     kFmt35c, kFmt35c, kFmt35c, kFmt35c, kFmt35c, kFmt00x, kFmt3rc, kFmt3rc, kFmt3rc, kFmt3rc,
     kFmt3rc, kFmt00x, kFmt00x, kFmt12x, kFmt12x, kFmt12x, kFmt12x, kFmt12x, kFmt12x, kFmt12x,
     kFmt12x, kFmt12x, kFmt12x, kFmt12x, kFmt12x, kFmt12x, kFmt12x, kFmt12x, kFmt12x, kFmt12x,
     kFmt12x, kFmt12x, kFmt12x, kFmt12x, kFmt23x, kFmt23x, kFmt23x, kFmt23x, kFmt23x, kFmt23x,
     kFmt23x, kFmt23x, kFmt23x, kFmt23x, kFmt23x, kFmt23x, kFmt23x, kFmt23x, kFmt23x, kFmt23x,
     kFmt23x, kFmt23x, kFmt23x, kFmt23x, kFmt23x, kFmt23x, kFmt23x, kFmt23x, kFmt23x, kFmt23x,
     kFmt23x, kFmt23x, kFmt23x, kFmt23x, kFmt23x, kFmt23x, kFmt12x, kFmt12x, kFmt12x, kFmt12x,
     kFmt12x, kFmt12x, kFmt12x, kFmt12x, kFmt12x, kFmt12x, kFmt12x, kFmt12x, kFmt12x, kFmt12x,
     kFmt12x, kFmt12x, kFmt12x, kFmt12x, kFmt12x, kFmt12x, kFmt12x, kFmt12x, kFmt12x, kFmt12x,
     kFmt12x, kFmt12x, kFmt12x, kFmt12x, kFmt12x, kFmt12x, kFmt12x, kFmt12x, kFmt22s, kFmt22s,
     kFmt22s, kFmt22s, kFmt22s, kFmt22s, kFmt22s, kFmt22s, kFmt22b, kFmt22b, kFmt22b, kFmt22b,
     kFmt22b, kFmt22b, kFmt22b, kFmt22b, kFmt22b, kFmt22b, kFmt22b, kFmt22c, kFmt22c, kFmt21c,
     kFmt21c, kFmt22c, kFmt22c, kFmt22c, kFmt21c, kFmt21c, kFmt00x, kFmt20bc, kFmt35mi, kFmt3rmi,
     kFmt35c, kFmt10x, kFmt22cs, kFmt22cs, kFmt22cs, kFmt22cs, kFmt22cs, kFmt22cs, kFmt35ms,
     kFmt3rms, kFmt35ms, kFmt3rms, kFmt22c, kFmt21c, kFmt21c, kFmt00x]"

definition gInstructionIndexTypeTable :: "InstructionIndexType list" where
  "gInstructionIndexTypeTable = [
     kIndexNone, kIndexNone, kIndexNone, kIndexNone, kIndexNone, kIndexNone, kIndexNone, kIndexNone,
     kIndexNone, kIndexNone, kIndexNone, kIndexNone, kIndexNone, kIndexNone, kIndexNone, kIndexNone,
     kIndexNone, kIndexNone, kIndexNone, kIndexNone, kIndexNone, kIndexNone, kIndexNone, kIndexNone,
     kIndexNone, kIndexNone, kIndexStringRef, kIndexStringRef, kIndexTypeRef, kIndexNone,
     kIndexNone, kIndexTypeRef, kIndexTypeRef, kIndexNone, kIndexTypeRef, kIndexTypeRef,
     kIndexTypeRef, kIndexTypeRef, kIndexNone, kIndexNone, kIndexNone, kIndexNone, kIndexNone,
     kIndexNone, kIndexNone, kIndexNone, kIndexNone, kIndexNone, kIndexNone, kIndexNone, kIndexNone,
     kIndexNone, kIndexNone, kIndexNone, kIndexNone, kIndexNone, kIndexNone, kIndexNone, kIndexNone,
     kIndexNone, kIndexNone, kIndexNone, kIndexUnknown, kIndexUnknown, kIndexUnknown, kIndexUnknown,
     kIndexUnknown, kIndexUnknown, kIndexNone, kIndexNone, kIndexNone, kIndexNone, kIndexNone,
     kIndexNone, kIndexNone, kIndexNone, kIndexNone, kIndexNone, kIndexNone, kIndexNone, kIndexNone,
     kIndexNone, kIndexFieldRef, kIndexFieldRef, kIndexFieldRef, kIndexFieldRef, kIndexFieldRef,
     kIndexFieldRef, kIndexFieldRef, kIndexFieldRef, kIndexFieldRef, kIndexFieldRef, kIndexFieldRef,
     kIndexFieldRef, kIndexFieldRef, kIndexFieldRef, kIndexFieldRef, kIndexFieldRef, kIndexFieldRef,
     kIndexFieldRef, kIndexFieldRef, kIndexFieldRef, kIndexFieldRef, kIndexFieldRef, kIndexFieldRef,
     kIndexFieldRef, kIndexFieldRef, kIndexFieldRef, kIndexFieldRef, kIndexFieldRef,
     kIndexMethodRef, kIndexMethodRef, kIndexMethodRef, kIndexMethodRef, kIndexMethodRef,
     kIndexUnknown, kIndexMethodRef, kIndexMethodRef, kIndexMethodRef, kIndexMethodRef,
     kIndexMethodRef, kIndexUnknown, kIndexUnknown, kIndexNone, kIndexNone, kIndexNone, kIndexNone,
     kIndexNone, kIndexNone, kIndexNone, kIndexNone, kIndexNone, kIndexNone, kIndexNone, kIndexNone,
     kIndexNone, kIndexNone, kIndexNone, kIndexNone, kIndexNone, kIndexNone, kIndexNone, kIndexNone,
     kIndexNone, kIndexNone, kIndexNone, kIndexNone, kIndexNone, kIndexNone, kIndexNone, kIndexNone,
     kIndexNone, kIndexNone, kIndexNone, kIndexNone, kIndexNone, kIndexNone, kIndexNone, kIndexNone,
     kIndexNone, kIndexNone, kIndexNone, kIndexNone, kIndexNone, kIndexNone, kIndexNone, kIndexNone,
     kIndexNone, kIndexNone, kIndexNone, kIndexNone, kIndexNone, kIndexNone, kIndexNone, kIndexNone,
     kIndexNone, kIndexNone, kIndexNone, kIndexNone, kIndexNone, kIndexNone, kIndexNone, kIndexNone,
     kIndexNone, kIndexNone, kIndexNone, kIndexNone, kIndexNone, kIndexNone, kIndexNone, kIndexNone,
     kIndexNone, kIndexNone, kIndexNone, kIndexNone, kIndexNone, kIndexNone, kIndexNone, kIndexNone,
     kIndexNone, kIndexNone, kIndexNone, kIndexNone, kIndexNone, kIndexNone, kIndexNone, kIndexNone,
     kIndexNone, kIndexNone, kIndexNone, kIndexNone, kIndexNone, kIndexNone, kIndexNone, kIndexNone,
     kIndexNone, kIndexNone, kIndexNone, kIndexNone, kIndexNone, kIndexNone, kIndexNone, kIndexNone,
     kIndexNone, kIndexNone, kIndexNone, kIndexNone, kIndexFieldRef, kIndexFieldRef, kIndexFieldRef,
     kIndexFieldRef, kIndexFieldRef, kIndexFieldRef, kIndexFieldRef, kIndexFieldRef, kIndexFieldRef,
     kIndexUnknown, kIndexVaries, kIndexInlineMethod, kIndexInlineMethod, kIndexMethodRef,
     kIndexNone, kIndexFieldOffset, kIndexFieldOffset, kIndexFieldOffset, kIndexFieldOffset,
     kIndexFieldOffset, kIndexFieldOffset, kIndexVtableOffset, kIndexVtableOffset,
     kIndexVtableOffset, kIndexVtableOffset, kIndexFieldRef, kIndexFieldRef, kIndexFieldRef,
     kIndexUnknown]"

definition table_get :: "'a list \<Rightarrow> nat \<Rightarrow> 'a option" where
  "table_get t i = (if i < length t then Some (t ! i) else None)"

definition dexOpcodeFromCodeUnit :: "u2 \<Rightarrow> nat" where
  "dexOpcodeFromCodeUnit codeUnit =
     (let lowByte = codeUnit AND 0xff in
      if lowByte \<noteq> 0xff then unat lowByte else unat (drop_bit 8 codeUnit OR 0x100))"

definition dexGetWidthFromOpcode :: "nat \<Rightarrow> nat option" where
  "dexGetWidthFromOpcode = table_get gInstructionWidthTable"

definition dexGetFlagsFromOpcode :: "nat \<Rightarrow> u1 option" where
  "dexGetFlagsFromOpcode = table_get gOpcodeFlagsTable"

definition dexIsGoto :: "u1 \<Rightarrow> bool" where
  "dexIsGoto flags \<longleftrightarrow> flags AND (kInstrCanBranch OR kInstrCanContinue) = kInstrCanBranch"

definition dexGetFormatFromOpcode :: "nat \<Rightarrow> InstructionFormat option" where
  "dexGetFormatFromOpcode = table_get gInstructionFormatTable"

definition dexGetIndexTypeFromOpcode :: "nat \<Rightarrow> InstructionIndexType option" where
  "dexGetIndexTypeFromOpcode = table_get gInstructionIndexTypeTable"

section \<open>Decoder\<close>

record decoded =
  vA :: u4
  vB :: u4
  vB_wide :: "64 word"
  vC :: u4
  arg :: "u4 list"
  opcode :: nat
  indexType :: InstructionIndexType

definition INST_A :: "u2 \<Rightarrow> u4" where "INST_A inst = ucast (drop_bit 8 inst AND 0x0f)"
definition INST_B :: "u2 \<Rightarrow> u4" where "INST_B inst = ucast (drop_bit 12 inst)"
definition INST_AA :: "u2 \<Rightarrow> u4" where "INST_AA inst = ucast (drop_bit 8 inst)"

definition FETCH :: "u2 list \<Rightarrow> nat \<Rightarrow> u2 option" where
  "FETCH insns i = table_get insns i"

definition FETCH_u4 :: "u2 list \<Rightarrow> nat \<Rightarrow> u4 option" where
  "FETCH_u4 insns i = do { lo \<leftarrow> FETCH insns i; hi \<leftarrow> FETCH insns (i + 1);
     Some (ucast lo OR push_bit 16 (ucast hi)) }"

text \<open>\<open>(s1)\<close> of the low byte and \<open>(s2)\<close>, widened to 32 bits.\<close>

definition from_s1 :: "u4 \<Rightarrow> u4" where "from_s1 x = scast (ucast x :: u1)"
definition from_s2 :: "u2 \<Rightarrow> u4" where "from_s2 x = scast x"

text \<open>The argument registers of the 35c formats; the cases of the switch fall through.\<close>

definition decode_args :: "InstructionFormat \<Rightarrow> u2 \<Rightarrow> u2 \<Rightarrow> decoded \<Rightarrow> decoded" where
  "decode_args format inst regList d =
     (let count = vA d; reg = (\<lambda>n. ucast (drop_bit n regList AND 0x0f));
          case1 = (\<lambda>d. d\<lparr>vC := reg 0, arg := (arg d)[0 := reg 0]\<rparr>);
          case2 = (\<lambda>d. case1 (d\<lparr>arg := (arg d)[1 := reg 4]\<rparr>));
          case3 = (\<lambda>d. case2 (d\<lparr>arg := (arg d)[2 := reg 8]\<rparr>));
          case4 = (\<lambda>d. case3 (d\<lparr>arg := (arg d)[3 := reg 12]\<rparr>)) in
      if count = 5 then
        (if format = kFmt35mi then d else case4 (d\<lparr>arg := (arg d)[4 := INST_A inst]\<rparr>))
      else if count = 4 then case4 d
      else if count = 3 then case3 d
      else if count = 2 then case2 d
      else if count = 1 then case1 d
      else d)"

fun decode_format :: "InstructionFormat \<Rightarrow> u2 \<Rightarrow> u2 list \<Rightarrow> decoded \<Rightarrow> decoded option" where
  "decode_format kFmt10x inst insns d = Some (d\<lparr>vA := INST_AA inst\<rparr>)"
| "decode_format kFmt12x inst insns d = Some (d\<lparr>vA := INST_A inst, vB := INST_B inst\<rparr>)"
| "decode_format kFmt11n inst insns d =
     Some (d\<lparr>vA := INST_A inst, vB := sign_extend 28 (INST_B inst)\<rparr>)"
| "decode_format kFmt11x inst insns d = Some (d\<lparr>vA := INST_AA inst\<rparr>)"
| "decode_format kFmt10t inst insns d = Some (d\<lparr>vA := from_s1 (INST_AA inst)\<rparr>)"
| "decode_format kFmt20t inst insns d = do { u \<leftarrow> FETCH insns 1; Some (d\<lparr>vA := from_s2 u\<rparr>) }"
| "decode_format kFmt20bc inst insns d =
     do { u \<leftarrow> FETCH insns 1; Some (d\<lparr>vA := INST_AA inst, vB := ucast u\<rparr>) }"
| "decode_format kFmt21c inst insns d =
     do { u \<leftarrow> FETCH insns 1; Some (d\<lparr>vA := INST_AA inst, vB := ucast u\<rparr>) }"
| "decode_format kFmt22x inst insns d =
     do { u \<leftarrow> FETCH insns 1; Some (d\<lparr>vA := INST_AA inst, vB := ucast u\<rparr>) }"
| "decode_format kFmt21s inst insns d =
     do { u \<leftarrow> FETCH insns 1; Some (d\<lparr>vA := INST_AA inst, vB := from_s2 u\<rparr>) }"
| "decode_format kFmt21t inst insns d =
     do { u \<leftarrow> FETCH insns 1; Some (d\<lparr>vA := INST_AA inst, vB := from_s2 u\<rparr>) }"
| "decode_format kFmt21h inst insns d =
     do { u \<leftarrow> FETCH insns 1; Some (d\<lparr>vA := INST_AA inst, vB := ucast u\<rparr>) }"
| "decode_format kFmt23x inst insns d =
     do { u \<leftarrow> FETCH insns 1;
       Some (d\<lparr>vA := INST_AA inst, vB := ucast (u AND 0xff), vC := ucast (drop_bit 8 u)\<rparr>) }"
| "decode_format kFmt22b inst insns d =
     do { u \<leftarrow> FETCH insns 1;
       Some (d\<lparr>vA := INST_AA inst, vB := ucast (u AND 0xff), vC := from_s1 (ucast (drop_bit 8 u))\<rparr>) }"
| "decode_format kFmt22s inst insns d =
     do { u \<leftarrow> FETCH insns 1; Some (d\<lparr>vA := INST_A inst, vB := INST_B inst, vC := from_s2 u\<rparr>) }"
| "decode_format kFmt22t inst insns d =
     do { u \<leftarrow> FETCH insns 1; Some (d\<lparr>vA := INST_A inst, vB := INST_B inst, vC := from_s2 u\<rparr>) }"
| "decode_format kFmt22c inst insns d =
     do { u \<leftarrow> FETCH insns 1; Some (d\<lparr>vA := INST_A inst, vB := INST_B inst, vC := ucast u\<rparr>) }"
| "decode_format kFmt22cs inst insns d =
     do { u \<leftarrow> FETCH insns 1; Some (d\<lparr>vA := INST_A inst, vB := INST_B inst, vC := ucast u\<rparr>) }"
| "decode_format kFmt30t inst insns d = do { v \<leftarrow> FETCH_u4 insns 1; Some (d\<lparr>vA := v\<rparr>) }"
| "decode_format kFmt31t inst insns d =
     do { v \<leftarrow> FETCH_u4 insns 1; Some (d\<lparr>vA := INST_AA inst, vB := v\<rparr>) }"
| "decode_format kFmt31c inst insns d =
     do { v \<leftarrow> FETCH_u4 insns 1; Some (d\<lparr>vA := INST_AA inst, vB := v\<rparr>) }"
| "decode_format kFmt32x inst insns d =
     do { u \<leftarrow> FETCH insns 1; v \<leftarrow> FETCH insns 2; Some (d\<lparr>vA := ucast u, vB := ucast v\<rparr>) }"
| "decode_format kFmt31i inst insns d =
     do { v \<leftarrow> FETCH_u4 insns 1; Some (d\<lparr>vA := INST_AA inst, vB := v\<rparr>) }"
| "decode_format kFmt35c inst insns d =
     do { u \<leftarrow> FETCH insns 1; regList \<leftarrow> FETCH insns 2;
       Some (decode_args kFmt35c inst regList (d\<lparr>vA := INST_B inst, vB := ucast u\<rparr>)) }"
| "decode_format kFmt35ms inst insns d =
     do { u \<leftarrow> FETCH insns 1; regList \<leftarrow> FETCH insns 2;
       Some (decode_args kFmt35ms inst regList (d\<lparr>vA := INST_B inst, vB := ucast u\<rparr>)) }"
| "decode_format kFmt35mi inst insns d =
     do { u \<leftarrow> FETCH insns 1; regList \<leftarrow> FETCH insns 2;
       Some (decode_args kFmt35mi inst regList (d\<lparr>vA := INST_B inst, vB := ucast u\<rparr>)) }"
| "decode_format kFmt3rc inst insns d =
     do { u \<leftarrow> FETCH insns 1; v \<leftarrow> FETCH insns 2;
       Some (d\<lparr>vA := INST_AA inst, vB := ucast u, vC := ucast v\<rparr>) }"
| "decode_format kFmt3rms inst insns d =
     do { u \<leftarrow> FETCH insns 1; v \<leftarrow> FETCH insns 2;
       Some (d\<lparr>vA := INST_AA inst, vB := ucast u, vC := ucast v\<rparr>) }"
| "decode_format kFmt3rmi inst insns d =
     do { u \<leftarrow> FETCH insns 1; v \<leftarrow> FETCH insns 2;
       Some (d\<lparr>vA := INST_AA inst, vB := ucast u, vC := ucast v\<rparr>) }"
| "decode_format kFmt51l inst insns d =
     do { v \<leftarrow> FETCH_u4 insns 1; w \<leftarrow> FETCH_u4 insns 3;
       Some (d\<lparr>vA := INST_AA inst, vB_wide := ucast v OR push_bit 32 (ucast w)\<rparr>) }"
| "decode_format kFmt00x inst insns d = Some d"

definition dexDecodeInstruction :: "u2 list \<Rightarrow> decoded \<Rightarrow> decoded option" where
  "dexDecodeInstruction insns d =
     do { inst \<leftarrow> FETCH insns 0;
       let opc = dexOpcodeFromCodeUnit inst;
       format \<leftarrow> dexGetFormatFromOpcode opc;
       ix \<leftarrow> dexGetIndexTypeFromOpcode opc;
       decode_format format inst insns (d\<lparr>opcode := opc, indexType := ix\<rparr>) }"

definition kPackedSwitchSignature :: u2 where "kPackedSwitchSignature = 0x0100"
definition kSparseSwitchSignature :: u2 where "kSparseSwitchSignature = 0x0200"
definition kArrayDataSignature :: u2 where "kArrayDataSignature = 0x0300"

text \<open>\<open>size_t\<close> has 32 bits, and the element count is multiplied in 32 bits.\<close>

definition dexGetWidthFromInstruction :: "u2 list \<Rightarrow> u4 option" where
  "dexGetWidthFromInstruction insns =
     do { i0 \<leftarrow> FETCH insns 0;
       if i0 = kPackedSwitchSignature then do { n \<leftarrow> FETCH insns 1; Some (4 + ucast n * 2) }
       else if i0 = kSparseSwitchSignature then do { n \<leftarrow> FETCH insns 1; Some (2 + ucast n * 4) }
       else if i0 = kArrayDataSignature then
         do { elemWidth \<leftarrow> FETCH insns 1; len \<leftarrow> FETCH_u4 insns 2;
           Some (4 + (ucast elemWidth * len + 1) div 2) }
       else map_option of_nat (dexGetWidthFromOpcode (dexOpcodeFromCodeUnit i0)) }"

section \<open>Lemmas on the tables\<close>

text \<open>What the name of a format says: its width in code units.\<close>

fun fmt_width :: "InstructionFormat \<Rightarrow> nat" where
  "fmt_width f =
     (if f = kFmt00x then 0
      else if f \<in> {kFmt10x, kFmt12x, kFmt11n, kFmt11x, kFmt10t} then 1
      else if f \<in> {kFmt20bc, kFmt20t, kFmt22x, kFmt21t, kFmt21s, kFmt21h, kFmt21c, kFmt23x, kFmt22b,
        kFmt22t, kFmt22s, kFmt22c, kFmt22cs} then 2
      else if f = kFmt51l then 5 else 3)"

definition branch_formats :: "InstructionFormat set" where
  "branch_formats = {kFmt10t, kFmt20t, kFmt30t, kFmt21t, kFmt22t}"

definition index_formats :: "InstructionFormat set" where
  "index_formats = {kFmt20bc, kFmt21c, kFmt22c, kFmt22cs, kFmt31c, kFmt35c, kFmt35ms, kFmt35mi,
     kFmt3rc, kFmt3rms, kFmt3rmi}"

definition opcode_ok :: "nat \<Rightarrow> InstructionFormat \<Rightarrow> InstructionIndexType \<Rightarrow> u1 \<Rightarrow> bool" where
  "opcode_ok w f i g \<longleftrightarrow>
     w = fmt_width f \<and>
     (g AND kInstrCanBranch \<noteq> 0 \<longleftrightarrow> f \<in> branch_formats) \<and>
     (i = kIndexUnknown \<longleftrightarrow> f = kFmt00x) \<and>
     (i \<notin> {kIndexNone, kIndexUnknown} \<longleftrightarrow> f \<in> index_formats) \<and>
     (dexIsGoto g \<longleftrightarrow> f \<in> {kFmt10t, kFmt20t, kFmt30t}) \<and>
     (g AND (kInstrCanReturn OR kInstrCanContinue) \<noteq> kInstrCanReturn OR kInstrCanContinue)"

lemma table_lengths:
  "length gInstructionWidthTable = 256" "length gInstructionFormatTable = 256"
  "length gInstructionIndexTypeTable = 256" "length gOpcodeFlagsTable = 256"
  by code_simp+

lemma tables_ok:
  "list_all (\<lambda>(w, f, i, g). opcode_ok w f i g)
     (zip gInstructionWidthTable (zip gInstructionFormatTable
        (zip gInstructionIndexTypeTable gOpcodeFlagsTable)))"
  by code_simp

lemma opcode_ok_nth:
  "op < 256 \<Longrightarrow> opcode_ok (gInstructionWidthTable ! op) (gInstructionFormatTable ! op)
     (gInstructionIndexTypeTable ! op) (gOpcodeFlagsTable ! op)"
  using tables_ok by (auto simp: list_all_length table_lengths)

section \<open>An assembler, as a specification of the formats\<close>

text \<open>The operands of an instruction with the fields at their width, so that no value can be out of
  range, and the code units the formats put them in. The comments of \<open>InstructionFormat\<close> name the
  fields.\<close>

type_synonym nib = "4 word"

datatype operands =
    L_AA u1 \<comment> \<open>10x, 11x, 10t\<close>
  | L_AB nib nib \<comment> \<open>12x, 11n\<close>
  | L_AAAA u1 u2 \<comment> \<open>20t, behind an unused byte\<close>
  | L_AA_BBBB u1 u2 \<comment> \<open>20bc, 21c, 22x, 21s, 21t, 21h\<close>
  | L_AA_BB_CC u1 u1 u1 \<comment> \<open>23x, 22b\<close>
  | L_AB_CCCC nib nib u2 \<comment> \<open>22s, 22t, 22c, 22cs\<close>
  | L_A32 u1 u4 \<comment> \<open>30t, behind an unused byte\<close>
  | L_AA_B32 u1 u4 \<comment> \<open>31t, 31c, 31i\<close>
  | L_AAAA_BBBB u1 u2 u2 \<comment> \<open>32x, behind an unused byte\<close>
  | L_regs "nib list" u2 \<comment> \<open>35c, 35ms, 35mi\<close>
  | L_range u1 u2 u2 \<comment> \<open>3rc, 3rms, 3rmi\<close>
  | L_wide u1 "64 word" \<comment> \<open>51l\<close>

fun fits :: "InstructionFormat \<Rightarrow> operands \<Rightarrow> bool" where
  "fits f (L_AA a) \<longleftrightarrow> f \<in> {kFmt10x, kFmt11x, kFmt10t}"
| "fits f (L_AB a b) \<longleftrightarrow> f \<in> {kFmt12x, kFmt11n}"
| "fits f (L_AAAA z a) \<longleftrightarrow> f = kFmt20t"
| "fits f (L_AA_BBBB a b) \<longleftrightarrow> f \<in> {kFmt20bc, kFmt21c, kFmt22x, kFmt21s, kFmt21t, kFmt21h}"
| "fits f (L_AA_BB_CC a b c) \<longleftrightarrow> f \<in> {kFmt23x, kFmt22b}"
| "fits f (L_AB_CCCC a b c) \<longleftrightarrow> f \<in> {kFmt22s, kFmt22t, kFmt22c, kFmt22cs}"
| "fits f (L_A32 z a) \<longleftrightarrow> f = kFmt30t"
| "fits f (L_AA_B32 a b) \<longleftrightarrow> f \<in> {kFmt31t, kFmt31c, kFmt31i}"
| "fits f (L_AAAA_BBBB z a b) \<longleftrightarrow> f = kFmt32x"
| "fits f (L_regs rs b) \<longleftrightarrow>
     f \<in> {kFmt35c, kFmt35ms} \<and> length rs \<le> 5 \<or> f = kFmt35mi \<and> length rs \<le> 4"
| "fits f (L_range a b c) \<longleftrightarrow> f \<in> {kFmt3rc, kFmt3rms, kFmt3rmi}"
| "fits f (L_wide a b) \<longleftrightarrow> f = kFmt51l"

definition unit :: "u1 \<Rightarrow> u1 \<Rightarrow> u2" where
  "unit lo hi = ucast lo OR push_bit 8 (ucast hi)"

definition nibs :: "nib \<Rightarrow> nib \<Rightarrow> u1" where
  "nibs lo hi = ucast lo OR push_bit 4 (ucast hi)"

definition reg_at :: "nib list \<Rightarrow> nat \<Rightarrow> nib" where
  "reg_at rs i = (if i < length rs then rs ! i else 0)"

definition halves :: "u4 \<Rightarrow> u2 list" where
  "halves w = [ucast w, ucast (drop_bit 16 w)]"

fun assemble :: "u1 \<Rightarrow> operands \<Rightarrow> u2 list" where
  "assemble op (L_AA a) = [unit op a]"
| "assemble op (L_AB a b) = [unit op (nibs a b)]"
| "assemble op (L_AAAA z a) = [unit op z, a]"
| "assemble op (L_AA_BBBB a b) = [unit op a, b]"
| "assemble op (L_AA_BB_CC a b c) = [unit op a, unit b c]"
| "assemble op (L_AB_CCCC a b c) = [unit op (nibs a b), c]"
| "assemble op (L_A32 z a) = unit op z # halves a"
| "assemble op (L_AA_B32 a b) = unit op a # halves b"
| "assemble op (L_AAAA_BBBB z a b) = [unit op z, a, b]"
| "assemble op (L_regs rs b) =
     [unit op (nibs (reg_at rs 4) (of_nat (length rs))), b,
      unit (nibs (reg_at rs 0) (reg_at rs 1)) (nibs (reg_at rs 2) (reg_at rs 3))]"
| "assemble op (L_range a b c) = [unit op a, b, c]"
| "assemble op (L_wide a b) = unit op a # halves (ucast b) @ halves (ucast (drop_bit 32 b))"

fun operand_values :: "InstructionFormat \<Rightarrow> operands \<Rightarrow> decoded \<Rightarrow> decoded" where
  "operand_values f (L_AA a) d = d\<lparr>vA := if f = kFmt10t then scast a else ucast a\<rparr>"
| "operand_values f (L_AB a b) d = d\<lparr>vA := ucast a, vB := if f = kFmt11n then scast b else ucast b\<rparr>"
| "operand_values f (L_AAAA z a) d = d\<lparr>vA := scast a\<rparr>"
| "operand_values f (L_AA_BBBB a b) d =
     d\<lparr>vA := ucast a, vB := if f \<in> {kFmt21s, kFmt21t} then scast b else ucast b\<rparr>"
| "operand_values f (L_AA_BB_CC a b c) d =
     d\<lparr>vA := ucast a, vB := ucast b, vC := if f = kFmt22b then scast c else ucast c\<rparr>"
| "operand_values f (L_AB_CCCC a b c) d =
     d\<lparr>vA := ucast a, vB := ucast b, vC := if f \<in> {kFmt22s, kFmt22t} then scast c else ucast c\<rparr>"
| "operand_values f (L_A32 z a) d = d\<lparr>vA := a\<rparr>"
| "operand_values f (L_AA_B32 a b) d = d\<lparr>vA := ucast a, vB := b\<rparr>"
| "operand_values f (L_AAAA_BBBB z a b) d = d\<lparr>vA := ucast a, vB := ucast b\<rparr>"
| "operand_values f (L_regs rs b) d =
     d\<lparr>vA := of_nat (length rs), vB := ucast b, vC := if rs = [] then vC d else ucast (hd rs),
       arg := map ucast rs @ drop (length rs) (arg d)\<rparr>"
| "operand_values f (L_range a b c) d = d\<lparr>vA := ucast a, vB := ucast b, vC := ucast c\<rparr>"
| "operand_values f (L_wide a b) d = d\<lparr>vA := ucast a, vB_wide := b\<rparr>"

section \<open>Lemmas on fields\<close>

lemma and_ff: "x AND 0xff = take_bit 8 (x::u2)" and and_0f_u2: "x AND 0x0f = take_bit 4 (x::u2)"
  by (simp_all add: take_bit_eq_mask mask_eq_exp_minus_1)

lemmas field_defs = unit_def nibs_def INST_A_def INST_B_def INST_AA_def and_ff and_0f_u2

lemma unit_low: "unit lo hi AND 0xff = ucast lo"
  by (rule bit_word_eqI) (auto simp: field_defs bit_simps dest: bit_imp_le_length)

lemma INST_AA_unit: "INST_AA (unit lo hi) = ucast hi" "drop_bit 8 (unit lo hi) = ucast hi"
  by (rule bit_word_eqI; auto simp: field_defs bit_simps dest: bit_imp_le_length)+

lemma INST_AB_unit:
  "INST_A (unit lo (nibs a b)) = ucast a" "INST_B (unit lo (nibs a b)) = ucast b"
  by (rule bit_word_eqI; auto simp: field_defs bit_simps dest: bit_imp_le_length)+

lemma reg_list_fields:
  "drop_bit 0 (unit (nibs a b) (nibs c d)) AND 0x0f = ucast a"
  "drop_bit 4 (unit (nibs a b) (nibs c d)) AND 0x0f = ucast b"
  "drop_bit 8 (unit (nibs a b) (nibs c d)) AND 0x0f = ucast c"
  "drop_bit 12 (unit (nibs a b) (nibs c d)) AND 0x0f = ucast d"
  by (rule bit_word_eqI; auto simp: field_defs bit_simps dest: bit_imp_le_length)+

lemma widen:
  "(ucast (ucast (r::nib) :: u2) :: u4) = ucast r" "(ucast (ucast (b::u1) :: u2) :: u4) = ucast b"
  "(ucast (ucast (b::u1) :: u4) :: u1) = b"
  by (rule bit_word_eqI; auto simp: bit_simps dest: bit_imp_le_length)+

lemma count_nib: "n < 16 \<Longrightarrow> (ucast (of_nat n :: nib) :: u4) = of_nat n"
  unfolding word_unat_eq_iff by (simp add: unsigned_ucast_eq unsigned_of_nat take_bit_eq_mod)

lemma signed_fields:
  "sign_extend 28 (ucast (b::nib)) = scast b" "from_s1 (ucast (a::u1)) = scast a" "from_s2 c = scast c"
proof -
  have three: "\<not> 4 \<le> n \<Longrightarrow> 3 \<le> n \<Longrightarrow> n = (3::nat)" for n by simp
  show "sign_extend 28 (ucast b) = scast b"
    by (rule bit_word_eqI) (auto simp: sign_extend_def bit_simps min_def dest: three)
qed (simp_all add: from_s1_def from_s2_def widen)

lemma join_halves: "ucast (ucast w :: u2) OR push_bit 16 (ucast (ucast (drop_bit 16 w) :: u2)) = (w :: u4)"
  by (rule bit_word_eqI) (auto simp: bit_simps)

lemma join_wide: "ucast (ucast w :: u4) OR push_bit 32 (ucast (ucast (drop_bit 32 w) :: u4)) = (w :: 64 word)"
  by (rule bit_word_eqI) (auto simp: bit_simps)

lemma FETCH_simps [simp]:
  "FETCH (u # us) 0 = Some u" "FETCH (u # us) (Suc i) = FETCH us i"
  "FETCH (u # us) (numeral k) = FETCH us (pred_numeral k)" "FETCH [] i = None"
  by (simp_all add: FETCH_def table_get_def nth_Cons')

lemma opcode_unit:
  assumes "op \<noteq> 0xff"
  shows "dexOpcodeFromCodeUnit (unit op hi) = unat op" "unat op < 256"
proof -
  have u: "unat (ucast op :: u2) = unat op"
    using unsigned_less [of op, where ?'a = nat] by (simp add: unsigned_ucast_eq take_bit_eq_mod)
  have "(ucast op :: u2) \<noteq> 0xff"
  proof
    assume "(ucast op :: u2) = 0xff"
    then have "unat op = 255" using u by simp
    with assms show False by (simp add: word_unat_eq_iff)
  qed
  then show "dexOpcodeFromCodeUnit (unit op hi) = unat op"
    using u by (simp add: dexOpcodeFromCodeUnit_def unit_low Let_def)
qed (use unsigned_less [of op, where ?'a = nat] in simp)

lemma decode_args_regs:
  assumes "length rs \<le> 5" "f = kFmt35mi \<longrightarrow> length rs \<le> 4" "length (arg d) = 5" "vA d = of_nat (length rs)"
  shows "decode_args f (unit op (nibs (reg_at rs 4) n))
     (unit (nibs (reg_at rs 0) (reg_at rs 1)) (nibs (reg_at rs 2) (reg_at rs 3))) d =
   d\<lparr>vC := if rs = [] then vC d else ucast (hd rs), arg := map ucast rs @ drop (length rs) (arg d)\<rparr>"
proof -
  obtain a0 a1 a2 a3 a4 where a: "arg d = [a0, a1, a2, a3, a4]"
    using assms(3) by (auto simp: length_Suc_conv eval_nat_numeral)
  obtain x1 x2 x3 x4 x5 x6 where d: "d = \<lparr>vA = x1, vB = x2, vB_wide = x3, vC = x4, arg = [a0, a1, a2, a3, a4],
      opcode = x5, indexType = x6\<rparr>" using a by (cases d) simp
  have "length rs = 0 \<or> length rs = 1 \<or> length rs = 2 \<or> length rs = 3 \<or> length rs = 4 \<or> length rs = 5"
    using assms(1) by linarith
  then consider "rs = []" | r0 where "rs = [r0]" | r0 r1 where "rs = [r0, r1]"
    | r0 r1 r2 where "rs = [r0, r1, r2]" | r0 r1 r2 r3 where "rs = [r0, r1, r2, r3]"
    | r0 r1 r2 r3 r4 where "rs = [r0, r1, r2, r3, r4]"
    by (auto simp: length_Suc_conv eval_nat_numeral)
  then show ?thesis
    using assms(2,4) unfolding decode_args_def reg_list_fields INST_AB_unit Let_def d
    by cases (simp_all add: reg_at_def widen)
qed

lemma decode_format_assembled:
  assumes "fits f ops" "length (arg d) = 5"
  shows "decode_format f (hd (assemble op ops)) (assemble op ops @ rest) d = Some (operand_values f ops d)"
proof (cases ops)
  case (L_regs rs b)
  have n: "(ucast (of_nat (length rs) :: nib) :: u4) = of_nat (length rs)"
    using assms(1) L_regs by (intro count_nib) auto
  have "decode_args f (unit op (nibs (reg_at rs 4) (of_nat (length rs))))
      (unit (nibs (reg_at rs 0) (reg_at rs 1)) (nibs (reg_at rs 2) (reg_at rs 3)))
      (d\<lparr>vA := of_nat (length rs), vB := ucast b\<rparr>) = operand_values f ops d"
    using assms L_regs by (subst decode_args_regs) auto
  with assms L_regs show ?thesis by (auto simp: INST_AB_unit n)
qed (use assms in \<open>auto simp: INST_AA_unit INST_AB_unit signed_fields unit_low FETCH_u4_def halves_def join_halves join_wide widen\<close>)

lemma hd_assemble: "\<exists>hi us. assemble op ops = unit op hi # us"
  by (cases ops) auto

lemma FETCH_take: "i < w \<Longrightarrow> w \<le> length us \<Longrightarrow> FETCH (take w us @ rest) i = Some (us ! i) \<and> FETCH us i = Some (us ! i)"
  by (simp add: FETCH_def table_get_def nth_append)

text \<open>A format reads no further than its width.\<close>

lemma decode_format_width:
  assumes "fmt_width f \<le> length us"
  shows "\<exists>d'. decode_format f inst us d = Some d' \<and> decode_format f inst (take (fmt_width f) us @ rest) d = Some d'"
  using assms FETCH_take [of 1 "fmt_width f" us rest] FETCH_take [of 2 "fmt_width f" us rest]
    FETCH_take [of 3 "fmt_width f" us rest] FETCH_take [of 4 "fmt_width f" us rest]
  by (cases f) (simp_all add: FETCH_u4_def numeral_2_eq_2)

section \<open>Properties\<close>

text \<open>C16. The four opcode tables agree for every packed opcode: the width is the one the format
  has, exactly the opcodes of the branch formats can branch, an index type is given exactly when
  the format has an index, \<open>dexIsGoto\<close> holds exactly for the formats of \<open>goto\<close>, no opcode both
  returns and continues, and an unused opcode is marked as such in all of them.\<close>

theorem opcode_tables_agree:
  assumes "op < 256"
  shows "\<exists>w f i g. dexGetWidthFromOpcode op = Some w \<and> dexGetFormatFromOpcode op = Some f \<and>
    dexGetIndexTypeFromOpcode op = Some i \<and> dexGetFlagsFromOpcode op = Some g \<and> opcode_ok w f i g"
  using assms opcode_ok_nth [OF assms]
  by (simp add: dexGetWidthFromOpcode_def dexGetFormatFromOpcode_def dexGetIndexTypeFromOpcode_def
      dexGetFlagsFromOpcode_def table_get_def table_lengths)

theorem opcode_tables_agree_witness:
  "\<exists>w f i g. dexGetWidthFromOpcode 0x28 = Some w \<and> dexGetFormatFromOpcode 0x28 = Some f \<and>
    dexGetIndexTypeFromOpcode 0x28 = Some i \<and> dexGetFlagsFromOpcode 0x28 = Some g \<and> opcode_ok w f i g"
  by (rule opcode_tables_agree) simp

text \<open>Decoding reads no further than the width the width table gives for the opcode: with that
  many code units there it succeeds, and what follows them makes no difference.\<close>

theorem decode_within_width:
  assumes "us \<noteq> []" "hd us AND 0xff \<noteq> 0xff"
    and "dexGetWidthFromOpcode (dexOpcodeFromCodeUnit (hd us)) = Some w" "0 < w" "w \<le> length us"
  shows "\<exists>d'. dexDecodeInstruction us d = Some d' \<and> dexDecodeInstruction (take w us @ rest) d = Some d'"
proof -
  define op where "op = dexOpcodeFromCodeUnit (hd us)"
  have "unat (hd us AND 0xff) \<le> unat (0xff :: u2)" using word_and_le1 [of "hd us" "0xff"] by (simp add: word_le_nat_alt)
  then have "op < 256" using assms(2) by (simp add: op_def dexOpcodeFromCodeUnit_def Let_def)
  then have t: "dexGetFormatFromOpcode op = Some (gInstructionFormatTable ! op)"
    "dexGetIndexTypeFromOpcode op = Some (gInstructionIndexTypeTable ! op)"
    "w = fmt_width (gInstructionFormatTable ! op)"
    using assms(3) opcode_ok_nth [of op]
    by (auto simp: dexGetFormatFromOpcode_def dexGetIndexTypeFromOpcode_def dexGetWidthFromOpcode_def
        table_get_def table_lengths opcode_ok_def simp flip: op_def simp del: fmt_width.simps)
  have h: "FETCH us 0 = Some (hd us)" "FETCH (take w us @ rest) 0 = Some (hd us)"
    using assms(1,4) by (cases us; cases w; simp)+
  show ?thesis
    using decode_format_width [of "gInstructionFormatTable ! op" us] assms(5) t h
    by (simp add: dexDecodeInstruction_def Let_def del: fmt_width.simps flip: op_def)
qed

theorem decode_within_width_witness:
  "\<exists>d'. dexDecodeInstruction [0x0013, 7] \<lparr>vA = 0, vB = 0, vB_wide = 0, vC = 0, arg = [], opcode = 0,
      indexType = kIndexNone\<rparr> = Some d' \<and>
    dexDecodeInstruction (take 2 [0x0013, 7] @ [1, 2]) \<lparr>vA = 0, vB = 0, vB_wide = 0, vC = 0, arg = [], opcode = 0,
      indexType = kIndexNone\<rparr> = Some d'"
proof (rule decode_within_width)
  show "dexGetWidthFromOpcode (dexOpcodeFromCodeUnit (hd [0x0013, 7])) = Some 2" by code_simp
qed simp_all

text \<open>C15. The decoder inverts every format: the operands of an assembled instruction come back in
  the fields, sign-extended where the format says so and zero-extended elsewhere, whatever
  follows the instruction, and no other field changes.\<close>

theorem decode_assembled:
  assumes "op \<noteq> 0xff" "dexGetFormatFromOpcode (unat op) = Some f" "fits f ops" "length (arg d) = 5"
  shows "\<exists>ix. dexGetIndexTypeFromOpcode (unat op) = Some ix \<and>
    dexDecodeInstruction (assemble op ops @ rest) d =
      Some (operand_values f ops (d\<lparr>opcode := unat op, indexType := ix\<rparr>))"
proof -
  obtain hi us where u: "assemble op ops = unit op hi # us" using hd_assemble by blast
  note o = opcode_unit [OF assms(1)]
  have "dexGetIndexTypeFromOpcode (unat op) = Some (gInstructionIndexTypeTable ! unat op)"
    using o(2) by (simp add: dexGetIndexTypeFromOpcode_def table_get_def table_lengths)
  moreover have "decode_format f (unit op hi) (assemble op ops @ rest) (d\<lparr>opcode := unat op, indexType := ix\<rparr>) =
      Some (operand_values f ops (d\<lparr>opcode := unat op, indexType := ix\<rparr>))" for ix
    using decode_format_assembled [of f ops "d\<lparr>opcode := unat op, indexType := ix\<rparr>" op rest] assms(3,4)
    by (simp add: u)
  ultimately show ?thesis using assms(2) o(1) by (simp add: dexDecodeInstruction_def u Let_def)
qed

theorem decode_assembled_witness:
  "map_option vB (dexDecodeInstruction (assemble 0x13 (L_AA_BBBB 4 0xfffe) @ [9])
     \<lparr>vA = 0, vB = 0, vB_wide = 0, vC = 0, arg = [0, 0, 0, 0, 0], opcode = 0, indexType = kIndexNone\<rparr>) = Some (- 2)"
proof -
  have "dexGetFormatFromOpcode (unat (0x13 :: u1)) = Some kFmt21s" by code_simp
  from decode_assembled [OF _ this, of "L_AA_BBBB 4 0xfffe"
      "\<lparr>vA = 0, vB = 0, vB_wide = 0, vC = 0, arg = [0, 0, 0, 0, 0], opcode = 0, indexType = kIndexNone\<rparr>" "[9]"]
  show ?thesis by auto
qed

text \<open>A code unit whose low byte is \<open>0xff\<close> gets an opcode of 256 or more, for which the tables
  of 256 entries have no entry: neither its width nor its format can be looked up.\<close>

theorem extended_opcode_outside_tables:
  assumes "u AND 0xff = (0xff :: u2)"
  shows "256 \<le> dexOpcodeFromCodeUnit u \<and> dexDecodeInstruction (u # us) d = None \<and>
    dexGetWidthFromInstruction (u # us) = None"
proof -
  have "0x100 \<le> 0x100 OR drop_bit 8 u" by (rule le_word_or2)
  then have "256 \<le> unat (drop_bit 8 u OR 0x100)" by (simp add: word_le_nat_alt or.commute)
  then have o: "256 \<le> dexOpcodeFromCodeUnit u" using assms by (simp add: dexOpcodeFromCodeUnit_def)
  have "u \<noteq> 0x0100" "u \<noteq> 0x0200" "u \<noteq> 0x0300" using assms by auto
  with o show ?thesis
    by (simp add: dexDecodeInstruction_def dexGetFormatFromOpcode_def dexGetWidthFromInstruction_def
        dexGetWidthFromOpcode_def table_get_def table_lengths kPackedSwitchSignature_def
        kSparseSwitchSignature_def kArrayDataSignature_def)
qed

theorem extended_opcode_outside_tables_witness:
  "256 \<le> dexOpcodeFromCodeUnit 0x12ff \<and> dexGetWidthFromInstruction [0x12ff] = None"
  using extended_opcode_outside_tables [where u = "0x12ff" and us = "[]"] by simp

text \<open>The width of an array-data table is four units and its bytes rounded up to units, as long
  as the byte count fits 32 bits.\<close>

theorem array_data_width:
  assumes "unat ew * unat (ucast lo OR push_bit 16 (ucast hi) :: u4) < 2 ^ 32 - 1"
  shows "map_option unat (dexGetWidthFromInstruction (0x0300 # ew # lo # hi # us)) =
    Some (4 + (unat (ew :: u2) * unat (ucast lo OR push_bit 16 (ucast hi) :: u4) + 1) div 2)"
proof -
  let ?n = "ucast lo OR push_bit 16 (ucast hi) :: u4"
  have e: "unat (ucast ew :: u4) = unat ew"
    using unsigned_less [of ew, where ?'a = nat] by (simp add: unsigned_ucast_eq take_bit_eq_mod)
  have "unat (ucast ew * ?n + 1) = unat ew * unat ?n + 1"
    using assms e by (simp add: unat_word_ariths)
  then have "unat (4 + (ucast ew * ?n + 1) div 2) = 4 + (unat ew * unat ?n + 1) div 2"
    using assms by (simp add: unat_word_ariths unat_div)
  then show ?thesis
    by (simp add: dexGetWidthFromInstruction_def kPackedSwitchSignature_def kSparseSwitchSignature_def
        kArrayDataSignature_def FETCH_u4_def)
qed

theorem array_data_width_witness:
  "map_option unat (dexGetWidthFromInstruction [0x0300, 1, 3, 0]) = Some 6"
  using array_data_width [of 1 3 0 "[]"] by simp

end
