(* ===== verification/DexUtf.thy ===== *)
theory DexUtf
  imports Leb128 "HOL-Library.List_Lexorder"
begin

text \<open>
  \<^verbatim>\<open>jni/dalvik/libdex/DexUtf.h\<close>, \<^verbatim>\<open>DexUtf.cpp\<close> and the conversions of \<^verbatim>\<open>jni/dalvik/vm/UtfString.cpp\<close>:
  modified UTF-8, the comparison of strings, and which names and type descriptors are valid. A C
  string is the list of the bytes from its pointer on, terminator and whatever follows included;
  \<open>None\<close> is a read past the last byte there is. A \<open>char\<close> is unsigned, as it is on ARM.

  The conversion of one character and its inverse are an instance of the locale \<open>codec\<close>.
\<close>

unbundle bit_operations_syntax

section \<open>Characters\<close>

abbreviation (input) byte :: "char \<Rightarrow> u1" where "byte c \<equiv> of_char c"

definition dexGetUtf16FromUtf8 :: "u2 reader" where
  "dexGetUtf16FromUtf8 s =
     do { (one, s) \<leftarrow> next_byte s;
     if one AND 0x80 \<noteq> 0 then
       do { (two, s) \<leftarrow> next_byte s;
       if one AND 0x20 \<noteq> 0 then
         do { (three, s) \<leftarrow> next_byte s;
         Some (ucast (push_bit 12 (one AND 0x0f) OR push_bit 6 (two AND 0x3f) OR (three AND 0x3f)), s) }
       else Some (ucast (push_bit 6 (one AND 0x1f) OR (two AND 0x3f)), s) }
     else Some (ucast one, s) }"

text \<open>The body of the loop of \<open>convertUtf16ToUtf8\<close>, the bytes of one code unit.\<close>

definition utf8_bytes :: "u2 \<Rightarrow> u1 list" where
  "utf8_bytes uic =
     (if uic = 0 \<or> 0x7f < uic then
        if 0x07ff < uic then
          [ucast (drop_bit 12 uic OR 0xe0), ucast ((drop_bit 6 uic AND 0x3f) OR 0x80),
           ucast ((uic AND 0x3f) OR 0x80)]
        else [ucast (drop_bit 6 uic OR 0xc0), ucast ((uic AND 0x3f) OR 0x80)]
      else [ucast uic])"

fun convertUtf16ToUtf8 :: "u2 list \<Rightarrow> u1 list" where
  "convertUtf16ToUtf8 [] = [0]"
| "convertUtf16ToUtf8 (uic # us) = utf8_bytes uic @ convertUtf16ToUtf8 us"

fun utf16_utf8ByteLen :: "u2 list \<Rightarrow> nat" where
  "utf16_utf8ByteLen [] = 0"
| "utf16_utf8ByteLen (uic # us) =
     (if uic = 0 \<or> 0x7f < uic then (if 0x07ff < uic then 3 else 2) else 1) + utf16_utf8ByteLen us"

lemma getUtf16_shrinks:
  "dexGetUtf16FromUtf8 s = Some (u, t) \<Longrightarrow> \<exists>p. p \<noteq> [] \<and> s = p @ t"
  by (auto simp: dexGetUtf16FromUtf8_def elim!: next_byteE split: Option.bind_split_asm if_split_asm)

lemma getUtf16_length: "dexGetUtf16FromUtf8 s = Some (u, t) \<Longrightarrow> length t < length s"
  by (auto dest!: getUtf16_shrinks)

function dvmConvertUtf8ToUtf16 :: "u1 list \<Rightarrow> u2 list option" where
  "dvmConvertUtf8ToUtf16 s =
     (case s of [] \<Rightarrow> None
      | b # _ \<Rightarrow> if b = 0 then Some []
          else (case dexGetUtf16FromUtf8 s of None \<Rightarrow> None
            | Some (u, t) \<Rightarrow> map_option (Cons u) (dvmConvertUtf8ToUtf16 t)))"
  by pat_completeness auto
termination
  by (relation "measure length") (auto dest: getUtf16_length)

declare dvmConvertUtf8ToUtf16.simps [simp del]

function dvmUtf8Len :: "u1 list \<Rightarrow> nat option" where
  "dvmUtf8Len s =
     (case s of [] \<Rightarrow> None
      | ic # t \<Rightarrow> if ic = 0 then Some 0
          else map_option Suc (dvmUtf8Len (if ic AND 0x80 \<noteq> 0 then
            (if ic AND 0x20 \<noteq> 0 then drop 2 t else drop 1 t) else t)))"
  by pat_completeness auto
termination
  by (relation "measure length") auto

declare dvmUtf8Len.simps [simp del]

function dexUtf8Cmp :: "u1 list \<Rightarrow> u1 list \<Rightarrow> int option" where
  "dexUtf8Cmp s1 s2 =
     (case (s1, s2) of
        (b1 # _, b2 # _) \<Rightarrow>
          if b1 = 0 then (if b2 = 0 then Some 0 else Some (-1))
          else if b2 = 0 then Some 1
          else (case (dexGetUtf16FromUtf8 s1, dexGetUtf16FromUtf8 s2) of
            (Some (utf1, t1), Some (utf2, t2)) \<Rightarrow>
              let diff = uint utf1 - uint utf2 in if diff \<noteq> 0 then Some diff else dexUtf8Cmp t1 t2
          | _ \<Rightarrow> None)
      | _ \<Rightarrow> None)"
  by pat_completeness auto
termination
  by (relation "measure (\<lambda>(s1, s2). length s1)") (auto dest: getUtf16_length [OF sym])

declare dexUtf8Cmp.simps [simp del]

text \<open>\<open>dvmComputeUtf8Hash\<close> and \<open>computeUtf16Hash\<close>.\<close>

fun utf8_hash_loop :: "u4 \<Rightarrow> u1 list \<Rightarrow> u4 option" where
  "utf8_hash_loop hash [] = None"
| "utf8_hash_loop hash (b # s) = (if b = 0 then Some hash else utf8_hash_loop (hash * 31 + ucast b) s)"

definition dvmComputeUtf8Hash :: "u1 list \<Rightarrow> u4 option" where
  "dvmComputeUtf8Hash s = utf8_hash_loop 1 s"

definition computeUtf16Hash :: "u2 list \<Rightarrow> u4" where
  "computeUtf16Hash us = foldl (\<lambda>hash u. hash * 31 + ucast u) 0 us"

section \<open>String objects\<close>

record java_string =
  s_count :: nat
  s_offset :: nat
  s_value :: "u2 list"
  s_hashCode :: u4

text \<open>An allocation may fail. \<open>dvmCreateStringFromCstrAndLength\<close> converts into an array of the given
  length; \<open>Inl ()\<close> stands for writing past its end.\<close>

definition dvmCreateStringFromCstrAndLength ::
    "bool \<Rightarrow> u1 list \<Rightarrow> nat \<Rightarrow> (unit + java_string option) option" where
  "dvmCreateStringFromCstrAndLength alloc_ok utf8Str utf16Length =
     (if \<not> alloc_ok then Some (Inr None)
      else map_option (\<lambda>us. if utf16Length < length us then Inl ()
        else let chars = us @ replicate (utf16Length - length us) 0
          in Inr (Some \<lparr>s_count = utf16Length, s_offset = 0, s_value = chars,
               s_hashCode = computeUtf16Hash chars\<rparr>))
        (dvmConvertUtf8ToUtf16 utf8Str))"

definition dvmCreateStringFromCstr :: "bool \<Rightarrow> u1 list \<Rightarrow> (unit + java_string option) option" where
  "dvmCreateStringFromCstr alloc_ok utf8Str =
     do { n \<leftarrow> dvmUtf8Len utf8Str; dvmCreateStringFromCstrAndLength alloc_ok utf8Str n }"

definition dvmCreateStringFromUnicode :: "bool \<Rightarrow> u2 list \<Rightarrow> java_string option" where
  "dvmCreateStringFromUnicode alloc_ok unichars =
     (if \<not> alloc_ok then None
      else Some \<lparr>s_count = length unichars, s_offset = 0, s_value = unichars,
        s_hashCode = computeUtf16Hash unichars\<rparr>)"

definition string_chars :: "java_string \<Rightarrow> u2 list" where
  "string_chars js = take (s_count js) (drop (s_offset js) (s_value js))"

definition dvmCreateCstrFromString :: "java_string option \<Rightarrow> bool \<Rightarrow> u1 list option" where
  "dvmCreateCstrFromString jstr malloc_ok =
     (case jstr of None \<Rightarrow> None
      | Some js \<Rightarrow> if malloc_ok then Some (convertUtf16ToUtf8 (string_chars js)) else None)"

definition utfLength :: "java_string \<Rightarrow> nat" where
  "utfLength js = utf16_utf8ByteLen (string_chars js)"

definition dvmComputeStringHash :: "java_string \<Rightarrow> u4 \<times> java_string" where
  "dvmComputeStringHash js =
     (if s_hashCode js \<noteq> 0 then (s_hashCode js, js)
      else let h = computeUtf16Hash (string_chars js) in (h, js\<lparr>s_hashCode := h\<rparr>))"

fun memcmp :: "u1 list \<Rightarrow> u1 list \<Rightarrow> int" where
  "memcmp (a # as) (b # bs) = (if a = b then memcmp as bs else uint a - uint b)"
| "memcmp _ _ = 0"

definition unit_bytes :: "u2 \<Rightarrow> u1 list" where
  "unit_bytes u = [ucast u, ucast (drop_bit 8 u)]"

definition dvmHashcmpStrings :: "java_string \<Rightarrow> java_string \<Rightarrow> int" where
  "dvmHashcmpStrings a b =
     (if s_count a \<noteq> s_count b then int (s_count a) - int (s_count b)
      else memcmp (concat (map unit_bytes (string_chars a))) (concat (map unit_bytes (string_chars b))))"

section \<open>Names and descriptors\<close>

definition DEX_MEMBER_VALID_LOW_ASCII :: "u4 list" where
  "DEX_MEMBER_VALID_LOW_ASCII = [0x00000000, 0x03ff2010, 0x87fffffe, 0x07fffffe]"

definition dexIsValidMemberNameUtf8_0 :: "bool reader" where
  "dexIsValidMemberNameUtf8_0 s =
     do { (utf16, s) \<leftarrow> dexGetUtf16FromUtf8 s;
     let hi = drop_bit 8 utf16;
     if hi = 0x00 then Some (0x00a0 < utf16, s)
     else if hi \<in> {0xd8, 0xd9, 0xda, 0xdb} then
       do { (utf16, s) \<leftarrow> dexGetUtf16FromUtf8 s; Some (0xdc00 \<le> utf16 \<and> utf16 \<le> 0xdfff, s) }
     else if hi \<in> {0xdc, 0xdd, 0xde, 0xdf} then Some (False, s)
     else if hi \<in> {0x20, 0xff} then
       Some (utf16 AND 0xfff8 \<notin> {0x2000, 0x2008, 0x2028, 0xfff0, 0xfff8}, s)
     else Some (True, s) }"

definition dexIsValidMemberNameUtf8 :: "bool reader" where
  "dexIsValidMemberNameUtf8 s =
     (case s of [] \<Rightarrow> None
      | c # t \<Rightarrow> if c \<le> 0x7f then
            Some (bit (DEX_MEMBER_VALID_LOW_ASCII ! unat (drop_bit 5 c)) (unat (c AND 0x1f)), t)
          else dexIsValidMemberNameUtf8_0 s)"

lemma memberNameUtf8_length: "dexIsValidMemberNameUtf8 s = Some (v, t) \<Longrightarrow> length t < length s"
  by (auto simp: dexIsValidMemberNameUtf8_def dexIsValidMemberNameUtf8_0_def Let_def
      dest!: getUtf16_length split: list.splits if_splits Option.bind_split_asm)

function member_name_loop :: "bool \<Rightarrow> u1 list \<Rightarrow> bool option" where
  "member_name_loop angleName s =
     (case s of [] \<Rightarrow> None
      | b # r \<Rightarrow>
          if b = 0 then Some (\<not> angleName)
          else if b = byte CHR ''>'' then
            (if angleName then map_option (\<lambda>(c, _). c = 0) (next_byte r) else Some False)
          else (case dexIsValidMemberNameUtf8 s of None \<Rightarrow> None
            | Some (v, t) \<Rightarrow> if v then member_name_loop angleName t else Some False))"
  by pat_completeness auto
termination
  by (relation "measure (\<lambda>(a, s). length s)") (auto dest: memberNameUtf8_length)

definition dexIsValidMemberName :: "u1 list \<Rightarrow> bool option" where
  "dexIsValidMemberName s =
     (case s of [] \<Rightarrow> None
      | b # r \<Rightarrow> if b = 0 then Some False
          else if b = byte CHR ''<'' then member_name_loop True r else member_name_loop False s)"

function class_name_loop :: "bool \<Rightarrow> bool \<Rightarrow> bool \<Rightarrow> u1 list \<Rightarrow> bool option" where
  "class_name_loop isClassName dotSeparator sepOrFirst s =
     (case s of [] \<Rightarrow> None
      | c # r \<Rightarrow>
          if c = 0 then Some (isClassName \<and> \<not> sepOrFirst)
          else if c = byte CHR '';'' then
            (if \<not> isClassName \<and> \<not> sepOrFirst then map_option (\<lambda>(b, _). b = 0) (next_byte r) else Some False)
          else if c = byte CHR ''/'' \<or> c = byte CHR ''.'' then
            (if dotSeparator \<noteq> (c = byte CHR ''.'') then Some False
             else if sepOrFirst then Some False
             else class_name_loop isClassName dotSeparator True r)
          else (case dexIsValidMemberNameUtf8 s of None \<Rightarrow> None
            | Some (v, t) \<Rightarrow> if v then class_name_loop isClassName dotSeparator False t else Some False))"
  by pat_completeness auto
termination
  by (relation "measure (\<lambda>(i, d, f, s). length s)") (auto dest: memberNameUtf8_length)

declare member_name_loop.simps [simp del] class_name_loop.simps [simp del]

definition isValidTypeDescriptorOrClassName :: "u1 list \<Rightarrow> bool \<Rightarrow> bool \<Rightarrow> bool option" where
  "isValidTypeDescriptorOrClassName s isClassName dotSeparator =
     (let arrayCount = length (takeWhile (\<lambda>b. b = byte CHR ''['') s);
          s = dropWhile (\<lambda>b. b = byte CHR ''['') s in
      case s of [] \<Rightarrow> None
      | c # r \<Rightarrow>
          if 255 < arrayCount then Some False
          else if arrayCount \<noteq> 0 \<or> \<not> isClassName then
            (if c \<in> set (map byte ''BCDFIJSZ'') then map_option (\<lambda>(b, _). b = 0) (next_byte r)
             else if c = byte CHR ''V'' then
               (if arrayCount = 0 then map_option (\<lambda>(b, _). b = 0) (next_byte r) else Some False)
             else if c = byte CHR ''L'' then class_name_loop False dotSeparator True r
             else Some False)
          else class_name_loop True dotSeparator True s)"

definition dexIsValidTypeDescriptor :: "u1 list \<Rightarrow> bool option" where
  "dexIsValidTypeDescriptor s = isValidTypeDescriptorOrClassName s False False"

definition dexIsValidClassName :: "u1 list \<Rightarrow> bool \<Rightarrow> bool option" where
  "dexIsValidClassName s dotSeparator = isValidTypeDescriptorOrClassName s True dotSeparator"

definition descriptor_and :: "(u1 \<Rightarrow> bool) \<Rightarrow> u1 list \<Rightarrow> bool option" where
  "descriptor_and p s = map_option (\<lambda>v. v \<and> p (hd s)) (dexIsValidTypeDescriptor s)"

definition dexIsReferenceDescriptor :: "u1 list \<Rightarrow> bool option" where
  "dexIsReferenceDescriptor = descriptor_and (\<lambda>b. b = byte CHR ''L'' \<or> b = byte CHR ''['')"

definition dexIsClassDescriptor :: "u1 list \<Rightarrow> bool option" where
  "dexIsClassDescriptor = descriptor_and (\<lambda>b. b = byte CHR ''L'')"

definition dexIsFieldDescriptor :: "u1 list \<Rightarrow> bool option" where
  "dexIsFieldDescriptor = descriptor_and (\<lambda>b. b \<noteq> byte CHR ''V'')"

section \<open>Lemmas on characters\<close>

lemma utf_masks:
  "(x::u4) AND 0x3f = take_bit 6 x" "(x::u4) AND 0x0f = take_bit 4 x" "(x::u4) AND 0x1f = take_bit 5 x"
  "(y::u2) AND 0x3f = take_bit 6 y"
  by (simp_all add: take_bit_eq_mask mask_eq_exp_minus_1)

lemma utf_bits:
  "bit (0x20::int) n \<longleftrightarrow> n = 5" "bit (0xe0::int) n \<longleftrightarrow> n = 5 \<or> n = 6 \<or> n = 7" "bit (0xc0::int) n \<longleftrightarrow> n = 6 \<or> n = 7"
  by (auto simp: bit_numeral_rec numeral_eq_Suc bit_1_iff split: nat.splits)

lemma and_flag:
  "(x::u4) AND 0x80 \<noteq> 0 \<longleftrightarrow> bit x 7" "(x::u4) AND 0x20 \<noteq> 0 \<longleftrightarrow> bit x 5"
  "(b::u1) AND 0x80 \<noteq> 0 \<longleftrightarrow> bit b 7" "(b::u1) AND 0x20 \<noteq> 0 \<longleftrightarrow> bit b 5"
  using bit_iff_and_push_bit_not_eq_0 [of x 7] bit_iff_and_push_bit_not_eq_0 [of x 5]
    bit_iff_and_push_bit_not_eq_0 [of b 7] bit_iff_and_push_bit_not_eq_0 [of b 5]
  by (simp_all add: push_bit_eq_mult)

lemma high_bits:
  "\<not> 0x7f < (u::u2) \<Longrightarrow> bit u n \<Longrightarrow> n < 7" "\<not> 0x7ff < (u::u2) \<Longrightarrow> bit u n \<Longrightarrow> n < 11"
proof -
  have t: "take_bit k u = u" if "unat u < 2 ^ k" for k
    using that by (simp add: word_unat_eq_iff unsigned_take_bit_eq take_bit_nat_eq_self)
  show "n < 7" if "\<not> 0x7f < u" "bit u n"
  proof -
    have "take_bit 7 u = u" using that(1) by (intro t) (simp add: word_less_nat_alt)
    with that(2) show ?thesis by (metis bit_take_bit_iff)
  qed
  show "n < 11" if "\<not> 0x7ff < u" "bit u n"
  proof -
    have "take_bit 11 u = u" using that(1) by (intro t) (simp add: word_less_nat_alt)
    with that(2) show ?thesis by (metis bit_take_bit_iff)
  qed
qed

lemmas utf_char = utf_masks utf_bits bit_80 bit_simps

lemma read_utf8_3:
  "dexGetUtf16FromUtf8 (ucast (drop_bit 12 uic OR 0xe0) # ucast ((drop_bit 6 uic AND 0x3f) OR 0x80) #
     ucast ((uic AND 0x3f) OR 0x80) # s) = Some (uic, s)"
proof -
  let ?one = "ucast (ucast (drop_bit 12 uic OR 0xe0 :: u2) :: u1) :: u4"
  let ?two = "ucast (ucast ((drop_bit 6 uic AND 0x3f) OR 0x80 :: u2) :: u1) :: u4"
  let ?three = "ucast (ucast ((uic AND 0x3f) OR 0x80 :: u2) :: u1) :: u4"
  have "bit ?one 7" "bit ?one 5" by (simp_all add: bit_simps utf_bits)
  moreover have "(ucast (push_bit 12 (?one AND 0x0f) OR push_bit 6 (?two AND 0x3f) OR (?three AND 0x3f)) :: u2) = uic"
  proof (rule bit_word_eqI)
    fix n assume n: "n < LENGTH(16)"
    consider "n < 6" | m where "n = 6 + m" "m < 6" | m where "n = 12 + m" "m < 4"
    proof (cases "n < 12")
      case False
      with n show thesis by (intro that(3) [of "n - 12"]) simp_all
    next
      case True
      then show thesis by (cases "n < 6") (auto intro: that(1) that(2) [of "n - 6"])
    qed
    then show "bit (ucast (push_bit 12 (?one AND 0x0f) OR push_bit 6 (?two AND 0x3f) OR (?three AND 0x3f)) :: u2) n
        \<longleftrightarrow> bit uic n"
      by cases (auto simp: utf_masks bit_simps utf_bits bit_80)
  qed
  ultimately show ?thesis by (simp only: dexGetUtf16FromUtf8_def leb_eval and_flag)
qed

lemma read_utf8_2:
  assumes "\<not> 0x7ff < uic"
  shows "dexGetUtf16FromUtf8 (ucast (drop_bit 6 uic OR 0xc0) # ucast ((uic AND 0x3f) OR 0x80) # s) = Some (uic, s)"
proof -
  let ?one = "ucast (ucast (drop_bit 6 uic OR 0xc0 :: u2) :: u1) :: u4"
  let ?two = "ucast (ucast ((uic AND 0x3f) OR 0x80 :: u2) :: u1) :: u4"
  have "bit ?one 7" "\<not> bit ?one 5" using high_bits(2) [OF assms] by (auto simp: bit_simps utf_bits)
  moreover have "(ucast (push_bit 6 (?one AND 0x1f) OR (?two AND 0x3f)) :: u2) = uic"
  proof (rule bit_word_eqI)
    fix n assume "n < LENGTH(16)"
    consider "n < 6" | m where "n = 6 + m" "m < 5" | "\<not> n < 11"
    proof (cases "n < 6")
      case False
      then show thesis by (cases "n < 11") (auto intro: that(2) [of "n - 6"] that(3))
    qed (rule that(1))
    then show "bit (ucast (push_bit 6 (?one AND 0x1f) OR (?two AND 0x3f)) :: u2) n \<longleftrightarrow> bit uic n"
      using high_bits(2) [OF assms, of n] by cases (auto simp: utf_masks bit_simps utf_bits bit_80)
  qed
  ultimately show ?thesis by (simp only: dexGetUtf16FromUtf8_def leb_eval and_flag)
qed

lemma read_utf8_1:
  assumes "\<not> 0x7f < uic"
  shows "dexGetUtf16FromUtf8 (ucast uic # s) = Some (uic, s)"
proof -
  let ?one = "ucast (ucast uic :: u1) :: u4"
  have "\<not> bit ?one 7" using high_bits(1) [OF assms] by (auto simp: bit_simps)
  moreover have "(ucast ?one :: u2) = uic"
    using high_bits(1) [OF assms] by (intro bit_word_eqI) (force simp: bit_simps)
  ultimately show ?thesis by (simp only: dexGetUtf16FromUtf8_def leb_eval and_flag)
qed

lemma read_utf8: "dexGetUtf16FromUtf8 (utf8_bytes uic @ s) = Some (uic, s)"
  by (cases "uic = 0 \<or> 0x7f < uic"; cases "0x07ff < uic")
     (simp_all only: utf8_bytes_def if_True if_False append.simps de_Morgan_disj read_utf8_1 read_utf8_2 read_utf8_3
       simp_thms)

interpretation utf8: codec utf8_bytes dexGetUtf16FromUtf8 "\<lambda>_. True"
  by unfold_locales (simp_all add: read_utf8 getUtf16_shrinks)

text \<open>No byte of a character is the terminator.\<close>

lemma utf8_bytes_nonzero: "0 \<notin> set (utf8_bytes uic)"
proof -
  have "bit (ucast (drop_bit 12 uic OR 0xe0 :: u2) :: u1) 7" "bit (ucast ((x AND 0x3f) OR 0x80 :: u2) :: u1) 7"
    "bit (ucast (drop_bit 6 uic OR 0xc0 :: u2) :: u1) 7" for x
    by (simp_all add: bit_simps utf_bits bit_80)
  then have multi: "(ucast (drop_bit 12 uic OR 0xe0 :: u2) :: u1) \<noteq> 0" "(ucast ((x AND 0x3f) OR 0x80 :: u2) :: u1) \<noteq> 0"
    "(ucast (drop_bit 6 uic OR 0xc0 :: u2) :: u1) \<noteq> 0" for x
    by (metis bit_0_eq bot_apply bot_bool_def)+
  have "uic = 0" if "\<not> 0x7f < uic" "(ucast uic :: u1) = 0"
    using read_utf8_1 [OF that(1), of "[]"] that(2) by (simp add: dexGetUtf16FromUtf8_def)
  with multi show ?thesis
    by (cases "uic = 0 \<or> 0x7f < uic"; cases "0x07ff < uic")
       (simp_all only: utf8_bytes_def if_True if_False list.set, auto)
qed

lemma utf8_bytes_hd: "\<exists>b bs. utf8_bytes uic = b # bs \<and> b \<noteq> 0"
  using utf8_bytes_nonzero [of uic] utf8.enc_nonempty [of uic] by (cases "utf8_bytes uic") auto

section \<open>Lemmas on strings\<close>

lemma convert_append: "convertUtf16ToUtf8 us = concat (map utf8_bytes us) @ [0]"
  by (induction us) simp_all

lemma convert_utf8_units: "dvmConvertUtf8ToUtf16 (convertUtf16ToUtf8 us @ s) = Some us"
proof (induction us)
  case Nil
  then show ?case by (simp add: dvmConvertUtf8ToUtf16.simps)
next
  case (Cons u us)
  obtain b bs where b: "utf8_bytes u = b # bs" "b \<noteq> 0" using utf8_bytes_hd by blast
  from read_utf8 [of u "convertUtf16ToUtf8 us @ s"] Cons b show ?case
    by (simp add: dvmConvertUtf8ToUtf16.simps [of "b # _"])
qed

lemma convert_byte_len: "length (convertUtf16ToUtf8 us) = utf16_utf8ByteLen us + 1"
  by (induction us) (simp_all add: utf8_bytes_def)

lemma utf8_len_convert:
  "dvmConvertUtf8ToUtf16 s = Some us \<Longrightarrow> dvmUtf8Len s = Some (length us)"
proof (induction s arbitrary: us rule: dvmConvertUtf8ToUtf16.induct)
  case (1 s)
  show ?case
  proof (cases s)
    case Nil
    with "1.prems" show ?thesis by (simp add: dvmConvertUtf8ToUtf16.simps)
  next
    case (Cons b r)
    show ?thesis
    proof (cases "b = 0")
      case True
      with "1.prems" Cons show ?thesis by (simp add: dvmConvertUtf8ToUtf16.simps dvmUtf8Len.simps)
    next
      case False
      with "1.prems" Cons obtain u t vs where g: "dexGetUtf16FromUtf8 s = Some (u, t)"
        "dvmConvertUtf8ToUtf16 t = Some vs" "us = u # vs"
        by (auto simp: dvmConvertUtf8ToUtf16.simps [of "b # r"] split: option.splits)
      have "t = (if b AND 0x80 \<noteq> 0 then (if b AND 0x20 \<noteq> 0 then drop 2 r else drop 1 r) else r)"
        using g(1) Cons unfolding dexGetUtf16FromUtf8_def and_flag
        by (auto simp: bit_simps numeral_2_eq_2 elim!: next_byteE split: Option.bind_split_asm if_split_asm)
      moreover have "dvmUtf8Len t = Some (length vs)" using "1.IH" [OF Cons False g(1) refl g(2)] .
      ultimately show ?thesis using False Cons g(3) by (simp add: dvmUtf8Len.simps [of "b # r"] split del: if_split)
    qed
  qed
qed

text \<open>The comparison on the code units themselves.\<close>

fun units_cmp :: "u2 list \<Rightarrow> u2 list \<Rightarrow> int" where
  "units_cmp [] [] = 0"
| "units_cmp [] (v # vs) = -1"
| "units_cmp (u # us) [] = 1"
| "units_cmp (u # us) (v # vs) = (if u = v then units_cmp us vs else uint u - uint v)"

lemma cmp_convert:
  "dexUtf8Cmp (convertUtf16ToUtf8 us @ s) (convertUtf16ToUtf8 vs @ t) = Some (units_cmp us vs)"
proof (induction us vs rule: units_cmp.induct)
  case (2 v vs)
  obtain b bs where "utf8_bytes v = b # bs" "b \<noteq> 0" using utf8_bytes_hd by blast
  then show ?case by (simp add: dexUtf8Cmp.simps)
next
  case (3 u us)
  obtain b bs where "utf8_bytes u = b # bs" "b \<noteq> 0" using utf8_bytes_hd by blast
  then show ?case by (simp add: dexUtf8Cmp.simps)
next
  case (4 u us v vs)
  obtain b bs c cs where b: "utf8_bytes u = b # bs" "b \<noteq> 0" and c: "utf8_bytes v = c # cs" "c \<noteq> 0"
    using utf8_bytes_hd by metis
  from 4 b c read_utf8 [of u "convertUtf16ToUtf8 us @ s"] read_utf8 [of v "convertUtf16ToUtf8 vs @ t"]
  show ?case by (simp add: dexUtf8Cmp.simps [of "b # _" "c # _"] Let_def word_uint_eq_iff)
qed (simp add: dexUtf8Cmp.simps)

lemma units_cmp_order:
  "(units_cmp us vs < 0 \<longleftrightarrow> us < vs) \<and> (units_cmp us vs = 0 \<longleftrightarrow> us = vs)"
  by (induction us vs rule: units_cmp.induct) (auto simp: word_less_def word_uint_eq_iff)

lemma memcmp_zero: "length as = length bs \<Longrightarrow> memcmp as bs = 0 \<longleftrightarrow> as = bs"
  by (induction as bs rule: memcmp.induct) (auto simp: word_uint_eq_iff)

lemma unit_bytes_inj: "concat (map unit_bytes us) = concat (map unit_bytes vs) \<longleftrightarrow> us = vs"
proof (induction us arbitrary: vs)
  case Nil
  then show ?case by (cases vs) (simp_all add: unit_bytes_def)
next
  case (Cons u us)
  have "u = v" if "(ucast u :: u1) = ucast v" "(ucast (drop_bit 8 u) :: u1) = ucast (drop_bit 8 v)" for v
  proof -
    have j: "ucast (ucast w :: u1) OR push_bit 8 (ucast (ucast (drop_bit 8 w) :: u1)) = (w :: u2)" for w
      by (rule bit_word_eqI) (auto simp: bit_simps)
    show ?thesis using j [of u] unfolding that j [of v] by (rule sym)
  qed
  with Cons show ?case by (cases vs) (auto simp: unit_bytes_def)
qed

section \<open>Properties of strings\<close>

text \<open>C35. A Java string made into a C string and back is the same string: the conversion to
  modified UTF-8 takes the bytes \<open>utfLength\<close> announces and the terminator, contains no other
  zero byte, and \<open>dvmCreateStringFromCstr\<close> reserves exactly the units it then writes.\<close>

theorem string_roundtrip:
  assumes "dvmCreateStringFromUnicode True us = Some js"
  shows "\<exists>cs. dvmCreateCstrFromString (Some js) True = Some (cs @ [0]) \<and> 0 \<notin> set cs \<and>
    length cs = utfLength js \<and> dvmCreateStringFromCstr True (cs @ 0 # rest) = Some (Inr (Some js))"
proof -
  have js: "js = \<lparr>s_count = length us, s_offset = 0, s_value = us, s_hashCode = computeUtf16Hash us\<rparr>"
    using assms by (simp add: dvmCreateStringFromUnicode_def)
  have conv: "dvmConvertUtf8ToUtf16 (concat (map utf8_bytes us) @ 0 # rest) = Some us"
    using convert_utf8_units [of us rest] by (simp add: convert_append)
  with utf8_len_convert [OF conv] have "dvmCreateStringFromCstr True (concat (map utf8_bytes us) @ 0 # rest) = Some (Inr (Some js))"
    by (simp add: dvmCreateStringFromCstr_def dvmCreateStringFromCstrAndLength_def js)
  moreover have "0 \<notin> set (concat (map utf8_bytes us))" using utf8_bytes_nonzero by auto
  moreover have "length (concat (map utf8_bytes us)) = utfLength js"
    using convert_byte_len [of us] by (simp add: convert_append utfLength_def string_chars_def js)
  ultimately show ?thesis
    by (intro exI [of _ "concat (map utf8_bytes us)"])
       (simp add: dvmCreateCstrFromString_def string_chars_def convert_append js)
qed

theorem string_roundtrip_witness:
  "\<exists>cs js. dvmCreateStringFromUnicode True [0, 0x41, 0x20ac] = Some js \<and>
     dvmCreateCstrFromString (Some js) True = Some (cs @ [0]) \<and> 0 \<notin> set cs \<and> length cs = 6"
proof -
  obtain js where js: "dvmCreateStringFromUnicode True [0, 0x41, 0x20ac] = Some js"
    by (simp add: dvmCreateStringFromUnicode_def)
  have "utfLength js = 6"
    using js by (auto simp: dvmCreateStringFromUnicode_def utfLength_def string_chars_def)
  with string_roundtrip [OF js, of "[]"] js show ?thesis by auto
qed

text \<open>\<open>dexUtf8Cmp\<close> orders strings as the lexicographic order of their UTF-16 units does, and
  \<open>dvmHashcmpStrings\<close> returns 0 exactly for strings with the same units; equal strings have
  equal hashes.\<close>

theorem string_comparison:
  assumes "dvmCreateStringFromUnicode True us = Some a" "dvmCreateStringFromUnicode True vs = Some b"
  shows "\<exists>c. dexUtf8Cmp (convertUtf16ToUtf8 us @ s) (convertUtf16ToUtf8 vs @ t) = Some c \<and>
      (c < 0 \<longleftrightarrow> us < vs) \<and> (c = 0 \<longleftrightarrow> us = vs) \<and> (c > 0 \<longleftrightarrow> us > vs) \<and>
      (dvmHashcmpStrings a b = 0 \<longleftrightarrow> c = 0) \<and>
      (c = 0 \<longrightarrow> fst (dvmComputeStringHash a) = fst (dvmComputeStringHash b))"
proof -
  have len: "length us = length vs \<Longrightarrow>
      length (concat (map unit_bytes us)) = length (concat (map unit_bytes vs))"
    by (simp add: length_concat unit_bytes_def comp_def sum_list_triv)
  have "dvmHashcmpStrings a b = 0 \<longleftrightarrow> us = vs"
    using assms memcmp_zero [OF len]
    by (auto simp: dvmCreateStringFromUnicode_def dvmHashcmpStrings_def string_chars_def unit_bytes_inj)
  moreover have "us = vs \<longrightarrow> a = b" using assms by auto
  ultimately show ?thesis
    using cmp_convert [of us s vs t] units_cmp_order [of us vs]
    by (intro exI [of _ "units_cmp us vs"]) auto
qed

theorem string_comparison_witness:
  "\<exists>c. dexUtf8Cmp (convertUtf16ToUtf8 [0x41, 0] @ []) (convertUtf16ToUtf8 [0x41, 1] @ []) = Some c \<and> c < 0"
  using string_comparison [of "[0x41, 0]" _ "[0x41, 1]" _ "[]" "[]"]
  by (auto simp: dvmCreateStringFromUnicode_def)

section \<open>The grammar of descriptors\<close>

text \<open>For texts of one-byte characters: the characters of a name, and class names as non-empty names
  between separators.\<close>

definition ascii :: "u1 list \<Rightarrow> bool" where
  "ascii bs \<longleftrightarrow> (\<forall>b \<in> set bs. 0 < b \<and> b \<le> 0x7f)"

definition name_char :: "u1 \<Rightarrow> bool" where
  "name_char b \<longleftrightarrow> b \<in> set (map byte (''ABCDEFGHIJKLMNOPQRSTUVWXYZ'' @ ''abcdefghijklmnopqrstuvwxyz'' @
     ''0123456789'' @ ''$-_''))"

definition name_ok :: "u1 list \<Rightarrow> bool" where
  "name_ok bs \<longleftrightarrow> bs \<noteq> [] \<and> (\<forall>b \<in> set bs. name_char b)"

fun split_on :: "u1 \<Rightarrow> u1 list \<Rightarrow> u1 list list" where
  "split_on c [] = [[]]"
| "split_on c (b # bs) =
     (if b = c then [] # split_on c bs else (b # hd (split_on c bs)) # tl (split_on c bs))"

definition sep :: "bool \<Rightarrow> u1" where
  "sep dot = (if dot then byte CHR ''.'' else byte CHR ''/'')"

definition class_name_ok :: "bool \<Rightarrow> u1 list \<Rightarrow> bool" where
  "class_name_ok dot bs \<longleftrightarrow> (\<forall>n \<in> set (split_on (sep dot) bs). name_ok n)"

definition descriptor_ok :: "u1 list \<Rightarrow> bool" where
  "descriptor_ok bs \<longleftrightarrow>
     (\<exists>n \<le> 255. \<exists>t. bs = replicate n (byte CHR ''['') @ t \<and>
        (t \<in> (\<lambda>c. [byte c]) ` set ''BCDFIJSZ'' \<or> n = 0 \<and> t = [byte CHR ''V''] \<or>
         (\<exists>c. t = byte CHR ''L'' # c @ [byte CHR '';''] \<and> class_name_ok False c)))"

lemma all_ascii: "c \<le> (0x7f :: u1) \<Longrightarrow> c \<in> set (map of_nat [0..<128])"
proof -
  assume "c \<le> 0x7f"
  then have "unat c < 128" by (simp add: word_le_nat_alt)
  moreover have "c = of_nat (unat c)" by simp
  ultimately show ?thesis unfolding set_map set_upt by (metis atLeastLessThan_iff image_eqI le0)
qed

lemma name_char_table:
  assumes "c \<le> 0x7f"
  shows "bit (DEX_MEMBER_VALID_LOW_ASCII ! unat (drop_bit 5 c)) (unat (c AND 0x1f)) \<longleftrightarrow> name_char c"
proof -
  have "list_all (\<lambda>c. bit (DEX_MEMBER_VALID_LOW_ASCII ! unat (drop_bit 5 c)) (unat (c AND 0x1f)) \<longleftrightarrow> name_char c)
      (map of_nat [0..<128])"
    by code_simp
  with all_ascii [OF assms] show ?thesis by (auto simp: list_all_iff)
qed

lemma member_ascii: "c \<le> 0x7f \<Longrightarrow> dexIsValidMemberNameUtf8 (c # t) = Some (name_char c, t)"
  by (simp add: dexIsValidMemberNameUtf8_def name_char_table)

lemma not_name_char [simp]:
  "\<not> name_char (byte CHR '';'')" "\<not> name_char (byte CHR ''/'')" "\<not> name_char (byte CHR ''.'')"
  by (simp_all add: name_char_def)

lemma split_on_nonempty [simp]: "split_on c bs \<noteq> []"
  by (cases bs) simp_all

text \<open>What is left of a class name, when an empty name may come first or not.\<close>

definition rest_ok :: "bool \<Rightarrow> bool \<Rightarrow> u1 list \<Rightarrow> bool" where
  "rest_ok dot first bs \<longleftrightarrow>
     (let ns = split_on (sep dot) bs in
      (first \<longrightarrow> hd ns \<noteq> []) \<and> (\<forall>b \<in> set (hd ns). name_char b) \<and> (\<forall>n \<in> set (tl ns). name_ok n))"

lemma rest_ok_first: "rest_ok dot True bs \<longleftrightarrow> class_name_ok dot bs"
proof -
  obtain n ns where "split_on (sep dot) bs = n # ns" by (metis list.exhaust split_on_nonempty)
  then show ?thesis by (auto simp: rest_ok_def class_name_ok_def name_ok_def)
qed

lemma rest_ok_sep: "rest_ok dot first (sep dot # bs) \<longleftrightarrow> \<not> first \<and> rest_ok dot True bs"
  unfolding rest_ok_first by (simp add: rest_ok_def class_name_ok_def Let_def)

lemma rest_ok_simps:
  "rest_ok dot first [] \<longleftrightarrow> \<not> first"
  "c \<noteq> sep dot \<Longrightarrow> rest_ok dot first (c # bs) \<longleftrightarrow> name_char c \<and> rest_ok dot False bs"
  by (auto simp: rest_ok_def Let_def)

lemma class_loop_Cons:
  assumes "c \<noteq> 0" "c \<le> 0x7f"
  shows "class_name_loop i dot f (c # r) =
    (if c = byte CHR '';'' then
       (if \<not> i \<and> \<not> f then map_option (\<lambda>(b, _). b = 0) (next_byte r) else Some False)
     else if c = sep dot then (if f then Some False else class_name_loop i dot True r)
     else if name_char c then class_name_loop i dot False r else Some False)"
proof -
  consider "c = byte CHR '';''" | "c = byte CHR ''/''" | "c = byte CHR ''.''"
    | "c \<noteq> byte CHR '';''" "c \<noteq> byte CHR ''/''" "c \<noteq> byte CHR ''.''" by blast
  then show ?thesis
  proof cases
    case 1
    then show ?thesis using assms by (subst class_name_loop.simps) simp
  next
    case 2
    then show ?thesis using assms by (subst class_name_loop.simps) (cases dot, simp_all add: sep_def name_char_def)
  next
    case 3
    then show ?thesis using assms by (subst class_name_loop.simps) (cases dot, simp_all add: sep_def name_char_def)
  next
    case 4
    then show ?thesis using assms by (subst class_name_loop.simps) (simp add: sep_def member_ascii)
  qed
qed

lemma semicolon [simp]: "sep dot \<noteq> 59" "59 \<noteq> sep dot" "\<not> name_char 59"
  by (simp_all add: sep_def name_char_def)

lemma ucast_zero [simp]: "(ucast (a::u1) :: u4) = 0 \<longleftrightarrow> a = 0"
proof
  have "(ucast (ucast a :: u4) :: u1) = a" by (rule bit_word_eqI) (auto simp: bit_simps)
  then show "(ucast a :: u4) = 0 \<Longrightarrow> a = 0" by auto
qed simp

lemma class_loop_name:
  "ascii bs \<Longrightarrow> class_name_loop True dot first (bs @ 0 # r) = Some (rest_ok dot first bs)"
proof (induction bs arbitrary: first)
  case Nil
  then show ?case by (simp add: class_name_loop.simps rest_ok_simps)
next
  case (Cons c bs)
  then have "c \<noteq> 0" "c \<le> 0x7f" "ascii bs" by (auto simp: ascii_def)
  note step = class_loop_Cons [OF this(1,2), of True dot first "bs @ 0 # r"] Cons.IH [OF this(3)]
  show ?case
  proof (cases "c = sep dot")
    case True
    with step show ?thesis by (simp add: rest_ok_sep)
  next
    case False
    with step not_name_char(1) show ?thesis by (auto simp: rest_ok_simps simp del: of_char_eq_iff)
  qed
qed

lemma class_loop_descriptor:
  "ascii bs \<Longrightarrow> class_name_loop False dot first (bs @ 0 # r) =
     Some (\<exists>c. bs = c @ [byte CHR '';''] \<and> rest_ok dot first c)"
proof (induction bs arbitrary: first)
  case Nil
  then show ?case by (simp add: class_name_loop.simps)
next
  case (Cons c bs)
  then have c: "c \<noteq> 0" "c \<le> 0x7f" "ascii bs" by (auto simp: ascii_def)
  note step = class_loop_Cons [OF this(1,2), of False dot first "bs @ 0 # r"] Cons.IH [OF this(3)]
  have last: "(\<exists>d. c # bs = d @ [byte CHR '';''] \<and> rest_ok dot first d) \<longleftrightarrow>
      c = byte CHR '';'' \<and> bs = [] \<and> \<not> first \<or> (\<exists>d. bs = d @ [byte CHR '';''] \<and> rest_ok dot first (c # d))"
    by (auto simp: Cons_eq_append_conv rest_ok_simps)
  have zero: "map_option (\<lambda>(b, _). b = 0) (next_byte (bs @ 0 # r)) = Some (bs = [])"
    using c(3) by (cases bs) (auto simp: ascii_def)
  show ?case
  proof (cases "c = sep dot")
    case True
    with step show ?thesis unfolding last by (simp add: rest_ok_sep)
  next
    case False
    with step zero not_name_char(1) show ?thesis
      unfolding last by (auto simp: rest_ok_simps simp del: of_char_eq_iff)
  qed
qed

lemma brackets:
  assumes "t = [] \<or> hd t \<noteq> x"
  shows "takeWhile (\<lambda>b. b = x) (replicate n x @ t) = replicate n x"
    and "dropWhile (\<lambda>b. b = x) (replicate n x @ t) = t"
  using assms by (induction n; cases t; simp)+

lemma descriptor_ok_iff:
  fixes bs defines "n \<equiv> length (takeWhile (\<lambda>b. b = byte CHR ''['') bs)"
    and "t \<equiv> dropWhile (\<lambda>b. b = byte CHR ''['') bs"
  shows "descriptor_ok bs \<longleftrightarrow> n \<le> 255 \<and>
    (t \<in> (\<lambda>c. [byte c]) ` set ''BCDFIJSZ'' \<or> n = 0 \<and> t = [byte CHR ''V''] \<or>
     (\<exists>c. t = byte CHR ''L'' # c @ [byte CHR '';''] \<and> class_name_ok False c))" (is "_ \<longleftrightarrow> n \<le> 255 \<and> ?P n t")
proof
  assume "descriptor_ok bs"
  then obtain m u where m: "m \<le> 255" "bs = replicate m (byte CHR ''['') @ u" "?P m u"
    unfolding descriptor_ok_def by blast
  from m(3) have "u = [] \<or> hd u \<noteq> byte CHR ''[''" by auto
  from brackets [OF this, of m] m show "n \<le> 255 \<and> ?P n t" unfolding n_def t_def by simp
next
  assume P: "n \<le> 255 \<and> ?P n t"
  have "takeWhile (\<lambda>b. b = byte CHR ''['') bs = replicate n (byte CHR ''['')"
    unfolding n_def by (rule replicate_eqI) (auto dest: set_takeWhileD)
  then have "bs = replicate n (byte CHR ''['') @ t"
    unfolding t_def by (metis takeWhile_dropWhile_id)
  with P show "descriptor_ok bs" unfolding descriptor_ok_def by blast
qed

text \<open>C36. \<open>dexIsValidTypeDescriptor\<close> accepts exactly the texts of the grammar: up to 255 brackets
  before a primitive type, a class in \<open>L\<dots>;\<close> whose names are non-empty and separated by single
  slashes, or \<open>V\<close> alone; it reads no further than the terminator. A class name is accepted
  when its names are, with the separator asked for.\<close>

theorem descriptors_are_grammar:
  assumes "ascii bs"
  shows "dexIsValidTypeDescriptor (bs @ 0 # r) = Some (descriptor_ok bs) \<and>
    (hd (bs @ [0]) \<noteq> byte CHR ''['' \<longrightarrow>
       dexIsValidClassName (bs @ 0 # r) dot = Some (class_name_ok dot bs))"
proof
  let ?b = "byte CHR ''[''"
  define n t where "n = length (takeWhile (\<lambda>b. b = ?b) bs)" and "t = dropWhile (\<lambda>b. b = ?b) bs"
  have n: "length (takeWhile (\<lambda>b. b = ?b) (bs @ 0 # r)) = n"
    and t: "dropWhile (\<lambda>b. b = ?b) (bs @ 0 # r) = t @ 0 # r"
    by (simp_all add: n_def t_def takeWhile_tail dropWhile_append3)
  have asc: "ascii t" using assms by (auto simp: ascii_def t_def dest: set_dropWhileD)
  have zero: "map_option (\<lambda>(b, _). b = 0) (next_byte (u @ 0 # r)) = Some (u = [])" if "ascii u" for u
    using that by (cases u) (auto simp: ascii_def)
  have d: "dexIsValidTypeDescriptor (bs @ 0 # r) =
      (case t @ 0 # r of [] \<Rightarrow> None | c # u \<Rightarrow>
        if 255 < n then Some False
        else if c \<in> set (map byte ''BCDFIJSZ'') then map_option (\<lambda>(b, _). b = 0) (next_byte u)
        else if c = byte CHR ''V'' then
          (if n = 0 then map_option (\<lambda>(b, _). b = 0) (next_byte u) else Some False)
        else if c = byte CHR ''L'' then class_name_loop False False True u else Some False)"
    unfolding dexIsValidTypeDescriptor_def isValidTypeDescriptorOrClassName_def n t Let_def
    by (simp add: n t split: list.splits)
  show "dexIsValidTypeDescriptor (bs @ 0 # r) = Some (descriptor_ok bs)"
  proof (cases t)
    case Nil
    then show ?thesis unfolding d descriptor_ok_iff n_def [symmetric] t_def [symmetric] by simp
  next
    case (Cons c u)
    with asc have u: "ascii u" by (simp add: ascii_def)
    show ?thesis
      unfolding d descriptor_ok_iff n_def [symmetric] t_def [symmetric]
      using zero [OF u] class_loop_descriptor [OF u, of False True r]
      by (simp add: Cons rest_ok_first not_less)
  qed
  show "hd (bs @ [0]) \<noteq> ?b \<longrightarrow> dexIsValidClassName (bs @ 0 # r) dot = Some (class_name_ok dot bs)"
    using class_loop_name [OF assms, of dot True r]
    by (cases bs) (simp_all add: dexIsValidClassName_def isValidTypeDescriptorOrClassName_def rest_ok_first)
qed

theorem descriptors_are_grammar_witness:
  "dexIsValidTypeDescriptor (map byte ''[La/b;'' @ [0]) = Some True \<and> descriptor_ok (map byte ''[La/b;'')"
proof -
  have "ascii (map byte ''[La/b;'')" by code_simp
  then have "dexIsValidTypeDescriptor (map byte ''[La/b;'' @ [0]) = Some (descriptor_ok (map byte ''[La/b;''))"
    using descriptors_are_grammar [of "map byte ''[La/b;''" "[]"] by blast
  moreover have "dexIsValidTypeDescriptor (map byte ''[La/b;'' @ [0]) = Some True" by code_simp
  ultimately show ?thesis by simp
qed

end
