(* ===== verification/SetInterface.thy ===== *)
theory SetInterface
  imports Prelude
begin

text \<open>
  The contract of the containers that hold a set (\<^verbatim>\<open>vm/BitVector.cpp\<close>, \<^verbatim>\<open>vm/PointerSet.cpp\<close>): an
  insertion and a removal that may refuse, and a membership test, in terms of the set the
  container stands for. What a client may conclude from a sequence of calls is proved once, in the
  locale; a container that can also list its elements extends it.
\<close>

datatype 'a set_op = Ins 'a | Del 'a

fun op_spec :: "'a set_op \<Rightarrow> 'a set \<Rightarrow> 'a set" where
  "op_spec (Ins x) A = insert x A"
| "op_spec (Del x) A = A - {x}"

fun run_ops :: "('s \<Rightarrow> 'a \<Rightarrow> 's option) \<Rightarrow> ('s \<Rightarrow> 'a \<Rightarrow> 's option) \<Rightarrow> 'a set_op list \<Rightarrow> 's \<Rightarrow> 's option" where
  "run_ops ins del [] s = Some s"
| "run_ops ins del (Ins x # ops) s = Option.bind (ins s x) (run_ops ins del ops)"
| "run_ops ins del (Del x # ops) s = Option.bind (del s x) (run_ops ins del ops)"

locale set_container =
  fixes abs :: "'s \<Rightarrow> 'a set" and inv :: "'s \<Rightarrow> bool"
    and mem :: "'s \<Rightarrow> 'a \<Rightarrow> bool" and ins del :: "'s \<Rightarrow> 'a \<Rightarrow> 's option"
  assumes mem_abs: "inv s \<Longrightarrow> mem s x \<longleftrightarrow> x \<in> abs s"
    and ins_abs: "inv s \<Longrightarrow> ins s x = Some s' \<Longrightarrow> inv s' \<and> abs s' = insert x (abs s)"
    and del_abs: "inv s \<Longrightarrow> del s x = Some s' \<Longrightarrow> inv s' \<and> abs s' = abs s - {x}"
begin

lemma run_abs:
  "inv s \<Longrightarrow> run_ops ins del ops s = Some s' \<Longrightarrow> inv s' \<and> abs s' = fold op_spec ops (abs s)"
proof (induction ops arbitrary: s)
  case (Cons op ops)
  then show ?case
  proof (cases op)
    case (Ins x)
    with Cons.prems obtain s1 where "ins s x = Some s1" "run_ops ins del ops s1 = Some s'"
      by (auto simp: bind_eq_Some_conv)
    with Cons.IH [of s1] ins_abs [OF Cons.prems(1)] Ins show ?thesis by auto
  next
    case (Del x)
    with Cons.prems obtain s1 where "del s x = Some s1" "run_ops ins del ops s1 = Some s'"
      by (auto simp: bind_eq_Some_conv)
    with Cons.IH [of s1] del_abs [OF Cons.prems(1)] Del show ?thesis by auto
  qed
qed simp

text \<open>What the membership test says after any sequence of calls.\<close>

lemma run_mem:
  assumes "inv s" "run_ops ins del ops s = Some s'"
  shows "mem s' x \<longleftrightarrow> x \<in> fold op_spec ops (abs s)"
  using run_abs [OF assms] mem_abs [of s' x] by simp

end

locale listed_container = set_container +
  fixes elems :: "'s \<Rightarrow> 'a list"
  assumes elems_abs: "inv s \<Longrightarrow> set (elems s) = abs s \<and> distinct (elems s)"
begin

lemma run_elems:
  assumes "inv s" "run_ops ins del ops s = Some s'"
  shows "set (elems s') = fold op_spec ops (abs s) \<and> length (elems s') = card (fold op_spec ops (abs s))"
  using run_abs [OF assms] elems_abs [of s'] by (auto simp flip: distinct_card)

end

end
