(* ===== verification/BitVector.thy ===== *)
theory BitVector
  imports SetInterface
begin

text \<open>
  \<^verbatim>\<open>jni/dalvik/vm/BitVector.cpp\<close>: an expanding bitmap as a list of 32-bit words (\<open>storageSize\<close> is the
  length of the list). It stands for the set of the bits that are set, and is an instance of
  \<open>listed_container\<close>. \<open>None\<close> is a call that aborts or leaves the storage; a reallocation succeeds.
\<close>

unbundle bit_operations_syntax

section \<open>Model\<close>

record bit_vector =
  expandable :: bool
  storage :: "u4 list"

definition bv_size :: "bit_vector \<Rightarrow> nat" where
  "bv_size bv = length (storage bv)"

definition dvmAllocBitVector :: "u4 \<Rightarrow> bool \<Rightarrow> bit_vector" where
  "dvmAllocBitVector startBits expand =
     \<lparr>expandable = expand, storage = replicate (unat (drop_bit 5 (startBits + 31))) 0\<rparr>"

text \<open>\<open>ffs(x) - 1\<close> for a word that is not 0: the lowest bit that is set.\<close>

definition lowest_bit :: "u4 \<Rightarrow> nat" where
  "lowest_bit w = length (takeWhile (\<lambda>i. \<not> bit w i) [0..<32])"

definition or_bit :: "nat \<Rightarrow> nat \<Rightarrow> bit_vector \<Rightarrow> bit_vector" where
  "or_bit word n bv = bv\<lparr>storage := (storage bv)[word := storage bv ! word OR push_bit n 1]\<rparr>"

definition first_not_full :: "u4 list \<Rightarrow> nat" where
  "first_not_full ws = length (takeWhile (\<lambda>w. w = 0xffffffff) ws)"

definition kBitVectorGrowth :: nat where "kBitVectorGrowth = 4"

lemma full_words: "first_not_full ws < length ws \<longleftrightarrow> (\<exists>w \<in> set ws. w \<noteq> 0xffffffff)"
  by (induction ws) (auto simp: first_not_full_def)

lemma first_not_full_append:
  "\<forall>w \<in> set ws. w = 0xffffffff \<Longrightarrow> first_not_full (ws @ us) = length ws + first_not_full us"
  by (induction ws) (auto simp: first_not_full_def)

function dvmAllocBit :: "bit_vector \<Rightarrow> int \<times> bit_vector" where
  "dvmAllocBit bv =
     (let word = first_not_full (storage bv) in
      if word < bv_size bv then
        let n = lowest_bit (NOT (storage bv ! word)) in (int (word * 32 + n), or_bit word n bv)
      else if \<not> expandable bv then (-1, bv)
      else dvmAllocBit (bv\<lparr>storage := storage bv @ replicate kBitVectorGrowth 0\<rparr>))"
  by pat_completeness auto
termination
proof (relation "measure (\<lambda>bv. if first_not_full (storage bv) < bv_size bv then 0 else 1)", goal_cases)
  case (2 bv word)
  then have "\<forall>w \<in> set (storage bv). w = 0xffffffff" using full_words [of "storage bv"] by (auto simp: bv_size_def)
  moreover have "first_not_full (replicate kBitVectorGrowth 0) = 0" by code_simp
  ultimately have "first_not_full (storage bv @ replicate kBitVectorGrowth 0) = length (storage bv)"
    by (simp add: first_not_full_append)
  with 2 show ?case by (simp add: bv_size_def kBitVectorGrowth_def)
qed simp

declare dvmAllocBit.simps [simp del]

text \<open>\<open>storageSize * sizeof(u4) * 8\<close> and the new size are computed in 32 bits.\<close>

definition dvmSetBit :: "bit_vector \<Rightarrow> u4 \<Rightarrow> bit_vector option" where
  "dvmSetBit bv num =
     (if num \<ge> of_nat (bv_size bv) * 4 * 8 then
        if \<not> expandable bv then None
        else
          let newSize = unat (drop_bit 5 (num + 1 + 31)) in
          if newSize \<le> unat num div 32 then None
          else Some (or_bit (unat num div 32) (unat num mod 32)
            (bv\<lparr>storage := storage bv @ replicate (newSize - bv_size bv) 0\<rparr>))
      else Some (or_bit (unat num div 32) (unat num mod 32) bv))"

definition in_range :: "bit_vector \<Rightarrow> u4 \<Rightarrow> bool" where
  "in_range bv num \<longleftrightarrow> unat num div 32 < bv_size bv"

definition dvmClearBit :: "bit_vector \<Rightarrow> u4 \<Rightarrow> bit_vector option" where
  "dvmClearBit bv num =
     (if in_range bv num then
        Some (bv\<lparr>storage := (storage bv)[unat num div 32 :=
          storage bv ! (unat num div 32) AND NOT (push_bit (unat num mod 32) 1)]\<rparr>)
      else None)"

definition dvmClearAllBits :: "bit_vector \<Rightarrow> bit_vector" where
  "dvmClearAllBits bv = bv\<lparr>storage := replicate (bv_size bv) 0\<rparr>"

definition dvmSetInitialBits :: "bit_vector \<Rightarrow> nat \<Rightarrow> bit_vector option" where
  "dvmSetInitialBits bv numBits =
     (if (numBits + 31) div 32 \<le> bv_size bv then
        let full = numBits div 32; rem = numBits mod 32;
            ws = replicate full (- 1) @ drop full (storage bv) in
        Some (bv\<lparr>storage := if rem \<noteq> 0 then ws[full := push_bit rem 1 - 1] else ws\<rparr>)
      else None)"

definition dvmIsBitSet :: "bit_vector \<Rightarrow> u4 \<Rightarrow> bool option" where
  "dvmIsBitSet bv num =
     (if in_range bv num then
        Some (storage bv ! (unat num div 32) AND push_bit (unat num mod 32) 1 \<noteq> 0)
      else None)"

lemma clear_lowest_less: "w \<noteq> 0 \<Longrightarrow> unat (w AND (w - 1)) < unat (w :: u4)"
proof -
  assume "w \<noteq> 0"
  then have "unat (w - 1) < unat w" by (simp add: unat_minus_one unat_gt_0)
  moreover have "w AND (w - 1) \<le> w - 1" by (rule word_and_le1)
  ultimately show ?thesis by (simp add: word_le_nat_alt)
qed

function count_ones :: "u4 \<Rightarrow> nat \<Rightarrow> nat" where
  "count_ones val count = (if val \<noteq> 0 then count_ones (val AND (val - 1)) (count + 1) else count)"
  by pat_completeness auto
termination
  by (relation "measure (\<lambda>(val, c). unat val)") (simp_all add: clear_lowest_less)

declare count_ones.simps [simp del]

fun count_words :: "u4 list \<Rightarrow> nat \<Rightarrow> nat" where
  "count_words [] count = count"
| "count_words (val # ws) count =
     count_words ws
       (if val \<noteq> 0 then (if val = 0xffffffff then count + 32 else count_ones val count) else count)"

definition dvmCountSetBits :: "bit_vector \<Rightarrow> nat" where
  "dvmCountSetBits bv = count_words (storage bv) 0"

definition dvmCopyBitVector :: "bit_vector \<Rightarrow> bit_vector \<Rightarrow> bit_vector option" where
  "dvmCopyBitVector dest src =
     (if bv_size dest \<noteq> bv_size src then None else Some (dest\<lparr>storage := storage src\<rparr>))"

definition same_shape :: "bit_vector \<Rightarrow> bit_vector \<Rightarrow> bool" where
  "same_shape a b \<longleftrightarrow> bv_size a = bv_size b \<and> expandable a = expandable b"

definition dvmIntersectBitVectors :: "bit_vector \<Rightarrow> bit_vector \<Rightarrow> bit_vector \<Rightarrow> bool \<times> bit_vector" where
  "dvmIntersectBitVectors dest src1 src2 =
     (if \<not> same_shape dest src1 \<or> \<not> same_shape dest src2 then (False, dest)
      else (True, dest\<lparr>storage := map2 (AND) (storage src1) (storage src2)\<rparr>))"

definition dvmUnifyBitVectors :: "bit_vector \<Rightarrow> bit_vector \<Rightarrow> bit_vector \<Rightarrow> bool \<times> bit_vector" where
  "dvmUnifyBitVectors dest src1 src2 =
     (if \<not> same_shape dest src1 \<or> \<not> same_shape dest src2 then (False, dest)
      else (True, dest\<lparr>storage := map2 (OR) (storage src1) (storage src2)\<rparr>))"

definition dvmCompareBitVectors :: "bit_vector \<Rightarrow> bit_vector \<Rightarrow> bool" where
  "dvmCompareBitVectors src1 src2 =
     (if \<not> same_shape src1 src2 then True
      else list_ex (\<lambda>(a, b). a \<noteq> b) (zip (storage src1) (storage src2)))"

fun merge_words :: "u4 list \<Rightarrow> u4 list \<Rightarrow> bool \<times> u4 list" where
  "merge_words (d # ds) (s # ss) =
     (let merged = s OR d; (changed, ws) = merge_words ds ss in (d \<noteq> merged \<or> changed, merged # ws))"
| "merge_words ds _ = (False, ds)"

definition dvmCheckMergeBitVectors :: "bit_vector \<Rightarrow> bit_vector \<Rightarrow> (bool \<times> bit_vector) option" where
  "dvmCheckMergeBitVectors dst src =
     (if bv_size dst \<noteq> bv_size src then None
      else case merge_words (storage dst) (storage src) of (changed, ws) \<Rightarrow>
        Some (changed, dst\<lparr>storage := ws\<rparr>))"

record bit_iterator =
  pBits :: bit_vector
  bi_idx :: nat
  bitSize :: nat

definition dvmBitVectorIteratorInit :: "bit_vector \<Rightarrow> bit_iterator" where
  "dvmBitVectorIteratorInit bv = \<lparr>pBits = bv, bi_idx = 0, bitSize = bv_size bv * 32\<rparr>"

function next_set :: "bit_vector \<Rightarrow> nat \<Rightarrow> nat \<Rightarrow> nat option" where
  "next_set bv bits bitIndex =
     (if bitIndex < bits then
        if storage bv ! (bitIndex div 32) AND push_bit (bitIndex mod 32) 1 \<noteq> 0 then Some bitIndex
        else next_set bv bits (bitIndex + 1)
      else None)"
  by pat_completeness auto
termination
  by (relation "measure (\<lambda>(bv, bits, i). bits - i)") auto

declare next_set.simps [simp del]

definition dvmBitVectorIteratorNext :: "bit_iterator \<Rightarrow> int \<times> bit_iterator" where
  "dvmBitVectorIteratorNext it =
     (case next_set (pBits it) (bitSize it) (bi_idx it) of
        None \<Rightarrow> (-1, it)
      | Some i \<Rightarrow> (int i, it\<lparr>bi_idx := i + 1\<rparr>))"

text \<open>Calling the iterator until it returns -1.\<close>

lemma next_set_SomeD: "next_set bv bits i = Some j \<Longrightarrow> i \<le> j \<and> j < bits"
proof (induction bv bits i rule: next_set.induct)
  case (1 bv bits i)
  then show ?case by (subst (asm) (2) next_set.simps) (fastforce split: if_splits)
qed

function all_set :: "bit_iterator \<Rightarrow> nat list" where
  "all_set it =
     (case dvmBitVectorIteratorNext it of (i, it') \<Rightarrow> if i < 0 then [] else nat i # all_set it')"
  by pat_completeness auto
termination
  by (relation "measure (\<lambda>it. bitSize it - bi_idx it)")
     (auto simp: dvmBitVectorIteratorNext_def split: option.splits dest: next_set_SomeD)

declare all_set.simps [simp del]

section \<open>The set of bits\<close>

definition has_bit :: "bit_vector \<Rightarrow> nat \<Rightarrow> bool" where
  "has_bit bv n \<longleftrightarrow> n div 32 < bv_size bv \<and> bit (storage bv ! (n div 32)) (n mod 32)"

definition bv_set :: "bit_vector \<Rightarrow> u4 set" where
  "bv_set bv = {num. has_bit bv (unat num)}"

definition bv_inv :: "bit_vector \<Rightarrow> bool" where
  "bv_inv bv \<longleftrightarrow> bv_size bv < 2 ^ 27"

lemma and_push_bit: "(w AND push_bit n 1 \<noteq> 0) = bit (w :: u4) n"
  by (simp add: bit_iff_and_push_bit_not_eq_0)

lemma and_power: "(w AND 2 ^ n \<noteq> 0) = bit (w :: u4) n"
  using and_push_bit [of w n] by simp

lemma div_mod_32: "n < 32 \<Longrightarrow> m div 32 = w \<and> m mod 32 = n \<longleftrightarrow> m = w * 32 + (n :: nat)"
  by auto

lemma has_bit_or_bit:
  assumes "w < bv_size bv" "n < 32"
  shows "has_bit (or_bit w n bv) m \<longleftrightarrow> m = w * 32 + n \<or> has_bit bv m"
  using assms unfolding div_mod_32 [OF assms(2), symmetric]
  by (cases "m div 32 = w") (auto simp: has_bit_def or_bit_def bv_size_def bit_simps)

lemma has_bit_extend: "has_bit (bv\<lparr>storage := storage bv @ replicate k 0\<rparr>) m \<longleftrightarrow> has_bit bv m"
  by (auto simp: has_bit_def bv_size_def nth_append)

lemma bv_size_simps [simp]:
  "bv_size (or_bit w n bv) = bv_size bv" "bv_size (bv\<lparr>storage := ws\<rparr>) = length ws"
  by (simp_all add: bv_size_def or_bit_def)

lemma is_bit_set: "dvmIsBitSet bv num = Some True \<longleftrightarrow> num \<in> bv_set bv"
  by (simp add: dvmIsBitSet_def in_range_def bv_set_def has_bit_def and_power)

lemma limit_word:
  assumes "bv_inv bv"
  shows "(num :: u4) \<ge> of_nat (bv_size bv) * 4 * 8 \<longleftrightarrow> bv_size bv \<le> unat num div 32"
proof -
  have "unat (of_nat (bv_size bv) * 4 * 8 :: u4) = bv_size bv * 32"
    using assms by (simp add: bv_inv_def unat_word_ariths unat_of_nat)
  then have "num \<ge> of_nat (bv_size bv) * 4 * 8 \<longleftrightarrow> bv_size bv * 32 \<le> unat num"
    unfolding word_le_nat_alt by (simp only:)
  also have "\<dots> \<longleftrightarrow> bv_size bv \<le> unat num div 32" by linarith
  finally show ?thesis .
qed

lemma new_size:
  "unat (drop_bit 5 (num + 1 + 31 :: u4)) =
     (if unat num < 2 ^ 32 - 32 then unat num div 32 + 1 else 0)"
proof -
  have "num + 1 + 31 = num + 32" by simp
  then have "unat (num + 1 + 31) = (unat num + 32) mod 2 ^ 32"
    using unat_word_ariths(1) [of num 32] by (simp only:) simp
  moreover have "(unat num + 32) mod 2 ^ 32 = unat num + 32 - 2 ^ 32" if "\<not> unat num < 2 ^ 32 - 32"
    using that unat_u4_less [of num] by (intro mod_nat_eqI) auto
  ultimately show ?thesis
    using unat_u4_less [of num] by (auto simp: drop_bit_eq_div unat_div)
qed

lemma dvmSetBit_eq:
  assumes "bv_inv bv"
  shows "dvmSetBit bv num =
    (if bv_size bv \<le> unat num div 32 then
       if expandable bv \<and> unat num < 2 ^ 32 - 32
       then Some (or_bit (unat num div 32) (unat num mod 32)
         (bv\<lparr>storage := storage bv @ replicate (unat num div 32 + 1 - bv_size bv) 0\<rparr>))
       else None
     else Some (or_bit (unat num div 32) (unat num mod 32) bv))"
  unfolding dvmSetBit_def limit_word [OF assms] new_size Let_def by auto

lemma same_position: "unat m div 32 = unat k div 32 \<Longrightarrow> unat m mod 32 = unat k mod 32 \<Longrightarrow> m = (k::u4)"
  unfolding word_unat_eq_iff by (metis div_mult_mod_eq)

lemma or_bit_abs:
  assumes "unat num div 32 < bv_size bv"
  shows "bv_set (or_bit (unat num div 32) (unat num mod 32) bv) = insert num (bv_set bv)"
  using has_bit_or_bit [OF assms, of "unat num mod 32"]
  by (auto simp: bv_set_def word_unat_eq_iff)

lemma set_bit_abs:
  assumes "bv_inv bv" "dvmSetBit bv num = Some bv'"
  shows "bv_inv bv' \<and> bv_set bv' = insert num (bv_set bv)"
proof (cases "bv_size bv \<le> unat num div 32")
  case False
  with assms or_bit_abs [of num bv] show ?thesis by (auto simp: dvmSetBit_eq bv_inv_def)
next
  case True
  let ?e = "bv\<lparr>storage := storage bv @ replicate (unat num div 32 + 1 - bv_size bv) 0\<rparr>"
  have bv': "bv' = or_bit (unat num div 32) (unat num mod 32) ?e" "unat num < 2 ^ 32 - 32"
    using True assms by (auto simp: dvmSetBit_eq split: if_splits)
  have len: "bv_size ?e = unat num div 32 + 1" using True by (simp add: bv_size_def)
  have "bv_set ?e = bv_set bv" by (simp add: bv_set_def has_bit_extend)
  with or_bit_abs [of num ?e] len bv' show ?thesis by (auto simp: bv_inv_def)
qed

lemma clear_bit_abs:
  assumes "bv_inv bv" "dvmClearBit bv num = Some bv'"
  shows "bv_inv bv' \<and> bv_set bv' = bv_set bv - {num}"
proof -
  let ?w = "unat num div 32"
  have w: "?w < bv_size bv" and bv': "bv' = bv\<lparr>storage := (storage bv)[?w := storage bv ! ?w AND NOT (push_bit (unat num mod 32) 1)]\<rparr>"
    using assms(2) by (auto simp: dvmClearBit_def in_range_def split: if_splits)
  have "has_bit bv' (unat m) \<longleftrightarrow> has_bit bv (unat m) \<and> m \<noteq> num" for m
    using w same_position [of m num] unfolding bv'
    by (cases "unat m div 32 = ?w") (auto simp: has_bit_def bv_size_def bit_simps)
  then show ?thesis using assms(1) bv' by (auto simp: bv_set_def bv_inv_def bv_size_def)
qed

section \<open>Iterating and counting\<close>

lemma next_set_Some:
  "next_set bv bits i = Some j \<longleftrightarrow>
     i \<le> j \<and> j < bits \<and> bit (storage bv ! (j div 32)) (j mod 32) \<and>
     (\<forall>k. i \<le> k \<and> k < j \<longrightarrow> \<not> bit (storage bv ! (k div 32)) (k mod 32))"
proof (induction bv bits i rule: next_set.induct)
  case (1 bv bits i)
  show ?case
  proof (cases "i < bits \<and> \<not> bit (storage bv ! (i div 32)) (i mod 32)")
    case True
    then have "next_set bv bits i = next_set bv bits (i + 1)"
      by (simp add: next_set.simps [of bv bits i] and_power)
    with 1 True show ?thesis by (auto simp: and_power Suc_le_eq) (metis le_less)+
  next
    case False
    then show ?thesis by (subst next_set.simps) (auto simp: and_power dest: le_neq_implies_less)
  qed
qed

lemma next_set_None:
  "next_set bv bits i = None \<longleftrightarrow> (\<forall>k. i \<le> k \<and> k < bits \<longrightarrow> \<not> bit (storage bv ! (k div 32)) (k mod 32))"
proof (induction bv bits i rule: next_set.induct)
  case (1 bv bits i)
  show ?case
  proof (cases "i < bits \<and> \<not> bit (storage bv ! (i div 32)) (i mod 32)")
    case True
    then have "next_set bv bits i = next_set bv bits (i + 1)"
      by (simp add: next_set.simps [of bv bits i] and_power)
    with 1 True show ?thesis by (auto simp: and_power Suc_le_eq) (metis le_less)+
  next
    case False
    then show ?thesis by (subst next_set.simps) (auto simp: and_power)
  qed
qed

lemma all_set_list:
  "all_set \<lparr>pBits = bv, bi_idx = i, bitSize = bits\<rparr> = filter (\<lambda>k. bit (storage bv ! (k div 32)) (k mod 32)) [i..<bits]"
proof (induction "bits - i" arbitrary: i rule: less_induct)
  case less
  show ?case
  proof (cases "next_set bv bits i")
    case None
    moreover from None have "filter (\<lambda>k. bit (storage bv ! (k div 32)) (k mod 32)) [i..<bits] = []"
      by (auto simp: next_set_None filter_empty_conv)
    ultimately show ?thesis by (subst all_set.simps) (simp add: dvmBitVectorIteratorNext_def)
  next
    case (Some j)
    note j = this [unfolded next_set_Some]
    have "[i..<bits] = [i..<j] @ j # [Suc j..<bits]"
      using j by (metis le_add_diff_inverse less_imp_le_nat upt_add_eq_append upt_conv_Cons)
    moreover have "filter (\<lambda>k. bit (storage bv ! (k div 32)) (k mod 32)) [i..<j] = []"
      using j by (auto simp: filter_empty_conv)
    moreover have "bits - Suc j < bits - i" using j by linarith
    note less [OF this]
    ultimately show ?thesis
      using Some j by (subst all_set.simps) (simp add: dvmBitVectorIteratorNext_def)
  qed
qed

definition bv_elems :: "bit_vector \<Rightarrow> u4 list" where
  "bv_elems bv = map of_nat (all_set (dvmBitVectorIteratorInit bv))"

lemma all_set_init: "all_set (dvmBitVectorIteratorInit bv) = filter (has_bit bv) [0..<bv_size bv * 32]"
  unfolding dvmBitVectorIteratorInit_def all_set_list
  by (rule filter_cong) (auto simp: has_bit_def)

interpretation bits: listed_container bv_set bv_inv "\<lambda>bv num. dvmIsBitSet bv num = Some True"
  dvmSetBit dvmClearBit bv_elems
proof unfold_locales
  fix bv assume inv: "bv_inv bv"
  then have lt: "k < 2 ^ 32" if "k < bv_size bv * 32" for k using that by (simp add: bv_inv_def)
  have "inj_on (of_nat :: nat \<Rightarrow> u4) {0..<bv_size bv * 32}"
    by (rule inj_onI) (metis atLeastLessThan_iff lt unat_of_nat_u4)
  then have "distinct (bv_elems bv)"
    unfolding bv_elems_def all_set_init distinct_map by (auto intro: inj_on_subset)
  moreover have "set (bv_elems bv) = bv_set bv"
  proof -
    have "num \<in> (\<lambda>k. of_nat k :: u4) ` {k. k < bv_size bv * 32 \<and> has_bit bv k}" if "has_bit bv (unat num)" for num
      using that by (intro image_eqI [of _ _ "unat num"]) (auto simp: has_bit_def)
    then show ?thesis
      unfolding bv_elems_def all_set_init bv_set_def using lt by (auto simp: unat_of_nat_u4)
  qed
  ultimately show "set (bv_elems bv) = bv_set bv \<and> distinct (bv_elems bv)" by simp
qed (rule is_bit_set set_bit_abs clear_bit_abs; assumption)+

text \<open>\<open>val & (val - 1)\<close> clears the lowest bit of \<open>val\<close>.\<close>

lemma clear_lowest:
  assumes "w \<noteq> (0 :: u4)"
  obtains k where "bit w k" "\<And>i. bit (w AND (w - 1)) i \<longleftrightarrow> bit w i \<and> i \<noteq> k"
proof -
  define k where "k = (LEAST i. bit w i)"
  have "\<exists>i. bit w i" using assms by (auto simp: bit_eq_iff)
  then have k: "bit w k" "\<And>i. i < k \<Longrightarrow> \<not> bit w i"
    unfolding k_def by (auto intro: LeastI_ex dest: not_less_Least)
  define v where "v = drop_bit k w"
  have "k \<le> i" if "bit w i" for i using k(2) that not_less by blast
  then have w: "w = push_bit k v" unfolding v_def by (auto simp: bit_eq_iff bit_simps)
  have "odd v" using k(1) by (simp add: v_def bit_iff_odd drop_bit_eq_div)
  then have "v mod 2 = 1" by (simp add: odd_iff_mod_2_eq_one)
  then have v1: "v - 1 = unset_bit 0 v"
    unfolding unset_bit_0 by (metis add_diff_cancel_right' mult_div_mod_eq)
  have "w - 1 = push_bit k (v - 1) + mask k" by (simp add: w push_bit_eq_mult mask_eq_exp_minus_1 algebra_simps)
  also have "\<dots> = push_bit k (unset_bit 0 v) OR mask k"
    unfolding v1 by (rule disjunctive_add_eq_or) (auto simp: bit_eq_iff bit_simps)
  finally have "bit (w AND (w - 1)) i \<longleftrightarrow> bit w i \<and> i \<noteq> k" for i
    using k(1) by (auto simp: w bit_simps)
  with k(1) that show thesis by blast
qed

definition ones :: "u4 \<Rightarrow> nat" where
  "ones w = card {i. bit w i}"

lemma ones_simps: "ones 0 = 0" "ones 0xffffffff = 32"
proof -
  have "{i. bit (- 1 :: u4) i} = {..<32}" by (auto simp: bit_simps)
  moreover have "(0xffffffff :: u4) = - 1" by simp
  ultimately show "ones 0xffffffff = 32" by (simp only: ones_def card_lessThan)
  have "{i. bit (0 :: u4) i} = {}" by simp
  then show "ones 0 = 0" by (simp only: ones_def card.empty)
qed

lemma count_ones_card: "count_ones w c = c + ones w"
proof (induction w c rule: count_ones.induct)
  case (1 w c)
  show ?case
  proof (cases "w = 0")
    case False
    then obtain k where k: "bit w k" "\<And>i. bit (w AND (w - 1)) i \<longleftrightarrow> bit w i \<and> i \<noteq> k"
      using clear_lowest by blast
    have fin: "finite {i. bit w i}" by (rule finite_subset [of _ "{..<32}"]) (auto dest: bit_imp_le_length)
    have "{i. bit (w AND (w - 1)) i} = {i. bit w i} - {k}" using k(2) by auto
    moreover have "Suc (card ({i. bit w i} - {k})) = card {i. bit w i}"
      using k(1) fin by (intro card_Suc_Diff1) auto
    ultimately show ?thesis using 1 [OF False] False by (subst count_ones.simps) (simp add: ones_def)
  qed (simp add: count_ones.simps ones_simps)
qed

lemma count_words_sum: "count_words ws c = c + (\<Sum>w \<leftarrow> ws. ones w)"
  by (induction ws arbitrary: c) (auto simp: count_ones_card ones_simps)

lemma filter_words:
  "length (filter (\<lambda>k. bit (ws ! (k div 32)) (k mod 32)) [0..<length ws * 32]) = (\<Sum>w \<leftarrow> ws. ones w)"
proof (induction ws rule: rev_induct)
  case (snoc w ws)
  have "[0..<length (ws @ [w]) * 32] = [0..<length ws * 32] @ [length ws * 32..<length ws * 32 + 32]"
    using upt_add_eq_append [of 0 "length ws * 32" 32] by (simp add: add.commute)
  moreover have "filter (\<lambda>k. bit ((ws @ [w]) ! (k div 32)) (k mod 32)) [0..<length ws * 32] =
      filter (\<lambda>k. bit (ws ! (k div 32)) (k mod 32)) [0..<length ws * 32]"
    by (rule filter_cong) (auto simp: nth_append div_less_iff_less_mult)
  moreover have "length (filter (\<lambda>k. bit ((ws @ [w]) ! (k div 32)) (k mod 32)) [length ws * 32..<length ws * 32 + 32]) = ones w"
  proof -
    have "map (\<lambda>k. k + length ws * 32) [0..<32] = [length ws * 32..<length ws * 32 + 32]"
      by (simp add: map_add_upt add.commute)
    then have "length (filter (\<lambda>k. bit ((ws @ [w]) ! (k div 32)) (k mod 32)) [length ws * 32..<length ws * 32 + 32]) =
        length (filter (bit w) [0..<32])"
      by (simp only: filter_map length_map comp_def flip: \<open>_ = [length ws * 32..<_]\<close>)
         (rule arg_cong [of _ _ length], rule filter_cong, simp_all)
    also have "\<dots> = card (set (filter (bit w) [0..<32]))" by (rule distinct_card [symmetric]) simp
    also have "set (filter (bit w) [0..<32]) = {i. bit w i}" by (auto dest: bit_imp_le_length)
    finally show ?thesis by (simp add: ones_def)
  qed
  ultimately show ?case using snoc by simp
qed simp

lemma count_is_length: "dvmCountSetBits bv = length (all_set (dvmBitVectorIteratorInit bv))"
  by (simp add: dvmCountSetBits_def count_words_sum dvmBitVectorIteratorInit_def all_set_list filter_words bv_size_def)

section \<open>Allocation and merging\<close>

lemma lowest_bit_spec:
  assumes "w \<noteq> 0"
  shows "lowest_bit w < 32" "bit w (lowest_bit w)" "i < lowest_bit w \<Longrightarrow> \<not> bit w i"
proof -
  obtain j where "bit w j" "j < 32"
    using assms by (auto simp: bit_eq_iff dest: bit_imp_le_length)
  then have len: "length (takeWhile (\<lambda>i. \<not> bit w i) [0..<32]) < length [0..<32]"
    using takeWhile_eq_all_conv [of "\<lambda>i. \<not> bit w i" "[0..<32]"]
    by (metis atLeastLessThan_iff le0 length_takeWhile_le nat_less_le set_upt takeWhile_eq_take take_all_iff)
  then show "lowest_bit w < 32" by (simp add: lowest_bit_def)
  from nth_length_takeWhile [OF len] this show "bit w (lowest_bit w)" by (simp add: lowest_bit_def)
  show "\<not> bit w i" if "i < lowest_bit w"
    using that takeWhile_nth [of i "\<lambda>i. \<not> bit w i" "[0..<32]"] len
      nth_mem [of i "takeWhile (\<lambda>i. \<not> bit w i) [0..<32]"]
    by (auto simp: lowest_bit_def dest: set_takeWhileD)
qed

lemma first_not_full_spec:
  assumes "first_not_full ws < length ws"
  shows "ws ! first_not_full ws \<noteq> 0xffffffff" "i < first_not_full ws \<Longrightarrow> ws ! i = 0xffffffff"
proof -
  show "ws ! first_not_full ws \<noteq> 0xffffffff"
    using nth_length_takeWhile [of "\<lambda>w. w = 0xffffffff" ws] assms by (simp add: first_not_full_def)
  show "ws ! i = 0xffffffff" if "i < first_not_full ws"
    using that takeWhile_nth [of i "\<lambda>w. w = 0xffffffff" ws] nth_mem [of i "takeWhile (\<lambda>w. w = 0xffffffff) ws"]
    by (auto simp: first_not_full_def dest: set_takeWhileD)
qed

lemma alloc_in_space:
  assumes "first_not_full (storage bv) < bv_size bv"
  obtains n where "dvmAllocBit bv = (int n, or_bit (n div 32) (n mod 32) bv)"
    "n div 32 < bv_size bv" "\<not> has_bit bv n" "\<And>m. m < n \<Longrightarrow> has_bit bv m"
proof -
  define w b where "w = first_not_full (storage bv)" and "b = lowest_bit (NOT (storage bv ! w))"
  have w: "w < bv_size bv" "storage bv ! w \<noteq> 0xffffffff" "\<And>i. i < w \<Longrightarrow> storage bv ! i = 0xffffffff"
    using assms first_not_full_spec [of "storage bv"] by (auto simp: w_def bv_size_def)
  have full: "(0xffffffff :: u4) = - 1" by simp
  have "NOT (storage bv ! w) \<noteq> 0"
  proof
    assume "NOT (storage bv ! w) = 0"
    then have "storage bv ! w = NOT 0" by (metis bit.double_compl)
    with w(2) full show False by simp
  qed
  note b = lowest_bit_spec [OF this, folded b_def]
  define n where "n = w * 32 + b"
  have n: "n div 32 = w" "n mod 32 = b" using b(1) by (simp_all add: n_def)
  have "dvmAllocBit bv = (int n, or_bit (n div 32) (n mod 32) bv)"
    using w(1) unfolding n by (subst dvmAllocBit.simps) (simp add: Let_def n_def w_def b_def)
  moreover have "\<not> has_bit bv n" using b(2) by (simp add: has_bit_def n bit_simps)
  moreover have "has_bit bv m" if "m < n" for m
  proof -
    have "m div 32 < w \<or> m div 32 = w \<and> m mod 32 < b"
      using that b(1) unfolding n_def by (metis (no_types, opaque_lifting) add.commute add_less_cancel_right div_le_mono div_mult_mod_eq le_neq_implies_less n(1) n_def less_imp_le)
    then show ?thesis
    proof
      assume "m div 32 < w"
      then show ?thesis using w(1) w(3) [of "m div 32"] by (simp add: has_bit_def full bit_simps)
    next
      assume m: "m div 32 = w \<and> m mod 32 < b"
      then show ?thesis using w(1) b(3) [of "m mod 32"] by (simp add: has_bit_def bit_simps)
    qed
  qed
  ultimately show thesis using that w(1) n(1) by metis
qed

lemma merge_words_map2:
  "length ds = length ss \<Longrightarrow> merge_words ds ss = (ds \<noteq> map2 (OR) ds ss, map2 (OR) ds ss)"
  by (induction ds ss rule: merge_words.induct) (auto simp: Let_def or.commute)

lemma has_bit_map2:
  assumes "bv_size a = bv_size b"
  shows "has_bit (c\<lparr>storage := map2 (OR) (storage a) (storage b)\<rparr>) n \<longleftrightarrow> has_bit a n \<or> has_bit b n"
    and "has_bit (c\<lparr>storage := map2 (AND) (storage a) (storage b)\<rparr>) n \<longleftrightarrow> has_bit a n \<and> has_bit b n"
  using assms by (auto simp: has_bit_def bv_size_def bit_simps)

lemma storage_eqI:
  assumes "bv_inv a" "bv_size a = bv_size b" "bv_set a = bv_set b"
  shows "storage a = storage b"
proof (rule nth_equalityI)
  show "length (storage a) = length (storage b)" using assms(2) by (simp add: bv_size_def)
  fix i assume i: "i < length (storage a)"
  show "storage a ! i = storage b ! i"
  proof (rule bit_word_eqI)
    fix k assume "k < LENGTH(32)"
    then have k: "(i * 32 + k) div 32 = i" "(i * 32 + k) mod 32 = k" "i * 32 + k < 2 ^ 32"
      using i assms(1) by (simp_all add: bv_inv_def bv_size_def)
    then have "has_bit a (i * 32 + k) \<longleftrightarrow> has_bit b (i * 32 + k)"
      using assms(3) unat_of_nat_u4 [OF k(3)] by (auto simp: bv_set_def set_eq_iff) (metis)+
    with k i assms(2) show "bit (storage a ! i) k \<longleftrightarrow> bit (storage b ! i) k"
      by (simp add: has_bit_def bv_size_def)
  qed
qed

section \<open>Properties\<close>

text \<open>After any sequence of set and clear operations that the bit vector accepts, the
  membership test, the iterator and the count all agree with the mathematical set that the
  operations describe.\<close>

theorem bit_vector_is_set:
  assumes "bv_inv bv" "run_ops dvmSetBit dvmClearBit ops bv = Some bv'"
  shows "(dvmIsBitSet bv' num = Some True \<longleftrightarrow> num \<in> fold op_spec ops (bv_set bv)) \<and>
    set (bv_elems bv') = fold op_spec ops (bv_set bv) \<and>
    dvmCountSetBits bv' = card (fold op_spec ops (bv_set bv))"
  using bits.run_mem [OF assms, of num] bits.run_elems [OF assms]
  by (simp add: count_is_length bv_elems_def)

theorem bit_vector_is_set_witness:
  "dvmCountSetBits (the (run_ops dvmSetBit dvmClearBit [Ins 3, Ins 70, Del 3] (dvmAllocBitVector 8 True))) = 1"
proof -
  have r: "run_ops dvmSetBit dvmClearBit [Ins 3, Ins 70, Del 3] (dvmAllocBitVector 8 True) =
    Some \<lparr>expandable = True, storage = [0, 0, 64]\<rparr>" by code_simp
  have "bv_inv (dvmAllocBitVector 8 True)"
    by (simp add: bv_inv_def bv_size_def dvmAllocBitVector_def drop_bit_eq_div)
  moreover have "bv_set (dvmAllocBitVector 8 True) = {}"
    by (auto simp: bv_set_def has_bit_def bv_size_def dvmAllocBitVector_def)
  ultimately show ?thesis using bit_vector_is_set [OF _ r] r by (simp add: insert_Diff_if)
qed

text \<open>Setting a bit succeeds in every vector that is large enough or may grow, up to the last 32
  numbers, for which the computation of the new size wraps around.\<close>

theorem set_bit_succeeds:
  assumes "bv_inv bv"
  shows "dvmSetBit bv num \<noteq> None \<longleftrightarrow>
    unat num div 32 < bv_size bv \<or> expandable bv \<and> unat num < 2 ^ 32 - 32"
  using dvmSetBit_eq [OF assms, of num] by auto

theorem set_bit_succeeds_witness:
  "dvmSetBit \<lparr>expandable = True, storage = []\<rparr> 0xffffffe0 = None"
proof -
  have "bv_inv \<lparr>expandable = True, storage = []\<rparr>" by (simp add: bv_inv_def bv_size_def)
  from set_bit_succeeds [OF this, of "0xffffffe0"] show ?thesis by (simp add: bv_size_def)
qed

text \<open>\<open>dvmAllocBit\<close> returns the lowest bit that is free and sets it and no other; it fails only
  when every bit is taken and the vector may not grow.\<close>

theorem alloc_bit_lowest_free:
  assumes "dvmAllocBit bv = (r, bv')"
  shows "if r < 0 then \<not> expandable bv \<and> (\<forall>n < bv_size bv * 32. has_bit bv n) \<and> bv' = bv
    else \<not> has_bit bv (nat r) \<and> (\<forall>m < nat r. has_bit bv m) \<and>
      (\<forall>m. has_bit bv' m \<longleftrightarrow> m = nat r \<or> has_bit bv m)"
proof (cases "first_not_full (storage bv) < bv_size bv")
  case True
  then show ?thesis
  proof (rule alloc_in_space)
    fix n assume "dvmAllocBit bv = (int n, or_bit (n div 32) (n mod 32) bv)" "n div 32 < bv_size bv"
      "\<not> has_bit bv n" "\<And>m. m < n \<Longrightarrow> has_bit bv m"
    with assms show ?thesis by (auto simp: has_bit_or_bit)
  qed
next
  case False
  then have full: "\<forall>w \<in> set (storage bv). w = - 1" using full_words [of "storage bv"] by (auto simp: bv_size_def)
  have all: "has_bit bv n" if "n < bv_size bv * 32" for n
  proof -
    have "n div 32 < length (storage bv)" using that by (simp add: bv_size_def div_less_iff_less_mult)
    moreover from full nth_mem [OF this] have "storage bv ! (n div 32) = - 1" by blast
    ultimately show ?thesis by (simp add: has_bit_def bv_size_def bit_simps)
  qed
  show ?thesis
  proof (cases "expandable bv")
    case False
    with assms \<open>\<not> first_not_full _ < _\<close> all show ?thesis by (subst (asm) dvmAllocBit.simps) auto
  next
    case True
    let ?e = "bv\<lparr>storage := storage bv @ replicate kBitVectorGrowth 0\<rparr>"
    have eq: "dvmAllocBit bv = dvmAllocBit ?e" using True False by (subst dvmAllocBit.simps) simp
    have "first_not_full (storage ?e) < bv_size ?e"
      using full_words [of "storage ?e"] by (simp add: bv_size_def kBitVectorGrowth_def)
    then show ?thesis
    proof (rule alloc_in_space)
      fix n assume n: "dvmAllocBit ?e = (int n, or_bit (n div 32) (n mod 32) ?e)" "n div 32 < bv_size ?e"
        "\<not> has_bit ?e n" "\<And>m. m < n \<Longrightarrow> has_bit ?e m"
      then have "bv' = or_bit (n div 32) (n mod 32) ?e" "r = int n" using assms eq by auto
      then show ?thesis using n(2-4) has_bit_or_bit [of "n div 32" ?e "n mod 32"] by (auto simp: has_bit_extend)
    qed
  qed
qed

theorem alloc_bit_lowest_free_witness:
  "fst (dvmAllocBit \<lparr>expandable = False, storage = [0xffffffff, 5]\<rparr>) = 33 \<and>
   \<not> has_bit \<lparr>expandable = False, storage = [0xffffffff, 5]\<rparr> 33 \<and>
   has_bit \<lparr>expandable = False, storage = [0xffffffff, 5]\<rparr> 32"
proof -
  have "dvmAllocBit \<lparr>expandable = False, storage = [0xffffffff, 5]\<rparr> = (33, \<lparr>expandable = False, storage = [0xffffffff, 7]\<rparr>)"
    by code_simp
  from alloc_bit_lowest_free [OF this] this show ?thesis by simp
qed

text \<open>Merging makes the destination the union and reports a change exactly when the set changed;
  \<open>dvmUnifyBitVectors\<close> and \<open>dvmIntersectBitVectors\<close> compute union and intersection, and
  \<open>dvmCompareBitVectors\<close> reports a difference exactly when the sets differ.\<close>

theorem merge_is_union:
  assumes "bv_inv dst" "bv_size dst = bv_size src" "expandable dst = expandable src"
  shows "\<exists>dst'. dvmCheckMergeBitVectors dst src = Some (bv_set dst' \<noteq> bv_set dst, dst') \<and>
    bv_set dst' = bv_set dst \<union> bv_set src \<and>
    bv_set (snd (dvmUnifyBitVectors dst dst src)) = bv_set dst \<union> bv_set src \<and>
    bv_set (snd (dvmIntersectBitVectors dst dst src)) = bv_set dst \<inter> bv_set src \<and>
    (dvmCompareBitVectors dst src \<longleftrightarrow> bv_set dst \<noteq> bv_set src)"
proof -
  have len: "length (storage dst) = length (storage src)" using assms(2) by (simp add: bv_size_def)
  let ?d = "dst\<lparr>storage := map2 (OR) (storage dst) (storage src)\<rparr>"
  have "storage dst \<noteq> storage ?d \<longleftrightarrow> bv_set ?d \<noteq> bv_set dst"
    using storage_eqI [of dst ?d] assms(1) len by (auto simp: bv_size_def bv_set_def has_bit_def)
  moreover have "dvmCompareBitVectors dst src \<longleftrightarrow> storage dst \<noteq> storage src"
    using assms(2,3) len
    by (auto simp: dvmCompareBitVectors_def same_shape_def list_ex_iff set_zip list_eq_iff_nth_eq)
  moreover have "storage dst \<noteq> storage src \<longleftrightarrow> bv_set dst \<noteq> bv_set src"
    using storage_eqI [OF assms(1,2)] assms(2) by (auto simp: bv_set_def has_bit_def)
  ultimately show ?thesis
    using has_bit_map2 [OF assms(2)] assms(2,3) len
    by (intro exI [of _ ?d])
       (auto simp: dvmCheckMergeBitVectors_def merge_words_map2 dvmUnifyBitVectors_def
          dvmIntersectBitVectors_def same_shape_def bv_set_def)
qed

theorem merge_is_union_witness:
  "\<exists>dst'. dvmCheckMergeBitVectors \<lparr>expandable = True, storage = [1]\<rparr> \<lparr>expandable = True, storage = [6]\<rparr> =
     Some (bv_set dst' \<noteq> bv_set \<lparr>expandable = True, storage = [1]\<rparr>, dst') \<and>
   bv_set dst' = bv_set \<lparr>expandable = True, storage = [1]\<rparr> \<union> bv_set \<lparr>expandable = True, storage = [6]\<rparr>"
  using merge_is_union [of "\<lparr>expandable = True, storage = [1]\<rparr>" "\<lparr>expandable = True, storage = [6]\<rparr>"]
  by (auto simp: bv_inv_def bv_size_def)

end
