(* ===== verification/PointerSet.thy ===== *)
theory PointerSet
  imports SetInterface
begin

text \<open>
  \<^verbatim>\<open>jni/dalvik/vm/PointerSet.cpp\<close>: a set of pointers as a sorted array. The record holds the \<open>count\<close>
  entries that are in use and the allocated size, a 16-bit number. \<open>None\<close> is an access outside the
  array; allocations succeed. It is an instance of \<open>listed_container\<close>.
\<close>

section \<open>Model\<close>

record pointer_set =
  ps_alloc :: nat
  ps_list :: "u4 list"

definition dvmPointerSetAlloc :: "int \<Rightarrow> pointer_set" where
  "dvmPointerSetAlloc initialSize =
     \<lparr>ps_alloc = (if initialSize > 0 then nat (u16 initialSize) else 0), ps_list = []\<rparr>"

definition dvmPointerSetClear :: "pointer_set \<Rightarrow> pointer_set" where
  "dvmPointerSetClear s = s\<lparr>ps_list := []\<rparr>"

definition dvmPointerSetGetCount :: "pointer_set \<Rightarrow> nat" where
  "dvmPointerSetGetCount s = length (ps_list s)"

definition dvmPointerSetGetEntry :: "pointer_set \<Rightarrow> nat \<Rightarrow> u4 option" where
  "dvmPointerSetGetEntry s i = (if i < length (ps_list s) then Some (ps_list s ! i) else None)"

fun verifySorted :: "u4 \<Rightarrow> u4 list \<Rightarrow> bool" where
  "verifySorted prev [] = True"
| "verifySorted prev (cur # xs) = (if cur < prev then False else verifySorted cur xs)"

function has_loop :: "u4 list \<Rightarrow> u4 \<Rightarrow> int \<Rightarrow> int \<Rightarrow> int \<Rightarrow> (bool \<times> int) option" where
  "has_loop xs ptr lo hi mid =
     (if lo \<le> hi then
        let mid = (lo + hi) div 2 in
        if mid < 0 \<or> int (length xs) \<le> mid then None
        else if ptr > xs ! nat mid then has_loop xs ptr (mid + 1) hi mid
        else if ptr < xs ! nat mid then has_loop xs ptr lo (mid - 1) mid
        else Some (True, mid)
      else Some (False, mid))"
  by pat_completeness auto
termination
  by (relation "measure (\<lambda>(xs, p, lo, hi, mid). nat (hi - lo + 1))") auto

declare has_loop.simps [simp del]

definition dvmPointerSetHas :: "pointer_set \<Rightarrow> u4 \<Rightarrow> (bool \<times> int) option" where
  "dvmPointerSetHas s ptr = has_loop (ps_list s) ptr 0 (int (length (ps_list s)) - 1) 0"

text \<open>Where the new entry goes, from where the search ended.\<close>

definition insert_index :: "u4 list \<Rightarrow> u4 \<Rightarrow> int \<Rightarrow> nat option" where
  "insert_index xs ptr nearby =
     (if xs = [] then Some (nat nearby)
      else if nearby < 0 \<or> int (length xs) \<le> nearby then None
      else if nearby \<noteq> 0 \<and> ptr < xs ! nat (nearby - 1) then Some (nat (nearby - 1))
      else if ptr < xs ! nat nearby then Some (nat nearby)
      else Some (nat (nearby + 1)))"

definition grow :: "pointer_set \<Rightarrow> nat" where
  "grow s = (if length (ps_list s) = ps_alloc s
     then (if ps_alloc s = 0 then 4 else nat (u16 (int (ps_alloc s) * 2))) else ps_alloc s)"

definition dvmPointerSetAddEntry :: "pointer_set \<Rightarrow> u4 \<Rightarrow> (bool \<times> pointer_set) option" where
  "dvmPointerSetAddEntry s ptr =
     Option.bind (dvmPointerSetHas s ptr) (\<lambda>(found, nearby).
       if found then Some (False, s)
       else if grow s \<le> length (ps_list s) then None
       else Option.bind (insert_index (ps_list s) ptr nearby) (\<lambda>i.
         Some (True, s\<lparr>ps_alloc := grow s, ps_list := take i (ps_list s) @ ptr # drop i (ps_list s)\<rparr>)))"

definition remove_at :: "nat \<Rightarrow> u4 list \<Rightarrow> u4 list" where
  "remove_at i xs = take i xs @ drop (Suc i) xs"

definition dvmPointerSetRemoveEntry :: "pointer_set \<Rightarrow> u4 \<Rightarrow> (bool \<times> pointer_set) option" where
  "dvmPointerSetRemoveEntry s ptr =
     Option.bind (dvmPointerSetHas s ptr) (\<lambda>(found, i).
       if \<not> found then Some (False, s)
       else Some (True, s\<lparr>ps_list := remove_at (nat i) (ps_list s)\<rparr>))"

function intersect_loop :: "nat \<Rightarrow> u4 list \<Rightarrow> u4 list \<Rightarrow> u4 list" where
  "intersect_loop i xs ptrArray =
     (if i < length xs then
        if xs ! i \<in> set ptrArray then intersect_loop (Suc i) xs ptrArray
        else intersect_loop i (remove_at i xs) ptrArray
      else xs)"
  by pat_completeness auto
termination
  by (relation "measure (\<lambda>(i, xs, a). length xs - i)") (auto simp: remove_at_def)

declare intersect_loop.simps [simp del]

definition dvmPointerSetIntersect :: "pointer_set \<Rightarrow> u4 list \<Rightarrow> pointer_set" where
  "dvmPointerSetIntersect s ptrArray = s\<lparr>ps_list := intersect_loop 0 (ps_list s) ptrArray\<rparr>"

section \<open>Searching and inserting\<close>

definition strict :: "u4 list \<Rightarrow> bool" where
  "strict xs \<longleftrightarrow> sorted_wrt (<) xs"

lemma strict_nth: "strict xs \<Longrightarrow> i < j \<Longrightarrow> j < length xs \<Longrightarrow> xs ! i < xs ! j"
  by (simp add: strict_def sorted_wrt_iff_nth_less)

text \<open>The number of entries below a value, its place in the array.\<close>

definition place :: "u4 list \<Rightarrow> u4 \<Rightarrow> nat" where
  "place xs p = length (filter (\<lambda>x. x < p) xs)"

lemma place_take: "strict xs \<Longrightarrow> filter (\<lambda>x. x < p) xs = take (place xs p) xs"
proof (induction xs)
  case (Cons x xs)
  then have IH: "filter (\<lambda>x. x < p) xs = take (place xs p) xs" and lt: "\<forall>y \<in> set xs. x < y"
    by (simp_all add: strict_def)
  show ?case
  proof (cases "x < p")
    case True
    then show ?thesis using IH by (simp add: place_def)
  next
    case False
    then have "filter (\<lambda>x. x < p) xs = []" using lt by (auto simp: filter_empty_conv)
    with False show ?thesis by (simp add: place_def)
  qed
qed (simp add: place_def)

lemma place_le: "place xs p \<le> length xs"
  by (simp add: place_def)

lemma place_iff:
  assumes "strict xs" "i < length xs"
  shows "xs ! i < p \<longleftrightarrow> i < place xs p"
proof
  assume "i < place xs p"
  then have "xs ! i \<in> set (take (place xs p) xs)"
    using assms(2) by (metis length_take min_less_iff_conj nth_mem nth_take)
  then show "xs ! i < p" by (simp flip: place_take [OF assms(1)])
next
  assume "xs ! i < p"
  then have sub: "\<forall>j \<le> i. xs ! j < p" using strict_nth [OF assms(1)] assms(2) by (metis le_neq_implies_less less_trans)
  have "{..i} \<subseteq> {j. j < length xs \<and> xs ! j < p}" using sub assms(2) by auto
  then have "card {..i} \<le> card {j. j < length xs \<and> xs ! j < p}" by (intro card_mono) auto
  then show "i < place xs p" by (simp add: place_def length_filter_conv_card)
qed

lemma place_found: "strict xs \<Longrightarrow> p \<in> set xs \<Longrightarrow> place xs p < length xs \<and> xs ! place xs p = p"
proof -
  assume s: "strict xs" and "p \<in> set xs"
  then obtain i where i: "i < length xs" "xs ! i = p" by (auto simp: in_set_conv_nth)
  have "\<not> i < place xs p" using place_iff [OF s i(1), of p] i(2) by simp
  moreover have "\<not> place xs p < i"
    using place_iff [OF s, of "place xs p" p] strict_nth [OF s, of "place xs p" i] i by auto
  ultimately have "i = place xs p" by simp
  with i show ?thesis by simp
qed

lemma has_loop_correct:
  assumes "strict xs" "0 \<le> lo" "hi < int (length xs)" "lo \<le> int (place xs p)" "int (place xs p) \<le> hi + 1"
    and "p \<in> set xs \<longrightarrow> int (place xs p) \<le> hi"
    and "xs \<noteq> [] \<longrightarrow> (lo \<le> hi \<or> mid = int (place xs p) \<or> mid = int (place xs p) - 1)"
    and "lo \<le> hi \<or> 0 \<le> mid \<and> (mid < int (length xs) \<or> xs = [])"
  shows "\<exists>k. has_loop xs p lo hi mid = Some (p \<in> set xs, k) \<and>
    (if p \<in> set xs then k = int (place xs p) else
     xs = [] \<and> k = mid \<or> 0 \<le> k \<and> k < int (length xs) \<and> (k = int (place xs p) \<or> k = int (place xs p) - 1))"
  using assms
proof (induction xs p lo hi mid rule: has_loop.induct)
  case (1 xs p lo hi mid)
  show ?case
  proof (cases "lo \<le> hi")
    case False
    with "1.prems" show ?thesis by (subst has_loop.simps) auto
  next
    case True
    define m where "m = nat ((lo + hi) div 2)"
    have m: "(lo + hi) div 2 = int m" "lo \<le> int m" "int m \<le> hi" "m < length xs"
      using True "1.prems"(2,3) by (auto simp: m_def)
    note pi = place_iff [OF "1.prems"(1) m(4), of p]
    have step: "has_loop xs p lo hi mid =
        (if p > xs ! m then has_loop xs p (int m + 1) hi (int m)
         else if p < xs ! m then has_loop xs p lo (int m - 1) (int m) else Some (True, int m))"
      using True m by (subst has_loop.simps) (simp add: Let_def)
    consider "p > xs ! m" | "p < xs ! m" | "p = xs ! m" by (metis linorder_neqE)
    then show ?thesis
    proof cases
      case 1
      then have "m < place xs p" using pi by simp
      moreover from this have "int m + 1 \<le> hi \<or> int m = int (place xs p) - 1" using "1.prems"(5) by linarith
      moreover have "xs \<noteq> []" using m(4) by auto
      ultimately show ?thesis using "1.IH"(1) [of "int m"] step 1 True "1.prems" m by (cases "p \<in> set xs") simp_all
    next
      case 2
      then have le: "place xs p \<le> m" using pi by (metis less_asym not_le)
      have "p \<in> set xs \<longrightarrow> place xs p \<noteq> m" using place_found [OF "1.prems"(1), of p] 2 by auto
      moreover have "lo \<le> int m - 1 \<or> int m = int (place xs p)" using "1.prems"(4) m(2) le by linarith
      moreover have "xs \<noteq> []" "\<not> xs ! m < p" using m(4) 2 by auto
      ultimately show ?thesis using le "1.IH"(2) [of "int m"] step 2 True "1.prems" m by (cases "p \<in> set xs") simp_all
    next
      case 3
      then have "p \<in> set xs" using m(4) by simp
      moreover from place_found [OF "1.prems"(1) this] 3 m(4) strict_nth [OF "1.prems"(1)]
      have "place xs p = m" by (metis less_irrefl linorder_neqE_nat)
      ultimately show ?thesis using step 3 by simp
    qed
  qed
qed

definition ps_inv :: "pointer_set \<Rightarrow> bool" where
  "ps_inv s \<longleftrightarrow> strict (ps_list s) \<and> length (ps_list s) \<le> ps_alloc s"

lemma has_correct:
  assumes "strict (ps_list s)"
  shows "\<exists>k. dvmPointerSetHas s p = Some (p \<in> set (ps_list s), k) \<and>
    (if p \<in> set (ps_list s) then k = int (place (ps_list s) p) else
     ps_list s = [] \<and> k = 0 \<or> 0 \<le> k \<and> k < int (length (ps_list s)) \<and>
       (k = int (place (ps_list s) p) \<or> k = int (place (ps_list s) p) - 1))"
  unfolding dvmPointerSetHas_def
  using assms place_le [of "ps_list s" p] place_found [OF assms, of p]
  by (intro has_loop_correct) auto

lemma insert_index_correct:
  assumes "strict xs" "p \<notin> set xs"
    and "xs = [] \<and> k = 0 \<or> 0 \<le> k \<and> k < int (length xs) \<and> (k = int (place xs p) \<or> k = int (place xs p) - 1)"
  shows "insert_index xs p k = Some (place xs p)"
proof (cases "xs = []")
  case True
  with assms(3) show ?thesis by (auto simp: insert_index_def place_def)
next
  case False
  have lt: "p < xs ! i \<longleftrightarrow> place xs p \<le> i" if "i < length xs" for i
    using place_iff [OF assms(1) that, of p] assms(2) that by (metis linorder_neqE not_le nth_mem less_asym)
  from False assms(3) consider "k = int (place xs p)" "place xs p < length xs"
    | j where "k = int j" "place xs p = Suc j" "j < length xs"
    by (cases "place xs p") auto
  then show ?thesis
  proof cases
    case 1
    then have "place xs p \<noteq> 0 \<Longrightarrow> \<not> p < xs ! (place xs p - 1)" using lt [of "place xs p - 1"] by simp
    with 1 False lt [of "place xs p"] show ?thesis by (auto simp: insert_index_def nat_diff_distrib)
  next
    case 2
    then have "j \<noteq> 0 \<Longrightarrow> \<not> p < xs ! (j - 1)" "\<not> p < xs ! j" using lt [of "j - 1"] lt [of j] by simp_all
    with 2 False show ?thesis by (auto simp: insert_index_def nat_diff_distrib)
  qed
qed

lemma insert_at_place:
  assumes "strict xs" "p \<notin> set xs"
  shows "strict (take (place xs p) xs @ p # drop (place xs p) xs)"
proof -
  have "x < p" if "x \<in> set (take (place xs p) xs)" for x
    using that by (simp flip: place_take [OF assms(1)])
  moreover have "p < x" if x: "x \<in> set (drop (place xs p) xs)" for x
  proof -
    obtain j where j: "j < length xs - place xs p" "x = xs ! (place xs p + j)"
      using x by (auto simp: in_set_conv_nth)
    define i where "i = place xs p + j"
    have i: "place xs p \<le> i" "i < length xs" "x = xs ! i" using j by (simp_all add: i_def)
    with place_iff [OF assms(1) i(2), of p] assms(2) show ?thesis by (metis linorder_neqE not_le nth_mem)
  qed
  moreover have "strict (take n xs)" "strict (drop n xs)" for n
    using assms(1) by (auto simp: strict_def sorted_wrt_take sorted_wrt_drop)
  ultimately show ?thesis
    unfolding strict_def by (auto simp: sorted_wrt_append) (meson less_trans)
qed

lemma remove_at_place:
  assumes "strict xs" "p \<in> set xs"
  shows "strict (remove_at (place xs p) xs) \<and> set (remove_at (place xs p) xs) = set xs - {p}"
proof -
  have d: "distinct xs" using assms(1) by (simp add: strict_def strict_sorted_iff)
  note f = place_found [OF assms]
  then have xs: "xs = take (place xs p) xs @ p # drop (Suc (place xs p)) xs" by (metis id_take_nth_drop)
  then have "strict (take (place xs p) xs @ p # drop (Suc (place xs p)) xs)"
    "distinct (take (place xs p) xs @ p # drop (Suc (place xs p)) xs)" "set xs = set (take (place xs p) xs @ p # drop (Suc (place xs p)) xs)"
    using assms(1) d by metis+
  then show ?thesis by (auto simp: remove_at_def strict_def sorted_wrt_append)
qed

lemma add_entry:
  assumes "ps_inv s"
  shows "dvmPointerSetAddEntry s p =
    (if p \<in> set (ps_list s) then Some (False, s)
     else if grow s \<le> length (ps_list s) then None
     else Some (True, s\<lparr>ps_alloc := grow s, ps_list := take (place (ps_list s) p) (ps_list s) @
       p # drop (place (ps_list s) p) (ps_list s)\<rparr>))"
proof -
  have s: "strict (ps_list s)" using assms by (simp add: ps_inv_def)
  from has_correct [OF s, of p] insert_index_correct [OF s, of p] show ?thesis
    by (auto simp: dvmPointerSetAddEntry_def)
qed

lemma remove_entry:
  assumes "ps_inv s"
  shows "dvmPointerSetRemoveEntry s p =
    (if p \<in> set (ps_list s) then Some (True, s\<lparr>ps_list := remove_at (place (ps_list s) p) (ps_list s)\<rparr>)
     else Some (False, s))"
proof -
  have s: "strict (ps_list s)" using assms by (simp add: ps_inv_def)
  from has_correct [OF s, of p] show ?thesis by (auto simp: dvmPointerSetRemoveEntry_def)
qed

definition ps_has :: "pointer_set \<Rightarrow> u4 \<Rightarrow> bool" where
  "ps_has s p \<longleftrightarrow> (\<exists>k. dvmPointerSetHas s p = Some (True, k))"

definition ps_add :: "pointer_set \<Rightarrow> u4 \<Rightarrow> pointer_set option" where
  "ps_add s p = map_option snd (dvmPointerSetAddEntry s p)"

definition ps_remove :: "pointer_set \<Rightarrow> u4 \<Rightarrow> pointer_set option" where
  "ps_remove s p = map_option snd (dvmPointerSetRemoveEntry s p)"

interpretation ptrs: listed_container "\<lambda>s. set (ps_list s)" ps_inv ps_has ps_add ps_remove ps_list
proof unfold_locales
  fix s s' p assume inv: "ps_inv s"
  then have st: "strict (ps_list s)" by (simp add: ps_inv_def)
  show "ps_has s p \<longleftrightarrow> p \<in> set (ps_list s)" using has_correct [OF st, of p] by (auto simp: ps_has_def)
  show "set (ps_list s) = set (ps_list s) \<and> distinct (ps_list s)" using st by (simp add: strict_def strict_sorted_iff)
  show "ps_inv s' \<and> set (ps_list s') = insert p (set (ps_list s))" if "ps_add s p = Some s'"
  proof (cases "p \<in> set (ps_list s)")
    case True
    with that inv show ?thesis by (auto simp: ps_add_def add_entry)
  next
    case False
    let ?xs = "take (place (ps_list s) p) (ps_list s) @ p # drop (place (ps_list s) p) (ps_list s)"
    have s': "s' = s\<lparr>ps_alloc := grow s, ps_list := ?xs\<rparr>" "length (ps_list s) < grow s"
      using that inv False by (auto simp: ps_add_def add_entry split: if_splits)
    have "set ?xs = insert p (set (ps_list s))"
      by (metis Un_insert_right append_take_drop_id list.simps(15) set_append)
    moreover have "length ?xs = Suc (length (ps_list s))" using place_le [of "ps_list s" p] by simp
    ultimately show ?thesis using insert_at_place [OF st False] s' by (simp add: ps_inv_def)
  qed
  show "ps_inv s' \<and> set (ps_list s') = set (ps_list s) - {p}" if "ps_remove s p = Some s'"
  proof (cases "p \<in> set (ps_list s)")
    case True
    have "length (remove_at (place (ps_list s) p) (ps_list s)) \<le> length (ps_list s)"
      using place_found [OF st True] by (simp add: remove_at_def)
    with remove_at_place [OF st True] that inv True show ?thesis
      by (simp add: ps_remove_def remove_entry ps_inv_def) (elim conjE; clarsimp)
  next
    case False
    with that inv show ?thesis by (simp add: ps_remove_def remove_entry)
  qed
qed

lemma intersect_loop_filter:
  "i \<le> length xs \<Longrightarrow> intersect_loop i xs arr = take i xs @ filter (\<lambda>x. x \<in> set arr) (drop i xs)"
proof (induction i xs arr rule: intersect_loop.induct)
  case (1 i xs arr)
  show ?case
  proof (cases "i < length xs")
    case False
    with "1.prems" show ?thesis by (subst intersect_loop.simps) simp
  next
    case True
    then have d: "drop i xs = xs ! i # drop (Suc i) xs" by (rule Cons_nth_drop_Suc [symmetric])
    have r: "take i (remove_at i xs) = take i xs" "drop i (remove_at i xs) = drop (Suc i) xs" "i \<le> length (remove_at i xs)"
      using True by (simp_all add: remove_at_def)
    show ?thesis
      using 1 True r by (subst intersect_loop.simps) (simp add: d take_Suc_conv_app_nth)
  qed
qed

lemma verify_strict: "strict xs \<Longrightarrow> (\<forall>x \<in> set xs. prev \<le> x) \<Longrightarrow> verifySorted prev xs"
  by (induction xs arbitrary: prev) (auto simp: strict_def less_imp_le)

section \<open>Properties\<close>

text \<open>After any sequence of additions and removals that stays within the allocated array, the
  pointer set holds exactly the set the operations describe, each pointer once and in order, the
  binary search finds exactly its members, and the internal check of the order holds.\<close>

theorem pointer_set_is_set:
  assumes "ps_inv s" "run_ops ps_add ps_remove ops s = Some s'"
  shows "set (ps_list s') = fold op_spec ops (set (ps_list s)) \<and>
    dvmPointerSetGetCount s' = card (fold op_spec ops (set (ps_list s))) \<and>
    (ps_has s' p \<longleftrightarrow> p \<in> fold op_spec ops (set (ps_list s))) \<and> verifySorted 0 (ps_list s')"
proof -
  have "ps_inv s'" using ptrs.run_abs [OF assms] by simp
  then have "verifySorted 0 (ps_list s')" by (intro verify_strict) (simp_all add: ps_inv_def)
  with ptrs.run_mem [OF assms, of p] ptrs.run_elems [OF assms] show ?thesis
    by (simp add: dvmPointerSetGetCount_def)
qed

theorem pointer_set_is_set_witness:
  "dvmPointerSetGetCount (the (run_ops ps_add ps_remove [Ins 9, Ins 4, Del 4] (dvmPointerSetAlloc 0))) = 1"
proof -
  have r: "run_ops ps_add ps_remove [Ins 9, Ins 4, Del 4] (dvmPointerSetAlloc 0) = Some \<lparr>ps_alloc = 4, ps_list = [9]\<rparr>"
    by code_simp
  have "ps_inv (dvmPointerSetAlloc 0)" by (simp add: ps_inv_def dvmPointerSetAlloc_def strict_def)
  from pointer_set_is_set [OF this r] r show ?thesis by (simp add: dvmPointerSetAlloc_def)
qed

text \<open>The result of an addition or a removal tells whether the set changed, and intersecting with
  an array keeps exactly the members that occur in the array, in order.\<close>

theorem pointer_set_results:
  assumes "ps_inv s"
  shows "(dvmPointerSetAddEntry s p = Some (b, s') \<longrightarrow> (b \<longleftrightarrow> p \<notin> set (ps_list s))) \<and>
    (dvmPointerSetRemoveEntry s p = Some (c, t) \<longrightarrow> (c \<longleftrightarrow> p \<in> set (ps_list s))) \<and>
    ps_list (dvmPointerSetIntersect s arr) = filter (\<lambda>x. x \<in> set arr) (ps_list s) \<and>
    ps_inv (dvmPointerSetIntersect s arr)"
proof -
  have i: "ps_list (dvmPointerSetIntersect s arr) = filter (\<lambda>x. x \<in> set arr) (ps_list s)"
    by (simp add: dvmPointerSetIntersect_def intersect_loop_filter)
  have "strict (filter (\<lambda>x. x \<in> set arr) (ps_list s))" "length (filter (\<lambda>x. x \<in> set arr) (ps_list s)) \<le> ps_alloc s"
    using assms by (simp_all add: ps_inv_def strict_def sorted_wrt_filter le_trans [OF length_filter_le])
  then have "ps_inv (dvmPointerSetIntersect s arr)"
    using i by (simp add: ps_inv_def dvmPointerSetIntersect_def)
  with i show ?thesis using assms by (auto simp: add_entry remove_entry split: if_splits)
qed

theorem pointer_set_results_witness:
  "ps_list (dvmPointerSetIntersect \<lparr>ps_alloc = 4, ps_list = [3, 5, 8]\<rparr> [8, 3]) = [3, 8]"
  using pointer_set_results [of "\<lparr>ps_alloc = 4, ps_list = [3, 5, 8]\<rparr>" 0 True undefined True undefined "[8, 3]"]
  by (simp add: ps_inv_def strict_def)

text \<open>The allocated size is a 16-bit number that doubles: with 32768 entries it becomes 0, the
  array is freed, and the next addition of a new pointer writes outside it. Below that size an
  addition always has room.\<close>

theorem pointer_set_overflow:
  assumes "ps_inv s" "ps_alloc s \<le> 32768" "p \<notin> set (ps_list s)"
  shows "dvmPointerSetAddEntry s p = None \<longleftrightarrow> length (ps_list s) = 32768"
proof -
  have u: "u16 (int (ps_alloc s) * 2) = (if ps_alloc s = 32768 then 0 else int (ps_alloc s) * 2)"
    using assms(2) by (auto simp: wrap_u_def)
  have "length (ps_list s) \<le> ps_alloc s" using assms(1) by (simp add: ps_inv_def)
  then have "grow s \<le> length (ps_list s) \<longleftrightarrow> length (ps_list s) = 32768"
    using assms(2) unfolding grow_def u by auto
  with assms(1,3) show ?thesis by (simp add: add_entry)
qed

theorem pointer_set_overflow_witness:
  "dvmPointerSetAddEntry \<lparr>ps_alloc = 4, ps_list = [3, 5]\<rparr> 7 \<noteq> None"
  using pointer_set_overflow [of "\<lparr>ps_alloc = 4, ps_list = [3, 5]\<rparr>" 7] by (simp add: ps_inv_def strict_def)

end
