(* ===== verification/DataMap.thy ===== *)
theory DataMap
  imports Prelude
begin

text \<open>
  \<^verbatim>\<open>jni/dalvik/libdex/DexDataMap.cpp\<close>: the map from offsets in the data section to item types that
  the verifier of dex files fills in the order of the file and reads by binary search. The record
  holds the \<open>count\<close> entries of the two arrays that are in use. \<open>None\<close> is a failed assertion or an
  access outside an array. \<open>safe_mul\<close> and \<open>safe_add\<close> of the safe_iop library, which is not part of
  the sources, are parameters of the allocation.
\<close>

section \<open>Model\<close>

record data_map =
  dm_max :: nat
  dm_offsets :: "u4 list"
  dm_types :: "u2 list"

definition dm_count :: "data_map \<Rightarrow> nat" where
  "dm_count m = length (dm_offsets m)"

definition sizeof_DexDataMap :: u4 where "sizeof_DexDataMap = 16"

definition dexDataMapAlloc ::
  "(u4 \<Rightarrow> u4 \<Rightarrow> u4 option) \<Rightarrow> (u4 \<Rightarrow> u4 \<Rightarrow> u4 option) \<Rightarrow> (u4 \<Rightarrow> bool) \<Rightarrow> u4 \<Rightarrow> data_map option" where
  "dexDataMapAlloc safe_mul safe_add malloc maxCount =
     (case safe_mul maxCount (4 + 2) of
        None \<Rightarrow> None
      | Some sz \<Rightarrow>
          (case safe_add sz sizeof_DexDataMap of
             None \<Rightarrow> None
           | Some sz' \<Rightarrow>
               if malloc sz' then Some \<lparr>dm_max = unat maxCount, dm_offsets = [], dm_types = []\<rparr> else None))"

definition dexDataMapAdd :: "data_map \<Rightarrow> u4 \<Rightarrow> u2 \<Rightarrow> data_map option" where
  "dexDataMapAdd m offset type =
     (if \<not> dm_count m < dm_max m then None
      else if dm_count m \<noteq> 0 \<and> dm_offsets m ! (dm_count m - 1) \<ge> offset then Some m
      else Some (m\<lparr>dm_offsets := dm_offsets m @ [offset], dm_types := dm_types m @ [type]\<rparr>))"

function get_loop :: "u4 list \<Rightarrow> u2 list \<Rightarrow> u4 \<Rightarrow> int \<Rightarrow> int \<Rightarrow> int option" where
  "get_loop offsets types offset lo hi =
     (if hi \<ge> lo then
        let guessIdx = (lo + hi) div 2 in
        if guessIdx < 0 \<or> int (length offsets) \<le> guessIdx then None
        else
          let guess = offsets ! nat guessIdx in
          if offset < guess then get_loop offsets types offset lo (guessIdx - 1)
          else if offset > guess then get_loop offsets types offset (guessIdx + 1) hi
          else Some (uint (types ! nat guessIdx))
      else Some (- 1))"
  by pat_completeness auto
termination
  by (relation "measure (\<lambda>(os, ts, off, lo, hi). nat (hi - lo + 1))") auto

declare get_loop.simps [simp del]

definition dexDataMapGet :: "data_map \<Rightarrow> u4 \<Rightarrow> int option" where
  "dexDataMapGet m offset = get_loop (dm_offsets m) (dm_types m) offset 0 (int (dm_count m) - 1)"

definition dexDataMapVerify :: "data_map \<Rightarrow> u4 \<Rightarrow> u2 \<Rightarrow> bool option" where
  "dexDataMapVerify m offset type = map_option (\<lambda>found. found = uint type) (dexDataMapGet m offset)"

definition dexDataMapVerify0Ok :: "data_map \<Rightarrow> u4 \<Rightarrow> u2 \<Rightarrow> bool option" where
  "dexDataMapVerify0Ok m offset type = (if offset = 0 then Some True else dexDataMapVerify m offset type)"

text \<open>The verifier's calls, in the order of the file.\<close>

fun add_all :: "data_map \<Rightarrow> (u4 \<times> u2) list \<Rightarrow> data_map option" where
  "add_all m [] = Some m"
| "add_all m ((offset, type) # items) = Option.bind (dexDataMapAdd m offset type) (\<lambda>m'. add_all m' items)"

section \<open>The map a table stands for\<close>

definition dm_inv :: "data_map \<Rightarrow> bool" where
  "dm_inv m \<longleftrightarrow> sorted_wrt (<) (dm_offsets m) \<and> length (dm_types m) = dm_count m \<and> dm_count m \<le> dm_max m"

definition dm_abs :: "data_map \<Rightarrow> u4 \<rightharpoonup> u2" where
  "dm_abs m = map_of (zip (dm_offsets m) (dm_types m))"

text \<open>What of a file is kept: the items whose offset is beyond every offset kept before.\<close>

fun in_order :: "u4 option \<Rightarrow> (u4 \<times> u2) list \<Rightarrow> (u4 \<times> u2) list" where
  "in_order hi [] = []"
| "in_order hi ((offset, type) # items) =
     (if (case hi of None \<Rightarrow> False | Some t \<Rightarrow> t \<ge> offset) then in_order hi items
      else (offset, type) # in_order (Some offset) items)"

definition item_type :: "u2 option \<Rightarrow> int" where
  "item_type t = (case t of None \<Rightarrow> - 1 | Some t \<Rightarrow> uint t)"

lemma item_type_eq: "item_type t = uint ty \<longleftrightarrow> t = Some ty"
proof -
  have "uint ty \<noteq> - 1" using unsigned_greater_eq [of ty, where ?'a = int] by linarith
  then show ?thesis by (auto simp: item_type_def dest: unsigned_word_eqI split: option.splits)
qed

lemma sorted_less:
  "sorted_wrt (<) (os :: u4 list) \<Longrightarrow> i < length os \<Longrightarrow> j < length os \<Longrightarrow> os ! i < os ! j \<longleftrightarrow> i < j"
  by (metis linorder_neqE_nat order_less_asym order_less_irrefl sorted_wrt_iff_nth_less)

lemma lookup_at:
  assumes "sorted_wrt (<) (os :: u4 list)" "length (ts :: u2 list) = length os" "i < length os"
  shows "map_of (zip os ts) (os ! i) = Some (ts ! i)"
  using assms by (simp add: map_of_zip_nth strict_sorted_iff)

lemma get_loop_map:
  assumes "sorted_wrt (<) os" "length ts = length os" "0 \<le> lo" "hi < int (length os)"
    and "\<And>i. i < length os \<Longrightarrow> os ! i = off \<Longrightarrow> lo \<le> int i \<and> int i \<le> hi"
  shows "get_loop os ts off lo hi = Some (item_type (map_of (zip os ts) off))"
  using assms
proof (induction os ts off lo hi rule: get_loop.induct)
  case (1 os ts off lo hi)
  show ?case
  proof (cases "hi \<ge> lo")
    case False
    then have "off \<notin> set os" using "1.prems"(5) by (force simp: in_set_conv_nth)
    then have "map_of (zip os ts) off = None" using "1.prems"(2) by (simp add: map_of_zip_is_None)
    with False show ?thesis by (simp add: get_loop.simps item_type_def)
  next
    case True
    define g where "g = (lo + hi) div 2"
    have g: "0 \<le> g" "g < int (length os)" "lo \<le> g" "g \<le> hi" using True "1.prems"(3,4) by (auto simp: g_def)
    note less = sorted_less [OF "1.prems"(1)]
    note IH = "1.IH" [OF True g_def _ refl, unfolded not_less]
    consider "off < os ! nat g" | "off > os ! nat g" | "off = os ! nat g" by fastforce
    then show ?thesis
    proof cases
      case 1
      have "get_loop os ts off lo (g - 1) = Some (item_type (map_of (zip os ts) off))"
        using IH(1) g 1 "1.prems" less [of _ "nat g"] by fastforce
      with 1 g True show ?thesis by (subst get_loop.simps) (simp add: g_def [symmetric])
    next
      case 2
      have "get_loop os ts off (g + 1) hi = Some (item_type (map_of (zip os ts) off))"
        using IH(2) g 2 "1.prems" less [of "nat g"] by fastforce
      moreover have "\<not> off < os ! nat g" using 2 by simp
      ultimately show ?thesis using 2 g True by (subst get_loop.simps) (simp add: g_def [symmetric] Let_def)
    next
      case 3
      with g True lookup_at [OF "1.prems"(1,2), of "nat g"] show ?thesis
        by (subst get_loop.simps) (simp add: g_def [symmetric] item_type_def)
    qed
  qed
qed

lemma get_map: "dm_inv m \<Longrightarrow> dexDataMapGet m off = Some (item_type (dm_abs m off))"
  unfolding dexDataMapGet_def dm_abs_def
  by (rule get_loop_map) (auto simp: dm_inv_def dm_count_def)

lemma last_nth: "dm_count m \<noteq> 0 \<Longrightarrow> dm_offsets m ! (dm_count m - 1) = last (dm_offsets m)"
  by (simp add: dm_count_def last_conv_nth)

lemma sorted_snoc: "sorted_wrt (<) (os @ [x :: u4]) \<longleftrightarrow> sorted_wrt (<) os \<and> (os = [] \<or> last os < x)"
  by (cases os rule: rev_cases) (auto simp: sorted_wrt_append)

lemma add_keeps:
  assumes "dm_inv m" "dexDataMapAdd m off ty = Some m'"
  shows "dm_inv m' \<and> dm_max m' = dm_max m"
  using assms
  by (cases "dm_offsets m = []")
    (auto simp: dexDataMapAdd_def dm_inv_def dm_count_def sorted_snoc last_conv_nth split: if_splits)

text \<open>The greatest offset of a table, its last.\<close>

definition dm_top :: "data_map \<Rightarrow> u4 option" where
  "dm_top m = (if dm_offsets m = [] then None else Some (last (dm_offsets m)))"

lemma add_all_keeps:
  assumes "dm_inv m" "dm_count m + length items \<le> dm_max m"
  obtains m' where "add_all m items = Some m'" "dm_inv m'" "dm_max m' = dm_max m"
    "zip (dm_offsets m') (dm_types m') = zip (dm_offsets m) (dm_types m) @ in_order (dm_top m) items"
proof -
  have "\<exists>m'. add_all m items = Some m' \<and> dm_inv m' \<and> dm_max m' = dm_max m \<and>
      zip (dm_offsets m') (dm_types m') = zip (dm_offsets m) (dm_types m) @ in_order (dm_top m) items"
    using assms
  proof (induction items arbitrary: m)
    case (Cons it items)
    obtain off ty where it: "it = (off, ty)" by (cases it)
    show ?case
    proof (cases "dm_count m \<noteq> 0 \<and> last (dm_offsets m) \<ge> off")
      case True
      with Cons.prems last_nth [of m] have "dexDataMapAdd m off ty = Some m" by (simp add: dexDataMapAdd_def)
      with Cons.IH [of m] Cons.prems True it show ?thesis by (auto simp: dm_top_def dm_count_def)
    next
      case False
      define m1 where "m1 = m\<lparr>dm_offsets := dm_offsets m @ [off], dm_types := dm_types m @ [ty]\<rparr>"
      have add: "dexDataMapAdd m off ty = Some m1" using False Cons.prems last_nth [of m]
        by (auto simp: dexDataMapAdd_def m1_def)
      with add_keeps [OF Cons.prems(1)] have "dm_inv m1" "dm_max m1 = dm_max m" by auto
      moreover have "dm_count m1 = Suc (dm_count m)" by (simp add: m1_def dm_count_def)
      ultimately have "\<exists>m'. add_all m1 items = Some m' \<and> dm_inv m' \<and> dm_max m' = dm_max m \<and>
          zip (dm_offsets m') (dm_types m') = zip (dm_offsets m1) (dm_types m1) @ in_order (dm_top m1) items"
        using Cons.IH [of m1] Cons.prems by auto
      moreover have "zip (dm_offsets m1) (dm_types m1) = zip (dm_offsets m) (dm_types m) @ [(off, ty)]"
        using Cons.prems by (simp add: m1_def dm_inv_def dm_count_def)
      moreover have "dm_top m1 = Some off" by (simp add: dm_top_def m1_def)
      ultimately show ?thesis using add it False by (auto simp: dm_top_def dm_count_def)
    qed
  qed simp
  with that show thesis by blast
qed

section \<open>Properties\<close>

text \<open>The data map answers from the items it was given: when a map that was allocated for at
  least as many items is filled with the items of a file, filling succeeds, an item whose offset is
  not beyond those before it is dropped, the binary search stays inside the arrays and ends, it
  gives the type recorded for an offset and -1 for every other offset, and an entry is verified
  exactly when that offset was recorded with that type.\<close>

theorem data_map_is_map:
  assumes alloc: "dexDataMapAlloc safe_mul safe_add malloc maxCount = Some m0"
    and room: "length items \<le> unat maxCount"
  shows "\<exists>m. add_all m0 items = Some m \<and>
    dexDataMapGet m offset = Some (item_type (map_of (in_order None items) offset)) \<and>
    dexDataMapVerify m offset type = Some (map_of (in_order None items) offset = Some type) \<and>
    dexDataMapVerify0Ok m offset type =
      Some (offset = 0 \<or> map_of (in_order None items) offset = Some type)"
proof -
  have m0: "m0 = \<lparr>dm_max = unat maxCount, dm_offsets = [], dm_types = []\<rparr>"
    using alloc by (auto simp: dexDataMapAlloc_def split: option.splits if_splits)
  then have start: "dm_inv m0" "dm_count m0 + length items \<le> dm_max m0"
    using room by (simp_all add: dm_inv_def dm_count_def)
  obtain m where m: "add_all m0 items = Some m" "dm_inv m"
    "zip (dm_offsets m) (dm_types m) = zip (dm_offsets m0) (dm_types m0) @ in_order (dm_top m0) items"
    by (rule add_all_keeps [OF start])
  then have "zip (dm_offsets m) (dm_types m) = in_order None items" using m0 by (simp add: dm_top_def)
  with get_map [OF m(2)] m(1) show ?thesis
    by (auto simp: dm_abs_def dexDataMapVerify_def dexDataMapVerify0Ok_def item_type_eq)
qed

text \<open>The documented behaviour of safe_iop: the exact result, or a refusal when it does not fit.\<close>

definition exact_mul :: "u4 \<Rightarrow> u4 \<Rightarrow> u4 option" where
  "exact_mul a b = (if unat a * unat b < 2 ^ 32 then Some (a * b) else None)"

definition exact_add :: "u4 \<Rightarrow> u4 \<Rightarrow> u4 option" where
  "exact_add a b = (if unat a + unat b < 2 ^ 32 then Some (a + b) else None)"

lemma data_map_is_map_witness:
  "\<exists>m. add_all \<lparr>dm_max = 3, dm_offsets = [], dm_types = []\<rparr> [(0x70, 1), (0x60, 2), (0x80, 3)] = Some m \<and>
    dexDataMapGet m 0x80 = Some 3 \<and>
    dexDataMapVerify m 0x80 2 = Some False \<and> dexDataMapVerify0Ok m 0x80 2 = Some False"
  using data_map_is_map [of exact_mul exact_add "\<lambda>n. True" 3
      "\<lparr>dm_max = 3, dm_offsets = [], dm_types = []\<rparr>" "[(0x70, 1), (0x60, 2), (0x80, 3)]" "0x80" 2]
  by (simp add: dexDataMapAlloc_def exact_mul_def exact_add_def sizeof_DexDataMap_def item_type_def)

text \<open>The allocation of a data map never wraps: under safe_iop's contract (the exact result or a
  refusal), the block that is requested holds the header and both arrays for the promised number of
  items, and a number of items whose arrays do not fit in the address space is refused.\<close>

theorem data_map_alloc_fits:
  assumes mul: "\<And>a b r. safe_mul a b = Some r \<Longrightarrow> unat r = unat a * unat b"
    and add: "\<And>a b r. safe_add a b = Some r \<Longrightarrow> unat r = unat a + unat b"
    and alloc: "dexDataMapAlloc safe_mul safe_add malloc maxCount = Some m"
  shows "\<exists>n. malloc n \<and> unat n = unat sizeof_DexDataMap + 4 * dm_max m + 2 * dm_max m \<and>
    16 + 6 * unat maxCount < 2 ^ 32"
proof -
  obtain r n where r: "safe_mul maxCount (4 + 2) = Some r" and n: "safe_add r sizeof_DexDataMap = Some n"
    and m: "malloc n" "dm_max m = unat maxCount"
    using alloc by (auto simp: dexDataMapAlloc_def split: option.splits if_splits)
  from mul [OF r] add [OF n] have "unat n = unat maxCount * 6 + 16"
    by (simp add: sizeof_DexDataMap_def)
  moreover have "unat n < 2 ^ 32" by (rule unat_u4_less)
  ultimately show ?thesis using m by (intro exI [of _ n]) (simp add: sizeof_DexDataMap_def)
qed

lemma exact_mul_contract: "exact_mul a b = Some r \<Longrightarrow> unat r = unat a * unat b"
  by (auto simp: exact_mul_def unat_word_ariths split: if_splits)

lemma exact_add_contract: "exact_add a b = Some r \<Longrightarrow> unat r = unat a + unat b"
  by (auto simp: exact_add_def unat_word_ariths split: if_splits)

lemma data_map_alloc_fits_witness:
  "\<exists>n :: u4. n < 100 \<and> unat n = 34"
proof -
  have "dexDataMapAlloc exact_mul exact_add (\<lambda>n. n < 100) 3 = Some \<lparr>dm_max = 3, dm_offsets = [], dm_types = []\<rparr>"
    by (simp add: dexDataMapAlloc_def exact_mul_def exact_add_def sizeof_DexDataMap_def)
  from data_map_alloc_fits [OF exact_mul_contract exact_add_contract this] show ?thesis
    by (simp add: sizeof_DexDataMap_def)
qed

end
