(* ===== verification/HandleTable.thy ===== *)
theory HandleTable
  imports Prelude
begin

text \<open>
  The contract of a table that hands out references (\<^verbatim>\<open>vm/IndirectRefTable.cpp\<close>): a partial map from
  the keys of references to objects, an addition that returns a reference whose key was not in use, and a removal. That a
  reference denotes its object until it is removed, whatever else the client does with the table, is
  proved once, in the locale.
\<close>

datatype ('r, 'o) table_op = Add 'o | Remove 'r

text \<open>The calls of a client; the result is the list of the references that were handed out.\<close>

fun run_table ::
  "('t \<Rightarrow> 'o \<Rightarrow> ('r \<times> 't) option) \<Rightarrow> ('t \<Rightarrow> 'r \<Rightarrow> 't option) \<Rightarrow> ('r, 'o) table_op list \<Rightarrow> 't \<Rightarrow>
   ('r list \<times> 't) option" where
  "run_table add rem [] t = Some ([], t)"
| "run_table add rem (Add x # ops) t =
     Option.bind (add t x) (\<lambda>(r, t'). map_option (\<lambda>(rs, t''). (r # rs, t'')) (run_table add rem ops t'))"
| "run_table add rem (Remove r # ops) t = Option.bind (rem t r) (run_table add rem ops)"

definition objects_valid :: "('o \<Rightarrow> bool) \<Rightarrow> ('r, 'o) table_op list \<Rightarrow> bool" where
  "objects_valid valid ops \<longleftrightarrow> list_all (\<lambda>op. case op of Add x \<Rightarrow> valid x | Remove r \<Rightarrow> True) ops"

definition never_removed :: "('r \<Rightarrow> 'h) \<Rightarrow> 'h \<Rightarrow> ('r, 'o) table_op list \<Rightarrow> bool" where
  "never_removed key h ops \<longleftrightarrow> list_all (\<lambda>op. case op of Add x \<Rightarrow> True | Remove r \<Rightarrow> key r \<noteq> h) ops"

locale handle_table =
  fixes inv :: "'t \<Rightarrow> bool" and key :: "'r \<Rightarrow> 'h" and look :: "'t \<Rightarrow> 'h \<rightharpoonup> 'o" and valid :: "'o \<Rightarrow> bool"
    and add :: "'t \<Rightarrow> 'o \<Rightarrow> ('r \<times> 't) option" and rem :: "'t \<Rightarrow> 'r \<Rightarrow> 't option"
  assumes add_law: "inv t \<Longrightarrow> valid x \<Longrightarrow> add t x = Some (r, t') \<Longrightarrow>
      inv t' \<and> look t (key r) = None \<and> look t' = (look t)(key r \<mapsto> x)"
    and rem_law: "inv t \<Longrightarrow> rem t r = Some t' \<Longrightarrow> inv t' \<and> (\<forall>h. h \<noteq> key r \<longrightarrow> look t' h = look t h)"
begin

lemma run_keeps:
  assumes "inv t" "objects_valid valid ops" "run_table add rem ops t = Some (rs, t')"
  shows "inv t' \<and> (\<forall>h x. look t h = Some x \<and> never_removed key h ops \<longrightarrow> look t' h = Some x)"
  using assms
proof (induction ops arbitrary: t rs)
  case (Cons op ops)
  then have valid: "objects_valid valid ops" by (simp add: objects_valid_def)
  show ?case
  proof (cases op)
    case (Add x)
    with Cons.prems(3) obtain r t1 rs' where t1: "add t x = Some (r, t1)" and run: "run_table add rem ops t1 = Some (rs', t')"
      by (auto simp: bind_eq_Some_conv)
    from Add Cons.prems(2) have "valid x" by (simp add: objects_valid_def)
    note law = add_law [OF Cons.prems(1) this t1]
    with Cons.IH [OF _ valid run] Add show ?thesis by (auto simp: never_removed_def split: if_splits)
  next
    case (Remove r)
    with Cons.prems(3) obtain t1 where t1: "rem t r = Some t1" and run: "run_table add rem ops t1 = Some (rs, t')"
      by (auto simp: bind_eq_Some_conv)
    with Cons.IH [OF _ valid run] rem_law [OF Cons.prems(1) t1] Remove show ?thesis by (auto simp: never_removed_def)
  qed
qed simp

text \<open>What was handed out and not taken back is in the table, under the object it was asked for.\<close>

lemma reference_until_removed:
  assumes "inv t" "valid x" "add t x = Some (r, t1)" "objects_valid valid ops" "never_removed key (key r) ops"
    "run_table add rem ops t1 = Some (rs, t')"
  shows "inv t' \<and> look t' (key r) = Some x"
  using add_law [OF assms(1-3)] run_keeps [OF _ assms(4,6)] assms(5) by auto

end

end
