(* ===== verification/IndirectRefs.thy ===== *)
theory IndirectRefs
  imports HandleTable
begin

text \<open>
  \<^verbatim>\<open>jni/dalvik/vm/IndirectRefTable.cpp\<close> and \<^verbatim>\<open>.h\<close>: the JNI reference tables. An object is its address,
  0 is \<open>NULL\<close>; an indirect reference is a 32-bit word with the serial number, the index and the kind
  packed into it. A segment state (the union \<open>IRTSegmentState\<close>, also the cookie of a frame) is a
  record of two 16-bit fields, and a write to a field keeps its low 16 bits. \<open>None\<close> is a failed assertion, an
  access outside the table or \<open>dvmAbort\<close>; whether a reallocation succeeds is an argument.
\<close>

unbundle bit_operations_syntax

section \<open>Model\<close>

datatype ref_kind = kIndirectKindInvalid | kIndirectKindLocal | kIndirectKindGlobal | kIndirectKindWeakGlobal

fun kind_bits :: "ref_kind \<Rightarrow> u4" where
  "kind_bits kIndirectKindInvalid = 0"
| "kind_bits kIndirectKindLocal = 1"
| "kind_bits kIndirectKindGlobal = 2"
| "kind_bits kIndirectKindWeakGlobal = 3"

definition indirectRefKind :: "u4 \<Rightarrow> ref_kind" where
  "indirectRefKind iref =
     (let k = iref AND 3 in
      if k = 0 then kIndirectKindInvalid else if k = 1 then kIndirectKindLocal
      else if k = 2 then kIndirectKindGlobal else kIndirectKindWeakGlobal)"

fun indirectRefKindToString :: "ref_kind \<Rightarrow> string" where
  "indirectRefKindToString kIndirectKindInvalid = ''invalid''"
| "indirectRefKindToString kIndirectKindLocal = ''local''"
| "indirectRefKindToString kIndirectKindGlobal = ''global''"
| "indirectRefKindToString kIndirectKindWeakGlobal = ''weak global''"

definition kInvalidIndirectRefObject :: u4 where "kInvalidIndirectRefObject = 0xdead4321"
definition kClearedJniWeakGlobal :: u4 where "kClearedJniWeakGlobal = 0xdead1234"

record ref_slot =
  slot_obj :: u4
  slot_serial :: u4

record segment_state =
  topIndex :: nat
  numHoles :: nat

definition IRT_FIRST_SEGMENT :: segment_state where
  "IRT_FIRST_SEGMENT = \<lparr>topIndex = 0, numHoles = 0\<rparr>"

definition field16 :: "int \<Rightarrow> nat" where "field16 n = nat (u16 n)"

record ref_table =
  segmentState :: segment_state
  irt_slots :: "ref_slot list"
  irt_kind :: ref_kind
  max_entries :: nat

definition alloc_entries :: "ref_table \<Rightarrow> nat" where
  "alloc_entries t = length (irt_slots t)"

definition extractIndex :: "u4 \<Rightarrow> nat" where
  "extractIndex iref = unat (drop_bit 2 iref AND 0xffff)"

definition extractSerial :: "u4 \<Rightarrow> u4" where
  "extractSerial iref = drop_bit 20 iref"

definition nextSerial :: "u4 \<Rightarrow> u4" where
  "nextSerial serial = (serial + 1) AND 0xfff"

definition toIndirectRef :: "nat \<Rightarrow> u4 \<Rightarrow> ref_kind \<Rightarrow> u4" where
  "toIndirectRef index serial kind = push_bit 20 serial OR push_bit 2 (of_nat index) OR kind_bits kind"

definition poison :: ref_slot where
  "poison = \<lparr>slot_obj = 0xd1d1d1d1, slot_serial = 0xd1d1d1d1\<rparr>"

definition irt_init :: "nat \<Rightarrow> nat \<Rightarrow> ref_kind \<Rightarrow> ref_table option" where
  "irt_init initialCount maxCount desiredKind =
     (if 0 < initialCount \<and> initialCount \<le> maxCount \<and> desiredKind \<noteq> kIndirectKindInvalid
      then Some \<lparr>segmentState = IRT_FIRST_SEGMENT, irt_slots = replicate initialCount poison,
        irt_kind = desiredKind, max_entries = maxCount\<rparr>
      else None)"

definition obj_at :: "ref_table \<Rightarrow> nat \<Rightarrow> u4" where
  "obj_at t i = slot_obj (irt_slots t ! i)"

definition serial_at :: "ref_table \<Rightarrow> nat \<Rightarrow> u4" where
  "serial_at t i = slot_serial (irt_slots t ! i)"

abbreviation irt_top :: "ref_table \<Rightarrow> nat" where "irt_top t \<equiv> topIndex (segmentState t)"
abbreviation irt_holes :: "ref_table \<Rightarrow> nat" where "irt_holes t \<equiv> numHoles (segmentState t)"

text \<open>The scan for a hole, from the slot below the argument down. A live slot below the bottom of
  the segment fails the assertion.\<close>

fun find_hole :: "ref_table \<Rightarrow> nat \<Rightarrow> nat \<Rightarrow> nat option" where
  "find_hole t bottom 0 = None"
| "find_hole t bottom (Suc i) =
     (if i \<ge> length (irt_slots t) then None
      else if obj_at t i \<noteq> 0 then (if i < bottom then None else find_hole t bottom i)
      else Some i)"

text \<open>The end of \<open>add\<close>: the slot is filled and its new serial number goes into the reference.\<close>

definition fill_slot :: "ref_table \<Rightarrow> nat \<Rightarrow> u4 \<Rightarrow> u4 \<times> ref_table" where
  "fill_slot t i obj =
     (let serial = nextSerial (serial_at t i) in
      (toIndirectRef i serial (irt_kind t),
       t\<lparr>irt_slots := (irt_slots t)[i := \<lparr>slot_obj = obj, slot_serial = serial\<rparr>]\<rparr>))"

definition grow_table :: "ref_table \<Rightarrow> ref_table" where
  "grow_table t =
     (let newSize = alloc_entries t * 2;
          newSize = (if newSize > max_entries t then max_entries t else newSize) in
      t\<lparr>irt_slots := irt_slots t @ replicate (newSize - alloc_entries t) poison\<rparr>)"

definition set_top :: "nat \<Rightarrow> ref_table \<Rightarrow> ref_table" where
  "set_top n t = t\<lparr>segmentState := (segmentState t)\<lparr>topIndex := field16 (int n)\<rparr>\<rparr>"

definition set_holes :: "int \<Rightarrow> ref_table \<Rightarrow> ref_table" where
  "set_holes n t = t\<lparr>segmentState := (segmentState t)\<lparr>numHoles := field16 n\<rparr>\<rparr>"

text \<open>The test after \<open>realloc\<close> looks at the old pointer, so that a failed reallocation goes on
  with \<open>memset\<close> on a null pointer.\<close>

definition irt_add :: "bool \<Rightarrow> segment_state \<Rightarrow> ref_table \<Rightarrow> u4 \<Rightarrow> (u4 \<times> ref_table) option" where
  "irt_add realloc_ok prevState t obj =
     (if obj = 0 \<or> irt_holes t < numHoles prevState then None
      else if irt_holes t - numHoles prevState > 0 then
        if irt_top t \<le> 1 \<or> irt_top t > length (irt_slots t) \<or> obj_at t (irt_top t - 1) = 0 then None
        else Option.bind (find_hole t (topIndex prevState) (irt_top t - 1))
          (\<lambda>i. Some (fill_slot (set_holes (int (irt_holes t) - 1) t) i obj))
      else if irt_top t = alloc_entries t then
        if irt_top t = max_entries t then Some (0, t)
        else if \<not> realloc_ok then None
        else if irt_top t \<ge> length (irt_slots (grow_table t)) then None
        else Some (fill_slot (set_top (irt_top t + 1) (grow_table t)) (irt_top t) obj)
      else if irt_top t > alloc_entries t then None
      else Some (fill_slot (set_top (irt_top t + 1) t) (irt_top t) obj))"

definition abortMaybe :: "bool \<Rightarrow> u4 \<Rightarrow> u4 option" where
  "abortMaybe useCheckJni result = (if \<not> useCheckJni then None else Some result)"

definition irt_get :: "bool \<Rightarrow> ref_table \<Rightarrow> u4 \<Rightarrow> u4 option" where
  "irt_get useCheckJni t iref =
     (let kind = indirectRefKind iref; index = extractIndex iref in
      if kind \<noteq> irt_kind t then
        if iref = 0 then Some kInvalidIndirectRefObject
        else if kind = kIndirectKindInvalid then abortMaybe useCheckJni kInvalidIndirectRefObject
        else Some kInvalidIndirectRefObject
      else if index \<ge> irt_top t then abortMaybe useCheckJni kInvalidIndirectRefObject
      else if index \<ge> length (irt_slots t) then None
      else if obj_at t index = 0 then abortMaybe useCheckJni kInvalidIndirectRefObject
      else if extractSerial iref \<noteq> serial_at t index then abortMaybe useCheckJni kInvalidIndirectRefObject
      else Some (obj_at t index))"

fun findObject :: "u4 \<Rightarrow> nat \<Rightarrow> ref_slot list \<Rightarrow> nat option" where
  "findObject obj i [] = None"
| "findObject obj i (s # ss) = (if slot_obj s = obj then Some i else findObject obj (Suc i) ss)"

definition find_between :: "u4 \<Rightarrow> nat \<Rightarrow> nat \<Rightarrow> ref_slot list \<Rightarrow> nat option" where
  "find_between obj bottomIndex upper ss = findObject obj bottomIndex (drop bottomIndex (take upper ss))"

definition irt_contains :: "ref_table \<Rightarrow> u4 \<Rightarrow> bool" where
  "irt_contains t obj = (find_between obj 0 (irt_top t) (irt_slots t) \<noteq> None)"

text \<open>Which entry \<open>remove\<close> acts on.\<close>

definition remove_index :: "bool \<Rightarrow> segment_state \<Rightarrow> ref_table \<Rightarrow> u4 \<Rightarrow> nat option" where
  "remove_index workAroundAppJniBugs prevState t iref =
     (let kind = indirectRefKind iref; index = extractIndex iref in
      if kind = irt_kind t then
        if index < topIndex prevState then None
        else if index \<ge> irt_top t then None
        else if obj_at t index = 0 then None
        else if serial_at t index \<noteq> extractSerial iref then None
        else Some index
      else if kind = kIndirectKindInvalid \<and> workAroundAppJniBugs then
        find_between iref (topIndex prevState) (irt_top t) (irt_slots t)
      else None)"

text \<open>The loop that gives up the holes below a removed top entry; the count is that of the segment.\<close>

fun eat_holes :: "ref_table \<Rightarrow> nat \<Rightarrow> nat \<Rightarrow> int \<Rightarrow> nat \<times> int" where
  "eat_holes t bottom 0 holes = (0, holes)"
| "eat_holes t bottom (Suc top1) holes =
     (if top1 > bottom \<and> holes \<noteq> 0 then
        if obj_at t (top1 - 1) \<noteq> 0 then (top1, holes) else eat_holes t bottom top1 (holes - 1)
      else (top1, holes))"

definition irt_remove :: "bool \<Rightarrow> segment_state \<Rightarrow> ref_table \<Rightarrow> u4 \<Rightarrow> (bool \<times> ref_table) option" where
  "irt_remove workAroundAppJniBugs prevState t iref =
     (if irt_holes t < numHoles prevState \<or> irt_top t > length (irt_slots t) then None
      else
        (case remove_index workAroundAppJniBugs prevState t iref of
           None \<Rightarrow> Some (False, t)
         | Some index \<Rightarrow>
             if index = irt_top t - 1 then
               let holes = int (irt_holes t) - int (numHoles prevState) in
               if holes \<noteq> 0 then
                 let (top', holes') = eat_holes t (topIndex prevState) (irt_top t) holes in
                 Some (True, set_top top' (set_holes (holes' + int (numHoles prevState)) t))
               else Some (True, set_top (irt_top t - 1) t)
             else
               Some (True, set_holes (int (irt_holes t) + 1)
                 (t\<lparr>irt_slots := (irt_slots t)[index := (irt_slots t ! index)\<lparr>slot_obj := 0\<rparr>]\<rparr>))))"

text \<open>Leaving a native frame: the interpreter stores the cookie back.\<close>

definition pop_segment :: "segment_state \<Rightarrow> ref_table \<Rightarrow> ref_table" where
  "pop_segment cookie t = t\<lparr>segmentState := cookie\<rparr>"

text \<open>The iterator: the positions it stops at.\<close>

definition skipped :: "u4 \<Rightarrow> bool" where
  "skipped obj \<longleftrightarrow> obj = 0 \<or> obj = kClearedJniWeakGlobal"

function skipNullsAndTombstones :: "ref_table \<Rightarrow> nat \<Rightarrow> nat" where
  "skipNullsAndTombstones t i =
     (if i < irt_top t \<and> skipped (obj_at t i) then skipNullsAndTombstones t (Suc i) else i)"
  by pat_completeness auto
termination
  by (relation "measure (\<lambda>(t, i). irt_top t - i)") auto

declare skipNullsAndTombstones.simps [simp del]

lemma skip_ge: "i \<le> skipNullsAndTombstones t i"
  by (induction t i rule: skipNullsAndTombstones.induct) (subst skipNullsAndTombstones.simps, auto)

text \<open>The loop from \<open>begin()\<close> to \<open>end()\<close>: the objects it visits.\<close>

function iterate_from :: "ref_table \<Rightarrow> nat \<Rightarrow> u4 list" where
  "iterate_from t i =
     (let j = skipNullsAndTombstones t i in
      if j < irt_top t then obj_at t j # iterate_from t (Suc j) else [])"
  by pat_completeness auto
termination
proof (relation "measure (\<lambda>(t, i). irt_top t - i)", goal_cases)
  case (2 t i j)
  with skip_ge [of i t] show ?case by simp
qed simp

declare iterate_from.simps [simp del]

section \<open>Packing a reference\<close>

lemma bit_small: "n < 2 ^ k \<Longrightarrow> bit (of_nat n :: u4) m \<Longrightarrow> m < k"
  by (metis bit_take_bit_iff of_nat_take_bit take_bit_nat_eq_self_iff take_bit_of_nat)

lemma low_masks: "(3 :: u4) = mask 2" "(0xfff :: u4) = mask 12" "(0xffff :: u4) = mask 16"
  by (simp_all add: mask_eq_exp_minus_1)

lemma kind_bits_low: "bit (kind_bits k) m \<Longrightarrow> m < 2"
  by (cases k) (auto simp: low_masks(1) bit_simps)

lemma nextSerial_take: "nextSerial s = take_bit 12 (s + 1)"
  by (simp add: nextSerial_def low_masks(2) take_bit_eq_mask)

lemma serial_low: "bit (nextSerial s) m \<Longrightarrow> m < 12"
  by (simp add: nextSerial_take bit_simps)

lemma serial_unpack: "extractSerial (toIndirectRef i (nextSerial s) k) = nextSerial s" if "i < 65536"
proof (rule bit_word_eqI)
  fix n :: nat
  assume "n < LENGTH(32)"
  have "\<not> bit (of_nat i :: u4) (18 + n)" using bit_small [of i 16] that by fastforce
  moreover have "\<not> bit (kind_bits k) (20 + n)" using kind_bits_low by fastforce
  moreover have "bit (nextSerial s) n \<Longrightarrow> n < 12" by (rule serial_low)
  ultimately show "bit (extractSerial (toIndirectRef i (nextSerial s) k)) n = bit (nextSerial s) n"
    by (auto simp: extractSerial_def toIndirectRef_def bit_simps)
qed

lemma index_unpack: "extractIndex (toIndirectRef i (nextSerial s) k) = i" if "i < 65536"
proof -
  have "drop_bit 2 (toIndirectRef i (nextSerial s) k) AND 0xffff = (of_nat i :: u4)"
  proof (rule bit_word_eqI)
    fix n :: nat
    assume n: "n < LENGTH(32)"
    have "bit (of_nat i :: u4) n \<Longrightarrow> n < 16" using bit_small [of i 16] that by fastforce
    moreover have "\<not> bit (kind_bits k) (2 + n)" using kind_bits_low by fastforce
    ultimately show "bit (drop_bit 2 (toIndirectRef i (nextSerial s) k) AND 0xffff) n = bit (of_nat i :: u4) n"
      using n by (auto simp: toIndirectRef_def low_masks(3) bit_simps simp del: bit_of_nat_iff_bit)
  qed
  with that show ?thesis by (simp add: extractIndex_def unat_of_nat)
qed

lemma kind_unpack: "indirectRefKind (toIndirectRef i s k) = k"
proof -
  have "toIndirectRef i s k AND 3 = kind_bits k"
  proof (rule bit_word_eqI)
    fix n :: nat
    assume n: "n < LENGTH(32)"
    from kind_bits_low [of k n] n show "bit (toIndirectRef i s k AND 3) n = bit (kind_bits k) n"
      by (auto simp: toIndirectRef_def low_masks(1) bit_simps)
  qed
  then show ?thesis by (cases k) (simp_all add: indirectRefKind_def)
qed

lemma ref_not_null: "k \<noteq> kIndirectKindInvalid \<Longrightarrow> toIndirectRef i s k \<noteq> 0"
  using kind_unpack [of i s k] by (auto simp: indirectRefKind_def)

text \<open>What a reference says beside its kind.\<close>

definition handle_of :: "u4 \<Rightarrow> nat \<times> u4" where
  "handle_of iref = (extractIndex iref, extractSerial iref)"

lemma handle_unpack: "i < 65536 \<Longrightarrow> handle_of (toIndirectRef i (nextSerial s) k) = (i, nextSerial s)"
  by (simp add: handle_of_def index_unpack serial_unpack)

section \<open>The invariant\<close>

definition holes_below :: "ref_table \<Rightarrow> nat \<Rightarrow> nat" where
  "holes_below t n = length (filter (\<lambda>i. obj_at t i = 0) [0..<n])"

text \<open>A cookie is right when it counts the holes below it and no hole is just below it.\<close>

definition seg_ok :: "segment_state \<Rightarrow> ref_table \<Rightarrow> bool" where
  "seg_ok c t \<longleftrightarrow> topIndex c \<le> irt_top t \<and> numHoles c = holes_below t (topIndex c) \<and>
     (topIndex c > 0 \<longrightarrow> obj_at t (topIndex c - 1) \<noteq> 0)"

definition irt_inv :: "ref_table \<Rightarrow> bool" where
  "irt_inv t \<longleftrightarrow> irt_top t \<le> length (irt_slots t) \<and> 0 < length (irt_slots t) \<and>
     length (irt_slots t) \<le> max_entries t \<and> max_entries t < 65536 \<and>
     irt_kind t \<noteq> kIndirectKindInvalid \<and> seg_ok (segmentState t) t"

definition frame_ok :: "segment_state \<Rightarrow> ref_table \<Rightarrow> bool" where
  "frame_ok c t \<longleftrightarrow> irt_inv t \<and> seg_ok c t"

definition irt_look :: "ref_table \<Rightarrow> nat \<times> u4 \<rightharpoonup> u4" where
  "irt_look t = (\<lambda>(i, s). if i < irt_top t \<and> obj_at t i \<noteq> 0 \<and> serial_at t i = s then Some (obj_at t i) else None)"

lemma holes_below_cong: "(\<And>i. i < n \<Longrightarrow> obj_at t' i = obj_at t i) \<Longrightarrow> holes_below t' n = holes_below t n"
  unfolding holes_below_def by (rule arg_cong [of _ _ length]) (auto intro: filter_cong)

lemma holes_below_Suc: "holes_below t (Suc n) = holes_below t n + (if obj_at t n = 0 then 1 else 0)"
  by (simp add: holes_below_def)

lemma holes_below_le: "holes_below t n \<le> n"
  by (metis diff_zero holes_below_def length_filter_le length_upt)

lemma holes_below_mono: "m \<le> n \<Longrightarrow> holes_below t m \<le> holes_below t n"
  by (induction n rule: dec_induct) (auto simp: holes_below_Suc)

lemma holes_between: "m \<le> n \<Longrightarrow> holes_below t m < holes_below t n \<longleftrightarrow> (\<exists>i. m \<le> i \<and> i < n \<and> obj_at t i = 0)"
proof (induction n rule: dec_induct)
  case (step n)
  then show ?case using holes_below_mono [of m n t] by (auto simp: holes_below_Suc less_Suc_eq)
qed simp

text \<open>One slot changes; the count follows.\<close>

lemma holes_below_upd:
  assumes "i < n" "\<And>j. j < n \<Longrightarrow> j \<noteq> i \<Longrightarrow> obj_at t' j = obj_at t j"
  shows "holes_below t' n + (if obj_at t i = 0 then 1 else 0) = holes_below t n + (if obj_at t' i = 0 then 1 else 0)"
  using assms
proof (induction n)
  case (Suc n)
  show ?case
  proof (cases "i = n")
    case True
    with Suc.prems(2) have "holes_below t' n = holes_below t n" by (intro holes_below_cong) simp
    with True show ?thesis by (simp add: holes_below_Suc)
  next
    case False
    with Suc show ?thesis by (simp add: holes_below_Suc)
  qed
qed simp

lemma field16_id: "0 \<le> n \<Longrightarrow> n < 65536 \<Longrightarrow> field16 n = nat n"
  by (simp add: field16_def wrap_u_id)

section \<open>Adding\<close>

lemma init_ok:
  "irt_init n m k = Some t \<Longrightarrow> m < 65536 \<Longrightarrow> frame_ok IRT_FIRST_SEGMENT t \<and> irt_look t = Map.empty"
  by (auto simp: irt_init_def frame_ok_def irt_inv_def seg_ok_def IRT_FIRST_SEGMENT_def holes_below_def
      irt_look_def split: if_splits)

lemma find_hole_found:
  assumes "n \<le> length (irt_slots t)" "b \<le> i" "i < n" "obj_at t i = 0"
  obtains j where "find_hole t b n = Some j" "b \<le> j" "j < n" "obj_at t j = 0"
proof -
  have "\<exists>j. find_hole t b n = Some j \<and> b \<le> j \<and> j < n \<and> obj_at t j = 0"
    using assms by (induction n) (auto simp: less_Suc_eq)
  with that show thesis by blast
qed

text \<open>What an addition leaves: slot \<open>i\<close>, a hole or the first unused one, holds the object.\<close>

definition filled :: "ref_table \<Rightarrow> nat \<Rightarrow> u4 \<Rightarrow> ref_table \<Rightarrow> bool" where
  "filled t i obj t' \<longleftrightarrow>
     i \<le> irt_top t \<and> (i < irt_top t \<longrightarrow> obj_at t i = 0) \<and> obj_at t' i = obj \<and>
     irt_top t' = (if i = irt_top t then Suc i else irt_top t) \<and> irt_top t' \<le> length (irt_slots t') \<and>
     (\<exists>s. serial_at t' i = nextSerial s \<and> (i < length (irt_slots t) \<longrightarrow> s = serial_at t i)) \<and>
     (\<forall>j < length (irt_slots t). j \<noteq> i \<longrightarrow> irt_slots t' ! j = irt_slots t ! j) \<and>
     length (irt_slots t) \<le> length (irt_slots t') \<and> length (irt_slots t') \<le> max_entries t \<and>
     irt_kind t' = irt_kind t \<and> max_entries t' = max_entries t"

lemma filled_obj: "filled t i obj t' \<Longrightarrow> j < length (irt_slots t) \<Longrightarrow> j \<noteq> i \<Longrightarrow>
    obj_at t' j = obj_at t j \<and> serial_at t' j = serial_at t j"
  by (simp add: filled_def obj_at_def serial_at_def)

lemma filled_slot:
  assumes "irt_top u = (if i = irt_top t then Suc i else irt_top t)" "irt_top u \<le> length (irt_slots u)"
    "i \<le> irt_top t" "i < irt_top t \<longrightarrow> obj_at t i = 0"
    "\<forall>j < length (irt_slots t). irt_slots u ! j = irt_slots t ! j"
    "length (irt_slots t) \<le> length (irt_slots u)" "length (irt_slots u) \<le> max_entries t"
    "irt_kind u = irt_kind t" "max_entries u = max_entries t"
  shows "filled t i obj (snd (fill_slot u i obj))"
proof -
  have "i < length (irt_slots u)" using assms(1-3) by (auto split: if_splits)
  with assms show ?thesis
    by (auto simp: filled_def fill_slot_def Let_def obj_at_def serial_at_def)
qed

lemma filled_inv:
  assumes inv: "irt_inv t" and "filled t i obj t'" "obj \<noteq> 0"
    and holes: "numHoles (segmentState t') = (if i = irt_top t then irt_holes t else irt_holes t - 1)"
  shows "irt_inv t'"
proof -
  note f = assms(2) [unfolded filled_def]
  have top: "irt_top t \<le> length (irt_slots t)" using inv by (simp add: irt_inv_def)
  have other: "obj_at t' j = obj_at t j" if "j < irt_top t" "j \<noteq> i" for j
    using filled_obj [OF assms(2), of j] that top by simp
  have cnt: "irt_holes t = holes_below t (irt_top t)" using inv by (simp add: irt_inv_def seg_ok_def)
  have "numHoles (segmentState t') = holes_below t' (irt_top t')"
  proof (cases "i = irt_top t")
    case True
    have "holes_below t' i = holes_below t i" using other True by (intro holes_below_cong) auto
    with True f assms(3) holes cnt show ?thesis by (simp add: holes_below_Suc)
  next
    case False
    with f have "i < irt_top t" "obj_at t i = 0" by auto
    with holes_below_upd [of i "irt_top t" t' t] other f assms(3) False cnt holes show ?thesis by auto
  qed
  moreover have "obj_at t' (irt_top t' - 1) \<noteq> 0" if "0 < irt_top t'"
  proof (cases "i = irt_top t \<or> i = irt_top t - 1")
    case True
    with f assms(3) that show ?thesis by (auto split: if_splits)
  next
    case False
    with inv other f show ?thesis by (auto simp: irt_inv_def seg_ok_def)
  qed
  ultimately show ?thesis using f inv by (auto simp: irt_inv_def seg_ok_def)
qed

lemma filled_seg:
  assumes "irt_inv t" "filled t i obj t'" "seg_ok c t" "topIndex c \<le> i"
  shows "seg_ok c t'"
proof -
  have same: "obj_at t' j = obj_at t j" if "j < topIndex c" for j
    using filled_obj [OF assms(2), of j] that assms by (auto simp: irt_inv_def seg_ok_def)
  then have "holes_below t' (topIndex c) = holes_below t (topIndex c)" by (rule holes_below_cong)
  with same assms show ?thesis by (auto simp: seg_ok_def filled_def)
qed

lemma filled_look:
  assumes "irt_inv t" "filled t i obj t'" "obj \<noteq> 0"
  shows "irt_look t (i, serial_at t' i) = None" "irt_look t' = (irt_look t)((i, serial_at t' i) \<mapsto> obj)"
proof -
  note f = assms(2) [unfolded filled_def]
  show none: "irt_look t (i, serial_at t' i) = None" using f by (auto simp: irt_look_def)
  have other: "obj_at t' j = obj_at t j \<and> serial_at t' j = serial_at t j" if "j < irt_top t" "j \<noteq> i" for j
    using filled_obj [OF assms(2), of j] that assms(1) by (auto simp: irt_inv_def)
  have "irt_look t' (j, s) = ((irt_look t)((i, serial_at t' i) \<mapsto> obj)) (j, s)" for j s
  proof (cases "j = i")
    case True
    with f assms(3) show ?thesis by (auto simp: irt_look_def split: if_splits)
  next
    case False
    with other [of j] f show ?thesis by (auto simp: irt_look_def split: if_splits)
  qed
  then show "irt_look t' = (irt_look t)((i, serial_at t' i) \<mapsto> obj)" by (auto simp: fun_eq_iff)
qed

lemma fst_fill: "fst (fill_slot u i obj) = toIndirectRef i (serial_at (snd (fill_slot u i obj)) i) (irt_kind u)"
  if "i < length (irt_slots u)"
  using that by (simp add: fill_slot_def Let_def serial_at_def)

lemma grow_slots:
  assumes "irt_inv t" "irt_top t = length (irt_slots t)" "irt_top t \<noteq> max_entries t"
  shows "length (irt_slots t) < length (irt_slots (grow_table t)) \<and>
    length (irt_slots (grow_table t)) \<le> max_entries t \<and>
    (\<forall>j < length (irt_slots t). irt_slots (grow_table t) ! j = irt_slots t ! j) \<and>
    segmentState (grow_table t) = segmentState t \<and> irt_kind (grow_table t) = irt_kind t \<and>
    max_entries (grow_table t) = max_entries t"
  using assms by (auto simp: grow_table_def Let_def irt_inv_def alloc_entries_def nth_append)

text \<open>The three ways an addition goes: into a hole of the segment, or at the top of the old or of the enlarged table.\<close>

lemma filled_frame:
  assumes "frame_ok c t" "obj \<noteq> 0" "filled t i obj (snd (fill_slot u i obj))" "topIndex c \<le> i"
    "irt_holes u = (if i = irt_top t then irt_holes t else irt_holes t - 1)"
  shows "frame_ok c (snd (fill_slot u i obj))"
  using assms filled_inv [OF _ assms(3,2)] filled_seg [OF _ assms(3)]
  by (simp add: frame_ok_def fill_slot_def Let_def)

lemma hole_found:
  assumes "frame_ok c t" "irt_holes t > numHoles c"
  obtains i where "find_hole t (topIndex c) (irt_top t - 1) = Some i" "topIndex c \<le> i" "i < irt_top t - 1"
    "obj_at t i = 0" "obj_at t (irt_top t - 1) \<noteq> 0"
proof -
  have inv: "irt_inv t" and seg: "seg_ok c t" using assms(1) by (simp_all add: frame_ok_def)
  then obtain k where k: "topIndex c \<le> k" "k < irt_top t" "obj_at t k = 0"
    using assms(2) holes_between [of "topIndex c" "irt_top t" t] by (auto simp: irt_inv_def seg_ok_def)
  then have last: "obj_at t (irt_top t - 1) \<noteq> 0" using inv by (auto simp: irt_inv_def seg_ok_def)
  with k have lt: "k < irt_top t - 1" by (cases "k = irt_top t - 1") auto
  have "irt_top t - 1 \<le> length (irt_slots t)" using inv by (auto simp: irt_inv_def)
  from find_hole_found [OF this k(1) lt k(3)] last that show thesis by metis
qed

lemma add_in_hole:
  assumes ok: "frame_ok c t" and obj: "obj \<noteq> 0" and holes: "irt_holes t > numHoles c"
  obtains i t' where "irt_add ra c t obj = Some (toIndirectRef i (serial_at t' i) (irt_kind t), t')"
    "filled t i obj t'" "frame_ok c t'" "topIndex c \<le> i"
proof -
  obtain i where i: "find_hole t (topIndex c) (irt_top t - 1) = Some i" "topIndex c \<le> i" "i < irt_top t - 1"
    "obj_at t i = 0" "obj_at t (irt_top t - 1) \<noteq> 0" using hole_found [OF ok holes] .
  define u where "u = set_holes (int (irt_holes t) - 1) t"
  have inv: "irt_top t \<le> length (irt_slots t)" "irt_top t < 65536" "length (irt_slots t) \<le> max_entries t"
    "irt_holes t = holes_below t (irt_top t)" using ok by (auto simp: frame_ok_def irt_inv_def seg_ok_def)
  have "irt_holes u = irt_holes t - 1"
    using holes holes_below_le [of t "irt_top t"] inv by (simp add: u_def set_holes_def field16_id nat_diff_distrib)
  moreover have f: "filled t i obj (snd (fill_slot u i obj))"
    using i inv by (intro filled_slot) (auto simp: u_def set_holes_def)
  moreover have "i \<noteq> irt_top t" using i(3) by simp
  ultimately have "frame_ok c (snd (fill_slot u i obj))" using filled_frame [OF ok obj f i(2)] by simp
  moreover have "irt_add ra c t obj = Some (fill_slot u i obj)"
    using holes obj i inv by (auto simp: irt_add_def u_def)
  moreover have "fst (fill_slot u i obj) = toIndirectRef i (serial_at (snd (fill_slot u i obj)) i) (irt_kind t)"
    using fst_fill [of i u obj] i inv by (simp add: u_def set_holes_def)
  ultimately show thesis using that f i(2) by (metis prod.collapse)
qed

lemma add_at_top:
  assumes ok: "frame_ok c t" and obj: "obj \<noteq> 0"
    and g: "irt_top t < length (irt_slots g)" "length (irt_slots t) \<le> length (irt_slots g)"
    "length (irt_slots g) \<le> max_entries t" "\<forall>j < length (irt_slots t). irt_slots g ! j = irt_slots t ! j"
    "segmentState g = segmentState t" "irt_kind g = irt_kind t" "max_entries g = max_entries t"
    and add: "irt_add ra c t obj = Some (fill_slot (set_top (irt_top t + 1) g) (irt_top t) obj)"
  obtains i t' where "irt_add ra c t obj = Some (toIndirectRef i (serial_at t' i) (irt_kind t), t')"
    "filled t i obj t'" "frame_ok c t'" "topIndex c \<le> i"
proof -
  define u where "u = set_top (irt_top t + 1) g"
  have inv: "irt_top t < 65535" "topIndex c \<le> irt_top t" using ok g by (auto simp: frame_ok_def irt_inv_def seg_ok_def)
  have u: "segmentState u = (segmentState t)\<lparr>topIndex := Suc (irt_top t)\<rparr>" "irt_slots u = irt_slots g"
    "irt_kind u = irt_kind t" "max_entries u = max_entries t"
    using g inv by (simp_all add: u_def set_top_def field16_id nat_add_distrib)
  have f: "filled t (irt_top t) obj (snd (fill_slot u (irt_top t) obj))"
    using g u by (intro filled_slot) auto
  moreover have "frame_ok c (snd (fill_slot u (irt_top t) obj))"
    using filled_frame [OF ok obj f inv(2)] u by simp
  ultimately show thesis using that add fst_fill [of "irt_top t" u obj] u g inv by (metis prod.collapse u_def)
qed

text \<open>An addition to a good table either finds it full, or fails to enlarge it, or fills a slot of the segment.\<close>

lemma add_cases:
  assumes ok: "frame_ok c t" and obj: "obj \<noteq> 0"
  obtains (full) "irt_add ra c t obj = Some (0, t)" "irt_top t = max_entries t" "irt_holes t = numHoles c"
  | (crash) "irt_add ra c t obj = None" "\<not> ra" "irt_top t = length (irt_slots t)" "irt_top t \<noteq> max_entries t"
      "irt_holes t = numHoles c"
  | (slot) i t' where
      "irt_add ra c t obj = Some (toIndirectRef i (serial_at t' i) (irt_kind t), t')"
      "filled t i obj t'" "frame_ok c t'" "topIndex c \<le> i"
proof (cases "irt_holes t > numHoles c")
  case True
  from add_in_hole [OF ok obj True] slot show thesis by metis
next
  case False
  have inv: "irt_inv t" and seg: "seg_ok c t" using ok by (simp_all add: frame_ok_def)
  then have eq: "irt_holes t = numHoles c"
    using False holes_below_mono [of "topIndex c" "irt_top t" t] by (auto simp: irt_inv_def seg_ok_def)
  have top: "irt_top t \<le> length (irt_slots t)" "length (irt_slots t) \<le> max_entries t" using inv by (auto simp: irt_inv_def)
  consider (room) "irt_top t < length (irt_slots t)" | (max) "irt_top t = length (irt_slots t)" "irt_top t = max_entries t"
    | (grow) "irt_top t = length (irt_slots t)" "irt_top t \<noteq> max_entries t" using top by linarith
  then show thesis
  proof cases
    case room
    with eq obj have add: "irt_add ra c t obj = Some (fill_slot (set_top (irt_top t + 1) t) (irt_top t) obj)"
      by (simp add: irt_add_def alloc_entries_def)
    show thesis by (rule add_at_top [OF ok obj room _ _ _ _ _ _ add]) (use top in \<open>auto intro: slot\<close>)
  next
    case max
    with eq obj have "irt_add ra c t obj = Some (0, t)" by (simp add: irt_add_def alloc_entries_def)
    from full [OF this max(2) eq] show thesis .
  next
    case grow
    note g = grow_slots [OF inv grow]
    show thesis
    proof (cases ra)
      case False
      with grow eq obj have "irt_add ra c t obj = None" by (simp add: irt_add_def alloc_entries_def)
      from crash [OF this False grow eq] show thesis .
    next
      case True
      with eq obj grow g have add: "irt_add ra c t obj = Some (fill_slot (set_top (irt_top t + 1) (grow_table t)) (irt_top t) obj)"
        by (simp add: irt_add_def alloc_entries_def)
      show thesis by (rule add_at_top [OF ok obj _ _ _ _ _ _ _ add]) (use g grow in \<open>auto intro: slot\<close>)
    qed
  qed
qed

section \<open>Looking up and removing\<close>

lemma get_look:
  assumes "irt_inv t" "irt_look t (handle_of iref) = Some obj" "indirectRefKind iref = irt_kind t"
  shows "irt_get cj t iref = Some obj"
  using assms by (auto simp: irt_get_def irt_look_def handle_of_def irt_inv_def Let_def split: if_splits)

lemma get_invalid:
  assumes "irt_inv t" "irt_look t (handle_of iref) = None \<or> indirectRefKind iref \<noteq> irt_kind t"
  shows "irt_get True t iref = Some kInvalidIndirectRefObject"
  using assms by (auto simp: irt_get_def irt_look_def handle_of_def irt_inv_def Let_def abortMaybe_def split: if_splits)

lemma findObject_found: "findObject obj i ss = Some k \<Longrightarrow> i \<le> k \<and> k < i + length ss \<and> slot_obj (ss ! (k - i)) = obj"
  by (induction obj i ss rule: findObject.induct) (force split: if_splits simp: nth_Cons')+

lemma find_between_found:
  assumes "find_between obj b upper ss = Some k" "upper \<le> length ss"
  shows "b \<le> k \<and> k < upper \<and> slot_obj (ss ! k) = obj"
  using findObject_found [OF assms(1) [unfolded find_between_def]] assms(2) by auto

lemma remove_index_live:
  assumes "irt_inv t" "iref \<noteq> 0 \<or> \<not> wa" "remove_index wa c t iref = Some i"
  shows "topIndex c \<le> i \<and> i < irt_top t \<and> obj_at t i \<noteq> 0 \<and>
    (i, serial_at t i) = (if indirectRefKind iref = irt_kind t then handle_of iref else (i, serial_at t i))"
  using assms find_between_found [of iref "topIndex c" "irt_top t" "irt_slots t" i]
  by (auto simp: remove_index_def Let_def handle_of_def irt_inv_def obj_at_def split: if_splits)

text \<open>Giving up the holes below the removed top entry stops at the last live entry of the segment.\<close>

lemma eat_holes_top:
  assumes "bottom < n" "eat_holes t bottom n h = (n', h')"
    "h = int (holes_below t (n - 1)) - int (holes_below t bottom)"
  shows "bottom \<le> n' \<and> n' < n \<and> h' = int (holes_below t n') - int (holes_below t bottom) \<and>
    (bottom < n' \<longrightarrow> obj_at t (n' - 1) \<noteq> 0) \<and> (\<forall>j. n' \<le> j \<and> j < n - 1 \<longrightarrow> obj_at t j = 0)"
  using assms
proof (induction t bottom n h rule: eat_holes.induct)
  case (2 t bottom m h)
  show ?case
  proof (cases "m > bottom \<and> h \<noteq> 0 \<and> obj_at t (m - 1) = 0")
    case True
    then obtain k where k: "m = Suc k" by (cases m) auto
    with True "2.prems" have "h - 1 = int (holes_below t (m - 1)) - int (holes_below t bottom)"
      by (simp add: holes_below_Suc)
    with "2.IH" True "2.prems" have IH: "bottom \<le> n' \<and> n' < m \<and> h' = int (holes_below t n') - int (holes_below t bottom) \<and>
      (bottom < n' \<longrightarrow> obj_at t (n' - 1) \<noteq> 0) \<and> (\<forall>j. n' \<le> j \<and> j < m - 1 \<longrightarrow> obj_at t j = 0)" by auto
    have "obj_at t j = 0" if "n' \<le> j" "j < m" for j using IH True that k by (cases "j = m - 1") auto
    with IH show ?thesis by auto
  next
    case False
    with "2.prems" have eq: "n' = m" "h' = h" by (auto split: if_splits)
    moreover have "obj_at t (m - 1) \<noteq> 0" if "bottom < m"
      using False that "2.prems"(3) holes_between [of bottom m t] by auto
    ultimately show ?thesis using "2.prems" by auto
  qed
qed simp

text \<open>What a removal of entry \<open>i\<close> leaves.\<close>

definition removed :: "ref_table \<Rightarrow> nat \<Rightarrow> ref_table \<Rightarrow> bool" where
  "removed t i t' \<longleftrightarrow>
     i < irt_top t \<and> obj_at t i \<noteq> 0 \<and> irt_top t' \<le> irt_top t \<and> (i < irt_top t' \<longrightarrow> obj_at t' i = 0) \<and>
     (\<forall>j < length (irt_slots t). serial_at t' j = serial_at t j \<and> (j \<noteq> i \<longrightarrow> obj_at t' j = obj_at t j)) \<and>
     (\<forall>j. irt_top t' \<le> j \<and> j < irt_top t \<and> j \<noteq> i \<longrightarrow> obj_at t j = 0) \<and>
     length (irt_slots t') = length (irt_slots t) \<and> irt_kind t' = irt_kind t \<and> max_entries t' = max_entries t"

lemma removed_look:
  assumes "irt_inv t" "removed t i t'"
  shows "irt_look t' = (irt_look t)((i, serial_at t i) := None)"
proof -
  have "irt_look t' (j, s) = ((irt_look t)((i, serial_at t i) := None)) (j, s)" for j s
  proof (cases "j < irt_top t")
    case True
    then have "j < length (irt_slots t)" using assms(1) by (simp add: irt_inv_def)
    with True assms(2) show ?thesis
      by (cases "j < irt_top t'") (auto simp: irt_look_def removed_def not_less split: if_splits)
  next
    case False
    with assms(2) show ?thesis by (auto simp: irt_look_def removed_def)
  qed
  then show ?thesis by (auto simp: fun_eq_iff)
qed

lemma removed_seg:
  assumes "irt_inv t" "removed t i t'" "seg_ok c t" "topIndex c \<le> i" "topIndex c \<le> irt_top t'"
  shows "seg_ok c t'"
proof -
  have same: "obj_at t' j = obj_at t j" if "j < topIndex c" for j
    using assms that by (auto simp: removed_def irt_inv_def seg_ok_def)
  then have "holes_below t' (topIndex c) = holes_below t (topIndex c)" by (rule holes_below_cong)
  with same assms show ?thesis by (auto simp: seg_ok_def)
qed

lemma remove_top:
  assumes ok: "frame_ok c t" and "topIndex c < irt_top t" and live: "obj_at t (irt_top t - 1) \<noteq> 0"
    and eat: "eat_holes t (topIndex c) (irt_top t) (int (irt_holes t) - int (numHoles c)) = (n', h')"
    and t': "t' = set_top n' (set_holes (h' + int (numHoles c)) t)"
  shows "removed t (irt_top t - 1) t' \<and> frame_ok c t' \<and> irt_top t' < irt_top t"
proof -
  have inv: "irt_inv t" and seg: "seg_ok c t" using ok by (simp_all add: frame_ok_def)
  have cnt: "irt_holes t = holes_below t (irt_top t)" "numHoles c = holes_below t (topIndex c)"
    and small: "irt_top t \<le> length (irt_slots t)" "irt_top t < 65536"
    using inv seg by (auto simp: irt_inv_def seg_ok_def)
  obtain m where m: "irt_top t = Suc m" using assms(2) by (cases "irt_top t") auto
  have "irt_holes t = holes_below t m" using cnt live m by (simp add: holes_below_Suc)
  with eat_holes_top [OF assms(2) eat] cnt m have
    n': "topIndex c \<le> n'" "n' < irt_top t" "h' = int (holes_below t n') - int (numHoles c)"
      "topIndex c < n' \<longrightarrow> obj_at t (n' - 1) \<noteq> 0" "\<forall>j. n' \<le> j \<and> j < irt_top t - 1 \<longrightarrow> obj_at t j = 0" by auto
  have st: "segmentState t' = \<lparr>topIndex = n', numHoles = holes_below t n'\<rparr>" "irt_slots t' = irt_slots t"
    "irt_kind t' = irt_kind t" "max_entries t' = max_entries t"
    using n' small holes_below_le [of t n'] by (simp_all add: t' set_top_def set_holes_def field16_id)
  then have obj: "obj_at t' = obj_at t" "serial_at t' = serial_at t" by (simp_all add: fun_eq_iff obj_at_def serial_at_def)
  have r: "removed t (irt_top t - 1) t'"
    using n' st obj live m by (auto simp: removed_def)
  have below: "holes_below t' n = holes_below t n" for n using obj by (intro holes_below_cong) simp
  have "0 < n' \<longrightarrow> obj_at t (n' - 1) \<noteq> 0" using n'(1,4) seg by (cases "topIndex c < n'") (auto simp: seg_ok_def)
  then have "irt_inv t'" using inv st obj below n' small by (auto simp: irt_inv_def seg_ok_def)
  moreover have "seg_ok c t'" using removed_seg [OF inv r seg] n' st m by auto
  ultimately show ?thesis using r st n' by (simp add: frame_ok_def)
qed

lemma remove_middle:
  assumes ok: "frame_ok c t" and i: "topIndex c \<le> i" "i < irt_top t - 1" "obj_at t i \<noteq> 0"
    and t': "t' = set_holes (int (irt_holes t) + 1)
      (t\<lparr>irt_slots := (irt_slots t)[i := (irt_slots t ! i)\<lparr>slot_obj := 0\<rparr>]\<rparr>)"
  shows "removed t i t' \<and> frame_ok c t' \<and> irt_top t' = irt_top t"
proof -
  have inv: "irt_inv t" and seg: "seg_ok c t" using ok by (simp_all add: frame_ok_def)
  have cnt: "irt_holes t = holes_below t (irt_top t)" and small: "irt_top t \<le> length (irt_slots t)" "irt_top t < 65536"
    using inv by (auto simp: irt_inv_def seg_ok_def)
  have obj: "obj_at t' j = (if j = i then 0 else obj_at t j)" "serial_at t' j = serial_at t j" for j
    using i small by (auto simp: t' set_holes_def obj_at_def serial_at_def nth_list_update)
  have upd: "holes_below t' (irt_top t) = irt_holes t + 1"
    using holes_below_upd [of i "irt_top t" t' t] i obj cnt by auto
  then have "irt_holes t + 1 < 65536" using holes_below_le [of t' "irt_top t"] small by simp
  then have st: "segmentState t' = \<lparr>topIndex = irt_top t, numHoles = irt_holes t + 1\<rparr>"
    by (simp add: t' set_holes_def field16_id nat_add_distrib)
  have r: "removed t i t'" using i small obj st by (auto simp: removed_def t' set_holes_def)
  have "irt_inv t'" using inv st obj upd i by (auto simp: irt_inv_def seg_ok_def t' set_holes_def)
  moreover have "seg_ok c t'" using removed_seg [OF inv r seg i(1)] st seg by (simp add: seg_ok_def)
  ultimately show ?thesis using r st by (simp add: frame_ok_def)
qed

lemma remove_cases:
  assumes ok: "frame_ok c t" and "iref \<noteq> 0 \<or> \<not> wa"
  obtains (miss) "irt_remove wa c t iref = Some (False, t)" "remove_index wa c t iref = None"
  | (gone) i t' where "irt_remove wa c t iref = Some (True, t')" "remove_index wa c t iref = Some i"
      "removed t i t'" "frame_ok c t'" "topIndex c \<le> i"
proof -
  have inv: "irt_inv t" and seg: "seg_ok c t" using ok by (simp_all add: frame_ok_def)
  then have guard: "\<not> irt_holes t < numHoles c" "\<not> irt_top t > length (irt_slots t)"
    using holes_below_mono [of "topIndex c" "irt_top t" t] by (auto simp: irt_inv_def seg_ok_def)
  show thesis
  proof (cases "remove_index wa c t iref")
    case None
    with guard have "irt_remove wa c t iref = Some (False, t)" by (simp add: irt_remove_def)
    from miss [OF this None] show thesis .
  next
    case (Some i)
    note i = remove_index_live [OF inv assms(2) Some]
    show thesis
    proof (cases "i = irt_top t - 1")
      case True
      obtain n' h' where e: "eat_holes t (topIndex c) (irt_top t) (int (irt_holes t) - int (numHoles c)) = (n', h')" by fastforce
      let ?t' = "set_top n' (set_holes (h' + int (numHoles c)) t)"
      have "irt_remove wa c t iref = Some (True, ?t')"
      proof (cases "irt_holes t = numHoles c")
        case no_holes: True
        from i obtain m where m: "irt_top t = Suc m" by (cases "irt_top t") auto
        with e no_holes have "n' = irt_top t - 1" "h' = 0" by auto
        moreover have "irt_holes t < 65536" using inv holes_below_le [of t "irt_top t"] by (auto simp: irt_inv_def seg_ok_def)
        then have "set_holes (int (numHoles c)) t = t" using no_holes by (simp add: set_holes_def field16_id)
        ultimately show ?thesis using guard Some True no_holes by (simp add: irt_remove_def)
      next
        case False
        with guard Some True e show ?thesis by (simp add: irt_remove_def Let_def)
      qed
      moreover have "removed t i ?t' \<and> frame_ok c ?t'" using remove_top [OF ok _ _ e refl] i True by auto
      ultimately show thesis using gone [OF _ Some] i by blast
    next
      case False
      let ?t' = "set_holes (int (irt_holes t) + 1) (t\<lparr>irt_slots := (irt_slots t)[i := (irt_slots t ! i)\<lparr>slot_obj := 0\<rparr>]\<rparr>)"
      have "irt_remove wa c t iref = Some (True, ?t')" using guard Some False by (simp add: irt_remove_def)
      moreover have "removed t i ?t' \<and> frame_ok c ?t'" using remove_middle [OF ok _ _ _ refl] i False by auto
      ultimately show thesis using gone [OF _ Some] i by blast
    qed
  qed
qed

section \<open>The table as a map of handles\<close>

text \<open>The calls of a client: \<open>add\<close> with memory to spare, whose null result is a refusal, and
  \<open>remove\<close> without the work-around for applications that pass raw pointers.\<close>

definition table_add :: "segment_state \<Rightarrow> ref_table \<Rightarrow> u4 \<Rightarrow> (u4 \<times> ref_table) option" where
  "table_add c t obj =
     (case irt_add True c t obj of
        None \<Rightarrow> None | Some (iref, t') \<Rightarrow> if iref = 0 then None else Some (iref, t'))"

definition table_remove :: "segment_state \<Rightarrow> ref_table \<Rightarrow> u4 \<Rightarrow> ref_table option" where
  "table_remove c t iref = map_option snd (irt_remove False c t iref)"

lemma filled_serial: "filled t i obj t' \<Longrightarrow> irt_inv t' \<Longrightarrow>
    i < 65536 \<and> handle_of (toIndirectRef i (serial_at t' i) k) = (i, serial_at t' i)"
  using handle_unpack [of i] by (auto simp: filled_def irt_inv_def split: if_splits)

lemma table_add_law:
  assumes "frame_ok c t" "obj \<noteq> 0" "table_add c t obj = Some (iref, t')"
  shows "frame_ok c t' \<and> irt_look t (handle_of iref) = None \<and> irt_look t' = (irt_look t)(handle_of iref \<mapsto> obj)"
  using assms(1,2)
proof (cases rule: add_cases [of c t obj True])
  case (slot i u)
  have inv: "irt_inv t" "irt_inv u" using assms(1) slot by (simp_all add: frame_ok_def)
  from filled_serial [OF slot(2) inv(2)] slot(1) assms(3)
  have "handle_of iref = (i, serial_at u i)" "t' = u" by (auto simp: table_add_def split: if_splits)
  with slot filled_look [OF inv(1) slot(2) assms(2)] show ?thesis by simp
qed (use assms(3) in \<open>simp_all add: table_add_def\<close>)

lemma table_remove_law:
  assumes "frame_ok c t" "table_remove c t iref = Some t'"
  shows "frame_ok c t' \<and> (\<forall>h. h \<noteq> handle_of iref \<longrightarrow> irt_look t' h = irt_look t h)"
proof -
  have "iref \<noteq> 0 \<or> \<not> False" by simp
  with assms(1) show ?thesis
  proof (cases rule: remove_cases [of c t iref False])
    case (gone i u)
    have inv: "irt_inv t" using assms(1) by (simp add: frame_ok_def)
    have "(i, serial_at t i) = handle_of iref"
      using gone(2) remove_index_live [OF inv _ gone(2)] by (auto simp: remove_index_def Let_def split: if_splits)
    with gone assms(2) removed_look [OF inv gone(3)] show ?thesis by (auto simp: table_remove_def)
  qed (use assms in \<open>simp_all add: table_remove_def\<close>)
qed

interpretation irt: handle_table "frame_ok c" handle_of irt_look "\<lambda>obj. obj \<noteq> 0" "table_add c" "table_remove c"
  for c :: segment_state
  by unfold_locales (use table_add_law table_remove_law in blast)+

section \<open>Segments\<close>

text \<open>What a native method does with its frame: additions and removals under the frame's cookie,
  and frames that it opens and leaves itself.\<close>

datatype frame_op = FAdd u4 | FRemove u4 | FCall "frame_op list"

fun run_frame :: "segment_state \<Rightarrow> ref_table \<Rightarrow> frame_op \<Rightarrow> ref_table option"
  and run_frames :: "segment_state \<Rightarrow> ref_table \<Rightarrow> frame_op list \<Rightarrow> ref_table option" where
  "run_frame c t (FAdd obj) = map_option snd (irt_add True c t obj)"
| "run_frame c t (FRemove iref) = map_option snd (irt_remove False c t iref)"
| "run_frame c t (FCall ops) =
     map_option (pop_segment (segmentState t)) (run_frames (segmentState t) t ops)"
| "run_frames c t [] = Some t"
| "run_frames c t (op # ops) = Option.bind (run_frame c t op) (\<lambda>t'. run_frames c t' ops)"

text \<open>The lower segments: the entries below the cookie are the same, in a good table.\<close>

definition same_below :: "segment_state \<Rightarrow> ref_table \<Rightarrow> ref_table \<Rightarrow> bool" where
  "same_below c t t' \<longleftrightarrow> length (irt_slots t) \<le> length (irt_slots t') \<and>
     (\<forall>j < topIndex c. obj_at t' j = obj_at t j \<and> serial_at t' j = serial_at t j)"

lemma same_below_trans: "same_below c t t' \<Longrightarrow> same_below c t' t'' \<Longrightarrow> same_below c t t''"
  by (auto simp: same_below_def)

lemma same_below_refl [simp]: "same_below c t t"
  by (simp add: same_below_def)

lemma frame_room: "frame_ok c t \<Longrightarrow> topIndex c \<le> irt_top t \<and> topIndex c \<le> length (irt_slots t)"
  by (auto simp: frame_ok_def irt_inv_def seg_ok_def)

lemma filled_same:
  assumes "filled t i obj t'" "frame_ok c t" "topIndex c \<le> i"
  shows "same_below c t t'"
  unfolding same_below_def
proof (intro conjI allI impI)
  show "length (irt_slots t) \<le> length (irt_slots t')" using assms(1) by (simp add: filled_def)
qed (use filled_obj [OF assms(1)] frame_room [OF assms(2)] assms(3) in auto)

lemma removed_same: "removed t i t' \<Longrightarrow> frame_ok c t \<Longrightarrow> topIndex c \<le> i \<Longrightarrow> same_below c t t'"
  using frame_room [of c t] by (auto simp: same_below_def removed_def)

lemma same_below_seg:
  assumes "same_below c t t'" "topIndex d \<le> topIndex c" "seg_ok d t" "topIndex d \<le> irt_top t'"
  shows "seg_ok d t'"
proof -
  have "holes_below t' (topIndex d) = holes_below t (topIndex d)"
    using assms(1,2) by (intro holes_below_cong) (auto simp: same_below_def)
  with assms show ?thesis by (auto simp: seg_ok_def same_below_def)
qed

lemma pop_ok:
  assumes "frame_ok c t" "frame_ok (segmentState t) t'" "same_below (segmentState t) t t'"
  shows "frame_ok c (pop_segment (segmentState t) t')"
proof -
  let ?p = "pop_segment (segmentState t) t'"
  have obj: "obj_at ?p = obj_at t'" by (simp add: fun_eq_iff obj_at_def pop_segment_def)
  then have below: "holes_below ?p n = holes_below t' n" for n by (intro holes_below_cong) simp
  have "seg_ok c t'" using assms same_below_seg [OF assms(3), of c] by (auto simp: frame_ok_def seg_ok_def)
  then have "seg_ok c ?p" using assms(1) obj below by (simp add: seg_ok_def frame_ok_def pop_segment_def)
  moreover have "seg_ok (segmentState t) ?p" using assms(2) obj below by (simp add: seg_ok_def frame_ok_def pop_segment_def)
  ultimately show ?thesis using assms(2) by (auto simp: frame_ok_def irt_inv_def pop_segment_def seg_ok_def)
qed

lemma pop_below:
  assumes "frame_ok c t" "same_below (segmentState t) t t'"
  shows "same_below c t (pop_segment (segmentState t) t')" "irt_look (pop_segment (segmentState t) t') = irt_look t"
  using assms frame_room [OF assms(1)]
  by (auto simp: same_below_def pop_segment_def obj_at_def serial_at_def irt_look_def fun_eq_iff)

lemma run_frame_ok:
  "frame_ok c t \<Longrightarrow> run_frame c t op = Some t' \<Longrightarrow> frame_ok c t' \<and> same_below c t t'"
  "frame_ok c t \<Longrightarrow> run_frames c t ops = Some t' \<Longrightarrow> frame_ok c t' \<and> same_below c t t'"
proof (induction c t op and c t ops arbitrary: t' and t' rule: run_frame_run_frames.induct)
  case (1 c t obj)
  show ?case
  proof (cases "obj = 0")
    case True
    with 1(2) show ?thesis by (simp add: irt_add_def)
  next
    case False
    with 1(1) show ?thesis
      using 1 by (cases rule: add_cases [of c t obj True]) (auto dest: filled_same)
  qed
next
  case (2 c t iref)
  have "iref \<noteq> 0 \<or> \<not> False" by simp
  with 2(1) show ?case
    using 2 by (cases rule: remove_cases [of c t iref False]) (auto dest: removed_same)
next
  case (3 c t ops)
  then obtain u where u: "run_frames (segmentState t) t ops = Some u" "t' = pop_segment (segmentState t) u" by auto
  have "frame_ok (segmentState t) t" using "3.prems"(1) by (simp add: frame_ok_def irt_inv_def)
  with "3.IH" u have "frame_ok (segmentState t) u" "same_below (segmentState t) t u" by auto
  with u pop_ok [OF "3.prems"(1)] pop_below [OF "3.prems"(1)] show ?case by simp
next
  case (5 c t op ops)
  then show ?case by (auto simp: bind_eq_Some_conv intro: same_below_trans)
qed auto

lemma kind_kept [frame_simps]:
  "irt_add ra c t obj = Some (r, t') \<Longrightarrow> irt_kind t' = irt_kind t"
  "irt_remove wa c t iref = Some (b, t') \<Longrightarrow> irt_kind t' = irt_kind t"
  by (auto simp: irt_add_def irt_remove_def fill_slot_def set_holes_def set_top_def grow_table_def Let_def
      bind_eq_Some_conv split: if_splits option.splits prod.splits)

lemma run_kind:
  "run_frame c t op = Some t' \<Longrightarrow> irt_kind t' = irt_kind t"
  "run_frames c t ops = Some t' \<Longrightarrow> irt_kind t' = irt_kind t"
proof (induction c t op and c t ops arbitrary: t' and t' rule: run_frame_run_frames.induct)
  case (5 c t op ops)
  from "5.prems" obtain u where u: "run_frame c t op = Some u" "run_frames c u ops = Some t'"
    by (auto simp: bind_eq_Some_conv)
  from "5.IH"(1) [OF u(1)] "5.IH"(2) [OF u] show ?case by simp
qed (auto simp: pop_segment_def dest: kind_kept)

section \<open>Serial numbers\<close>

lemma unat_nextSerial: "unat (nextSerial s) = (unat s + 1) mod 4096"
proof -
  have "unat (nextSerial s) = unat (s + 1) mod 4096"
    by (simp only: nextSerial_take unsigned_take_bit_eq) (simp add: take_bit_eq_mod)
  also have "\<dots> = ((unat s + 1) mod 4294967296) mod 4096" by (simp add: unat_word_ariths)
  also have "\<dots> = (unat s + 1) mod 4096" by (rule mod_mod_cancel) simp
  finally show ?thesis .
qed

lemma extractSerial_less: "unat (extractSerial iref) < 4096"
proof -
  have "unat iref div 2 ^ 20 < 4096" using unat_u4_less [of iref] by (simp add: less_mult_imp_div_less)
  then show ?thesis
    by (simp only: extractSerial_def unsigned_drop_bit_eq) (simp add: drop_bit_eq_div take_bit_eq_mod)
qed

text \<open>The number of additions in a frame, calls included.\<close>

fun adds_in :: "frame_op \<Rightarrow> nat" and adds_in_all :: "frame_op list \<Rightarrow> nat" where
  "adds_in (FAdd obj) = 1"
| "adds_in (FRemove iref) = 0"
| "adds_in (FCall ops) = adds_in_all ops"
| "adds_in_all [] = 0"
| "adds_in_all (op # ops) = adds_in op + adds_in_all ops"

text \<open>A handle is stale after at most \<open>k\<close> additions: its slot is not in use, or has moved on by
  at least one and at most \<open>k\<close> serial numbers.\<close>

definition moved_on :: "nat \<Rightarrow> u4 \<Rightarrow> u4 \<Rightarrow> bool" where
  "moved_on k s s' \<longleftrightarrow> (\<exists>j. 1 \<le> j \<and> j \<le> k \<and> unat s' = (unat s + j) mod 4096)"

definition stale :: "nat \<Rightarrow> nat \<times> u4 \<Rightarrow> ref_table \<Rightarrow> bool" where
  "stale k = (\<lambda>(i, s) t. i < length (irt_slots t) \<and> unat s < 4096 \<and>
     (serial_at t i = s \<and> \<not> (i < irt_top t \<and> obj_at t i \<noteq> 0) \<or>
      moved_on k s (serial_at t i)))"

lemma moved_on_mono: "moved_on k s s' \<Longrightarrow> k \<le> k' \<Longrightarrow> moved_on k' s s'"
  by (meson moved_on_def order_trans)

lemma moved_on_differs:
  assumes "moved_on k s s'" "k < 4096" "unat s < 4096"
  shows "s' \<noteq> s"
proof -
  from assms(1) obtain j where j: "1 \<le> j" "j \<le> k" "unat s' = (unat s + j) mod 4096" by (auto simp: moved_on_def)
  have "(unat s + j) mod 4096 \<noteq> unat s"
  proof (cases "unat s + j < 4096")
    case False
    then have "(unat s + j) mod 4096 = unat s + j - 4096" using j assms by (simp add: mod_if)
    with False j assms show ?thesis by simp
  qed (use j in simp)
  with j show ?thesis by auto
qed

lemma moved_on_next:
  assumes "s' = s \<or> moved_on k s s'" "unat s < 4096"
  shows "moved_on (Suc k) s (nextSerial s')"
proof -
  from assms obtain j where "j \<le> k" "unat s' = (unat s + j) mod 4096"
    by (metis add.right_neutral le0 mod_less moved_on_def)
  then have "1 \<le> j + 1 \<and> j + 1 \<le> Suc k \<and> unat (nextSerial s') = (unat s + (j + 1)) mod 4096"
    by (simp add: unat_nextSerial mod_Suc_eq)
  then show ?thesis unfolding moved_on_def by blast
qed

lemma stale_mono: "stale k h t \<Longrightarrow> k \<le> k' \<Longrightarrow> stale k' h t"
  by (auto simp: stale_def split: prod.splits intro: moved_on_mono)

lemma stale_shrink:
  assumes "stale k (i, s) t" "length (irt_slots t) \<le> length (irt_slots t')" "serial_at t' i = serial_at t i"
    "i < irt_top t' \<and> obj_at t' i \<noteq> 0 \<longrightarrow> i < irt_top t \<and> obj_at t i \<noteq> 0"
  shows "stale k (i, s) t'"
  using assms by (auto simp: stale_def)

lemma stale_look: "stale k h t \<Longrightarrow> k < 4096 \<Longrightarrow> irt_look t h = None"
  by (auto simp: stale_def irt_look_def split: prod.splits dest: moved_on_differs)

lemma stale_filled:
  assumes "stale k (i, s) t" "filled t l obj t'"
  shows "stale (Suc k) (i, s) t'"
proof (cases "l = i")
  case True
  have i: "i < length (irt_slots t)" "unat s < 4096" "serial_at t i = s \<or> moved_on k s (serial_at t i)"
    using assms(1) by (auto simp: stale_def)
  then have "serial_at t' i = nextSerial (serial_at t i)" using assms(2) True by (auto simp: filled_def)
  with moved_on_next [OF i(3,2)] i assms(2) show ?thesis by (auto simp: stale_def filled_def)
next
  case False
  have "stale k (i, s) t'"
  proof (rule stale_shrink [OF assms(1)])
    have i: "i < length (irt_slots t)" using assms(1) by (simp add: stale_def)
    note f = filled_obj [OF assms(2) i] False
    show "serial_at t' i = serial_at t i" using f by simp
    show "i < irt_top t' \<and> obj_at t' i \<noteq> 0 \<longrightarrow> i < irt_top t \<and> obj_at t i \<noteq> 0"
      using f assms(2) by (auto simp: filled_def split: if_splits)
  qed (use assms(2) in \<open>simp add: filled_def\<close>)
  then show ?thesis by (rule stale_mono) simp
qed

lemma stale_removed:
  assumes "stale k (i, s) t" "removed t l t'"
  shows "stale k (i, s) t'"
  using assms by (intro stale_shrink [OF assms(1)]) (auto simp: removed_def stale_def)

lemma stale_run:
  "frame_ok c t \<Longrightarrow> stale k (i, s) t \<Longrightarrow> run_frame c t op = Some t' \<Longrightarrow> stale (k + adds_in op) (i, s) t'"
  "frame_ok c t \<Longrightarrow> stale k (i, s) t \<Longrightarrow> run_frames c t ops = Some t' \<Longrightarrow> stale (k + adds_in_all ops) (i, s) t'"
proof (induction c t op and c t ops arbitrary: k t' and k t' rule: run_frame_run_frames.induct)
  case (1 c t obj)
  show ?case
  proof (cases "obj = 0")
    case True
    with 1(3) show ?thesis by (simp add: irt_add_def)
  next
    case False
    with 1(1) show ?thesis
      using 1(2,3) by (cases rule: add_cases [of c t obj True]) (auto intro: stale_filled stale_mono)
  qed
next
  case (2 c t iref)
  have "iref \<noteq> 0 \<or> \<not> False" by simp
  with 2(1) show ?case
    using 2(2,3) by (cases rule: remove_cases [of c t iref False]) (auto intro: stale_removed)
next
  case (3 c t ops)
  then obtain u where u: "run_frames (segmentState t) t ops = Some u" "t' = pop_segment (segmentState t) u" by auto
  have ok: "frame_ok (segmentState t) t" using "3.prems"(1) by (simp add: frame_ok_def irt_inv_def)
  have "irt_top t \<le> irt_top u" using run_frame_ok(2) [OF ok u(1)] frame_room by blast
  moreover have "stale (k + adds_in_all ops) (i, s) u" using "3.IH" [OF ok "3.prems"(2) u(1)] .
  ultimately show ?case
    using u(2) by (auto intro: stale_shrink simp: pop_segment_def obj_at_def serial_at_def)
next
  case (5 c t op ops)
  then obtain u where u: "run_frame c t op = Some u" "run_frames c u ops = Some t'" by (auto simp: bind_eq_Some_conv)
  from run_frame_ok(1) [OF "5.prems"(1) u(1)] "5.IH"(1) [OF "5.prems"(1,2) u(1)] "5.IH"(2) [OF u(1) _ _ u(2)]
  show ?case by (metis adds_in_all.simps(2) add.assoc)
qed auto

section \<open>Iterating\<close>

definition live_from :: "ref_table \<Rightarrow> nat \<Rightarrow> u4 list" where
  "live_from t i = filter (\<lambda>obj. \<not> skipped obj) (map (obj_at t) [i..<irt_top t])"

lemma live_from_skip:
  "live_from t (skipNullsAndTombstones t i) = live_from t i \<and>
   (skipNullsAndTombstones t i < irt_top t \<longrightarrow> \<not> skipped (obj_at t (skipNullsAndTombstones t i)))"
  by (induction t i rule: skipNullsAndTombstones.induct)
    (subst (1 2 3) skipNullsAndTombstones.simps, auto simp: live_from_def upt_conv_Cons)

lemma iterate_from_live: "iterate_from t i = live_from t i"
proof (induction t i rule: iterate_from.induct)
  case (1 t i)
  let ?j = "skipNullsAndTombstones t i"
  show ?case
  proof (cases "?j < irt_top t")
    case True
    with live_from_skip [of t i] have "live_from t i = obj_at t ?j # live_from t (Suc ?j)"
      by (metis (no_types, lifting) filter.simps(2) list.simps(9) live_from_def upt_conv_Cons)
    with 1 True show ?thesis by (subst iterate_from.simps) (simp add: Let_def)
  next
    case False
    with live_from_skip [of t i] show ?thesis by (subst iterate_from.simps) (simp add: live_from_def)
  qed
qed

section \<open>Properties\<close>

text \<open>C10. A reference table behaves as a map from handles (index and serial number) to objects. In a
  table whose counts are right, an addition under the frame's cookie either reports that the table
  has reached its maximum and holds no hole in the segment, and changes nothing, or returns a
  reference of the table's kind to the object whose handle was not in use, and changes the map there
  only; the search for a hole always ends at one. A removal reports exactly whether the reference was
  valid and in the current segment, and takes that entry and no other out of the map. The counts
  stay right.\<close>

theorem reference_table_refines_map:
  assumes ok: "frame_ok c t" and "obj \<noteq> 0" "iref \<noteq> 0" and kind: "indirectRefKind iref = irt_kind t"
  shows "(((irt_add True c t obj = Some (0, t) \<and> irt_top t = max_entries t \<and> irt_holes t = numHoles c) \<or>
      (\<exists>r t'. irt_add True c t obj = Some (r, t') \<and> r \<noteq> 0 \<and> indirectRefKind r = irt_kind t' \<and> frame_ok c t' \<and>
        irt_look t (handle_of r) = None \<and> irt_look t' = (irt_look t)(handle_of r \<mapsto> obj)))) \<and>
    (\<exists>t'. irt_remove wa c t iref =
        Some (irt_look t (handle_of iref) \<noteq> None \<and> topIndex c \<le> extractIndex iref, t') \<and> frame_ok c t' \<and>
      irt_look t' = (if topIndex c \<le> extractIndex iref then (irt_look t)(handle_of iref := None) else irt_look t))"
proof (rule conjI)
  note inv = frame_ok_def [of c t, THEN iffD1, OF ok, THEN conjunct1]
  show "(irt_add True c t obj = Some (0, t) \<and> irt_top t = max_entries t \<and> irt_holes t = numHoles c) \<or>
      (\<exists>r t'. irt_add True c t obj = Some (r, t') \<and> r \<noteq> 0 \<and> indirectRefKind r = irt_kind t' \<and> frame_ok c t' \<and>
        irt_look t (handle_of r) = None \<and> irt_look t' = (irt_look t)(handle_of r \<mapsto> obj))"
    using ok assms(2)
  proof (cases rule: add_cases [of c t obj True])
    case (slot i u)
    have "table_add c t obj = Some (toIndirectRef i (serial_at u i) (irt_kind t), u)"
      using slot(1) ref_not_null [of "irt_kind t"] inv by (simp add: table_add_def irt_inv_def)
    from table_add_law [OF ok assms(2) this] slot ref_not_null [of "irt_kind t"] inv show ?thesis
      by (auto simp: kind_unpack irt_inv_def filled_def)
  qed simp_all
  show "\<exists>t'. irt_remove wa c t iref =
        Some (irt_look t (handle_of iref) \<noteq> None \<and> topIndex c \<le> extractIndex iref, t') \<and> frame_ok c t' \<and>
      irt_look t' = (if topIndex c \<le> extractIndex iref then (irt_look t)(handle_of iref := None) else irt_look t)"
    using ok disjI1 [OF assms(3)]
  proof (cases rule: remove_cases [of c t iref wa])
    case miss
    with kind ok show ?thesis
      by (auto simp: remove_index_def irt_look_def handle_of_def Let_def fun_eq_iff split: if_splits)
  next
    case (gone i u)
    note i = remove_index_live [OF inv disjI1 [OF assms(3)] gone(2)]
    with kind have "handle_of iref = (i, serial_at t i)" "extractIndex iref = i" by (auto simp: handle_of_def)
    with gone i removed_look [OF inv gone(3)] show ?thesis by (auto simp: irt_look_def)
  qed
qed

text \<open>The table of the examples: a local table of two entries that may grow to three, with the
  references of two objects.\<close>

definition two_refs :: ref_table where
  "two_refs = \<lparr>segmentState = \<lparr>topIndex = 2, numHoles = 0\<rparr>,
     irt_slots = [\<lparr>slot_obj = 0x41000000, slot_serial = 0x1d2\<rparr>, \<lparr>slot_obj = 0x41000040, slot_serial = 0x1d2\<rparr>],
     irt_kind = kIndirectKindLocal, max_entries = 3\<rparr>"

lemma two_refs_built:
  "Option.bind (irt_init 2 3 kIndirectKindLocal)
     (\<lambda>t. run_frames IRT_FIRST_SEGMENT t [FAdd 0x41000000, FAdd 0x41000040]) = Some two_refs"
  by code_simp

lemma two_refs_ok: "frame_ok IRT_FIRST_SEGMENT two_refs"
proof -
  obtain t where "irt_init 2 3 kIndirectKindLocal = Some t"
    "run_frames IRT_FIRST_SEGMENT t [FAdd 0x41000000, FAdd 0x41000040] = Some two_refs"
    using two_refs_built by (auto simp: bind_eq_Some_conv)
  with run_frame_ok(2) [OF conjunct1 [OF init_ok]] show ?thesis by fastforce
qed

lemma two_refs_look: "irt_look two_refs (handle_of 0x1d200001) = Some 0x41000000"
  by code_simp

lemma reference_table_refines_map_witness:
  "((\<exists>r t'. irt_add True IRT_FIRST_SEGMENT two_refs 0x41000080 = Some (r, t') \<and>
       irt_look t' = (irt_look two_refs)(handle_of r \<mapsto> 0x41000080))) \<and>
   (\<exists>t'. irt_remove True IRT_FIRST_SEGMENT two_refs 0x1d200001 = Some (True, t') \<and>
      irt_look t' = (irt_look two_refs)(handle_of 0x1d200001 := None))"
proof -
  have hyp: "(0x41000080 :: u4) \<noteq> 0" "(0x1d200001 :: u4) \<noteq> 0" "indirectRefKind 0x1d200001 = irt_kind two_refs"
    "irt_top two_refs \<noteq> max_entries two_refs" "topIndex IRT_FIRST_SEGMENT = 0"
    by (simp, simp, code_simp, simp add: two_refs_def, simp add: IRT_FIRST_SEGMENT_def)
  from reference_table_refines_map [OF two_refs_ok hyp(1-3), where wa = True] hyp(4,5) two_refs_look show ?thesis by auto
qed

text \<open>Looking up a reference: with CheckJNI the result is the object of a valid reference and the
  invalid-object marker for every other word, null, references of another kind, stale and deleted
  references included; without CheckJNI a valid reference gives its object, null and references of
  another kind give the marker, and the lookup of any other invalid reference aborts.\<close>

theorem get_finds_the_object:
  assumes "frame_ok c t"
  shows "irt_get True t iref =
      Some (if indirectRefKind iref = irt_kind t
            then (case irt_look t (handle_of iref) of Some obj \<Rightarrow> obj | None \<Rightarrow> kInvalidIndirectRefObject)
            else kInvalidIndirectRefObject) \<and>
    irt_get False t iref =
      (if indirectRefKind iref = irt_kind t then irt_look t (handle_of iref)
       else if iref \<noteq> 0 \<and> indirectRefKind iref = kIndirectKindInvalid then None
       else Some kInvalidIndirectRefObject)"
  using assms
  by (auto simp: irt_get_def irt_look_def handle_of_def frame_ok_def irt_inv_def Let_def abortMaybe_def)

lemma get_finds_the_object_witness:
  "irt_get True two_refs 0x1d200001 = Some 0x41000000 \<and> irt_get False two_refs 0x1d300001 = None"
proof -
  have facts: "indirectRefKind 0x1d200001 = irt_kind two_refs" "indirectRefKind 0x1d300001 = irt_kind two_refs"
    "irt_look two_refs (handle_of 0x1d300001) = None" by code_simp+
  from get_finds_the_object [OF two_refs_ok] facts two_refs_look show ?thesis by simp
qed

text \<open>A reference stays valid until it is removed: whatever a client adds and removes after it got a
  reference, as long as it does not remove that one, the reference looks up the object it was made
  for.\<close>

theorem reference_valid_until_removed:
  assumes "frame_ok c t" "obj \<noteq> 0" "table_add c t obj = Some (iref, t1)"
    "objects_valid (\<lambda>obj. obj \<noteq> 0) ops" "never_removed handle_of (handle_of iref) ops"
    "run_table (table_add c) (table_remove c) ops t1 = Some (irefs, t2)"
  shows "irt_look t2 (handle_of iref) = Some obj"
  using irt.reference_until_removed [OF assms] by simp

lemma reference_valid_until_removed_witness:
  "irt_look (snd (the (run_table (table_add IRT_FIRST_SEGMENT) (table_remove IRT_FIRST_SEGMENT)
     [Remove 0x1d200001, Add 0x410000c0] (snd (the (table_add IRT_FIRST_SEGMENT two_refs 0x41000080))))))
     (handle_of 0x1d200009) = Some 0x41000080"
proof -
  let ?t1 = "snd (the (table_add IRT_FIRST_SEGMENT two_refs 0x41000080))"
  let ?r = "run_table (table_add IRT_FIRST_SEGMENT) (table_remove IRT_FIRST_SEGMENT) [Remove 0x1d200001, Add 0x410000c0] ?t1"
  have ne: "(0x41000080 :: u4) \<noteq> 0" by simp
  have add: "table_add IRT_FIRST_SEGMENT two_refs 0x41000080 = Some (0x1d200009, ?t1)" by code_simp
  have run: "?r = Some (fst (the ?r), snd (the ?r))" by code_simp
  have "objects_valid (\<lambda>obj :: u4. obj \<noteq> 0) [Remove (0x1d200001 :: u4), Add 0x410000c0]"
    "never_removed handle_of (handle_of 0x1d200009) [Remove (0x1d200001 :: u4), Add (0x410000c0 :: u4)]" by code_simp+
  from reference_valid_until_removed [OF two_refs_ok ne add this run] show ?thesis .
qed

text \<open>C11. A deleted reference is recognised as stale: after a valid reference of the current segment has
  been removed, and whatever additions, removals and nested calls follow, as long as there are fewer
  than 4096 additions, the reference is invalid: with CheckJNI its lookup gives the marker, without
  it the lookup aborts.\<close>

theorem deleted_reference_is_stale:
  assumes ok: "frame_ok c t" and kind: "indirectRefKind iref = irt_kind t"
    and live: "irt_look t (handle_of iref) = Some obj" "topIndex c \<le> extractIndex iref"
    and run: "run_frames c t (FRemove iref # ops) = Some t2" and few: "adds_in_all ops < 4096"
  shows "irt_get True t2 iref = Some kInvalidIndirectRefObject \<and> irt_get False t2 iref = None"
proof -
  have inv: "irt_inv t" using ok by (simp add: frame_ok_def)
  obtain t1 where t1: "run_frame c t (FRemove iref) = Some t1" "run_frames c t1 ops = Some t2"
    using run by (auto simp: bind_eq_Some_conv)
  have ok1: "frame_ok c t1" using run_frame_ok(1) [OF ok t1(1)] by simp
  have wa: "iref \<noteq> 0 \<or> \<not> False" by simp
  have "stale 0 (handle_of iref) t1 \<and> irt_kind t1 = irt_kind t"
    using ok wa
  proof (cases rule: remove_cases [of c t iref False])
    case miss
    with kind live show ?thesis by (auto simp: remove_index_def irt_look_def handle_of_def Let_def split: if_splits)
  next
    case (gone i u)
    then have h: "handle_of iref = (i, serial_at t i)" and u: "u = t1"
      using remove_index_live [OF inv wa gone(2)] kind t1(1) by auto
    have "unat (serial_at t i) < 4096" using extractSerial_less [of iref] h by (simp add: handle_of_def)
    then show ?thesis
      using gone(3) h u inv by (auto simp: stale_def removed_def irt_inv_def)
  qed
  then have "irt_look t2 (handle_of iref) = None"
    using stale_run(2) [OF ok1 _ t1(2)] stale_look [of "adds_in_all ops" _ t2] few by (metis add_0 prod.collapse)
  moreover have "irt_kind t2 = irt_kind t"
    using run_kind(2) [OF run] .
  ultimately show ?thesis
    using run_frame_ok(2) [OF ok run] kind
    by (auto simp: irt_get_def irt_look_def handle_of_def frame_ok_def irt_inv_def Let_def abortMaybe_def split: if_splits)
qed

lemma deleted_reference_is_stale_witness:
  "irt_get True (the (run_frames IRT_FIRST_SEGMENT two_refs [FRemove 0x1d200001, FAdd 0x41000000])) 0x1d200001 =
     Some kInvalidIndirectRefObject"
proof -
  have "indirectRefKind 0x1d200001 = irt_kind two_refs" by code_simp
  moreover have "topIndex IRT_FIRST_SEGMENT \<le> extractIndex 0x1d200001" by (simp add: IRT_FIRST_SEGMENT_def)
  moreover have "run_frames IRT_FIRST_SEGMENT two_refs [FRemove 0x1d200001, FAdd 0x41000000] =
      Some (the (run_frames IRT_FIRST_SEGMENT two_refs [FRemove 0x1d200001, FAdd 0x41000000]))" by code_simp
  moreover have "adds_in_all [FAdd 0x41000000] < 4096" by simp
  ultimately show ?thesis
    by (rule deleted_reference_is_stale [OF two_refs_ok _ two_refs_look, THEN conjunct1])
qed

text \<open>C12. Leaving a native frame restores the references of its caller: after any sequence of
  additions, removals and nested calls under the frame's own cookie, storing the caller's segment
  state back gives a table whose counts are right and in which exactly the references that were
  valid before the call are valid, for the same objects.\<close>

theorem frame_exit_restores:
  assumes "frame_ok c t" "run_frames (segmentState t) t ops = Some t'"
  shows "frame_ok c (pop_segment (segmentState t) t') \<and> irt_look (pop_segment (segmentState t) t') = irt_look t"
proof -
  have "frame_ok (segmentState t) t" using assms(1) by (simp add: frame_ok_def irt_inv_def)
  from run_frame_ok(2) [OF this assms(2)] pop_ok [OF assms(1)] pop_below [OF assms(1)] show ?thesis by simp
qed

lemma frame_exit_restores_witness:
  "irt_look (pop_segment (segmentState two_refs) (the (run_frames (segmentState two_refs) two_refs
     [FAdd 0x41000080, FRemove 0x1d200001, FRemove 0x1d200009, FAdd 0x410000c0]))) = irt_look two_refs"
proof -
  let ?r = "run_frames (segmentState two_refs) two_refs [FAdd 0x41000080, FRemove 0x1d200001, FRemove 0x1d200009, FAdd 0x410000c0]"
  have "?r = Some (the ?r)" by code_simp
  from frame_exit_restores [OF two_refs_ok this] show ?thesis by simp
qed

text \<open>A failed reallocation is not noticed. The header promises a null result when the table cannot
  be enlarged, but the code tests the old pointer: when the allocated entries are used up below the
  maximum and the segment has no hole, a failing reallocation leads to a write through a null
  pointer instead.\<close>

theorem failed_expansion_crashes:
  assumes "obj \<noteq> 0" "irt_top t = alloc_entries t" "alloc_entries t < max_entries t"
    "irt_holes t = numHoles c"
  shows "irt_add False c t obj = None"
  using assms by (simp add: irt_add_def)

lemma failed_expansion_crashes_witness: "irt_add False IRT_FIRST_SEGMENT two_refs 0x41000080 = None"
  by (rule failed_expansion_crashes)
    (simp_all add: two_refs_def alloc_entries_def IRT_FIRST_SEGMENT_def)

text \<open>Iterating over a table from \<open>begin()\<close> to \<open>end()\<close> ends and visits, in the order of the slots, every
  entry below the top index that is neither a hole nor a cleared weak global reference, and no
  other.\<close>

theorem iteration_visits_live_entries:
  "iterate_from t 0 = filter (\<lambda>obj. obj \<noteq> 0 \<and> obj \<noteq> kClearedJniWeakGlobal) (map (obj_at t) [0..<irt_top t])"
  using iterate_from_live [of t 0] by (simp add: live_from_def skipped_def)

end
