(* ===== verification/DexImage.thy ===== *)
theory DexImage
  imports DexCatch
begin

text \<open>
  A dex file in memory and the accessors of \<^verbatim>\<open>jni/dalvik/libdex/DexFile.h\<close>. An \<open>image\<close> is the address a file is
  mapped at and its bytes; pointers are 32-bit addresses and 0 is \<open>NULL\<close>; \<open>None\<close> is a read outside the
  mapped bytes. Structures are read in place, in little-endian order, as the code does with its casts. The
  \<open>assert\<close>s of the accessors are not part of the release build.
\<close>

unbundle bit_operations_syntax

section \<open>Memory\<close>

record image =
  img_base :: u4
  img_bytes :: "u1 list"

definition mem_at :: "image \<Rightarrow> u4 \<Rightarrow> u1 list" where
  "mem_at m p = drop (unat (p - img_base m)) (img_bytes m)"

definition le2 :: "u1 \<Rightarrow> u1 \<Rightarrow> u2" where
  "le2 a b = ucast a OR push_bit 8 (ucast b)"

definition le4 :: "u1 \<Rightarrow> u1 \<Rightarrow> u1 \<Rightarrow> u1 \<Rightarrow> u4" where
  "le4 a b c d = ucast a OR push_bit 8 (ucast b) OR push_bit 16 (ucast c) OR push_bit 24 (ucast d)"

definition rd2 :: "image \<Rightarrow> u4 \<Rightarrow> u2 option" where
  "rd2 m p = (case mem_at m p of a # b # _ \<Rightarrow> Some (le2 a b) | _ \<Rightarrow> None)"

definition rd4 :: "image \<Rightarrow> u4 \<Rightarrow> u4 option" where
  "rd4 m p = (case mem_at m p of a # b # c # d # _ \<Rightarrow> Some (le4 a b c d) | _ \<Rightarrow> None)"

definition le_bytes :: "u4 \<Rightarrow> u1 list" where
  "le_bytes w = [ucast w, ucast (drop_bit 8 w), ucast (drop_bit 16 w), ucast (drop_bit 24 w)]"

text \<open>The C string at an address.\<close>

definition c_string :: "image \<Rightarrow> u4 \<Rightarrow> u1 list option" where
  "c_string m p = (if 0 \<in> set (mem_at m p) then Some (takeWhile (\<lambda>b. b \<noteq> 0) (mem_at m p)) else None)"

section \<open>Files\<close>

datatype header_field =
    Checksum | FileSize | LinkOff | MapOff | StringIdsSize | StringIdsOff | TypeIdsSize | TypeIdsOff
  | ProtoIdsSize | ProtoIdsOff | FieldIdsSize | FieldIdsOff | MethodIdsSize | MethodIdsOff
  | ClassDefsSize | ClassDefsOff

text \<open>Where the fields are in \<open>DexHeader\<close>.\<close>

fun field_off :: "header_field \<Rightarrow> u4" where
  "field_off Checksum = 8" | "field_off FileSize = 32" | "field_off LinkOff = 48" | "field_off MapOff = 52"
| "field_off StringIdsSize = 56" | "field_off StringIdsOff = 60" | "field_off TypeIdsSize = 64" | "field_off TypeIdsOff = 68"
| "field_off ProtoIdsSize = 72" | "field_off ProtoIdsOff = 76" | "field_off FieldIdsSize = 80" | "field_off FieldIdsOff = 84"
| "field_off MethodIdsSize = 88" | "field_off MethodIdsOff = 92" | "field_off ClassDefsSize = 96" | "field_off ClassDefsOff = 100"

definition sizeof_DexHeader :: u4 where "sizeof_DexHeader = 112"

record dex_file =
  mem :: image
  pOptHeader :: u4
  pHeader :: u4
  pStringIds :: u4
  pTypeIds :: u4
  pFieldIds :: u4
  pMethodIds :: u4
  pProtoIds :: u4
  pClassDefs :: u4
  pLinkData :: u4
  pClassLookup :: u4
  pRegisterMapPool :: u4
  baseAddr :: u4

definition header :: "dex_file \<Rightarrow> header_field \<Rightarrow> u4 option" where
  "header f fld = rd4 (mem f) (pHeader f + field_off fld)"

text \<open>The pattern of the optional parts: offset 0 means \<open>NULL\<close>.\<close>

definition at_offset :: "dex_file \<Rightarrow> u4 \<Rightarrow> u4" where
  "at_offset f off = (if off = 0 then 0 else baseAddr f + off)"

definition dexGetMap :: "dex_file \<Rightarrow> u4 option" where
  "dexGetMap f = map_option (at_offset f) (header f MapOff)"

section \<open>Strings and types\<close>

text \<open>\<open>while (*(ptr++) > 0x7f)\<close>: what is left after the length.\<close>

fun skip_uleb :: "u1 list \<Rightarrow> u1 list option" where
  "skip_uleb [] = None"
| "skip_uleb (b # s) = (if b > 0x7f then skip_uleb s else Some s)"

text \<open>The pointer to what a reader left of the bytes at an address.\<close>

definition ptr_to_rest :: "image \<Rightarrow> u4 \<Rightarrow> u1 list \<Rightarrow> u4" where
  "ptr_to_rest m ptr rest = ptr + of_nat (length (mem_at m ptr) - length rest)"

definition dexGetStringData :: "dex_file \<Rightarrow> u4 \<Rightarrow> u4 option" where
  "dexGetStringData f pStringId =
     do { stringDataOff \<leftarrow> rd4 (mem f) pStringId;
       let ptr = baseAddr f + stringDataOff;
       rest \<leftarrow> skip_uleb (mem_at (mem f) ptr);
       Some (ptr_to_rest (mem f) ptr rest) }"

definition dexGetStringId :: "dex_file \<Rightarrow> u4 \<Rightarrow> u4" where
  "dexGetStringId f idx = pStringIds f + 4 * idx"

definition dexStringById :: "dex_file \<Rightarrow> u4 \<Rightarrow> u4 option" where
  "dexStringById f idx = dexGetStringData f (dexGetStringId f idx)"

definition dexStringAndSizeById :: "dex_file \<Rightarrow> u4 \<Rightarrow> (u4 \<times> u4) option" where
  "dexStringAndSizeById f idx =
     do { stringDataOff \<leftarrow> rd4 (mem f) (dexGetStringId f idx);
       let ptr = baseAddr f + stringDataOff;
       (utf16Size, rest) \<leftarrow> readUnsignedLeb128 (mem_at (mem f) ptr);
       Some (utf16Size, ptr_to_rest (mem f) ptr rest) }"

definition dexGetTypeId :: "dex_file \<Rightarrow> u4 \<Rightarrow> u4" where
  "dexGetTypeId f idx = pTypeIds f + 4 * idx"

definition dexStringByTypeIdx :: "dex_file \<Rightarrow> u4 \<Rightarrow> u4 option" where
  "dexStringByTypeIdx f idx =
     do { descriptorIdx \<leftarrow> rd4 (mem f) (dexGetTypeId f idx); dexStringById f descriptorIdx }"

section \<open>Methods, fields and prototypes\<close>

definition dexGetMethodId :: "dex_file \<Rightarrow> u4 \<Rightarrow> u4" where
  "dexGetMethodId f idx = pMethodIds f + 8 * idx"

definition dexGetFieldId :: "dex_file \<Rightarrow> u4 \<Rightarrow> u4" where
  "dexGetFieldId f idx = pFieldIds f + 8 * idx"

definition dexGetProtoId :: "dex_file \<Rightarrow> u4 \<Rightarrow> u4" where
  "dexGetProtoId f idx = pProtoIds f + 12 * idx"

definition dexGetProtoParameters :: "dex_file \<Rightarrow> u4 \<Rightarrow> u4 option" where
  "dexGetProtoParameters f pProtoId = map_option (at_offset f) (rd4 (mem f) (pProtoId + 8))"

definition dexGetTypeItem :: "u4 \<Rightarrow> u4 \<Rightarrow> u4" where
  "dexGetTypeItem pList idx = pList + 4 + 2 * idx"

definition dexTypeListGetIdx :: "dex_file \<Rightarrow> u4 \<Rightarrow> u4 \<Rightarrow> u4 option" where
  "dexTypeListGetIdx f pList idx = map_option ucast (rd2 (mem f) (dexGetTypeItem pList idx))"

section \<open>Classes\<close>

definition dexGetClassDef :: "dex_file \<Rightarrow> u4 \<Rightarrow> u4" where
  "dexGetClassDef f idx = pClassDefs f + 32 * idx"

definition dexGetIndexForClassDef :: "dex_file \<Rightarrow> u4 \<Rightarrow> u4" where
  "dexGetIndexForClassDef f pClassDef = (pClassDef - pClassDefs f) div 32"

definition dexGetInterfacesList :: "dex_file \<Rightarrow> u4 \<Rightarrow> u4 option" where
  "dexGetInterfacesList f pClassDef = map_option (at_offset f) (rd4 (mem f) (pClassDef + 12))"

definition dexGetStaticValuesList :: "dex_file \<Rightarrow> u4 \<Rightarrow> u4 option" where
  "dexGetStaticValuesList f pClassDef = map_option (at_offset f) (rd4 (mem f) (pClassDef + 28))"

definition dexGetAnnotationsDirectoryItem :: "dex_file \<Rightarrow> u4 \<Rightarrow> u4 option" where
  "dexGetAnnotationsDirectoryItem f pClassDef = map_option (at_offset f) (rd4 (mem f) (pClassDef + 20))"

definition dexGetSourceFile :: "dex_file \<Rightarrow> u4 \<Rightarrow> u4 option" where
  "dexGetSourceFile f pClassDef =
     do { sourceFileIdx \<leftarrow> rd4 (mem f) (pClassDef + 16);
       if sourceFileIdx = 0xffffffff then Some 0 else dexStringById f sourceFileIdx }"

definition dexGetClassDescriptor :: "dex_file \<Rightarrow> u4 \<Rightarrow> u4 option" where
  "dexGetClassDescriptor f pClassDef =
     do { classIdx \<leftarrow> rd4 (mem f) pClassDef; dexStringByTypeIdx f classIdx }"

definition dexGetSuperClassDescriptor :: "dex_file \<Rightarrow> u4 \<Rightarrow> u4 option" where
  "dexGetSuperClassDescriptor f pClassDef =
     do { superclassIdx \<leftarrow> rd4 (mem f) (pClassDef + 8);
       if superclassIdx = 0 then Some 0 else dexStringByTypeIdx f superclassIdx }"

definition dexGetClassData :: "dex_file \<Rightarrow> u4 \<Rightarrow> u4 option" where
  "dexGetClassData f pClassDef = map_option (at_offset f) (rd4 (mem f) (pClassDef + 24))"

section \<open>Primitive types\<close>

datatype primitive_type =
    PRIM_NOT | PRIM_VOID | PRIM_BOOLEAN | PRIM_BYTE | PRIM_SHORT | PRIM_CHAR | PRIM_INT | PRIM_LONG
  | PRIM_FLOAT | PRIM_DOUBLE

fun dexGetPrimitiveTypeDescriptor :: "primitive_type \<Rightarrow> string option" where
  "dexGetPrimitiveTypeDescriptor PRIM_VOID = Some ''V''"
| "dexGetPrimitiveTypeDescriptor PRIM_BOOLEAN = Some ''Z''"
| "dexGetPrimitiveTypeDescriptor PRIM_BYTE = Some ''B''"
| "dexGetPrimitiveTypeDescriptor PRIM_SHORT = Some ''S''"
| "dexGetPrimitiveTypeDescriptor PRIM_CHAR = Some ''C''"
| "dexGetPrimitiveTypeDescriptor PRIM_INT = Some ''I''"
| "dexGetPrimitiveTypeDescriptor PRIM_LONG = Some ''J''"
| "dexGetPrimitiveTypeDescriptor PRIM_FLOAT = Some ''F''"
| "dexGetPrimitiveTypeDescriptor PRIM_DOUBLE = Some ''D''"
| "dexGetPrimitiveTypeDescriptor PRIM_NOT = None"

definition dexGetPrimitiveTypeDescriptorChar :: "primitive_type \<Rightarrow> char" where
  "dexGetPrimitiveTypeDescriptorChar type =
     (case dexGetPrimitiveTypeDescriptor type of None \<Rightarrow> CHR 0x00 | Some string \<Rightarrow> string ! 0)"

fun dexGetBoxedTypeDescriptor :: "primitive_type \<Rightarrow> string option" where
  "dexGetBoxedTypeDescriptor PRIM_VOID = None"
| "dexGetBoxedTypeDescriptor PRIM_BOOLEAN = Some ''Ljava/lang/Boolean;''"
| "dexGetBoxedTypeDescriptor PRIM_BYTE = Some ''Ljava/lang/Byte;''"
| "dexGetBoxedTypeDescriptor PRIM_SHORT = Some ''Ljava/lang/Short;''"
| "dexGetBoxedTypeDescriptor PRIM_CHAR = Some ''Ljava/lang/Character;''"
| "dexGetBoxedTypeDescriptor PRIM_INT = Some ''Ljava/lang/Integer;''"
| "dexGetBoxedTypeDescriptor PRIM_LONG = Some ''Ljava/lang/Long;''"
| "dexGetBoxedTypeDescriptor PRIM_FLOAT = Some ''Ljava/lang/Float;''"
| "dexGetBoxedTypeDescriptor PRIM_DOUBLE = Some ''Ljava/lang/Double;''"
| "dexGetBoxedTypeDescriptor PRIM_NOT = None"

definition dexGetPrimitiveTypeFromDescriptorChar :: "char \<Rightarrow> primitive_type" where
  "dexGetPrimitiveTypeFromDescriptorChar c =
     (if c = CHR ''V'' then PRIM_VOID else if c = CHR ''Z'' then PRIM_BOOLEAN
      else if c = CHR ''B'' then PRIM_BYTE else if c = CHR ''S'' then PRIM_SHORT
      else if c = CHR ''C'' then PRIM_CHAR else if c = CHR ''I'' then PRIM_INT
      else if c = CHR ''J'' then PRIM_LONG else if c = CHR ''F'' then PRIM_FLOAT
      else if c = CHR ''D'' then PRIM_DOUBLE else PRIM_NOT)"

section \<open>Reading\<close>

lemma rd4_bytes: "mem_at m p = le_bytes w @ rest \<Longrightarrow> rd4 m p = Some w"
proof -
  have "le4 (ucast w) (ucast (drop_bit 8 w)) (ucast (drop_bit 16 w)) (ucast (drop_bit 24 w)) = w"
  proof (rule bit_word_eqI)
    fix n assume "n < LENGTH(32)"
    then consider "n < 8" | "8 \<le> n" "n < 16" | "16 \<le> n" "n < 24" | "24 \<le> n" "n < 32" by fastforce
    then show "bit (le4 (ucast w) (ucast (drop_bit 8 w)) (ucast (drop_bit 16 w)) (ucast (drop_bit 24 w))) n = bit w n"
      by cases (auto simp: le4_def bit_simps)
  qed
  then show "mem_at m p = le_bytes w @ rest \<Longrightarrow> ?thesis" by (simp add: rd4_def le_bytes_def)
qed

lemma length_le_bytes [simp]: "length (le_bytes w) = 4"
  by (simp add: le_bytes_def)

text \<open>A mapped file leaves at least one byte of the address space.\<close>

definition fits :: "image \<Rightarrow> bool" where
  "fits m \<longleftrightarrow> length (img_bytes m) < 2 ^ 32"

lemma rest_at:
  assumes "fits m" "mem_at m p = front @ rest"
  shows "mem_at m (p + of_nat (length front)) = rest"
proof -
  let ?i = "unat (p - img_base m)"
  have "?i + length front < 2 ^ 32"
  proof (cases "?i < length (img_bytes m)")
    case True
    have "length (mem_at m p) = length (img_bytes m) - ?i" by (simp add: mem_at_def)
    with True assms show ?thesis by (simp add: fits_def)
  next
    case False
    with assms(2) have "front = []" by (simp add: mem_at_def)
    then show ?thesis using unat_u4_less by simp
  qed
  then have "unat (p - img_base m + of_nat (length front)) = ?i + length front"
    using unat_of_nat_u4 [of "?i + length front"] by simp
  moreover have "p + of_nat (length front) - img_base m = p - img_base m + of_nat (length front)" by simp
  ultimately have "mem_at m (p + of_nat (length front)) = drop (length front) (mem_at m p)"
    by (simp only: mem_at_def drop_drop add.commute [of "length front"])
  with assms(2) show ?thesis by simp
qed

lemma ptr_to_rest_at: "fits m \<Longrightarrow> mem_at m p = front @ rest \<Longrightarrow> mem_at m (ptr_to_rest m p rest) = rest"
  using rest_at [of m p front rest] by (simp add: ptr_to_rest_def)

lemma c_string_at: "mem_at m p = s @ 0 # rest \<Longrightarrow> 0 \<notin> set s \<Longrightarrow> c_string m p = Some s"
  by (auto simp: c_string_def takeWhile_tail takeWhile_eq_all_conv)

lemma u1_le_7f: "(b :: u1) \<le> 0x7f \<longleftrightarrow> \<not> bit b 7"
proof -
  have "unat b < 2 ^ 8" using unsigned_less [of b, where ?'a = nat] by simp
  then have "take_bit 32 (unat b) = unat b" by (simp add: take_bit_nat_eq_self)
  then show ?thesis unfolding le_7f_bit [symmetric] by (simp add: word_le_nat_alt unsigned_ucast_eq)
qed

lemma skip_uleb_bytes: "0 < n \<Longrightarrow> skip_uleb (leb_bytes n w @ s) = Some s"
proof (induction n w rule: leb_bytes.induct)
  case (3 n w)
  have "\<not> (ucast ((w AND 0x7f) OR 0x80) :: u1) \<le> 0x7f"
    by (simp add: u1_le_7f bit_simps)
  with 3 show ?case by (simp add: not_le)
next
  case (2 w)
  have "(ucast (w AND 0x7f) :: u1) \<le> 0x7f" by (simp add: u1_le_7f bit_simps)
  then show ?case by (auto dest: leD)
qed simp

lemma skip_written: "skip_uleb (writeUnsignedLeb128 n @ s) = Some s"
  using leb128Size_range [of n] by (simp add: write_leb_bytes skip_uleb_bytes)

lemma skip_uleb_splits: "skip_uleb s = Some rest \<Longrightarrow> \<exists>front. s = front @ rest"
  by (induction s) (auto split: if_splits)

text \<open>A string lies inside the file, or directly behind it; so it is not at the null address when the file
  is not.\<close>

lemma string_inside:
  assumes "fits (mem f)" "dexStringById f idx = Some p"
  shows "unat (p - img_base (mem f)) \<le> length (img_bytes (mem f))"
proof -
  obtain off rest where off: "rd4 (mem f) (dexGetStringId f idx) = Some off"
    and skip: "skip_uleb (mem_at (mem f) (baseAddr f + off)) = Some rest"
    and p: "p = ptr_to_rest (mem f) (baseAddr f + off) rest"
    using assms(2) by (auto simp: dexStringById_def dexGetStringData_def Let_def split: Option.bind_splits)
  obtain front where front: "mem_at (mem f) (baseAddr f + off) = front @ rest" using skip_uleb_splits [OF skip] by blast
  let ?i = "unat (baseAddr f + off - img_base (mem f))"
  have "0 < length (mem_at (mem f) (baseAddr f + off))" using skip by (cases "mem_at (mem f) (baseAddr f + off)") auto
  moreover have "length (mem_at (mem f) (baseAddr f + off)) = length (img_bytes (mem f)) - ?i" by (simp add: mem_at_def)
  ultimately have "?i + length front \<le> length (img_bytes (mem f))" using arg_cong [OF front, of length] by simp
  moreover from this assms(1) have "unat (of_nat (?i + length front) :: u4) = ?i + length front"
    by (intro unat_of_nat_u4) (simp add: fits_def)
  moreover have "p - img_base (mem f) = of_nat (?i + length front)"
    using front by (simp add: p ptr_to_rest_def)
  ultimately show ?thesis by metis
qed

text \<open>The string data of an index: the length in UTF-16 units, the bytes and the terminator.\<close>

definition string_item :: "u4 \<Rightarrow> u1 list \<Rightarrow> u1 list" where
  "string_item n s = writeUnsignedLeb128 n @ s @ [0]"

lemma string_data:
  assumes "fits (mem f)" "rd4 (mem f) (dexGetStringId f idx) = Some off"
    and "mem_at (mem f) (baseAddr f + off) = string_item n s @ rest" "0 \<notin> set s"
  obtains p where "dexStringById f idx = Some p" "dexStringAndSizeById f idx = Some (n, p)" "c_string (mem f) p = Some s"
proof -
  have bytes: "mem_at (mem f) (baseAddr f + off) = writeUnsignedLeb128 n @ s @ 0 # rest"
    using assms(3) by (simp add: string_item_def)
  let ?p = "ptr_to_rest (mem f) (baseAddr f + off) (s @ 0 # rest)"
  have "mem_at (mem f) ?p = s @ 0 # rest" by (rule ptr_to_rest_at [OF assms(1) bytes])
  then have "c_string (mem f) ?p = Some s" using assms(4) by (rule c_string_at)
  with that [of ?p] assms(2) show thesis
    by (simp add: dexStringById_def dexGetStringData_def dexStringAndSizeById_def Let_def bytes skip_written read_write)
qed

section \<open>Properties\<close>

text \<open>The string of an index whose item holds a length and bytes without a zero is found by both ways of
  looking it up, at the same address; the second also gives the length.\<close>

theorem string_by_id:
  assumes "fits (mem f)" "rd4 (mem f) (dexGetStringId f idx) = Some off"
    "mem_at (mem f) (baseAddr f + off) = string_item n s @ rest" "0 \<notin> set s"
  shows "\<exists>p. dexStringById f idx = Some p \<and> dexStringAndSizeById f idx = Some (n, p) \<and> c_string (mem f) p = Some s"
  by (rule string_data [OF assms]) blast

text \<open>A file with one class, \<open>LA;\<close>.\<close>

definition one_class :: dex_file where
  "one_class = \<lparr>mem = \<lparr>img_base = 0, img_bytes = replicate 96 0 @ [1, 0, 0, 0, 112, 0, 0, 0, 0, 0, 0, 0, 0, 0, 0, 0, 3, 76, 65, 59, 0]\<rparr>,
     pOptHeader = 0, pHeader = 0, pStringIds = 100, pTypeIds = 104, pFieldIds = 0, pMethodIds = 0, pProtoIds = 0,
     pClassDefs = 108, pLinkData = 0, pClassLookup = 0, pRegisterMapPool = 0, baseAddr = 0\<rparr>"

theorem string_by_id_witness:
  "\<exists>p. dexStringById one_class 0 = Some p \<and> dexStringAndSizeById one_class 0 = Some (3, p) \<and>
     c_string (mem one_class) p = Some [76, 65, 59]"
proof -
  have "writeUnsignedLeb128 3 = [3]" by code_simp
  then show ?thesis
    by (intro string_by_id [where off = 112 and rest = "[]"])
      (simp_all add: string_item_def one_class_def fits_def rd4_def mem_at_def dexGetStringId_def le4_def)
qed

text \<open>The descriptor character of a primitive type is read back as the type, and no other character is.\<close>

theorem primitive_types_roundtrip:
  "dexGetPrimitiveTypeFromDescriptorChar c = t \<longleftrightarrow>
     (if t = PRIM_NOT then c \<notin> set ''VZBSCIJFD'' else c = dexGetPrimitiveTypeDescriptorChar t)"
  by (cases t) (auto simp: dexGetPrimitiveTypeFromDescriptorChar_def dexGetPrimitiveTypeDescriptorChar_def)

end
