(* ===== verification/Probing.thy ===== *)
theory Probing
  imports Prelude
begin

text \<open>
  Open addressing with linear probing, the technique of \<^verbatim>\<open>vm/Hash.cpp\<close> and of the class index of
  \<^verbatim>\<open>libdex/DexFile.cpp\<close>. The locale \<open>open_table\<close> states what its clients need to know of the entries:
  which slots end a probe (\<open>free\<close>), which hold something (\<open>live\<close>), and where an entry's probe starts. It
  shows that the first free or matching slot is where an entry is or belongs, and that filling a free
  slot, or replacing an entry by one that is not free, keeps every entry in reach.
\<close>

section \<open>Walking around a table\<close>

definition walk :: "'e list \<Rightarrow> nat \<Rightarrow> nat \<Rightarrow> 'e" where
  "walk es i d = es ! ((i + d) mod length es)"

lemma walk_Suc: "walk es i (Suc d) = walk es (Suc i mod length es) d"
  by (simp add: walk_def mod_simps)

lemma walk_reaches:
  assumes "i < length es" "p < length es"
  obtains d where "d < length es" "p = (i + d) mod length es" "walk es i d = es ! p"
proof (cases "i \<le> p")
  case True
  show thesis by (rule that [of "p - i"]) (use True assms in \<open>auto simp: walk_def\<close>)
next
  case False
  have "(i + (length es + p - i)) mod length es = p" using assms False by simp
  then show thesis by (intro that [of "length es + p - i"]) (use False assms in \<open>auto simp: walk_def\<close>)
qed

text \<open>The first step at which a probe stops.\<close>

definition stops_at :: "('e \<Rightarrow> bool) \<Rightarrow> 'e list \<Rightarrow> nat \<Rightarrow> nat \<Rightarrow> bool" where
  "stops_at stop es i d \<longleftrightarrow> stop (walk es i d) \<and> (\<forall>j < d. \<not> stop (walk es i j))"

lemma stops_somewhere:
  assumes "i < length es" "e \<in> set es" "stop e"
  obtains d where "d < length es" "stops_at stop es i d"
proof -
  obtain p where "p < length es" "es ! p = e" using assms(2) by (auto simp: in_set_conv_nth)
  with assms obtain d0 where d0: "d0 < length es" "stop (walk es i d0)" by (metis walk_reaches)
  then obtain d where "stop (walk es i d)" "\<forall>j < d. \<not> stop (walk es i j)"
    using exists_least_iff [of "\<lambda>d. stop (walk es i d)"] by blast
  moreover from this d0(2) have "d \<le> d0" by (meson not_less)
  ultimately show thesis using d0(1) by (intro that [of d]) (auto simp: stops_at_def)
qed

lemma stops_at_unique: "stops_at stop es i d \<Longrightarrow> stops_at stop es i d' \<Longrightarrow> d = d'"
  unfolding stops_at_def by (cases d d' rule: linorder_cases) auto

lemma stops_at_0: "i < length es \<Longrightarrow> stops_at stop es i 0 \<longleftrightarrow> stop (es ! i)"
  by (simp add: stops_at_def walk_def)

lemma stops_at_Suc: "stops_at stop es i (Suc d) \<Longrightarrow> \<not> stop (walk es i 0) \<and> stops_at stop es (Suc i mod length es) d"
  by (auto simp: stops_at_def walk_Suc)

section \<open>Tables\<close>

locale open_table =
  fixes free live :: "'e \<Rightarrow> bool" and start :: "nat \<Rightarrow> 'e \<Rightarrow> nat"
  assumes live_not_free: "live e \<Longrightarrow> \<not> free e"
    and start_less: "0 < n \<Longrightarrow> start n e < n"
begin

text \<open>Every live entry is reached by its probe before a free slot is.\<close>

definition in_reach :: "'e list \<Rightarrow> nat \<Rightarrow> bool" where
  "in_reach es p \<longleftrightarrow> (\<exists>d < length es. p = (start (length es) (es ! p) + d) mod length es \<and>
     (\<forall>j < d. \<not> free (walk es (start (length es) (es ! p)) j)))"

definition reachable :: "'e list \<Rightarrow> bool" where
  "reachable es \<longleftrightarrow> (\<forall>p < length es. live (es ! p) \<longrightarrow> in_reach es p)"

text \<open>A probe that stops at free slots and at matches, started where a live match starts, ends at a match.\<close>

lemma probe_finds:
  assumes "reachable es" "stops_at (\<lambda>e. free e \<or> matches e) es i d"
    and p: "p < length es" "live (es ! p)" "matches (es ! p)" "start (length es) (es ! p) = i"
  shows "\<not> free (walk es i d) \<and> matches (walk es i d)"
proof -
  obtain q where q: "q < length es" "p = (i + q) mod length es" "\<forall>j < q. \<not> free (walk es i j)"
    using assms(1) p by (auto simp: reachable_def in_reach_def)
  then have at_q: "walk es i q = es ! p" by (simp add: walk_def)
  have "d \<le> q"
  proof (rule ccontr)
    assume "\<not> d \<le> q"
    then have "\<not> matches (walk es i q)" using assms(2) by (simp add: stops_at_def)
    with at_q p(3) show False by simp
  qed
  then have "\<not> free (walk es i d)" using q at_q live_not_free [OF p(2)] by (cases "d = q") auto
  with assms(2) show ?thesis by (auto simp: stops_at_def)
qed

text \<open>Overwriting a slot with an entry that is not free keeps the other entries in reach.\<close>

lemma reach_update:
  assumes "in_reach es p" "\<not> free e" "k < length es" "p \<noteq> k" "p < length es"
  shows "in_reach (es[k := e]) p"
proof -
  let ?i = "start (length es) (es ! p)"
  obtain d where d: "d < length es" "p = (?i + d) mod length es" "\<forall>j < d. \<not> free (walk es ?i j)"
    using assms(1) by (auto simp: in_reach_def)
  have "\<not> free (walk (es[k := e]) ?i j)" if "j < d" for j
    using d(3) that assms by (cases "(?i + j) mod length es = k") (auto simp: walk_def)
  then show ?thesis using d assms by (auto simp: in_reach_def)
qed

text \<open>An entry put into the first free slot of its probe is in reach.\<close>

lemma reach_new:
  assumes "stops_at (\<lambda>e. free e \<or> matches e) es (start (length es) e) d" "\<not> free e"
    "d < length es" "k = (start (length es) e + d) mod length es"
  shows "in_reach (es[k := e]) k"
proof -
  have n: "0 < length es" using assms(3) by linarith
  then have k: "k < length es" using assms(4) by simp
  have "\<not> free (walk (es[k := e]) (start (length es) e) j)" if "j < d" for j
    using assms(1,2) that k n by (cases "(start (length es) e + j) mod length es = k") (auto simp: walk_def stops_at_def)
  then show ?thesis using assms(3,4) k by (auto simp: in_reach_def)
qed

lemma reachable_put:
  assumes "reachable es" "stops_at (\<lambda>e. free e \<or> matches e) es (start (length es) e) d" "\<not> free e"
    "d < length es" "k = (start (length es) e + d) mod length es"
  shows "reachable (es[k := e])"
proof -
  have k: "k < length es" using assms(4,5) by (metis less_nat_zero_code mod_less_divisor neq0_conv)
  show ?thesis
    unfolding reachable_def
  proof (intro allI impI)
    fix p assume p: "p < length (es[k := e])" "live (es[k := e] ! p)"
    show "in_reach (es[k := e]) p"
    proof (cases "p = k")
      case True
      then show ?thesis using reach_new [OF assms(2-5)] by simp
    next
      case False
      with p assms(1) have "in_reach es p" by (simp add: reachable_def)
      with reach_update [OF this assms(3) k False] p show ?thesis by simp
    qed
  qed
qed

lemma reachable_replace:
  assumes "reachable es" "k < length es" "\<not> free e" "\<not> live e"
  shows "reachable (es[k := e])"
  using assms reach_update by (auto simp: reachable_def nth_list_update)

text \<open>What a probe finds after a free slot was filled: what it found before, or else the new entry if that
  matches, or else nothing.\<close>

lemma probe_put_found:
  assumes "stops_at (\<lambda>e. free e \<or> matches e) es i d" "\<not> free (walk es i d)" "k < length es" "free (es ! k)"
  shows "stops_at (\<lambda>e. free e \<or> matches e) (es[k := e]) i d \<and> walk (es[k := e]) i d = walk es i d"
proof -
  have "walk (es[k := e]) i j = walk es i j" if "j \<le> d" for j
  proof -
    have "\<not> free (walk es i j)" using assms(1,2) that by (cases "j = d") (auto simp: stops_at_def)
    with assms(4) have "(i + j) mod length es \<noteq> k" by (auto simp: walk_def)
    then show ?thesis by (simp add: walk_def)
  qed
  with assms(1) show ?thesis by (auto simp: stops_at_def)
qed

lemma probe_put_new:
  assumes "stops_at (\<lambda>e. free e \<or> matches e) es i d" "free (walk es i d)" "matches e"
    "k = (i + d) mod length es" "k < length es"
  shows "stops_at (\<lambda>e. free e \<or> matches e) (es[k := e]) i d \<and> walk (es[k := e]) i d = e"
proof -
  have "walk (es[k := e]) i j = walk es i j" if "j < d" for j
  proof -
    have "\<not> free (walk es i j)" using assms(1) that by (auto simp: stops_at_def)
    with assms(2,4) have "(i + j) mod length es \<noteq> k" by (auto simp: walk_def)
    then show ?thesis by (simp add: walk_def)
  qed
  moreover have "walk (es[k := e]) i d = e" using assms(4,5) by (simp add: walk_def)
  ultimately show ?thesis using assms(1,3) by (auto simp: stops_at_def)
qed

lemma probe_put_other:
  assumes "reachable es" "stops_at (\<lambda>e. free e \<or> matches e) es i d" "free (walk es i d)" "\<not> matches e"
    and "\<And>x. x \<in> set es \<Longrightarrow> matches x \<Longrightarrow> \<not> free x \<Longrightarrow> live x \<and> start (length es) x = i"
    and "stops_at (\<lambda>e. free e \<or> matches e) (es[k := e]) i d'" "i < length es"
  shows "free (walk (es[k := e]) i d')"
proof (rule ccontr)
  let ?p = "(i + d') mod length es"
  assume nf: "\<not> free (walk (es[k := e]) i d')"
  then have m: "matches (es[k := e] ! ?p)" "\<not> free (es[k := e] ! ?p)" using assms(6) by (auto simp: stops_at_def walk_def)
  have p: "?p < length es" using assms(7) by (intro mod_less_divisor) linarith
  have same: "es[k := e] ! ?p = es ! ?p" using m(1) assms(4) p by (cases "?p = k") auto
  with m p have "live (es ! ?p) \<and> start (length es) (es ! ?p) = i" using assms(5) by simp
  with probe_finds [OF assms(1,2) p] m(1) same assms(3) show False by simp
qed

lemma reachable_empty: "\<forall>e \<in> set es. \<not> live e \<Longrightarrow> reachable es"
  by (auto simp: reachable_def)

end

end
