(* ===== verification/HashTable.thy ===== *)
theory HashTable
  imports Probing
begin

text \<open>
  \<^verbatim>\<open>jni/dalvik/vm/Hash.cpp\<close> and \<^verbatim>\<open>.h\<close>: the VM's hash table, with linear probing and tombstones, and
  \<open>dexRoundUpPower2\<close> of \<^verbatim>\<open>libdex/DexFile.cpp\<close>, which sizes it. An item is its address; 0 is \<open>NULL\<close>. The
  comparison, the hash and the visiting functions of the client are arguments. \<open>None\<close> is a probe that
  never ends or leaves the array; an allocation succeeds. The sizes stay below the range of \<open>int\<close>, and
  the number of entries is not 0 where it is decremented, unless a client removes \<open>HASH_TOMBSTONE\<close> itself.
\<close>

unbundle bit_operations_syntax

section \<open>Model\<close>

definition dexRoundUpPower2 :: "u4 \<Rightarrow> u4" where
  "dexRoundUpPower2 val =
     (let val = val - 1;
          val = val OR drop_bit 1 val;
          val = val OR drop_bit 2 val;
          val = val OR drop_bit 4 val;
          val = val OR drop_bit 8 val;
          val = val OR drop_bit 16 val
      in val + 1)"

definition LOAD_NUMER :: nat where "LOAD_NUMER = 5"
definition LOAD_DENOM :: nat where "LOAD_DENOM = 8"

definition dvmHashSize :: "nat \<Rightarrow> nat" where
  "dvmHashSize sz = (sz * LOAD_DENOM) div LOAD_NUMER + 1"

definition HASH_TOMBSTONE :: u4 where "HASH_TOMBSTONE = 0xcbcacccd"

record hash_entry =
  hashValue :: u4
  data :: u4

record hash_table =
  numEntries :: nat
  numDeadEntries :: nat
  pEntries :: "hash_entry list"

definition tableSize :: "hash_table \<Rightarrow> nat" where
  "tableSize t = length (pEntries t)"

definition empty_entry :: hash_entry where
  "empty_entry = \<lparr>hashValue = 0, data = 0\<rparr>"

definition dvmHashTableCreate :: "u4 \<Rightarrow> hash_table" where
  "dvmHashTableCreate initialSize =
     \<lparr>numEntries = 0, numDeadEntries = 0,
      pEntries = replicate (unat (dexRoundUpPower2 initialSize)) empty_entry\<rparr>"

definition live_entry :: "hash_entry \<Rightarrow> bool" where
  "live_entry e \<longleftrightarrow> data e \<noteq> 0 \<and> data e \<noteq> HASH_TOMBSTONE"

text \<open>Clearing: the table, and the items passed to \<open>freeFunc\<close>, in order.\<close>

definition dvmHashTableClear :: "bool \<Rightarrow> hash_table \<Rightarrow> u4 list \<times> hash_table" where
  "dvmHashTableClear has_freeFunc t =
     (if has_freeFunc then map data (filter live_entry (pEntries t)) else [],
      t\<lparr>numEntries := 0, numDeadEntries := 0, pEntries := map (\<lambda>e. e\<lparr>data := 0\<rparr>) (pEntries t)\<rparr>)"

definition dvmHashTableFree :: "bool \<Rightarrow> hash_table option \<Rightarrow> u4 list" where
  "dvmHashTableFree has_freeFunc pHashTable =
     (case pHashTable of None \<Rightarrow> [] | Some t \<Rightarrow> fst (dvmHashTableClear has_freeFunc t))"

definition countTombStones :: "hash_entry list \<Rightarrow> nat" where
  "countTombStones es = length (filter (\<lambda>e. data e = HASH_TOMBSTONE) es)"

text \<open>\<open>hash & (size-1)\<close>.\<close>

definition slot_of :: "nat \<Rightarrow> u4 \<Rightarrow> nat" where
  "slot_of n hash = unat (hash AND (of_nat n - 1))"

partial_function (option) probe_new :: "hash_entry list \<Rightarrow> nat \<Rightarrow> nat option" where
  "probe_new es newIdx =
     (if data (es ! newIdx) \<noteq> 0 then probe_new es (slot_of (length es) (of_nat (newIdx + 1)))
      else Some newIdx)"

fun rehash :: "hash_entry list \<Rightarrow> hash_entry list \<Rightarrow> hash_entry list option" where
  "rehash [] new = Some new"
| "rehash (e # es) new =
     (if live_entry e then
        case probe_new new (slot_of (length new) (hashValue e)) of
          None \<Rightarrow> None
        | Some newIdx \<Rightarrow> rehash es (new[newIdx := e])
      else rehash es new)"

definition resizeHash :: "nat \<Rightarrow> hash_table \<Rightarrow> hash_table option" where
  "resizeHash newSize t =
     map_option (\<lambda>new. t\<lparr>pEntries := new, numDeadEntries := 0\<rparr>)
       (rehash (pEntries t) (replicate newSize empty_entry))"

text \<open>The probing loops of lookup, removal and counting: they stop at an empty slot or where the
  argument says; in a table of one entry they leave the array instead of starting over, and lookup and
  counting then read beyond it, while removal returns false.\<close>

partial_function (option) probe :: "(hash_entry \<Rightarrow> bool) \<Rightarrow> hash_entry list \<Rightarrow> nat \<Rightarrow> nat option" where
  "probe found es i =
     (if data (es ! i) = 0 \<or> found (es ! i) then Some i
      else if Suc i = length es then (if length es = 1 then None else probe found es 0)
      else probe found es (Suc i))"

definition matches_item :: "(u4 \<Rightarrow> u4 \<Rightarrow> int) \<Rightarrow> u4 \<Rightarrow> u4 \<Rightarrow> hash_entry \<Rightarrow> bool" where
  "matches_item cmpFunc itemHash item e \<longleftrightarrow>
     data e \<noteq> HASH_TOMBSTONE \<and> hashValue e = itemHash \<and> cmpFunc (data e) item = 0"

text \<open>The result is \<open>NULL\<close>, the item found or the item added.\<close>

definition dvmHashTableLookup ::
  "(u4 \<Rightarrow> u4 \<Rightarrow> int) \<Rightarrow> hash_table \<Rightarrow> u4 \<Rightarrow> u4 \<Rightarrow> bool \<Rightarrow> (u4 \<times> hash_table) option" where
  "dvmHashTableLookup cmpFunc t itemHash item doAdd =
     (case probe (matches_item cmpFunc itemHash item) (pEntries t) (slot_of (tableSize t) itemHash) of
        None \<Rightarrow> None
      | Some i \<Rightarrow>
          if data (pEntries t ! i) = 0 then
            if doAdd then
              let t' = t\<lparr>pEntries := (pEntries t)[i := \<lparr>hashValue = itemHash, data = item\<rparr>],
                         numEntries := numEntries t + 1\<rparr> in
              if (numEntries t' + numDeadEntries t') * LOAD_DENOM > tableSize t' * LOAD_NUMER
              then map_option (\<lambda>t''. (item, t'')) (resizeHash (tableSize t' * 2) t')
              else Some (item, t')
            else Some (0, t)
          else Some (data (pEntries t ! i), t))"

definition kill_entry :: "nat \<Rightarrow> hash_table \<Rightarrow> hash_table" where
  "kill_entry i t = t\<lparr>pEntries := (pEntries t)[i := (pEntries t ! i)\<lparr>data := HASH_TOMBSTONE\<rparr>],
     numEntries := numEntries t - 1, numDeadEntries := numDeadEntries t + 1\<rparr>"

definition dvmHashTableRemove :: "hash_table \<Rightarrow> u4 \<Rightarrow> u4 \<Rightarrow> (bool \<times> hash_table) option" where
  "dvmHashTableRemove t itemHash item =
     (case probe (\<lambda>e. data e = item) (pEntries t) (slot_of (tableSize t) itemHash) of
        None \<Rightarrow> if tableSize t = 1 then Some (False, t) else None
      | Some i \<Rightarrow>
          if data (pEntries t ! i) \<noteq> 0 then Some (True, kill_entry i t) else Some (False, t))"

text \<open>The loop of \<open>dvmHashForeachRemove\<close> from an index on.\<close>

function foreach_remove :: "(u4 \<Rightarrow> int) \<Rightarrow> nat \<Rightarrow> hash_table \<Rightarrow> int \<times> hash_table" where
  "foreach_remove func i t =
     (if i < tableSize t then
        if live_entry (pEntries t ! i) then
          let val = func (data (pEntries t ! i)) in
          if val = 1 then foreach_remove func (Suc i) (kill_entry i t)
          else if val \<noteq> 0 then (val, t)
          else foreach_remove func (Suc i) t
        else foreach_remove func (Suc i) t
      else (0, t))"
  by pat_completeness auto
termination
  by (relation "measure (\<lambda>(f, i, t). tableSize t - i)") (auto simp: tableSize_def kill_entry_def)

declare foreach_remove.simps [simp del]

definition dvmHashForeachRemove :: "(u4 \<Rightarrow> int) \<Rightarrow> hash_table \<Rightarrow> int \<times> hash_table" where
  "dvmHashForeachRemove func t = foreach_remove func 0 t"

text \<open>\<open>dvmHashForeach\<close>: the result and the items visited; the function's results are an argument.\<close>

fun foreach :: "(u4 \<Rightarrow> int) \<Rightarrow> hash_entry list \<Rightarrow> int \<times> u4 list" where
  "foreach func [] = (0, [])"
| "foreach func (e # es) =
     (if live_entry e then
        let val = func (data e) in
        if val \<noteq> 0 then (val, [data e])
        else case foreach func es of (r, vs) \<Rightarrow> (r, data e # vs)
      else foreach func es)"

definition dvmHashForeach :: "(u4 \<Rightarrow> int) \<Rightarrow> hash_table \<Rightarrow> int \<times> u4 list" where
  "dvmHashForeach func t = foreach func (pEntries t)"

text \<open>The iterator: the next index with a live entry.\<close>

function next_live :: "hash_entry list \<Rightarrow> nat \<Rightarrow> nat" where
  "next_live es i = (if i < length es \<and> \<not> live_entry (es ! i) then next_live es (Suc i) else i)"
  by pat_completeness auto
termination
  by (relation "measure (\<lambda>(es, i). length es - i)") auto

declare next_live.simps [simp del]

lemma next_live_ge: "i \<le> next_live es i"
  by (induction es i rule: next_live.induct) (subst next_live.simps, auto)

definition dvmHashIterBegin :: "hash_table \<Rightarrow> nat" where
  "dvmHashIterBegin t = next_live (pEntries t) 0"

definition dvmHashIterNext :: "hash_table \<Rightarrow> nat \<Rightarrow> nat" where
  "dvmHashIterNext t idx = next_live (pEntries t) (idx + 1)"

definition dvmHashIterDone :: "hash_table \<Rightarrow> nat \<Rightarrow> bool" where
  "dvmHashIterDone t idx \<longleftrightarrow> idx \<ge> tableSize t"

definition dvmHashIterData :: "hash_table \<Rightarrow> nat \<Rightarrow> u4" where
  "dvmHashIterData t idx = data (pEntries t ! idx)"

function iter_items :: "hash_table \<Rightarrow> nat \<Rightarrow> u4 list" where
  "iter_items t idx =
     (if dvmHashIterDone t idx then [] else dvmHashIterData t idx # iter_items t (dvmHashIterNext t idx))"
  by pat_completeness auto
termination
proof (relation "measure (\<lambda>(t, idx). tableSize t - idx)", goal_cases)
  case (2 t idx)
  with next_live_ge [of "idx + 1" "pEntries t"] show ?case by (simp add: dvmHashIterDone_def dvmHashIterNext_def)
qed simp

declare iter_items.simps [simp del]

text \<open>\<open>countProbes\<close>: how far the entry of an item is from where its probe starts, -1 if there is none.\<close>

partial_function (option) count_probes ::
  "(hash_entry \<Rightarrow> bool) \<Rightarrow> hash_entry list \<Rightarrow> nat \<Rightarrow> int \<Rightarrow> int option" where
  "count_probes found es i count =
     (if data (es ! i) = 0 then Some (- 1)
      else if found (es ! i) then Some count
      else if Suc i = length es then
        (if length es = 1 then None else count_probes found es 0 (count + 1))
      else count_probes found es (Suc i) (count + 1))"

definition countProbes :: "(u4 \<Rightarrow> u4 \<Rightarrow> int) \<Rightarrow> hash_table \<Rightarrow> u4 \<Rightarrow> u4 \<Rightarrow> int option" where
  "countProbes cmpFunc t itemHash item =
     count_probes (matches_item cmpFunc itemHash item) (pEntries t) (slot_of (tableSize t) itemHash) 0"

text \<open>\<open>dvmHashTableProbeCount\<close>: the least, the greatest and the total count, and the number of entries.\<close>

fun probe_stats :: "(u4 \<Rightarrow> int option) \<Rightarrow> u4 list \<Rightarrow> int \<times> int \<times> int \<times> int \<Rightarrow> (int \<times> int \<times> int \<times> int) option" where
  "probe_stats count_of [] stats = Some stats"
| "probe_stats count_of (d # ds) (n, minProbe, maxProbe, totalProbe) =
     (case count_of d of
        None \<Rightarrow> None
      | Some count \<Rightarrow>
          probe_stats count_of ds
            (n + 1, if count < minProbe then count else minProbe,
             if count > maxProbe then count else maxProbe, totalProbe + count))"

definition dvmHashTableProbeCount ::
  "(u4 \<Rightarrow> u4) \<Rightarrow> (u4 \<Rightarrow> u4 \<Rightarrow> int) \<Rightarrow> hash_table \<Rightarrow> (int \<times> int \<times> int \<times> int) option" where
  "dvmHashTableProbeCount calcFunc cmpFunc t =
     probe_stats (\<lambda>d. countProbes cmpFunc t (calcFunc d) d) (iter_items t (dvmHashIterBegin t))
       (0, 65536 * 32767, 0, 0)"

section \<open>Powers of two\<close>

definition smeared :: "nat \<Rightarrow> u4 \<Rightarrow> u4 \<Rightarrow> bool" where
  "smeared s x y \<longleftrightarrow> (\<forall>n. bit y n \<longleftrightarrow> (\<exists>j < s. bit x (n + j)))"

lemma smeared_step: "smeared s x y \<Longrightarrow> smeared (s + s) x (y OR drop_bit s y)"
proof -
  assume y: "smeared s x y"
  have "(\<exists>j < s + s. P j) \<longleftrightarrow> (\<exists>j < s. P j) \<or> (\<exists>j < s. P (s + j))" for P
    by (metis add_diff_inverse_nat add_less_cancel_left not_less trans_less_add1)
  with y show ?thesis by (simp add: smeared_def bit_simps add.assoc add.commute add.left_commute)
qed

lemma smeared_mask:
  assumes "smeared 32 x y" "x \<noteq> 0"
  obtains h where "bit x h" "h < 32" "y = mask (Suc h)" "\<forall>n. bit x n \<longrightarrow> n \<le> h"
proof -
  obtain n where "bit x n" using assms(2) by (auto simp: bit_eq_iff)
  moreover have bound: "bit x n \<Longrightarrow> n < 32" for n by (simp add: bit_imp_le_length [where 'a = 32, simplified])
  ultimately obtain h where h: "bit x h" "\<And>n. bit x n \<Longrightarrow> n \<le> h"
    by (metis GreatestI_ex_nat Greatest_le_nat less_imp_le_nat)
  have "y = mask (Suc h)"
  proof (rule bit_word_eqI)
    fix n :: nat
    assume n: "n < LENGTH(32)"
    have "(\<exists>j < 32. bit x (n + j)) \<longleftrightarrow> n \<le> h"
    proof
      assume "n \<le> h"
      then have "h - n < 32" "bit x (n + (h - n))" using h bound [of h] by auto
      then show "\<exists>j < 32. bit x (n + j)" by blast
    qed (use h(2) in fastforce)
    with n assms(1) show "bit y n = bit (mask (Suc h) :: u4) n" by (simp add: smeared_def bit_simps less_Suc_eq_le)
  qed
  with h bound [of h] that show thesis by blast
qed

lemma round_up_smeared:
  "\<exists>y. smeared 32 (val - 1) y \<and> dexRoundUpPower2 val = y + 1"
proof -
  define a where "a = val - 1"
  define b where "b = a OR drop_bit 1 a"
  define c where "c = b OR drop_bit 2 b"
  define d where "d = c OR drop_bit 4 c"
  define e where "e = d OR drop_bit 8 d"
  have "smeared 1 a a" by (simp add: smeared_def)
  then have "smeared 2 a b" using smeared_step [of 1 a a] by (simp only: b_def one_add_one)
  then have "smeared 4 a c" using smeared_step [of 2 a b] by (simp add: c_def)
  then have "smeared 8 a d" using smeared_step [of 4 a c] by (simp add: d_def)
  then have "smeared 16 a e" using smeared_step [of 8 a d] by (simp add: e_def)
  then have "smeared 32 a (e OR drop_bit 16 e)" using smeared_step [of 16 a e] by simp
  then show ?thesis
    unfolding dexRoundUpPower2_def Let_def a_def [symmetric] b_def [symmetric] c_def [symmetric] d_def [symmetric] e_def [symmetric]
    by blast
qed

lemma top_bit_bounds:
  assumes "bit x h" "\<forall>n. bit x n \<longrightarrow> n \<le> h" "h < 32"
  shows "2 ^ h \<le> unat (x :: u4) \<and> unat x < 2 ^ Suc h"
proof -
  have take: "take_bit (Suc h) x = x"
    using assms(2) by (intro bit_eqI) (auto simp: bit_simps less_Suc_eq_le)
  then have "unat x = unat x mod 2 ^ Suc h" by (metis take_bit_eq_mod unsigned_take_bit_eq)
  then have lt: "unat x < 2 ^ Suc h" by (metis mod_less_divisor pos2 zero_less_power)
  have "bit (unat x) h" using assms(1,3) by (simp add: bit_unsigned_iff)
  then have "odd (unat x div 2 ^ h)" by (rule bit_iff_odd [THEN iffD1])
  then have "2 ^ h \<le> unat x" by (metis div_less even_zero not_le)
  with lt show ?thesis by simp
qed

lemma round_up_power2:
  assumes "1 \<le> unat val" "unat val \<le> 2 ^ 31"
  obtains k where "k \<le> 31" "unat (dexRoundUpPower2 val) = 2 ^ k" "unat val \<le> 2 ^ k" "\<And>j. unat val \<le> 2 ^ j \<Longrightarrow> k \<le> j"
proof -
  obtain y where y: "smeared 32 (val - 1) y" "dexRoundUpPower2 val = y + 1" using round_up_smeared by blast
  have "val \<noteq> 0" using assms(1) by auto
  then have un: "unat (val - 1) = unat val - 1" by (rule unat_minus_one)
  show thesis
  proof (cases "val - 1 = 0")
    case True
    then have "y = 0" using y(1) by (intro bit_eqI) (simp add: smeared_def)
    with True y un show thesis by (intro that [of 0]) auto
  next
    case False
    obtain h where h: "bit (val - 1) h" "h < 32" "y = mask (Suc h)" "\<forall>n. bit (val - 1) n \<longrightarrow> n \<le> h"
      by (rule smeared_mask [OF y(1) False])
    note b = top_bit_bounds [OF h(1,4,2)]
    have "(2::nat) ^ h < 2 ^ 31" using b un assms by linarith
    then have h31: "h < 31" by (rule power_less_imp_less_exp [rotated]) simp
    have "dexRoundUpPower2 val = 2 ^ Suc h" by (simp add: y(2) h(3) mask_eq_exp_minus_1)
    moreover have "(2::nat) ^ Suc h < 2 ^ 32" using h31 by (intro power_strict_increasing) auto
    then have "unat ((2 :: u4) ^ Suc h) = 2 ^ Suc h" using unat_of_nat_u4 [of "2 ^ Suc h"] by simp
    moreover have "Suc h \<le> j" if "unat val \<le> 2 ^ j" for j
    proof -
      have "(2::nat) ^ h < 2 ^ j" using b un that assms(1) by linarith
      then show ?thesis by simp
    qed
    ultimately show thesis using b un h31 by (intro that [of "Suc h"]) auto
  qed
qed

lemma slot_of_mod:
  assumes "k \<le> 31"
  shows "slot_of (2 ^ k) hash = unat hash mod 2 ^ k"
proof -
  have "(of_nat (2 ^ k) :: u4) - 1 = mask k" by (simp add: mask_eq_exp_minus_1)
  then have "slot_of (2 ^ k) hash = unat (take_bit k hash)" by (simp only: slot_of_def take_bit_eq_mask)
  then show ?thesis by (simp only: unsigned_take_bit_eq) (simp add: take_bit_eq_mod)
qed

text \<open>Stepping to the next slot of a table whose size is a power of two.\<close>

lemma next_slot:
  assumes "n = 2 ^ k" "k \<le> 30" "i < n"
  shows "slot_of n (of_nat (i + 1)) = Suc i mod n"
proof -
  have "(2::nat) ^ k \<le> 2 ^ 30" using assms(2) by (rule power_increasing) simp
  then have "unat (of_nat (i + 1) :: u4) = Suc i" using assms(1,3) by (subst unat_of_nat_u4) auto
  then show ?thesis using slot_of_mod [of k "of_nat (i + 1)"] assms by simp
qed

section \<open>Probing\<close>

definition free_entry :: "hash_entry \<Rightarrow> bool" where
  "free_entry e \<longleftrightarrow> data e = 0"

interpretation ht: open_table free_entry live_entry "\<lambda>n e. unat (hashValue e) mod n"
  by unfold_locales (auto simp: free_entry_def live_entry_def)

lemma wrap_Suc: "i < n \<Longrightarrow> Suc i mod n = (if Suc i = n then 0 else Suc i)"
  by auto

lemma Suc_mod_less: "i < n \<Longrightarrow> Suc i mod n < n"
  by (simp add: wrap_Suc)

lemma single_slot: "length es = 1 \<Longrightarrow> i < length es \<Longrightarrow> walk es i d = es ! i"
  by (simp add: walk_def)

lemma probe_stops:
  "i < length es \<Longrightarrow> stops_at (\<lambda>e. free_entry e \<or> found e) es i d \<Longrightarrow>
    probe found es i = Some ((i + d) mod length es)"
proof (induction d arbitrary: i)
  case 0
  then show ?case by (subst probe.simps) (simp add: stops_at_0 free_entry_def)
next
  case (Suc d)
  have go: "\<not> (free_entry (es ! i) \<or> found (es ! i))" and rest: "stops_at (\<lambda>e. free_entry e \<or> found e) es (Suc i mod length es) d"
    using stops_at_Suc [OF Suc.prems(2)] Suc.prems(1) by (simp_all add: walk_def)
  have "length es \<noteq> 1"
    using go rest single_slot [of es "Suc i mod length es" d] Suc.prems(1) by (auto simp: stops_at_def)
  with go Suc.prems(1) have "probe found es i = probe found es (Suc i mod length es)"
    by (subst probe.simps) (simp add: free_entry_def wrap_Suc)
  moreover have "Suc i mod length es < length es" using Suc.prems(1) by (rule Suc_mod_less)
  ultimately show ?case using Suc.IH [OF _ rest] by (simp add: mod_simps)
qed

lemma count_probes_stops:
  "i < length es \<Longrightarrow> stops_at (\<lambda>e. free_entry e \<or> found e) es i d \<Longrightarrow>
    count_probes found es i c = Some (if free_entry (walk es i d) then - 1 else c + int d)"
proof (induction d arbitrary: i c)
  case 0
  then show ?case by (subst count_probes.simps) (auto simp: stops_at_0 free_entry_def walk_def)
next
  case (Suc d)
  have go: "\<not> (free_entry (es ! i) \<or> found (es ! i))" and rest: "stops_at (\<lambda>e. free_entry e \<or> found e) es (Suc i mod length es) d"
    using stops_at_Suc [OF Suc.prems(2)] Suc.prems(1) by (simp_all add: walk_def)
  have "length es \<noteq> 1"
    using go rest single_slot [of es "Suc i mod length es" d] Suc.prems(1) by (auto simp: stops_at_def)
  with go Suc.prems(1) have "count_probes found es i c = count_probes found es (Suc i mod length es) (c + 1)"
    by (subst count_probes.simps) (simp add: free_entry_def wrap_Suc)
  moreover have "Suc i mod length es < length es" using Suc.prems(1) by (rule Suc_mod_less)
  ultimately show ?case using Suc.IH [OF _ rest, of "c + 1"] by (simp add: walk_Suc)
qed

lemma probe_new_stops:
  assumes "length es = 2 ^ k" "k \<le> 30"
  shows "i < length es \<Longrightarrow> stops_at free_entry es i d \<Longrightarrow> probe_new es i = Some ((i + d) mod length es)"
proof (induction d arbitrary: i)
  case 0
  then show ?case by (subst probe_new.simps) (simp add: stops_at_0 free_entry_def)
next
  case (Suc d)
  have go: "\<not> free_entry (es ! i)" and rest: "stops_at free_entry es (Suc i mod length es) d"
    using stops_at_Suc [OF Suc.prems(2)] Suc.prems(1) by (simp_all add: walk_def)
  have "probe_new es i = probe_new es (Suc i mod length es)"
    using go next_slot [OF assms Suc.prems(1)] by (subst probe_new.simps) (simp add: free_entry_def)
  moreover have "Suc i mod length es < length es" using Suc.prems(1) by (rule Suc_mod_less)
  ultimately show ?case using Suc.IH [OF _ rest] by (simp add: mod_simps)
qed

section \<open>The invariant\<close>

lemma count_entries: "length (filter live_entry es) + countTombStones es + length (filter free_entry es) = length es"
  by (induction es) (auto simp: countTombStones_def live_entry_def free_entry_def HASH_TOMBSTONE_def)

lemma free_slot:
  assumes "length (filter live_entry es) + countTombStones es < length es"
  obtains e where "e \<in> set es" "free_entry e"
proof -
  have "filter free_entry es \<noteq> []" using count_entries [of es] assms by (cases "filter free_entry es") auto
  with that show thesis by (auto simp: filter_empty_conv)
qed

text \<open>The keys of the live entries: each once, and with the hash of the key.\<close>

definition keyed :: "(u4 \<Rightarrow> 'k) \<Rightarrow> ('k \<Rightarrow> u4) \<Rightarrow> hash_entry list \<Rightarrow> bool" where
  "keyed key hashf es \<longleftrightarrow>
     (\<forall>p < length es. live_entry (es ! p) \<longrightarrow> hashValue (es ! p) = hashf (key (data (es ! p)))) \<and>
     (\<forall>p < length es. \<forall>q < length es. live_entry (es ! p) \<and> live_entry (es ! q) \<and>
        key (data (es ! p)) = key (data (es ! q)) \<longrightarrow> p = q)"

text \<open>The map a table stands for: from keys to the items that have them.\<close>

definition lookup_key :: "(u4 \<Rightarrow> 'k) \<Rightarrow> hash_entry list \<Rightarrow> 'k \<rightharpoonup> u4" where
  "lookup_key key es k = map_option data (find (\<lambda>e. live_entry e \<and> key (data e) = k) es)"

lemma lookup_key_Some:
  assumes "keyed key hashf es"
  shows "lookup_key key es k = Some d \<longleftrightarrow> (\<exists>p < length es. live_entry (es ! p) \<and> data (es ! p) = d \<and> key d = k)"
proof
  assume "lookup_key key es k = Some d"
  then show "\<exists>p < length es. live_entry (es ! p) \<and> data (es ! p) = d \<and> key d = k"
    by (auto simp: lookup_key_def find_Some_iff)
next
  assume "\<exists>p < length es. live_entry (es ! p) \<and> data (es ! p) = d \<and> key d = k"
  then obtain p where p: "p < length es" "live_entry (es ! p)" "data (es ! p) = d" "key d = k" by blast
  then have "find (\<lambda>e. live_entry e \<and> key (data e) = k) es \<noteq> None"
    by (auto simp: find_None_iff in_set_conv_nth)
  then obtain e where e: "find (\<lambda>e. live_entry e \<and> key (data e) = k) es = Some e" by blast
  then obtain q where q: "q < length es" "live_entry (es ! q)" "key (data (es ! q)) = k" "e = es ! q"
    by (auto simp: find_Some_iff)
  with p assms have "p = q" unfolding keyed_def by metis
  with p q e show "lookup_key key es k = Some d" by (simp add: lookup_key_def)
qed

lemma lookup_key_None:
  "lookup_key key es k = None \<longleftrightarrow> (\<forall>p < length es. live_entry (es ! p) \<longrightarrow> key (data (es ! p)) \<noteq> k)"
  by (auto simp: lookup_key_def find_None_iff in_set_conv_nth)

lemma put_keyed:
  assumes "keyed key hashf es" "i < length es" "\<not> live_entry (es ! i)"
    "lookup_key key es (key (data e)) = None" "hashValue e = hashf (key (data e))"
  shows "keyed key hashf (es[i := e])"
  using assms unfolding keyed_def lookup_key_None by (auto simp: nth_list_update)

lemma put_lookup:
  assumes "keyed key hashf es" "i < length es" "\<not> live_entry (es ! i)"
    "lookup_key key es (key (data e)) = None" "hashValue e = hashf (key (data e))" "live_entry e"
  shows "lookup_key key (es[i := e]) = (lookup_key key es)(key (data e) \<mapsto> data e)"
proof
  fix k
  note keyed' = put_keyed [OF assms(1-5)]
  show "lookup_key key (es[i := e]) k = ((lookup_key key es)(key (data e) \<mapsto> data e)) k"
  proof (rule option_eqI)
    fix d
    have "(\<exists>p < length es. live_entry (es[i := e] ! p) \<and> data (es[i := e] ! p) = d \<and> key d = k) \<longleftrightarrow>
      (d = data e \<and> k = key (data e)) \<or> (\<exists>p < length es. live_entry (es ! p) \<and> data (es ! p) = d \<and> key d = k)"
      using assms(2,3,6) by (auto simp: nth_list_update)
    with assms(4) show "lookup_key key (es[i := e]) k = Some d \<longleftrightarrow> ((lookup_key key es)(key (data e) \<mapsto> data e)) k = Some d"
      by (auto simp: lookup_key_Some [OF keyed'] lookup_key_Some [OF assms(1)] lookup_key_None)
  qed
qed

lemma kill_keyed:
  assumes "keyed key hashf es"
  shows "keyed key hashf (es[i := e\<lparr>data := HASH_TOMBSTONE\<rparr>])"
proof -
  have "\<not> live_entry (e\<lparr>data := HASH_TOMBSTONE\<rparr>)" by (simp add: live_entry_def)
  then show ?thesis using assms unfolding keyed_def by (cases "i < length es") (auto simp: nth_list_update)
qed

lemma kill_lookup:
  assumes "keyed key hashf es" "i < length es" "live_entry (es ! i)" "data (es ! i) = item"
  shows "lookup_key key (es[i := (es ! i)\<lparr>data := HASH_TOMBSTONE\<rparr>]) = (lookup_key key es)(key item := None)"
proof
  fix k
  let ?e = "(es ! i)\<lparr>data := HASH_TOMBSTONE\<rparr>"
  have dead: "\<not> live_entry ?e" by (simp add: live_entry_def)
  note keyed' = kill_keyed [OF assms(1), of i "es ! i"]
  show "lookup_key key (es[i := ?e]) k = ((lookup_key key es)(key item := None)) k"
  proof (rule option_eqI)
    fix d
    have only: "p = i" if "p < length es" "live_entry (es ! p)" "key (data (es ! p)) = key item" for p
      using that assms unfolding keyed_def by metis
    have upd: "live_entry (es[i := ?e] ! p) \<and> data (es[i := ?e] ! p) = d \<longleftrightarrow> p \<noteq> i \<and> live_entry (es ! p) \<and> data (es ! p) = d"
      if "p < length es" for p using dead that by (cases "p = i") auto
    have "(\<exists>p < length es. live_entry (es[i := ?e] ! p) \<and> data (es[i := ?e] ! p) = d \<and> key d = k) \<longleftrightarrow>
      k \<noteq> key item \<and> (\<exists>p < length es. live_entry (es ! p) \<and> data (es ! p) = d \<and> key d = k)"
      using only upd assms(4) by metis
    then show "lookup_key key (es[i := ?e]) k = Some d \<longleftrightarrow> ((lookup_key key es)(key item := None)) k = Some d"
      by (auto simp: lookup_key_Some [OF keyed'] lookup_key_Some [OF assms(1)])
  qed
qed

section \<open>Filling a table\<close>

lemma live_tomb: "live_entry e \<Longrightarrow> data e \<noteq> HASH_TOMBSTONE \<and> \<not> free_entry e"
  by (simp add: live_entry_def free_entry_def)

lemma free_not_live: "free_entry e \<Longrightarrow> \<not> live_entry e \<and> data e \<noteq> HASH_TOMBSTONE"
  by (simp add: live_entry_def free_entry_def HASH_TOMBSTONE_def)

text \<open>What a good array is, beside the counts of the table.\<close>

definition array_ok :: "(u4 \<Rightarrow> 'k) \<Rightarrow> ('k \<Rightarrow> u4) \<Rightarrow> hash_entry list \<Rightarrow> bool" where
  "array_ok key hashf es \<longleftrightarrow> (\<exists>k \<le> 30. length es = 2 ^ k) \<and> ht.reachable es \<and> keyed key hashf es"

definition ht_inv :: "(u4 \<Rightarrow> 'k) \<Rightarrow> ('k \<Rightarrow> u4) \<Rightarrow> hash_table \<Rightarrow> bool" where
  "ht_inv key hashf t \<longleftrightarrow> array_ok key hashf (pEntries t) \<and>
     numEntries t = length (filter live_entry (pEntries t)) \<and> numDeadEntries t = countTombStones (pEntries t) \<and>
     (numEntries t + numDeadEntries t) * LOAD_DENOM \<le> tableSize t * LOAD_NUMER"

definition ht_map :: "(u4 \<Rightarrow> 'k) \<Rightarrow> hash_table \<Rightarrow> 'k \<rightharpoonup> u4" where
  "ht_map key t = lookup_key key (pEntries t)"

lemma array_ok_slot: "array_ok key hashf es \<Longrightarrow> slot_of (length es) hash = unat hash mod length es"
  using slot_of_mod by (auto simp: array_ok_def)

lemma array_ok_size: "array_ok key hashf es \<Longrightarrow> 0 < length es"
  by (auto simp: array_ok_def)

lemma put_array:
  assumes ok: "array_ok key hashf es" and e: "live_entry e" "hashValue e = hashf (key (data e))"
    "lookup_key key es (key (data e)) = None"
    and stop: "stops_at (\<lambda>e. free_entry e \<or> found e) es (unat (hashValue e) mod length es) d" "d < length es"
    and i: "i = (unat (hashValue e) mod length es + d) mod length es" "free_entry (es ! i)"
  shows "array_ok key hashf (es[i := e]) \<and> lookup_key key (es[i := e]) = (lookup_key key es)(key (data e) \<mapsto> data e) \<and>
    length (filter live_entry (es[i := e])) = Suc (length (filter live_entry es)) \<and>
    countTombStones (es[i := e]) = countTombStones es"
proof -
  have len: "i < length es" using i array_ok_size [OF ok] by simp
  note free = free_not_live [OF i(2)] and le = live_tomb [OF e(1)]
  have "ht.reachable (es[i := e])"
    using ok stop i le by (intro ht.reachable_put) (auto simp: array_ok_def)
  moreover have "keyed key hashf (es[i := e])"
    using ok len free e by (intro put_keyed) (auto simp: array_ok_def)
  moreover have "lookup_key key (es[i := e]) = (lookup_key key es)(key (data e) \<mapsto> data e)"
    using ok len free e by (intro put_lookup) (auto simp: array_ok_def)
  ultimately show ?thesis
    using ok length_filter_update [OF len, of live_entry e] e(1) free le
      length_filter_update [OF len, of "\<lambda>e. data e = HASH_TOMBSTONE" e]
    by (auto simp: array_ok_def countTombStones_def)
qed

lemma keyed_Cons:
  assumes "keyed key hashf (e # es)"
  shows "keyed key hashf es \<and> (live_entry e \<longrightarrow> hashValue e = hashf (key (data e)) \<and> lookup_key key es (key (data e)) = None)"
proof -
  have "keyed key hashf es"
    unfolding keyed_def
  proof (intro conjI allI impI)
    fix p assume "p < length es" "live_entry (es ! p)"
    then show "hashValue (es ! p) = hashf (key (data (es ! p)))"
      using assms unfolding keyed_def by (metis Suc_less_eq length_Cons nth_Cons_Suc)
  next
    fix p q assume "p < length es" "q < length es" "live_entry (es ! p) \<and> live_entry (es ! q) \<and> key (data (es ! p)) = key (data (es ! q))"
    then have "Suc p = Suc q"
      using assms unfolding keyed_def by (metis Suc_less_eq length_Cons nth_Cons_Suc)
    then show "p = q" by simp
  qed
  moreover have "lookup_key key es (key (data e)) = None" if "live_entry e"
    unfolding lookup_key_None
  proof (intro allI impI notI)
    fix p assume "p < length es" "live_entry (es ! p)" "key (data (es ! p)) = key (data e)"
    then have "Suc p = 0"
      using assms that unfolding keyed_def by (metis Suc_less_eq length_Cons nth_Cons_0 nth_Cons_Suc zero_less_Suc)
    then show False by simp
  qed
  ultimately show ?thesis using assms unfolding keyed_def by fastforce
qed

lemma lookup_Cons: "lookup_key key (e # es) k = (if live_entry e \<and> key (data e) = k then Some (data e) else lookup_key key es k)"
  by (simp add: lookup_key_def)

lemma rehash_ok:
  assumes "keyed key hashf es" "array_ok key hashf new" "countTombStones new = 0"
    "length (filter live_entry new) + length (filter live_entry es) < length new"
    "\<forall>k. lookup_key key es k \<noteq> None \<longrightarrow> lookup_key key new k = None"
  shows "\<exists>new'. rehash es new = Some new' \<and> array_ok key hashf new' \<and> length new' = length new \<and>
    countTombStones new' = 0 \<and>
    length (filter live_entry new') = length (filter live_entry new) + length (filter live_entry es) \<and>
    lookup_key key new' = lookup_key key new ++ lookup_key key es"
  using assms
proof (induction es arbitrary: new)
  case Nil
  then show ?case by (simp add: lookup_key_def map_add_def)
next
  case (Cons e es)
  note tl = keyed_Cons [OF Cons.prems(1)]
  show ?case
  proof (cases "live_entry e")
    case False
    then have "lookup_key key (e # es) = lookup_key key es" by (simp add: fun_eq_iff lookup_Cons)
    with False Cons.IH [OF _ Cons.prems(2,3)] Cons.prems tl show ?thesis by simp
  next
    case True
    let ?i = "unat (hashValue e) mod length new"
    have fresh: "lookup_key key new (key (data e)) = None"
      using Cons.prems(5) True by (auto simp: lookup_Cons)
    have pos: "?i < length new" using array_ok_size [OF Cons.prems(2)] by simp
    have "length (filter live_entry new) + countTombStones new < length new" using Cons.prems(3,4) by simp
    then obtain f where "f \<in> set new" "free_entry f" by (rule free_slot)
    then obtain d where d: "d < length new" "stops_at free_entry new ?i d" by (rule stops_somewhere [OF pos])
    define i where "i = (?i + d) mod length new"
    have free: "free_entry (new ! i)" using d(2) by (simp add: stops_at_def walk_def i_def)
    have stop: "stops_at (\<lambda>e. free_entry e \<or> False) new ?i d" using d(2) by simp
    from put_array [OF Cons.prems(2) True _ fresh stop d(1) i_def free] tl True
    have put: "array_ok key hashf (new[i := e])" "lookup_key key (new[i := e]) = (lookup_key key new)(key (data e) \<mapsto> data e)"
      "length (filter live_entry (new[i := e])) = Suc (length (filter live_entry new))" "countTombStones (new[i := e]) = 0"
      using Cons.prems(3) by auto
    have "\<forall>k. lookup_key key es k \<noteq> None \<longrightarrow> lookup_key key (new[i := e]) k = None"
      using Cons.prems(5) tl True put(2) by (auto simp: lookup_Cons split: if_splits)
    with Cons.IH [OF _ put(1,4)] tl Cons.prems(4) True put(3) obtain new' where
      new': "rehash es (new[i := e]) = Some new'" "array_ok key hashf new'" "length new' = length new"
        "countTombStones new' = 0" "length (filter live_entry new') = Suc (length (filter live_entry new) + length (filter live_entry es))"
        "lookup_key key new' = lookup_key key (new[i := e]) ++ lookup_key key es" by auto
    have "lookup_key key new' = lookup_key key new ++ lookup_key key (e # es)"
      using new'(6) put(2) tl True by (auto simp: fun_eq_iff map_add_def lookup_Cons split: option.splits)
    moreover obtain k where "length new = 2 ^ k" "k \<le> 30" using Cons.prems(2) by (auto simp: array_ok_def)
    then have "probe_new new (slot_of (length new) (hashValue e)) = Some i"
      using probe_new_stops [of new k, OF _ _ pos d(2)] array_ok_slot [OF Cons.prems(2)] by (simp add: i_def)
    ultimately show ?thesis using new' True by auto
  qed
qed

lemma empty_array:
  assumes "k \<le> 30"
  shows "array_ok key hashf (replicate (2 ^ k) empty_entry) \<and> lookup_key key (replicate n empty_entry) = Map.empty \<and>
    filter live_entry (replicate n empty_entry) = [] \<and> countTombStones (replicate n empty_entry) = 0"
  using assms ht.reachable_empty [of "replicate (2 ^ k) empty_entry"]
  by (auto simp: array_ok_def keyed_def lookup_key_None live_entry_def empty_entry_def countTombStones_def
      HASH_TOMBSTONE_def fun_eq_iff)

section \<open>The operations\<close>

lemma create_inv:
  assumes "1 \<le> unat n" "unat n \<le> 2 ^ 30"
  shows "ht_inv key hashf (dvmHashTableCreate n) \<and> ht_map key (dvmHashTableCreate n) = Map.empty \<and>
    unat n \<le> tableSize (dvmHashTableCreate n)"
proof -
  have "unat n \<le> 2 ^ 31" using assms(2) by simp
  then obtain k where k: "unat (dexRoundUpPower2 n) = 2 ^ k" "unat n \<le> 2 ^ k" "\<And>j. unat n \<le> 2 ^ j \<Longrightarrow> k \<le> j"
    using round_up_power2 [OF assms(1)] by blast
  from k(3) [OF assms(2)] empty_array [of k key hashf "2 ^ k"] k(1,2) show ?thesis
    by (simp add: ht_inv_def ht_map_def dvmHashTableCreate_def tableSize_def)
qed

lemma load_less: "n * 8 \<le> sz * 5 \<Longrightarrow> 0 < sz \<Longrightarrow> n < (sz :: nat)"
  by presburger

lemma inv_free:
  assumes "ht_inv key hashf t"
  obtains f where "f \<in> set (pEntries t)" "free_entry f"
proof (rule free_slot)
  have "0 < length (pEntries t)" using assms array_ok_size [of key hashf "pEntries t"] by (simp add: ht_inv_def)
  moreover have "(length (filter live_entry (pEntries t)) + countTombStones (pEntries t)) * 8 \<le> length (pEntries t) * 5"
    using assms by (simp add: ht_inv_def LOAD_DENOM_def LOAD_NUMER_def tableSize_def)
  ultimately show "length (filter live_entry (pEntries t)) + countTombStones (pEntries t) < length (pEntries t)"
    by (rule load_less [rotated])
qed

text \<open>A probe from where a key's probe starts ends, at the entry of the key if there is one.\<close>

lemma inv_probe:
  assumes inv: "ht_inv key hashf t"
    and found: "\<And>e. found e \<Longrightarrow> \<not> free_entry e \<Longrightarrow> live_entry e"
  obtains d i where "d < tableSize t" "i = (unat hash mod tableSize t + d) mod tableSize t" "i < tableSize t"
    "stops_at (\<lambda>e. free_entry e \<or> found e) (pEntries t) (unat hash mod tableSize t) d"
    "probe found (pEntries t) (slot_of (tableSize t) hash) = Some i"
    "free_entry (pEntries t ! i) \<or> live_entry (pEntries t ! i) \<and> found (pEntries t ! i)"
    "\<forall>p < tableSize t. live_entry (pEntries t ! p) \<and> found (pEntries t ! p) \<and> hashValue (pEntries t ! p) = hash \<longrightarrow>
      live_entry (pEntries t ! i) \<and> found (pEntries t ! i)"
proof -
  let ?es = "pEntries t" and ?i = "unat hash mod tableSize t"
  have ok: "array_ok key hashf ?es" using inv by (simp add: ht_inv_def)
  then have pos: "?i < length ?es" using array_ok_size [OF ok] by (simp add: tableSize_def)
  obtain f where f: "f \<in> set ?es" "free_entry f" using inv_free [OF inv] .
  obtain d where d: "d < length ?es" "stops_at (\<lambda>e. free_entry e \<or> found e) ?es ?i d"
    using stops_somewhere [OF pos f(1), of "\<lambda>e. free_entry e \<or> found e"] f(2) by blast
  have at: "walk ?es ?i d = ?es ! ((?i + d) mod tableSize t)" by (simp add: walk_def tableSize_def)
  have ends: "free_entry (walk ?es ?i d) \<or> live_entry (walk ?es ?i d) \<and> found (walk ?es ?i d)"
    using d(2) found by (auto simp: stops_at_def)
  show thesis
  proof (rule that [of d "(?i + d) mod tableSize t"])
    show "probe found ?es (slot_of (tableSize t) hash) = Some ((?i + d) mod tableSize t)"
      using probe_stops [OF pos d(2)] array_ok_slot [OF ok] by (simp add: tableSize_def)
    show "(?i + d) mod tableSize t < tableSize t" using d(1) by (auto simp: tableSize_def intro: mod_less_divisor)
    have "\<not> free_entry (walk ?es ?i d)"
      if "p < tableSize t" "live_entry (?es ! p)" "found (?es ! p)" "hashValue (?es ! p) = hash" for p
      using that ht.probe_finds [OF _ d(2), of p] ok by (auto simp: array_ok_def tableSize_def)
    with ends show "\<forall>p < tableSize t. live_entry (?es ! p) \<and> found (?es ! p) \<and> hashValue (?es ! p) = hash \<longrightarrow>
      live_entry (?es ! ((?i + d) mod tableSize t)) \<and> found (?es ! ((?i + d) mod tableSize t))"
      by (auto simp: at)
  qed (use d ends at in \<open>auto simp: tableSize_def\<close>)
qed

lemma load_after_add:
  assumes "n * 8 \<le> sz * 5" "0 < (sz :: nat)"
  shows "(n + 1) * 8 \<le> (sz * 2) * 5"
  using assms by presburger

lemma resize_ok:
  assumes ok: "array_ok key hashf (pEntries t)" "tableSize t = 2 ^ k" "k \<le> 29"
    and n: "numEntries t = length (filter live_entry (pEntries t))" "numEntries t * 8 \<le> (tableSize t * 2) * 5"
  obtains t' where "resizeHash (tableSize t * 2) t = Some t'" "ht_inv key hashf t'" "ht_map key t' = ht_map key t"
    "tableSize t' = tableSize t * 2" "numEntries t' = numEntries t"
proof -
  let ?new = "replicate (tableSize t * 2) empty_entry"
  have two: "tableSize t * 2 = 2 ^ Suc k" using ok(2) by simp
  note e = empty_array [of "Suc k" key hashf "2 ^ Suc k", folded two]
  have small: "length (filter live_entry (pEntries t)) < tableSize t * 2"
  proof -
    have "length (filter live_entry (pEntries t)) \<le> tableSize t" by (simp add: tableSize_def)
    moreover have "0 < tableSize t" using ok(2) by simp
    ultimately show ?thesis by linarith
  qed
  have "\<exists>new'. rehash (pEntries t) ?new = Some new' \<and> array_ok key hashf new' \<and> length new' = length ?new \<and>
    countTombStones new' = 0 \<and>
    length (filter live_entry new') = length (filter live_entry ?new) + length (filter live_entry (pEntries t)) \<and>
    lookup_key key new' = lookup_key key ?new ++ lookup_key key (pEntries t)"
    by (rule rehash_ok) (use ok e small in \<open>auto simp: array_ok_def\<close>)
  then obtain new' where "rehash (pEntries t) ?new = Some new'" "array_ok key hashf new'" "length new' = tableSize t * 2"
    "countTombStones new' = 0" "length (filter live_entry new') = numEntries t" "lookup_key key new' = lookup_key key (pEntries t)"
    using e ok(3) n(1) by auto
  then show thesis
    using n by (intro that [of "t\<lparr>pEntries := new', numDeadEntries := 0\<rparr>"])
      (auto simp: resizeHash_def ht_inv_def ht_map_def tableSize_def LOAD_DENOM_def LOAD_NUMER_def)
qed

text \<open>The contract of a comparison function: it is 0 exactly for items with the same key.\<close>

definition compares :: "(u4 \<Rightarrow> 'k) \<Rightarrow> (u4 \<Rightarrow> u4 \<Rightarrow> int) \<Rightarrow> bool" where
  "compares key cmpFunc \<longleftrightarrow> (\<forall>a b. cmpFunc a b = 0 \<longleftrightarrow> key a = key b)"

lemma inv_key:
  assumes "ht_inv key hashf t" "p < tableSize t" "live_entry (pEntries t ! p)"
  shows "hashValue (pEntries t ! p) = hashf (key (data (pEntries t ! p)))"
    "ht_map key t (key (data (pEntries t ! p))) = Some (data (pEntries t ! p))"
proof -
  have k: "keyed key hashf (pEntries t)" using assms(1) by (simp add: ht_inv_def array_ok_def)
  then show "hashValue (pEntries t ! p) = hashf (key (data (pEntries t ! p)))"
    using assms(2,3) by (simp add: keyed_def tableSize_def)
  show "ht_map key t (key (data (pEntries t ! p))) = Some (data (pEntries t ! p))"
    unfolding ht_map_def lookup_key_Some [OF k] using assms(2,3) by (auto simp: tableSize_def)
qed

lemma map_key:
  assumes "ht_inv key hashf t" "ht_map key t k = Some d"
  obtains p where "p < tableSize t" "live_entry (pEntries t ! p)" "data (pEntries t ! p) = d" "key d = k"
    "hashValue (pEntries t ! p) = hashf k"
proof -
  have k: "keyed key hashf (pEntries t)" using assms(1) by (simp add: ht_inv_def array_ok_def)
  then obtain p where "p < tableSize t" "live_entry (pEntries t ! p)" "data (pEntries t ! p) = d" "key d = k"
    using assms(2) unfolding ht_map_def lookup_key_Some [OF k] by (auto simp: tableSize_def)
  with inv_key(1) [OF assms(1)] that show thesis by metis
qed

lemma found_in_map:
  assumes inv: "ht_inv key hashf t" and cmp: "compares key cmpFunc" and h: "hash = hashf (key item)"
    and p: "p < tableSize t" "live_entry (pEntries t ! p)"
  shows "matches_item cmpFunc hash item (pEntries t ! p) \<longleftrightarrow> ht_map key t (key item) = Some (data (pEntries t ! p))"
proof
  assume "matches_item cmpFunc hash item (pEntries t ! p)"
  then have "key (data (pEntries t ! p)) = key item" using cmp by (simp add: matches_item_def compares_def)
  with inv_key(2) [OF inv p] show "ht_map key t (key item) = Some (data (pEntries t ! p))" by simp
next
  assume "ht_map key t (key item) = Some (data (pEntries t ! p))"
  then have "key (data (pEntries t ! p)) = key item" by (rule map_key [OF inv]) auto
  with inv_key(1) [OF inv p] cmp h live_tomb [OF p(2)]
  show "matches_item cmpFunc hash item (pEntries t ! p)" by (simp add: matches_item_def compares_def)
qed

lemma lookup_probe:
  assumes inv: "ht_inv key hashf t" and cmp: "compares key cmpFunc"
  obtains d i where "d < tableSize t" "i = (unat (hashf (key item)) mod tableSize t + d) mod tableSize t" "i < tableSize t"
    "stops_at (\<lambda>e. free_entry e \<or> matches_item cmpFunc (hashf (key item)) item e) (pEntries t)
       (unat (hashf (key item)) mod tableSize t) d"
    "probe (matches_item cmpFunc (hashf (key item)) item) (pEntries t) (slot_of (tableSize t) (hashf (key item))) = Some i"
    "if ht_map key t (key item) = None then free_entry (pEntries t ! i)
     else live_entry (pEntries t ! i) \<and> ht_map key t (key item) = Some (data (pEntries t ! i))"
proof -
  let ?found = "matches_item cmpFunc (hashf (key item)) item"
  have fnd: "live_entry e" if "?found e" "\<not> free_entry e" for e
    using that by (simp add: matches_item_def live_entry_def free_entry_def)
  obtain d i where d: "d < tableSize t" "i = (unat (hashf (key item)) mod tableSize t + d) mod tableSize t" "i < tableSize t"
    "stops_at (\<lambda>e. free_entry e \<or> ?found e) (pEntries t) (unat (hashf (key item)) mod tableSize t) d"
    "probe ?found (pEntries t) (slot_of (tableSize t) (hashf (key item))) = Some i"
    "free_entry (pEntries t ! i) \<or> live_entry (pEntries t ! i) \<and> ?found (pEntries t ! i)"
    "\<forall>p < tableSize t. live_entry (pEntries t ! p) \<and> ?found (pEntries t ! p) \<and> hashValue (pEntries t ! p) = hashf (key item) \<longrightarrow>
      live_entry (pEntries t ! i) \<and> ?found (pEntries t ! i)"
    by (rule inv_probe [where found = ?found and hash = "hashf (key item)", OF inv fnd])
  note fm = found_in_map [OF inv cmp refl]
  have "if ht_map key t (key item) = None then free_entry (pEntries t ! i)
     else live_entry (pEntries t ! i) \<and> ht_map key t (key item) = Some (data (pEntries t ! i))"
  proof (cases "ht_map key t (key item)")
    case None
    then show ?thesis using d(6) fm [OF d(3)] by auto
  next
    case (Some x)
    then obtain p where p: "p < tableSize t" "live_entry (pEntries t ! p)" "data (pEntries t ! p) = x"
      "hashValue (pEntries t ! p) = hashf (key item)" by (rule map_key [OF inv])
    have "matches_item cmpFunc (hashf (key item)) item (pEntries t ! p)" using fm [OF p(1,2)] Some p(3) by simp
    with d(7) p have live: "live_entry (pEntries t ! i)" "matches_item cmpFunc (hashf (key item)) item (pEntries t ! i)" by blast+
    with fm [OF d(3) live(1)] Some show ?thesis by simp
  qed
  then show thesis by (rule that [OF d(1-5)])
qed

lemma lookup_found:
  assumes "ht_inv key hashf t" "compares key cmpFunc" "ht_map key t (key item) = Some x"
  shows "dvmHashTableLookup cmpFunc t (hashf (key item)) item doAdd = Some (x, t)"
proof -
  obtain i where "probe (matches_item cmpFunc (hashf (key item)) item) (pEntries t) (slot_of (tableSize t) (hashf (key item))) = Some i"
    "live_entry (pEntries t ! i)" "data (pEntries t ! i) = x"
    by (rule lookup_probe [OF assms(1,2), of item]) (use assms(3) in auto)
  then show ?thesis by (simp add: dvmHashTableLookup_def live_entry_def)
qed

lemma lookup_missing:
  assumes "ht_inv key hashf t" "compares key cmpFunc" "ht_map key t (key item) = None"
  shows "dvmHashTableLookup cmpFunc t (hashf (key item)) item False = Some (0, t)"
proof -
  obtain i where "probe (matches_item cmpFunc (hashf (key item)) item) (pEntries t) (slot_of (tableSize t) (hashf (key item))) = Some i"
    "free_entry (pEntries t ! i)"
    by (rule lookup_probe [OF assms(1,2), of item]) (use assms(3) in auto)
  then show ?thesis by (simp add: dvmHashTableLookup_def free_entry_def)
qed

lemma lookup_adds:
  assumes inv: "ht_inv key hashf t" and cmp: "compares key cmpFunc" and none: "ht_map key t (key item) = None"
    and item: "item \<noteq> 0" "item \<noteq> HASH_TOMBSTONE" and size: "tableSize t \<le> 2 ^ 29"
  shows "\<exists>t'. dvmHashTableLookup cmpFunc t (hashf (key item)) item True = Some (item, t') \<and> ht_inv key hashf t' \<and>
    ht_map key t' = (ht_map key t)(key item \<mapsto> item) \<and> numEntries t' = numEntries t + 1 \<and>
    tableSize t' = (if (numEntries t + numDeadEntries t + 1) * LOAD_DENOM > tableSize t * LOAD_NUMER then tableSize t * 2 else tableSize t)"
proof -
  let ?e = "\<lparr>hashValue = hashf (key item), data = item\<rparr>"
  obtain d i where i: "d < tableSize t" "i = (unat (hashf (key item)) mod tableSize t + d) mod tableSize t" "i < tableSize t"
    "stops_at (\<lambda>e. free_entry e \<or> matches_item cmpFunc (hashf (key item)) item e) (pEntries t) (unat (hashf (key item)) mod tableSize t) d"
    "probe (matches_item cmpFunc (hashf (key item)) item) (pEntries t) (slot_of (tableSize t) (hashf (key item))) = Some i"
    "free_entry (pEntries t ! i)"
    by (rule lookup_probe [OF inv cmp, of item]) (use none in auto)
  let ?t = "t\<lparr>pEntries := (pEntries t)[i := ?e], numEntries := numEntries t + 1\<rparr>"
  have ok: "array_ok key hashf (pEntries t)" using inv by (simp add: ht_inv_def)
  have "live_entry ?e" using item by (simp add: live_entry_def)
  then have put: "array_ok key hashf (pEntries ?t) \<and> ht_map key ?t = (ht_map key t)(key item \<mapsto> item) \<and>
    length (filter live_entry (pEntries ?t)) = Suc (length (filter live_entry (pEntries t))) \<and>
    countTombStones (pEntries ?t) = countTombStones (pEntries t)"
    using put_array [OF ok, of ?e] i none by (simp add: ht_map_def tableSize_def)
  have size': "tableSize ?t = tableSize t" by (simp add: tableSize_def)
  have free: "data (pEntries t ! i) = 0" using i(6) by (simp add: free_entry_def)
  show ?thesis
  proof (cases "(numEntries ?t + numDeadEntries ?t) * LOAD_DENOM > tableSize ?t * LOAD_NUMER")
    case False
    then have "ht_inv key hashf ?t" using put inv size' by (simp add: ht_inv_def)
    with False put i(5) free size' show ?thesis
      by (intro exI [of _ ?t]) (simp add: dvmHashTableLookup_def Let_def)
  next
    case True
    obtain k where k: "tableSize t = 2 ^ k" using ok by (auto simp: array_ok_def tableSize_def)
    then have "k \<le> 29" using size power_le_imp_le_exp [of "2::nat" k 29] by simp
    moreover have "numEntries t * 8 \<le> tableSize t * 5"
      using inv by (simp add: ht_inv_def LOAD_DENOM_def LOAD_NUMER_def)
    then have "numEntries ?t * 8 \<le> (tableSize ?t * 2) * 5" 
      unfolding size' using load_after_add [of "numEntries t" "tableSize t"] k by simp
    moreover have "numEntries ?t = length (filter live_entry (pEntries ?t))" using put inv by (simp add: ht_inv_def)
    ultimately obtain t' where "resizeHash (tableSize ?t * 2) ?t = Some t'" "ht_inv key hashf t'" "ht_map key t' = ht_map key ?t"
      "tableSize t' = tableSize ?t * 2" "numEntries t' = numEntries ?t"
      using resize_ok [of key hashf ?t k] put k size' by metis
    with True put i(5) free size' show ?thesis
      by (intro exI [of _ t']) (simp add: dvmHashTableLookup_def Let_def)
  qed
qed

lemma kill_ok:
  assumes "ht_inv key hashf t" "i < tableSize t" "live_entry (pEntries t ! i)"
  shows "ht_inv key hashf (kill_entry i t)"
    "ht_map key (kill_entry i t) = (ht_map key t)(key (data (pEntries t ! i)) := None)"
    "tableSize (kill_entry i t) = tableSize t"
    "numEntries t = Suc (numEntries (kill_entry i t))"
proof -
  let ?e = "(pEntries t ! i)\<lparr>data := HASH_TOMBSTONE\<rparr>"
  have dead: "\<not> live_entry ?e" "\<not> free_entry ?e" by (auto simp: live_entry_def free_entry_def HASH_TOMBSTONE_def)
  have ok: "array_ok key hashf (pEntries t)" and i: "i < length (pEntries t)" using assms by (simp_all add: ht_inv_def tableSize_def)
  have k: "keyed key hashf (pEntries t)" using ok by (simp add: array_ok_def)
  have "array_ok key hashf ((pEntries t)[i := ?e])"
    using ok ht.reachable_replace [OF _ i dead(2,1)] kill_keyed [OF k] by (auto simp: array_ok_def)
  moreover have "length (filter live_entry (pEntries t)) = Suc (length (filter live_entry ((pEntries t)[i := ?e])))"
    "countTombStones ((pEntries t)[i := ?e]) = Suc (countTombStones (pEntries t))"
    using length_filter_update [OF i, of live_entry ?e] dead assms(3) live_tomb [OF assms(3)]
      length_filter_update [OF i, of "\<lambda>e. data e = HASH_TOMBSTONE" ?e] by (auto simp: countTombStones_def)
  ultimately show "ht_inv key hashf (kill_entry i t)" "numEntries t = Suc (numEntries (kill_entry i t))"
    using assms(1) by (auto simp: ht_inv_def kill_entry_def tableSize_def)
  show "ht_map key (kill_entry i t) = (ht_map key t)(key (data (pEntries t ! i)) := None)"
    using kill_lookup [OF k i assms(3) refl] by (simp add: ht_map_def kill_entry_def)
  show "tableSize (kill_entry i t) = tableSize t" by (simp add: tableSize_def kill_entry_def)
qed

lemma remove_ok:
  assumes inv: "ht_inv key hashf t" and item: "item \<noteq> 0" "item \<noteq> HASH_TOMBSTONE"
  shows "\<exists>t'. dvmHashTableRemove t (hashf (key item)) item = Some (ht_map key t (key item) = Some item, t') \<and>
    ht_inv key hashf t' \<and> tableSize t' = tableSize t \<and>
    ht_map key t' = (if ht_map key t (key item) = Some item then (ht_map key t)(key item := None) else ht_map key t)"
proof -
  have fnd: "live_entry e" if "data e = item" "\<not> free_entry e" for e using that item by (simp add: live_entry_def)
  obtain i where i: "i < tableSize t" "probe (\<lambda>e. data e = item) (pEntries t) (slot_of (tableSize t) (hashf (key item))) = Some i"
    "free_entry (pEntries t ! i) \<or> live_entry (pEntries t ! i) \<and> data (pEntries t ! i) = item"
    "\<forall>p < tableSize t. live_entry (pEntries t ! p) \<and> data (pEntries t ! p) = item \<and> hashValue (pEntries t ! p) = hashf (key item) \<longrightarrow>
      live_entry (pEntries t ! i) \<and> data (pEntries t ! i) = item"
    by (rule inv_probe [where found = "\<lambda>e. data e = item" and hash = "hashf (key item)", OF inv fnd])
  show ?thesis
  proof (cases "free_entry (pEntries t ! i)")
    case True
    have "ht_map key t (key item) \<noteq> Some item"
    proof
      assume "ht_map key t (key item) = Some item"
      then have "live_entry (pEntries t ! i)" by (rule map_key [OF inv]) (use i(4) in blast)
      with True show False by (simp add: live_entry_def free_entry_def)
    qed
    with True i(2) inv show ?thesis by (simp add: dvmHashTableRemove_def free_entry_def)
  next
    case False
    then have live: "live_entry (pEntries t ! i)" "data (pEntries t ! i) = item" using i(3) by auto
    with inv_key(2) [OF inv i(1)] have "ht_map key t (key item) = Some item" by simp
    with i(2) live kill_ok [OF inv i(1) live(1)] item show ?thesis by (simp add: dvmHashTableRemove_def)
  qed
qed

lemma clear_ok:
  assumes "ht_inv key hashf t"
  shows "ht_inv key hashf (snd (dvmHashTableClear b t)) \<and> ht_map key (snd (dvmHashTableClear b t)) = Map.empty \<and>
    tableSize (snd (dvmHashTableClear b t)) = tableSize t"
proof -
  let ?es = "map (\<lambda>e. e\<lparr>data := 0\<rparr>) (pEntries t)"
  have dead: "\<forall>e \<in> set ?es. \<not> live_entry e" by (simp add: live_entry_def)
  then have "ht.reachable ?es" by (rule ht.reachable_empty)
  moreover have "keyed key hashf ?es" by (simp add: keyed_def live_entry_def)
  moreover have "filter live_entry ?es = []" using dead by (simp add: filter_empty_conv)
  moreover have "countTombStones ?es = 0" by (simp add: countTombStones_def filter_empty_conv HASH_TOMBSTONE_def)
  moreover have "lookup_key key ?es = Map.empty" by (simp add: lookup_key_None live_entry_def fun_eq_iff)
  ultimately show ?thesis
    using assms by (auto simp: ht_inv_def array_ok_def dvmHashTableClear_def tableSize_def ht_map_def)
qed

section \<open>Visiting the entries\<close>

definition items :: "hash_table \<Rightarrow> u4 list" where
  "items t = map data (filter live_entry (pEntries t))"

lemma next_live_drop:
  "i \<le> length es \<Longrightarrow> next_live es i \<le> length es \<and> (next_live es i < length es \<longrightarrow> live_entry (es ! next_live es i)) \<and>
    filter live_entry (drop i es) = filter live_entry (drop (next_live es i) es)"
proof (induction es i rule: next_live.induct)
  case (1 es i)
  show ?case
  proof (cases "i < length es \<and> \<not> live_entry (es ! i)")
    case True
    then have "next_live es i = next_live es (Suc i)" "drop i es = es ! i # drop (Suc i) es"
      by (auto simp: next_live.simps [of es i] Cons_nth_drop_Suc)
    with 1(1) [OF True] True show ?thesis by simp
  next
    case False
    then show ?thesis using 1(2) by (subst (1 2 3 4) next_live.simps) auto
  qed
qed

lemma iter_items_from:
  "idx \<le> tableSize t \<Longrightarrow> (idx < tableSize t \<longrightarrow> live_entry (pEntries t ! idx)) \<Longrightarrow>
    iter_items t idx = map data (filter live_entry (drop idx (pEntries t)))"
proof (induction t idx rule: iter_items.induct)
  case (1 t idx)
  show ?case
  proof (cases "idx < tableSize t")
    case False
    then show ?thesis by (subst iter_items.simps) (simp add: dvmHashIterDone_def tableSize_def)
  next
    case True
    then have "drop idx (pEntries t) = pEntries t ! idx # drop (Suc idx) (pEntries t)" by (simp add: tableSize_def Cons_nth_drop_Suc)
    with True 1 next_live_drop [of "Suc idx" "pEntries t"] show ?thesis
      by (subst iter_items.simps) (simp add: dvmHashIterDone_def dvmHashIterData_def dvmHashIterNext_def tableSize_def)
  qed
qed

lemma iter_items_all: "iter_items t (dvmHashIterBegin t) = items t"
  using iter_items_from [of "dvmHashIterBegin t" t] next_live_drop [of 0 "pEntries t"]
  by (simp add: dvmHashIterBegin_def items_def tableSize_def)

lemma foreach_items:
  "foreach func es = (let ds = map data (filter live_entry es) in
     case dropWhile (\<lambda>d. func d = 0) ds of [] \<Rightarrow> (0, ds) | d # xs \<Rightarrow> (func d, takeWhile (\<lambda>d. func d = 0) ds @ [d]))"
  by (induction es) (auto simp: Let_def simp del: dropWhile_eq_Nil_conv split: list.splits)

lemma foreach_remove_next:
  "i < tableSize t \<Longrightarrow> \<not> live_entry (pEntries t ! i) \<or> func (data (pEntries t ! i)) = 0 \<Longrightarrow>
    foreach_remove func i t = foreach_remove func (Suc i) t"
  "i < tableSize t \<Longrightarrow> live_entry (pEntries t ! i) \<Longrightarrow> func (data (pEntries t ! i)) = 1 \<Longrightarrow>
    foreach_remove func i t = foreach_remove func (Suc i) (kill_entry i t)"
  by (subst foreach_remove.simps, auto simp: Let_def)+

text \<open>What the visit with removals does with the entries from an index on.\<close>

definition swept :: "(u4 \<Rightarrow> int) \<Rightarrow> nat \<Rightarrow> hash_table \<Rightarrow> hash_table \<Rightarrow> bool" where
  "swept func i t t' \<longleftrightarrow> tableSize t' = tableSize t \<and> take i (pEntries t') = take i (pEntries t) \<and>
     map data (filter live_entry (drop i (pEntries t'))) =
       filter (\<lambda>d. func d = 0) (map data (filter live_entry (drop i (pEntries t))))"

lemma swept_keep:
  assumes "swept func (Suc i) t t'" "i < tableSize t" "\<not> live_entry (pEntries t ! i) \<or> func (data (pEntries t ! i)) = 0"
  shows "swept func i t t'"
proof -
  have t: "take (Suc i) (pEntries t') = take (Suc i) (pEntries t)" using assms(1) by (simp add: swept_def)
  have "pEntries t' ! i = pEntries t ! i" "take i (pEntries t') = take i (pEntries t)"
    using arg_cong [OF t, of "\<lambda>xs. xs ! i"] arg_cong [OF t, of "take i"] by (simp_all add: min_def)
  with assms show ?thesis by (auto simp: swept_def tableSize_def Cons_nth_drop_Suc [symmetric])
qed

lemma swept_kill:
  assumes "swept func (Suc i) (kill_entry i t) t'" "i < tableSize t" "live_entry (pEntries t ! i)" "func (data (pEntries t ! i)) = 1"
  shows "swept func i t t'"
proof -
  have t: "take (Suc i) (pEntries t') = take (Suc i) ((pEntries t)[i := (pEntries t ! i)\<lparr>data := HASH_TOMBSTONE\<rparr>])"
    "tableSize t' = tableSize t" using assms(1) by (auto simp: swept_def kill_entry_def tableSize_def)
  have "pEntries t' ! i = (pEntries t ! i)\<lparr>data := HASH_TOMBSTONE\<rparr>"
    using arg_cong [OF t(1), of "\<lambda>xs. xs ! i"] assms(2) by (simp add: tableSize_def)
  then have "\<not> live_entry (pEntries t' ! i)" by (simp add: live_entry_def)
  moreover have "take i (pEntries t') = take i (pEntries t)"
    using arg_cong [OF t(1), of "take i"] by (simp add: min_def)
  ultimately show ?thesis
    using assms by (auto simp: swept_def tableSize_def kill_entry_def Cons_nth_drop_Suc [symmetric])
qed

lemma foreach_remove_ok:
  assumes "\<forall>d. func d = 0 \<or> func d = 1" "ht_inv key hashf t"
  shows "\<exists>t'. foreach_remove func i t = (0, t') \<and> ht_inv key hashf t' \<and> swept func i t t'"
  using assms
proof (induction func i t rule: foreach_remove.induct)
  case (1 func i t)
  consider (finished) "\<not> i < tableSize t" | (keep) "i < tableSize t" "\<not> live_entry (pEntries t ! i) \<or> func (data (pEntries t ! i)) = 0"
    | (kill) "i < tableSize t" "live_entry (pEntries t ! i)" "func (data (pEntries t ! i)) = 1"
    using 1(4) by blast
  then show ?case
  proof cases
    case finished
    then show ?thesis using 1(5) by (subst foreach_remove.simps) (auto simp: tableSize_def swept_def)
  next
    case keep
    have "\<exists>t'. foreach_remove func (Suc i) t = (0, t') \<and> ht_inv key hashf t' \<and> swept func (Suc i) t t'"
      using keep 1(2-5) by (cases "live_entry (pEntries t ! i)") auto
    then show ?thesis using swept_keep [of func i t] keep foreach_remove_next(1) [of i t func] by auto
  next
    case kill
    have "\<exists>t'. foreach_remove func (Suc i) (kill_entry i t) = (0, t') \<and> ht_inv key hashf t' \<and> swept func (Suc i) (kill_entry i t) t'"
      using kill 1(1,4,5) kill_ok(1) [OF 1(5) kill(1,2)] by auto
    then show ?thesis using swept_kill [of func i t] kill foreach_remove_next(2) [of i t func] by auto
  qed
qed

text \<open>A live entry's distance from where its probe starts is below the size of the table.\<close>

lemma countProbes_ok:
  assumes inv: "ht_inv key hashf t" and cmp: "compares key cmpFunc" and "ht_map key t (key item) \<noteq> None"
  shows "\<exists>c. countProbes cmpFunc t (hashf (key item)) item = Some c \<and> 0 \<le> c \<and> c < int (tableSize t)"
proof -
  let ?i = "unat (hashf (key item)) mod tableSize t"
  obtain d i where i: "d < tableSize t" "i = (?i + d) mod tableSize t" "live_entry (pEntries t ! i)"
    "stops_at (\<lambda>e. free_entry e \<or> matches_item cmpFunc (hashf (key item)) item e) (pEntries t) ?i d"
    by (rule lookup_probe [OF inv cmp, of item]) (use assms(3) in auto)
  have ok: "array_ok key hashf (pEntries t)" using inv by (simp add: ht_inv_def)
  have "?i < length (pEntries t)" using array_ok_size [OF ok] by (simp add: tableSize_def)
  from count_probes_stops [OF this i(4), of 0] i array_ok_slot [OF ok] live_tomb [OF i(3)] show ?thesis
    by (auto simp: countProbes_def walk_def tableSize_def)
qed

lemma probe_stats_ok:
  assumes "\<forall>d \<in> set ds. \<exists>c. count_of d = Some c \<and> 0 \<le> c \<and> c < sz" "mx < sz" "0 \<le> tot" "0 \<le> mx" "tot \<le> n * mx" "0 \<le> n"
  shows "\<exists>mn' mx' tot'. probe_stats count_of ds (n, mn, mx, tot) = Some (n + int (length ds), mn', mx', tot') \<and>
    mx \<le> mx' \<and> mx' < sz \<and> tot \<le> tot' \<and> tot' \<le> (n + int (length ds)) * mx'"
  using assms
proof (induction ds arbitrary: n mn mx tot)
  case Nil
  then show ?case by simp
next
  case (Cons d ds)
  then obtain c where c: "count_of d = Some c" "0 \<le> c" "c < sz" by auto
  let ?mx = "if c > mx then c else mx"
  have "n * mx \<le> n * ?mx" using Cons.prems by (intro mult_left_mono) auto
  then have "tot + c \<le> (n + 1) * ?mx" using Cons.prems by (auto simp: algebra_simps)
  with Cons.IH [of ?mx "tot + c" "n + 1" "if c < mn then c else mn"] Cons.prems c show ?case by (auto simp: algebra_simps)
qed

section \<open>Properties\<close>

text \<open>A small table for the examples: items that are their own keys and hashes.\<close>

definition same_item :: "u4 \<Rightarrow> u4 \<Rightarrow> int" where
  "same_item a b = (if a = b then 0 else 1)"

definition table4 :: hash_table where
  "table4 = \<lparr>numEntries = 1, numDeadEntries = 0,
     pEntries = [empty_entry, \<lparr>hashValue = 5, data = 5\<rparr>, empty_entry, empty_entry]\<rparr>"

lemma same_item_compares: "compares (\<lambda>d. d) same_item"
  by (simp add: compares_def same_item_def)

lemma table4_ok:
  "ht_inv (\<lambda>d. d) (\<lambda>k. k) table4 \<and> ht_map (\<lambda>d. d) table4 = [5 \<mapsto> 5] \<and> tableSize table4 = 4 \<and>
   numEntries table4 = 1 \<and> numDeadEntries table4 = 0 \<and> items table4 = [5]"
proof -
  let ?es = "replicate 4 empty_entry" and ?e = "\<lparr>hashValue = 5, data = 5\<rparr>"
  have es: "pEntries table4 = ?es[1 := ?e]" by (simp add: table4_def numeral_eq_Suc)
  have empty: "array_ok (\<lambda>d. d) (\<lambda>k. k) ?es" "lookup_key (\<lambda>d. d) ?es = Map.empty" "filter live_entry ?es = []" "countTombStones ?es = 0"
    using empty_array [of 2 "\<lambda>d. d" "\<lambda>k. k" 4] by auto
  have live: "live_entry ?e" by (simp add: live_entry_def HASH_TOMBSTONE_def)
  have free: "free_entry empty_entry" by (simp add: free_entry_def empty_entry_def)
  have "stops_at (\<lambda>e. free_entry e \<or> False) ?es 1 0" using free by (subst stops_at_0) auto
  with put_array [OF empty(1) live, of "\<lambda>e. False" 0 1] empty free
  have put: "array_ok (\<lambda>d. d) (\<lambda>k. k) (pEntries table4)" "lookup_key (\<lambda>d. d) (pEntries table4) = [5 \<mapsto> 5]"
    "length (filter live_entry (pEntries table4)) = 1" "countTombStones (pEntries table4) = 0"
    unfolding es by auto
  moreover have "items table4 = [5]" "tableSize table4 = 4" "numEntries table4 = 1" "numDeadEntries table4 = 0"
    using live by (auto simp: items_def table4_def tableSize_def live_entry_def empty_entry_def)
  ultimately show ?thesis by (simp add: ht_inv_def ht_map_def LOAD_DENOM_def LOAD_NUMER_def)
qed

text \<open>\<open>dexRoundUpPower2\<close> gives the least power of two that is not below its argument, for every
  argument from 1 to 2^31.\<close>

theorem round_up_power2_least:
  assumes "1 \<le> unat val" "unat val \<le> 2 ^ 31"
  shows "\<exists>k \<le> 31. unat (dexRoundUpPower2 val) = 2 ^ k \<and> unat val \<le> 2 ^ k \<and> (\<forall>j. unat val \<le> 2 ^ j \<longrightarrow> k \<le> j)"
  using round_up_power2 [OF assms] by metis

theorem round_up_power2_least_witness:
  "unat (dexRoundUpPower2 100) = 128 \<and> (\<exists>k \<le> 31. unat (dexRoundUpPower2 100) = 2 ^ k \<and> unat (100 :: u4) \<le> 2 ^ k)"
  using round_up_power2_least [of 100] by (auto simp: dexRoundUpPower2_def Let_def drop_bit_eq_div)

text \<open>C37. \<open>dvmHashTableLookup\<close> is lookup, or lookup and insertion, in the map of the keys of the table:
  the probe ends, an item with the key is returned if there is one, otherwise \<open>NULL\<close> or the new item,
  which is then the key's item, also when the table has been resized; the invariant is kept.\<close>

theorem hash_lookup_refines_map:
  assumes "ht_inv key hashf t" "compares key cmpFunc" "item \<noteq> 0" "item \<noteq> HASH_TOMBSTONE" "tableSize t \<le> 2 ^ 29"
  shows "\<exists>t'. dvmHashTableLookup cmpFunc t (hashf (key item)) item doAdd =
      Some (case ht_map key t (key item) of Some x \<Rightarrow> x | None \<Rightarrow> if doAdd then item else 0, t') \<and>
    ht_inv key hashf t' \<and>
    ht_map key t' = (if doAdd \<and> ht_map key t (key item) = None then (ht_map key t)(key item \<mapsto> item) else ht_map key t)"
proof (cases "ht_map key t (key item)")
  case None
  with lookup_missing [OF assms(1,2)] lookup_adds [OF assms(1,2) _ assms(3-5)] assms(1)
  show ?thesis by (cases doAdd) auto
qed (use lookup_found [OF assms(1,2)] assms(1) in simp)

theorem hash_lookup_refines_map_witness:
  "\<exists>t'. dvmHashTableLookup same_item table4 9 9 True = Some (9, t') \<and> ht_map (\<lambda>d. d) t' = [5 \<mapsto> 5, 9 \<mapsto> 9]"
  using hash_lookup_refines_map [of "\<lambda>d. d" "\<lambda>k. k" table4 same_item 9 True] table4_ok same_item_compares
  by (auto simp: HASH_TOMBSTONE_def)

text \<open>C38. \<open>dvmHashTableRemove\<close> with an item's hash removes exactly that item, and says whether it was there;
  the tombstone it leaves keeps every other item in reach.\<close>

theorem hash_remove_refines_map:
  assumes "ht_inv key hashf t" "item \<noteq> 0" "item \<noteq> HASH_TOMBSTONE"
  shows "\<exists>t'. dvmHashTableRemove t (hashf (key item)) item = Some (ht_map key t (key item) = Some item, t') \<and>
    ht_inv key hashf t' \<and> tableSize t' = tableSize t \<and>
    ht_map key t' = (if ht_map key t (key item) = Some item then (ht_map key t)(key item := None) else ht_map key t)"
  by (rule remove_ok [OF assms])


theorem hash_remove_refines_map_witness:
  "\<exists>t'. dvmHashTableRemove table4 5 5 = Some (True, t') \<and> ht_map (\<lambda>d. d) t' = Map.empty"
  using hash_remove_refines_map [of "\<lambda>d. d" "\<lambda>k. k" table4 5] table4_ok by (auto simp: HASH_TOMBSTONE_def)

text \<open>The iterator visits the items of the table in the order of the slots and ends; \<open>dvmHashForeach\<close>
  visits the same items in the same order, up to the first for which the function is not 0, and returns
  what it returned there.\<close>

theorem iteration_visits_the_items:
  "iter_items t (dvmHashIterBegin t) = items t \<and>
   dvmHashForeach func t =
     (case dropWhile (\<lambda>d. func d = 0) (items t) of
        [] \<Rightarrow> (0, items t)
      | d # ds \<Rightarrow> (func d, takeWhile (\<lambda>d. func d = 0) (items t) @ [d]))"
  using foreach_items [of func "pEntries t"] unfolding iter_items_all dvmHashForeach_def items_def [symmetric] Let_def by simp

text \<open>\<open>dvmHashForeachRemove\<close> with a function that says 0 or 1 visits every item and removes exactly
  those for which it says 1; the others keep their order and stay in reach.\<close>

theorem foreach_remove_filters:
  assumes "\<forall>d. func d = 0 \<or> func d = 1" "ht_inv key hashf t"
  shows "\<exists>t'. dvmHashForeachRemove func t = (0, t') \<and> ht_inv key hashf t' \<and>
    tableSize t' = tableSize t \<and> items t' = filter (\<lambda>d. func d = 0) (items t)"
  using foreach_remove_ok [OF assms, of 0] by (auto simp: dvmHashForeachRemove_def swept_def items_def)

theorem foreach_remove_filters_witness:
  "\<exists>t'. dvmHashForeachRemove (\<lambda>d. if d = 5 then 1 else 0) table4 = (0, t') \<and> items t' = []"
proof -
  have "\<forall>d :: u4. (if d = 5 then 1 else 0 :: int) = 0 \<or> (if d = 5 then 1 else 0 :: int) = 1" by simp
  from foreach_remove_filters [OF this, of "\<lambda>d. d" "\<lambda>k. k" table4] table4_ok show ?thesis by auto
qed

text \<open>\<open>dvmHashSize\<close> is enough: a table with a size of at least \<open>dvmHashSize n\<close> takes new items without
  being resized as long as it holds fewer than \<open>n\<close> entries and tombstones.\<close>

theorem sized_table_is_not_resized:
  assumes "ht_inv key hashf t" "compares key cmpFunc" "item \<noteq> 0" "item \<noteq> HASH_TOMBSTONE" "tableSize t \<le> 2 ^ 29"
    "ht_map key t (key item) = None" "dvmHashSize n \<le> tableSize t" "numEntries t + numDeadEntries t < n"
  shows "\<exists>t'. dvmHashTableLookup cmpFunc t (hashf (key item)) item True = Some (item, t') \<and>
    tableSize t' = tableSize t \<and> numEntries t' = numEntries t + 1"
proof -
  have "n * 8 \<le> dvmHashSize n * 5" by (simp add: dvmHashSize_def LOAD_NUMER_def LOAD_DENOM_def)
  then have "\<not> (numEntries t + numDeadEntries t + 1) * LOAD_DENOM > tableSize t * LOAD_NUMER"
    using assms(7,8) mult_le_mono1 [OF Suc_leI [OF assms(8)], of 8] unfolding LOAD_NUMER_def LOAD_DENOM_def by simp
  with lookup_adds [OF assms(1,2,6,3-5)] show ?thesis by auto
qed

theorem sized_table_is_not_resized_witness:
  "dvmHashSize 2 = 4 \<and> (\<exists>t'. dvmHashTableLookup same_item table4 9 9 True = Some (9, t') \<and> tableSize t' = 4 \<and> numEntries t' = 2)"
  using sized_table_is_not_resized [of "\<lambda>d. d" "\<lambda>k. k" table4 same_item 9 2] table4_ok same_item_compares
  by (auto simp: HASH_TOMBSTONE_def dvmHashSize_def LOAD_NUMER_def LOAD_DENOM_def)

text \<open>The statistics: when the hash function is the one the items were added with, every probe that is
  counted ends, the number of entries is right, and the longest probe is shorter than the table.\<close>

theorem probe_count_is_bounded:
  assumes "ht_inv key hashf t" "compares key cmpFunc" "\<forall>d. calcFunc d = hashf (key d)"
  shows "\<exists>minProbe maxProbe totalProbe. dvmHashTableProbeCount calcFunc cmpFunc t =
      Some (int (numEntries t), minProbe, maxProbe, totalProbe) \<and>
    0 \<le> maxProbe \<and> maxProbe < int (tableSize t) \<and> 0 \<le> totalProbe \<and> totalProbe \<le> int (numEntries t) * maxProbe"
proof -
  have "\<exists>c. countProbes cmpFunc t (calcFunc d) d = Some c \<and> 0 \<le> c \<and> c < int (tableSize t)" if d: "d \<in> set (items t)" for d
  proof -
    obtain e where "e \<in> set (pEntries t)" "live_entry e" "data e = d" using d by (auto simp: items_def)
    then obtain p where p: "p < tableSize t" "live_entry (pEntries t ! p)" "data (pEntries t ! p) = d"
      by (auto simp: in_set_conv_nth tableSize_def)
    from inv_key(2) [OF assms(1) p(1,2)] p(3) have "ht_map key t (key d) \<noteq> None" by simp
    from countProbes_ok [OF assms(1,2) this] assms(3) show ?thesis by simp
  qed
  moreover have "0 < tableSize t" using assms(1) array_ok_size [of key hashf "pEntries t"] by (simp add: ht_inv_def tableSize_def)
  moreover have "length (items t) = numEntries t" using assms(1) by (simp add: items_def ht_inv_def)
  ultimately show ?thesis
    using probe_stats_ok [of "items t" "\<lambda>d. countProbes cmpFunc t (calcFunc d) d" "int (tableSize t)" 0 0 0 "65536 * 32767"]
    by (simp add: dvmHashTableProbeCount_def iter_items_all)
qed

theorem probe_count_is_bounded_witness:
  "\<exists>minProbe maxProbe totalProbe. dvmHashTableProbeCount (\<lambda>d. d) same_item table4 = Some (1, minProbe, maxProbe, totalProbe) \<and> maxProbe < 4"
  using probe_count_is_bounded [of "\<lambda>d. d" "\<lambda>k. k" table4 same_item "\<lambda>d. d"] table4_ok same_item_compares by auto

end
