(* ===== verification/ClassIndex.thy ===== *)
theory ClassIndex
  imports DexImage HashTable
begin

text \<open>
  The class index of \<^verbatim>\<open>jni/dalvik/libdex/DexFile.cpp\<close>: \<open>dexCreateClassLookup\<close> hashes the descriptors of the classes
  of a dex file into a table with linear probing, \<open>dexFindClass\<close> looks a descriptor up. The locale \<open>open_table\<close>
  is interpreted on its entries. Whether \<open>char\<close> is signed depends on the target (x86 and ARM differ); it is an
  argument. Memory is available.
\<close>

unbundle bit_operations_syntax

section \<open>Model\<close>

definition char_val :: "bool \<Rightarrow> u1 \<Rightarrow> u4" where
  "char_val char_signed c = (if char_signed then scast c else ucast c)"

fun hash_loop :: "bool \<Rightarrow> u4 \<Rightarrow> u1 list \<Rightarrow> u4" where
  "hash_loop sg hash [] = hash"
| "hash_loop sg hash (c # str) = hash_loop sg (hash * 31 + char_val sg c) str"

definition classDescriptorHash :: "bool \<Rightarrow> u1 list \<Rightarrow> u4" where
  "classDescriptorHash sg str = hash_loop sg 1 str"

record lookup_entry =
  entryHash :: u4
  classDescriptorOffset :: u4
  classDefOffset :: u4

record class_lookup =
  lookup_size :: u4
  lookup_table :: "lookup_entry list"

definition empty_lookup_entry :: lookup_entry where
  "empty_lookup_entry = \<lparr>entryHash = 0, classDescriptorOffset = 0, classDefOffset = 0\<rparr>"

text \<open>The first empty slot, and the number of probes.\<close>

partial_function (option) find_empty :: "lookup_entry list \<Rightarrow> nat \<Rightarrow> int \<Rightarrow> (nat \<times> int) option" where
  "find_empty es idx probes =
     (if idx \<ge> length es then None
      else if classDescriptorOffset (es ! idx) \<noteq> 0 then find_empty es (slot_of (length es) (of_nat (idx + 1))) (probes + 1)
      else Some (idx, probes))"

definition classLookupAdd ::
  "bool \<Rightarrow> dex_file \<Rightarrow> lookup_entry list \<Rightarrow> u4 \<Rightarrow> u4 \<Rightarrow> (lookup_entry list \<times> int) option" where
  "classLookupAdd sg f es stringOff classDefOff =
     do { classDescriptor \<leftarrow> c_string (mem f) (baseAddr f + stringOff);
       let hash = classDescriptorHash sg classDescriptor;
       (idx, probes) \<leftarrow> find_empty es (slot_of (length es) hash) 0;
       Some (es[idx := \<lparr>entryHash = hash, classDescriptorOffset = stringOff, classDefOffset = classDefOff\<rparr>], probes) }"

text \<open>The loop over the class definitions: the table, and the total and the greatest number of probes.\<close>

fun add_classes :: "bool \<Rightarrow> dex_file \<Rightarrow> u4 list \<Rightarrow> lookup_entry list \<Rightarrow> int \<Rightarrow> int \<Rightarrow> (lookup_entry list \<times> int \<times> int) option" where
  "add_classes sg f [] es totalProbes maxProbes = Some (es, totalProbes, maxProbes)"
| "add_classes sg f (i # is) es totalProbes maxProbes =
     do { let pClassDef = dexGetClassDef f i;
       classIdx \<leftarrow> rd4 (mem f) pClassDef;
       pString \<leftarrow> dexStringByTypeIdx f classIdx;
       (es', numProbes) \<leftarrow> classLookupAdd sg f es (pString - baseAddr f) (pClassDef - baseAddr f);
       add_classes sg f is es' (totalProbes + numProbes) (if numProbes > maxProbes then numProbes else maxProbes) }"

definition class_indices :: "u4 \<Rightarrow> u4 list" where
  "class_indices n = map of_nat [0..<unat n]"

definition dexCreateClassLookup :: "bool \<Rightarrow> dex_file \<Rightarrow> (class_lookup \<times> int \<times> int) option" where
  "dexCreateClassLookup sg f =
     do { classDefsSize \<leftarrow> header f ClassDefsSize;
       let numEntries = dexRoundUpPower2 (classDefsSize * 2);
       let allocSize = 8 + numEntries * 12;
       (es, totalProbes, maxProbes) \<leftarrow>
         add_classes sg f (class_indices classDefsSize) (replicate (unat numEntries) empty_lookup_entry) 0 0;
       Some (\<lparr>lookup_size = allocSize, lookup_table = es\<rparr>, totalProbes, maxProbes) }"

text \<open>\<open>strcmp(str, descriptor) == 0\<close>; it reads no further than the first difference.\<close>

fun strcmp_eq :: "u1 list \<Rightarrow> u1 list \<Rightarrow> bool option" where
  "strcmp_eq [] t = None"
| "strcmp_eq (b # s) [] = Some (b = 0)"
| "strcmp_eq (b # s) (c # t) = (if b = c then strcmp_eq s t else Some False)"

partial_function (option) find_class :: "dex_file \<Rightarrow> lookup_entry list \<Rightarrow> u4 \<Rightarrow> u1 list \<Rightarrow> nat \<Rightarrow> u4 option" where
  "find_class f es hash descriptor idx =
     (if idx \<ge> length es then None
      else
        let offset = classDescriptorOffset (es ! idx); idx' = slot_of (length es) (of_nat (idx + 1)) in
        if offset = 0 then Some 0
        else if entryHash (es ! idx) = hash then
          (case strcmp_eq (mem_at (mem f) (baseAddr f + offset)) descriptor of
             None \<Rightarrow> None
           | Some equal \<Rightarrow>
               if equal then Some (baseAddr f + classDefOffset (es ! idx))
               else find_class f es hash descriptor idx')
        else find_class f es hash descriptor idx')"

definition dexFindClass :: "bool \<Rightarrow> dex_file \<Rightarrow> class_lookup \<Rightarrow> u1 list \<Rightarrow> u4 option" where
  "dexFindClass sg f pLookup descriptor =
     (let hash = classDescriptorHash sg descriptor in
      find_class f (lookup_table pLookup) hash descriptor (slot_of (length (lookup_table pLookup)) hash))"

section \<open>Probing\<close>

definition free_slot_entry :: "lookup_entry \<Rightarrow> bool" where
  "free_slot_entry e \<longleftrightarrow> classDescriptorOffset e = 0"

interpretation ci: open_table free_slot_entry "\<lambda>e. \<not> free_slot_entry e" "\<lambda>n e. unat (entryHash e) mod n"
  by unfold_locales auto

lemma find_empty_stops:
  assumes "length es = 2 ^ k" "k \<le> 30"
  shows "i < length es \<Longrightarrow> stops_at free_slot_entry es i d \<Longrightarrow> find_empty es i c = Some ((i + d) mod length es, c + int d)"
proof (induction d arbitrary: i c)
  case 0
  then show ?case by (subst find_empty.simps) (simp add: stops_at_0 free_slot_entry_def)
next
  case (Suc d)
  have go: "\<not> free_slot_entry (es ! i)" and rest: "stops_at free_slot_entry es (Suc i mod length es) d"
    using stops_at_Suc [OF Suc.prems(2)] Suc.prems(1) by (simp_all add: walk_def)
  have "find_empty es i c = find_empty es (Suc i mod length es) (c + 1)"
    using go Suc.prems(1) next_slot [OF assms Suc.prems(1)] by (subst find_empty.simps) (simp add: free_slot_entry_def)
  then show ?case using Suc.IH [OF Suc_mod_less [OF Suc.prems(1)] rest] by (simp add: mod_simps)
qed

text \<open>An entry of a descriptor: its hash and its string.\<close>

definition has_descriptor :: "bool \<Rightarrow> dex_file \<Rightarrow> u1 list \<Rightarrow> lookup_entry \<Rightarrow> bool" where
  "has_descriptor sg f d e \<longleftrightarrow> entryHash e = classDescriptorHash sg d \<and>
     c_string (mem f) (baseAddr f + classDescriptorOffset e) = Some d"

lemma strcmp_c_string: "c_string m p = Some s \<Longrightarrow> 0 \<notin> set t \<Longrightarrow> strcmp_eq (mem_at m p) t = Some (s = t)"
proof -
  have "0 \<in> set bs \<Longrightarrow> 0 \<notin> set t \<Longrightarrow> strcmp_eq bs t = Some (takeWhile (\<lambda>b. b \<noteq> 0) bs = t)" for bs
    by (induction bs t rule: strcmp_eq.induct) auto
  then show "c_string m p = Some s \<Longrightarrow> 0 \<notin> set t \<Longrightarrow> ?thesis" by (auto simp: c_string_def split: if_splits)
qed

text \<open>What the entries of a table must be: terminated strings with their hashes.\<close>

definition entries_ok :: "bool \<Rightarrow> dex_file \<Rightarrow> lookup_entry list \<Rightarrow> bool" where
  "entries_ok sg f es \<longleftrightarrow> (\<forall>e \<in> set es. \<not> free_slot_entry e \<longrightarrow> (\<exists>d. has_descriptor sg f d e))"

lemma find_class_stops:
  assumes "length es = 2 ^ k" "k \<le> 30" "entries_ok sg f es" "0 \<notin> set desc"
  shows "i < length es \<Longrightarrow> stops_at (\<lambda>e. free_slot_entry e \<or> has_descriptor sg f desc e) es i d \<Longrightarrow>
    find_class f es (classDescriptorHash sg desc) desc i =
      Some (if free_slot_entry (walk es i d) then 0 else baseAddr f + classDefOffset (walk es i d))"
proof (induction d arbitrary: i)
  case 0
  then have "free_slot_entry (es ! i) \<or> has_descriptor sg f desc (es ! i)" by (simp add: stops_at_0)
  then show ?case using 0 strcmp_c_string [OF _ assms(4)]
    by (subst find_class.simps) (auto simp: free_slot_entry_def has_descriptor_def walk_def Let_def)
next
  case (Suc d)
  have go: "\<not> free_slot_entry (es ! i)" "\<not> has_descriptor sg f desc (es ! i)"
    and rest: "stops_at (\<lambda>e. free_slot_entry e \<or> has_descriptor sg f desc e) es (Suc i mod length es) d"
    using stops_at_Suc [OF Suc.prems(2)] Suc.prems(1) by (simp_all add: walk_def)
  obtain d' where d': "has_descriptor sg f d' (es ! i)"
    using assms(3) go(1) Suc.prems(1) by (auto simp: entries_ok_def)
  have "find_class f es (classDescriptorHash sg desc) desc i =
    find_class f es (classDescriptorHash sg desc) desc (Suc i mod length es)"
    using go d' Suc.prems(1) next_slot [OF assms(1,2) Suc.prems(1)] strcmp_c_string [OF _ assms(4)]
    by (subst find_class.simps) (auto simp: free_slot_entry_def has_descriptor_def Let_def)
  then show ?case using Suc.IH [OF Suc_mod_less [OF Suc.prems(1)] rest] by (simp add: walk_Suc)
qed

section \<open>The index\<close>

lemma find_snoc: "find P (xs @ [y]) = (case find P xs of None \<Rightarrow> if P y then Some y else None | Some x \<Rightarrow> Some x)"
  by (induction xs) auto

text \<open>What a probe for a descriptor finds in a table.\<close>

definition finds :: "bool \<Rightarrow> dex_file \<Rightarrow> lookup_entry list \<Rightarrow> u1 list \<Rightarrow> u4 option \<Rightarrow> bool" where
  "finds sg f es desc r \<longleftrightarrow>
     (let i = unat (classDescriptorHash sg desc) mod length es in
      \<exists>d < length es. stops_at (\<lambda>e. free_slot_entry e \<or> has_descriptor sg f desc e) es i d \<and>
        (case r of None \<Rightarrow> free_slot_entry (walk es i d)
         | Some off \<Rightarrow> \<not> free_slot_entry (walk es i d) \<and> classDefOffset (walk es i d) = off))"

text \<open>The classes of an index, in the order they were added: descriptor and offset of the definition.\<close>

definition index_ok :: "bool \<Rightarrow> dex_file \<Rightarrow> lookup_entry list \<Rightarrow> (u1 list \<times> u4) list \<Rightarrow> bool" where
  "index_ok sg f es cs \<longleftrightarrow> (\<exists>k \<le> 30. length es = 2 ^ k) \<and> ci.reachable es \<and> entries_ok sg f es \<and>
     length (filter (\<lambda>e. \<not> free_slot_entry e) es) = length cs \<and>
     (\<forall>desc. finds sg f es desc (map_option snd (find (\<lambda>c. fst c = desc) cs)))"

lemma index_free:
  assumes "length (filter (\<lambda>e. \<not> free_slot_entry e) es) < length es"
  obtains e where "e \<in> set es" "free_slot_entry e"
proof -
  have "\<exists>e \<in> set es. free_slot_entry e"
  proof (rule ccontr)
    assume "\<not> (\<exists>e \<in> set es. free_slot_entry e)"
    then have "filter (\<lambda>e. \<not> free_slot_entry e) es = es" by (simp add: filter_id_conv)
    with assms show False by simp
  qed
  with that show thesis by blast
qed

lemma index_probe:
  assumes "i < length es" "length (filter (\<lambda>e. \<not> free_slot_entry e) es) < length es"
  obtains d where "d < length es" "stops_at (\<lambda>e. free_slot_entry e \<or> found e) es i d"
proof -
  obtain e where "e \<in> set es" "free_slot_entry e" using index_free [OF assms(2)] .
  with stops_somewhere [OF assms(1), of e "\<lambda>e. free_slot_entry e \<or> found e"] that show thesis by blast
qed

text \<open>Filling the first free slot of a probe adds the entry behind what was there.\<close>

lemma finds_put:
  assumes reach: "ci.reachable es" and k: "k < length es" "free_slot_entry (es ! k)"
    and e: "\<not> free_slot_entry e" "has_descriptor sg f d e"
    and stop: "stops_at (\<lambda>e. free_slot_entry e \<or> False) es (unat (entryHash e) mod length es) de"
      "k = (unat (entryHash e) mod length es + de) mod length es"
    and room: "length (filter (\<lambda>e. \<not> free_slot_entry e) (es[k := e])) < length es"
    and old: "finds sg f es desc r"
  shows "finds sg f (es[k := e]) desc (case r of None \<Rightarrow> if desc = d then Some (classDefOffset e) else None | Some x \<Rightarrow> Some x)"
proof -
  let ?i = "unat (classDescriptorHash sg desc) mod length es"
  have i: "?i < length es" using k(1) by (intro mod_less_divisor) linarith
  have hash: "entryHash e = classDescriptorHash sg d" using e(2) by (simp add: has_descriptor_def)
  have match: "has_descriptor sg f desc e \<longleftrightarrow> desc = d" using e(2) by (auto simp: has_descriptor_def)
  obtain c where c: "c < length es" "stops_at (\<lambda>e. free_slot_entry e \<or> has_descriptor sg f desc e) es ?i c"
    "case r of None \<Rightarrow> free_slot_entry (walk es ?i c)
       | Some off \<Rightarrow> \<not> free_slot_entry (walk es ?i c) \<and> classDefOffset (walk es ?i c) = off"
    using old by (auto simp: finds_def Let_def)
  show ?thesis
  proof (cases r)
    case (Some off)
    with c(3) ci.probe_put_found [OF c(2) _ k, of e] c(1) show ?thesis by (auto simp: finds_def Let_def)
  next
    case None
    then have free: "free_slot_entry (walk es ?i c)" using c(3) by simp
    show ?thesis
    proof (cases "desc = d")
      case True
      have "stops_at (\<lambda>e. free_slot_entry e \<or> False) es ?i c" using c(2) free by (auto simp: stops_at_def)
      with stop(1) True hash have "de = c" by (auto dest: stops_at_unique)
      with stop(2) hash True have "k = (?i + c) mod length es" by simp
      from ci.probe_put_new [OF c(2) free _ this k(1)] True None match e(1) c(1) show ?thesis
        by (auto simp: finds_def Let_def)
    next
      case False
      have i': "?i < length (es[k := e])" using i by simp
      obtain c' where c': "c' < length (es[k := e])"
        "stops_at (\<lambda>e. free_slot_entry e \<or> has_descriptor sg f desc e) (es[k := e]) ?i c'"
        by (rule index_probe [OF i']) (use room in auto)
      have "free_slot_entry (walk (es[k := e]) ?i c')"
        by (rule ci.probe_put_other [OF reach c(2) free _ _ c'(2) i]) (use False match in \<open>auto simp: has_descriptor_def\<close>)
      with c' None False show ?thesis by (auto simp: finds_def Let_def)
    qed
  qed
qed

lemma index_add:
  assumes ok: "index_ok sg f es cs" and str: "c_string (mem f) (baseAddr f + stringOff) = Some d" "stringOff \<noteq> 0"
    and room: "Suc (length cs) < length es"
  obtains es' p where "classLookupAdd sg f es stringOff classDefOff = Some (es', p)" "index_ok sg f es' (cs @ [(d, classDefOff)])"
    "length es' = length es" "0 \<le> p" "p < int (length es)"
proof -
  define e where "e = \<lparr>entryHash = classDescriptorHash sg d, classDescriptorOffset = stringOff, classDefOffset = classDefOff\<rparr>"
  let ?i = "unat (entryHash e) mod length es"
  obtain k where k: "k \<le> 30" "length es = 2 ^ k" using ok by (auto simp: index_ok_def)
  have i: "?i < length es" using k by simp
  have count: "length (filter (\<lambda>e. \<not> free_slot_entry e) es) = length cs" and reach: "ci.reachable es"
    and ents: "entries_ok sg f es" using ok by (auto simp: index_ok_def)
  obtain de where de: "de < length es" "stops_at (\<lambda>e. free_slot_entry e \<or> False) es ?i de"
    by (rule index_probe [OF i, of "\<lambda>e. False"]) (use count room in auto)
  define idx where "idx = (?i + de) mod length es"
  have idx: "idx < length es" using k by (simp add: idx_def)
  have free: "free_slot_entry (es ! idx)" using de(2) by (simp add: stops_at_def walk_def idx_def)
  have live: "\<not> free_slot_entry e" using str(2) by (simp add: e_def free_slot_entry_def)
  have desc: "has_descriptor sg f d e" using str(1) by (simp add: e_def has_descriptor_def)
  have count': "length (filter (\<lambda>e. \<not> free_slot_entry e) (es[idx := e])) = Suc (length cs)"
    using length_filter_update [OF idx, of "\<lambda>e. \<not> free_slot_entry e" e] free live count by simp
  have "find_empty es ?i 0 = Some (idx, 0 + int de)"
    using find_empty_stops [OF k(2,1) i] de(2) by (simp add: idx_def)
  then have add: "classLookupAdd sg f es stringOff classDefOff = Some (es[idx := e], int de)"
    using str(1) slot_of_mod [of k "entryHash e"] k by (simp add: classLookupAdd_def Let_def e_def)
  have "finds sg f (es[idx := e]) q (map_option snd (find (\<lambda>c. fst c = q) (cs @ [(d, classDefOff)])))" for q
  proof -
    have "finds sg f es q (map_option snd (find (\<lambda>c. fst c = q) cs))" using ok by (simp add: index_ok_def)
    from finds_put [OF reach idx free live desc de(2) idx_def _ this] count' room show ?thesis
      by (auto simp: find_snoc e_def split: option.splits)
  qed
  moreover have "ci.reachable (es[idx := e])"
    by (rule ci.reachable_put [OF reach de(2) live de(1) idx_def])
  moreover have "entries_ok sg f (es[idx := e])"
    using ents desc set_update_subset_insert [of es idx e] by (auto simp: entries_ok_def)
  ultimately have "index_ok sg f (es[idx := e]) (cs @ [(d, classDefOff)])"
    using k count' by (auto simp: index_ok_def)
  with add de(1) that show thesis by simp
qed

text \<open>A class whose descriptor can be read; descriptors do not lie at the start of the file, where the
  header is.\<close>

definition class_ok :: "dex_file \<Rightarrow> u4 \<Rightarrow> bool" where
  "class_ok f i \<longleftrightarrow> (case dexGetClassDescriptor f (dexGetClassDef f i) of
     None \<Rightarrow> False | Some p \<Rightarrow> p \<noteq> baseAddr f \<and> c_string (mem f) p \<noteq> None)"

definition class_name :: "dex_file \<Rightarrow> u4 \<Rightarrow> u1 list" where
  "class_name f i = (case dexGetClassDescriptor f (dexGetClassDef f i) of
     None \<Rightarrow> [] | Some p \<Rightarrow> (case c_string (mem f) p of None \<Rightarrow> [] | Some d \<Rightarrow> d))"

definition class_entry :: "dex_file \<Rightarrow> u4 \<Rightarrow> u1 list \<times> u4" where
  "class_entry f i = (class_name f i, dexGetClassDef f i - baseAddr f)"

lemma add_classes_ok:
  assumes "\<forall>i \<in> set is. class_ok f i" "index_ok sg f es cs" "length cs + length is < length es" "0 \<le> tot" "0 \<le> mx"
    "mx < int (length es)"
  shows "\<exists>es' tot' mx'. add_classes sg f is es tot mx = Some (es', tot', mx') \<and>
    index_ok sg f es' (cs @ map (class_entry f) is) \<and> length es' = length es \<and> tot \<le> tot' \<and> mx' < int (length es)"
  using assms
proof (induction "is" arbitrary: es cs tot mx)
  case (Cons i "is")
  obtain p d where p: "dexGetClassDescriptor f (dexGetClassDef f i) = Some p" "p \<noteq> baseAddr f" "c_string (mem f) p = Some d"
    using Cons.prems(1) by (auto simp: class_ok_def split: option.splits)
  then have name: "class_entry f i = (d, dexGetClassDef f i - baseAddr f)" by (simp add: class_entry_def class_name_def)
  obtain classIdx where c: "rd4 (mem f) (dexGetClassDef f i) = Some classIdx" "dexStringByTypeIdx f classIdx = Some p"
    using p(1) by (auto simp: dexGetClassDescriptor_def split: Option.bind_splits)
  have str: "c_string (mem f) (baseAddr f + (p - baseAddr f)) = Some d" "p - baseAddr f \<noteq> 0" using p by auto
  obtain es' n where add: "classLookupAdd sg f es (p - baseAddr f) (dexGetClassDef f i - baseAddr f) = Some (es', n)"
    "index_ok sg f es' (cs @ [class_entry f i])" "length es' = length es" "0 \<le> n" "n < int (length es)"
    using index_add [OF Cons.prems(2) str, of "dexGetClassDef f i - baseAddr f"] Cons.prems(3) by (auto simp: name)
  have "\<exists>es'' tot' mx'. add_classes sg f is es' (tot + n) (if n > mx then n else mx) = Some (es'', tot', mx') \<and>
    index_ok sg f es'' ((cs @ [class_entry f i]) @ map (class_entry f) is) \<and> length es'' = length es' \<and> tot + n \<le> tot' \<and>
    mx' < int (length es')"
    by (rule Cons.IH) (use Cons.prems add in auto)
  then show ?case using c add by auto
qed auto

lemma index_empty:
  assumes "k \<le> 30"
  shows "index_ok sg f (replicate (2 ^ k) empty_lookup_entry) []"
proof -
  let ?es = "replicate (2 ^ k) empty_lookup_entry"
  have free: "free_slot_entry empty_lookup_entry" by (simp add: free_slot_entry_def empty_lookup_entry_def)
  have "finds sg f ?es desc None" for desc
  proof -
    have "walk ?es i 0 = empty_lookup_entry" for i by (simp add: walk_def)
    with free show ?thesis by (auto simp: finds_def Let_def stops_at_def intro!: exI [of _ 0])
  qed
  with free assms ci.reachable_empty [of ?es] show ?thesis by (auto simp: index_ok_def entries_ok_def)
qed

lemma index_find:
  assumes "index_ok sg f es cs" "0 \<notin> set desc"
  shows "dexFindClass sg f \<lparr>lookup_size = n, lookup_table = es\<rparr> desc =
    Some (case find (\<lambda>c. fst c = desc) cs of None \<Rightarrow> 0 | Some c \<Rightarrow> baseAddr f + snd c)"
proof -
  let ?i = "unat (classDescriptorHash sg desc) mod length es"
  obtain k where k: "length es = 2 ^ k" "k \<le> 30" using assms(1) by (auto simp: index_ok_def)
  have ents: "entries_ok sg f es" and "finds sg f es desc (map_option snd (find (\<lambda>c. fst c = desc) cs))"
    using assms(1) by (auto simp: index_ok_def)
  then obtain d where d: "stops_at (\<lambda>e. free_slot_entry e \<or> has_descriptor sg f desc e) es ?i d"
    "case map_option snd (find (\<lambda>c. fst c = desc) cs) of None \<Rightarrow> free_slot_entry (walk es ?i d)
     | Some off \<Rightarrow> \<not> free_slot_entry (walk es ?i d) \<and> classDefOffset (walk es ?i d) = off"
    by (auto simp: finds_def Let_def)
  have "?i < length es" using k by simp
  from find_class_stops [OF k ents assms(2) this d(1)] d(2) slot_of_mod [of k "classDescriptorHash sg desc"] k show ?thesis
    by (auto simp: dexFindClass_def Let_def split: option.splits)
qed

lemma find_class_entry:
  "find (\<lambda>c. fst c = desc) (map (class_entry f) is) = map_option (class_entry f) (find (\<lambda>i. class_name f i = desc) is)"
  by (induction "is") (auto simp: class_entry_def)

section \<open>Properties\<close>

text \<open>C17. The index of a file whose class descriptors can be read is built, and looking a descriptor up in it
  gives the first class definition with that descriptor, or \<open>NULL\<close> when there is none; every probe ends. A
  file has room for at most 2^27 class definitions.\<close>

theorem class_index_finds_first:
  assumes "header f ClassDefsSize = Some n" "1 \<le> unat n" "unat n \<le> 2 ^ 27"
    "\<forall>i \<in> set (class_indices n). class_ok f i"
  shows "\<exists>pLookup totalProbes maxProbes. dexCreateClassLookup sg f = Some (pLookup, totalProbes, maxProbes) \<and>
    unat (lookup_size pLookup) = 8 + 12 * length (lookup_table pLookup) \<and> 2 * unat n \<le> length (lookup_table pLookup) \<and>
    (\<forall>desc. 0 \<notin> set desc \<longrightarrow> dexFindClass sg f pLookup desc =
       Some (case find (\<lambda>i. class_name f i = desc) (class_indices n) of None \<Rightarrow> 0 | Some i \<Rightarrow> dexGetClassDef f i))"
proof -
  have n2: "unat (n * 2) = 2 * unat n" using assms(3) by (simp add: unat_word_ariths)
  then have "1 \<le> unat (n * 2)" "unat (n * 2) \<le> 2 ^ 31" using assms(2,3) by auto
  then obtain k where k: "unat (dexRoundUpPower2 (n * 2)) = 2 ^ k" "2 * unat n \<le> 2 ^ k" "\<And>j. unat (n * 2) \<le> 2 ^ j \<Longrightarrow> k \<le> j"
    using round_up_power2 [of "n * 2"] unfolding n2 by metis
  have k28: "k \<le> 28" using k(3) [of 28] n2 assms(3) by simp
  let ?es = "replicate (2 ^ k) empty_lookup_entry"
  have empty: "index_ok sg f ?es []" by (rule index_empty) (use k28 in simp)
  have len: "length (class_indices n) = unat n" by (simp add: class_indices_def)
  obtain es tot mx where es: "add_classes sg f (class_indices n) ?es 0 0 = Some (es, tot, mx)"
    "index_ok sg f es (map (class_entry f) (class_indices n))" "length es = 2 ^ k"
    using add_classes_ok [OF assms(4) empty, of 0 0] len k(2) assms(2) by auto
  have small: "(2::nat) ^ k \<le> 2 ^ 28" using k28 by (rule power_increasing) simp
  have "unat (8 + dexRoundUpPower2 (n * 2) * 12) = 8 + 12 * 2 ^ k"
    using small k(1) by (simp add: unat_word_ariths)
  with es assms(1) k show ?thesis
    by (auto simp: dexCreateClassLookup_def Let_def index_find [OF es(2)] find_class_entry class_entry_def split: option.splits)
qed

lemma one_class_reads:
  "header one_class ClassDefsSize = Some 1" "class_indices 1 = [0]" "class_ok one_class 0" "class_name one_class 0 = [76, 65, 59]"
  by code_simp+

theorem class_index_finds_first_witness:
  "\<exists>pLookup totalProbes maxProbes. dexCreateClassLookup False one_class = Some (pLookup, totalProbes, maxProbes) \<and>
     dexFindClass False one_class pLookup [76, 65, 59] = Some 108 \<and> dexFindClass False one_class pLookup [76, 66, 59] = Some 0"
proof -
  obtain pLookup totalProbes maxProbes where "dexCreateClassLookup False one_class = Some (pLookup, totalProbes, maxProbes)"
    and find: "\<And>desc. 0 \<notin> set desc \<Longrightarrow> dexFindClass False one_class pLookup desc =
      Some (case find (\<lambda>i. class_name one_class i = desc) [0] of None \<Rightarrow> 0 | Some i \<Rightarrow> dexGetClassDef one_class i)"
    using class_index_finds_first [of one_class 1 False] by (auto simp: one_class_reads)
  moreover have "dexGetClassDef one_class 0 = 108" by (simp add: dexGetClassDef_def one_class_def)
  ultimately show ?thesis by (auto simp: one_class_reads)
qed

end
