(* ===== verification/DexClass.thy ===== *)
theory DexClass
  imports DexImage
begin

text \<open>
  \<^verbatim>\<open>jni/dalvik/libdex/DexClass.h\<close> and \<^verbatim>\<open>DexClass.cpp\<close>: the fields and methods of a class, a list of LEB128
  numbers in which an index is the distance to the index before it. A pointer into the data is the list of
  the bytes from there on; a limit is how many bytes of the memory lie at it or behind it, \<open>None\<close> a null
  limit, so that it is the same number wherever the pointer is. A reader gives \<open>None\<close> when it reads outside
  the memory or writes outside the block that \<open>malloc\<close> returned; whether \<open>malloc\<close> has a block of a size
  is the parameter \<open>alloc\<close>.
\<close>

section \<open>Model\<close>

record class_data_header =
  staticFieldsSize :: u4
  instanceFieldsSize :: u4
  directMethodsSize :: u4
  virtualMethodsSize :: u4

record dex_field =
  fieldIdx :: u4
  field_accessFlags :: u4

record dex_method =
  methodIdx :: u4
  method_accessFlags :: u4
  codeOff :: u4

record class_data =
  cd_header :: class_data_header
  staticFields :: "dex_field list"
  instanceFields :: "dex_field list"
  directMethods :: "dex_method list"
  virtualMethods :: "dex_method list"

definition dexGetCode :: "dex_file \<Rightarrow> dex_method \<Rightarrow> u4" where
  "dexGetCode f m = (if codeOff m = 0 then 0 else baseAddr f + codeOff m)"

subsection \<open>Without verification\<close>

definition dexReadClassDataHeader :: "class_data_header reader" where
  "dexReadClassDataHeader s =
     do { (sf, s) \<leftarrow> readUnsignedLeb128 s;
       (insf, s) \<leftarrow> readUnsignedLeb128 s;
       (dm, s) \<leftarrow> readUnsignedLeb128 s;
       (vm, s) \<leftarrow> readUnsignedLeb128 s;
       Some (\<lparr>staticFieldsSize = sf, instanceFieldsSize = insf, directMethodsSize = dm, virtualMethodsSize = vm\<rparr>, s) }"

text \<open>These two also give the new \<open>lastIndex\<close>.\<close>

definition dexReadClassDataField :: "u4 \<Rightarrow> (dex_field \<times> u4) reader" where
  "dexReadClassDataField lastIndex s =
     do { (d, s) \<leftarrow> readUnsignedLeb128 s;
       let index = lastIndex + d;
       (flags, s) \<leftarrow> readUnsignedLeb128 s;
       Some ((\<lparr>fieldIdx = index, field_accessFlags = flags\<rparr>, index), s) }"

definition dexReadClassDataMethod :: "u4 \<Rightarrow> (dex_method \<times> u4) reader" where
  "dexReadClassDataMethod lastIndex s =
     do { (d, s) \<leftarrow> readUnsignedLeb128 s;
       let index = lastIndex + d;
       (flags, s) \<leftarrow> readUnsignedLeb128 s;
       (code, s) \<leftarrow> readUnsignedLeb128 s;
       Some ((\<lparr>methodIdx = index, method_accessFlags = flags, codeOff = code\<rparr>, index), s) }"

subsection \<open>With verification\<close>

definition bytes_left :: "nat option \<Rightarrow> u1 list \<Rightarrow> nat option" where
  "bytes_left limit s = map_option (\<lambda>k. length s - k) limit"

fun verifyUlebs :: "nat option \<Rightarrow> nat \<Rightarrow> u1 list \<Rightarrow> bool option" where
  "verifyUlebs limit 0 s = Some True"
| "verifyUlebs limit (Suc n) s =
     do { (_, okay, s') \<leftarrow> readAndVerifyUnsignedLeb128 (bytes_left limit s) True s;
       if okay then verifyUlebs limit n s' else Some False }"

text \<open>\<open>Some (None, s)\<close>: the function returns \<open>false\<close> and the pointer has not moved.\<close>

definition verified_read :: "nat \<Rightarrow> 'a reader \<Rightarrow> nat option \<Rightarrow> 'a option reader" where
  "verified_read n rd limit s =
     do { okay \<leftarrow> verifyUlebs limit n s;
       if \<not> okay then Some (None, s) else do { (x, s) \<leftarrow> rd s; Some (Some x, s) } }"

definition dexReadAndVerifyClassDataHeader :: "nat option \<Rightarrow> class_data_header option reader" where
  "dexReadAndVerifyClassDataHeader = verified_read 4 dexReadClassDataHeader"

definition dexReadAndVerifyClassDataField :: "nat option \<Rightarrow> u4 \<Rightarrow> (dex_field \<times> u4) option reader" where
  "dexReadAndVerifyClassDataField limit lastIndex = verified_read 2 (dexReadClassDataField lastIndex) limit"

definition dexReadAndVerifyClassDataMethod :: "nat option \<Rightarrow> u4 \<Rightarrow> (dex_method \<times> u4) option reader" where
  "dexReadAndVerifyClassDataMethod limit lastIndex = verified_read 3 (dexReadClassDataMethod lastIndex) limit"

text \<open>One of the four loops: \<open>n\<close> items are left to read, the next one is written at \<open>ptr\<close>, and the items have
  \<open>sz\<close> bytes in a block of \<open>block\<close> bytes.\<close>

fun read_items :: "nat \<Rightarrow> nat \<Rightarrow> (u4 \<Rightarrow> ('a \<times> u4) option reader) \<Rightarrow> nat \<Rightarrow> nat \<Rightarrow> u4 \<Rightarrow> 'a list option reader" where
  "read_items block sz rd 0 ptr lastIndex s = Some (Some [], s)"
| "read_items block sz rd (Suc n) ptr lastIndex s =
     do { (r, s) \<leftarrow> rd lastIndex s;
       case r of None \<Rightarrow> Some (None, s)
       | Some (x, lastIndex) \<Rightarrow>
           if block < ptr + sz then None
           else do { (xs, s) \<leftarrow> read_items block sz rd n (ptr + sz) lastIndex s;
             Some (map_option (Cons x) xs, s) } }"

definition sizeof_DexClassData :: u4 where "sizeof_DexClassData = 32"
definition sizeof_DexField :: u4 where "sizeof_DexField = 8"
definition sizeof_DexMethod :: u4 where "sizeof_DexMethod = 12"

definition class_data_size :: "class_data_header \<Rightarrow> u4" where
  "class_data_size h =
     sizeof_DexClassData + staticFieldsSize h * sizeof_DexField + instanceFieldsSize h * sizeof_DexField +
     directMethodsSize h * sizeof_DexMethod + virtualMethodsSize h * sizeof_DexMethod"

definition empty_header :: class_data_header where
  "empty_header = \<lparr>staticFieldsSize = 0, instanceFieldsSize = 0, directMethodsSize = 0, virtualMethodsSize = 0\<rparr>"

text \<open>The pointer is \<open>None\<close> when it is null, and the memory then plays no part.\<close>

definition dexReadAndVerifyClassData ::
    "(u4 \<Rightarrow> bool) \<Rightarrow> nat option \<Rightarrow> u1 list option \<Rightarrow> (class_data option \<times> u1 list option) option" where
  "dexReadAndVerifyClassData alloc limit pData = (case pData of
     None \<Rightarrow>
       if alloc sizeof_DexClassData
       then Some (Some \<lparr>cd_header = empty_header, staticFields = [], instanceFields = [], directMethods = [],
         virtualMethods = []\<rparr>, None)
       else None
   | Some s \<Rightarrow> do {
       (hd, s) \<leftarrow> dexReadAndVerifyClassDataHeader limit s;
       case hd of None \<Rightarrow> Some (None, Some s)
       | Some h \<Rightarrow>
         let resultSize = class_data_size h; block = unat resultSize in
         if \<not> alloc resultSize then Some (None, Some s) else
         let p0 = sizeof_DexClassData;
             p1 = p0 + staticFieldsSize h * sizeof_DexField;
             p2 = p1 + instanceFieldsSize h * sizeof_DexField;
             p3 = p2 + directMethodsSize h * sizeof_DexMethod;
             field = dexReadAndVerifyClassDataField limit; method = dexReadAndVerifyClassDataMethod limit in
         do { (r, s) \<leftarrow> read_items block 8 field (unat (staticFieldsSize h)) (unat p0) 0 s;
           case r of None \<Rightarrow> Some (None, Some s) | Some sf \<Rightarrow>
         do { (r, s) \<leftarrow> read_items block 8 field (unat (instanceFieldsSize h)) (unat p1) 0 s;
           case r of None \<Rightarrow> Some (None, Some s) | Some insf \<Rightarrow>
         do { (r, s) \<leftarrow> read_items block 12 method (unat (directMethodsSize h)) (unat p2) 0 s;
           case r of None \<Rightarrow> Some (None, Some s) | Some dm \<Rightarrow>
         do { (r, s) \<leftarrow> read_items block 12 method (unat (virtualMethodsSize h)) (unat p3) 0 s;
           case r of None \<Rightarrow> Some (None, Some s) | Some vm \<Rightarrow>
         Some (Some \<lparr>cd_header = h, staticFields = sf, instanceFields = insf, directMethods = dm,
           virtualMethods = vm\<rparr>, Some s) }}}} })"

section \<open>Verified readers\<close>

definition before_limit :: "nat option \<Rightarrow> u1 list \<Rightarrow> bool" where
  "before_limit limit s \<longleftrightarrow> (case limit of None \<Rightarrow> True | Some k \<Rightarrow> k \<le> length s)"

definition numbers :: "u4 list \<Rightarrow> u1 list" where
  "numbers ws = concat (map writeUnsignedLeb128 ws)"

lemma numbers_Cons [simp]: "numbers (w # ws) = writeUnsignedLeb128 w @ numbers ws"
  by (simp add: numbers_def)

lemma numbers_Nil [simp]: "numbers [] = []"
  by (simp add: numbers_def)

lemma before_limit_append: "before_limit limit s \<Longrightarrow> before_limit limit (u @ s)"
  by (auto simp: before_limit_def split: option.splits)

text \<open>What the checking reader does, in terms of the plain one.\<close>

lemma verify_step:
  assumes "readUnsignedLeb128 s = Some (w, t)" "before_limit limit s"
  shows "\<exists>okay. readAndVerifyUnsignedLeb128 (bytes_left limit s) True s = Some (w, okay, t) \<and> (okay \<longrightarrow> before_limit limit t)"
proof -
  obtain u where "s = u @ t" using readUnsigned_shrinks [OF assms(1)] by blast
  with assms show ?thesis
    by (auto simp: readAndVerifyUnsignedLeb128_def verify_leb128_def Let_def before_limit_def bytes_left_def
        split: option.splits)
qed

lemma verify_written:
  assumes "before_limit limit t"
  shows "readAndVerifyUnsignedLeb128 (bytes_left limit (writeUnsignedLeb128 w @ t)) True (writeUnsignedLeb128 w @ t) = Some (w, True, t)"
proof -
  obtain bs where bs: "writeUnsignedLeb128 w @ t = bs @ t" "clean bs w" using readUnsigned_consumes [OF read_write] by blast
  then have "bs = leb_bytes (unsignedLeb128Size w) w" by (simp add: write_leb_bytes)
  with bs(2) have "\<not> (length bs = 5 \<and> 0x0f < bs ! 4)" by (auto simp: clean_def)
  with bs assms show ?thesis
    by (auto simp: readAndVerifyUnsignedLeb128_def verify_leb128_def Let_def before_limit_def bytes_left_def read_write nth_append
        split: option.splits)
qed

lemma verifyUlebs_true:
  "verifyUlebs limit n s = Some True \<Longrightarrow> before_limit limit s \<Longrightarrow> \<exists>ws t. read_many n readUnsignedLeb128 s = Some (ws, t) \<and> before_limit limit t"
proof (induction n arbitrary: s)
  case (Suc n)
  from Suc.prems(1) obtain w t where rd: "readUnsignedLeb128 s = Some (w, t)"
    by (auto simp: readAndVerifyUnsignedLeb128_def verify_leb128_def split: Option.bind_splits)
  with verify_step [OF rd Suc.prems(2)] Suc.prems(1) have "verifyUlebs limit n t = Some True" "before_limit limit t"
    by (auto split: if_splits)
  with Suc.IH [OF this] rd show ?case by auto
qed simp

lemma readUnsigned_total: "5 \<le> length s \<Longrightarrow> \<exists>w t. readUnsignedLeb128 s = Some (w, t)"
  by (auto simp: readUnsignedLeb128_def Let_def numeral_eq_Suc Suc_le_length_iff)

lemma verifyUlebs_total:
  "before_limit (Some k) s \<Longrightarrow> 5 \<le> k \<Longrightarrow> \<exists>okay. verifyUlebs (Some k) n s = Some okay"
proof (induction n arbitrary: s)
  case (Suc n)
  then obtain w t where rd: "readUnsignedLeb128 s = Some (w, t)"
    using readUnsigned_total [of s] by (auto simp: before_limit_def)
  from verify_step [OF rd Suc.prems(1)] obtain okay where
    "readAndVerifyUnsignedLeb128 (bytes_left (Some k) s) True s = Some (w, okay, t)" "okay \<longrightarrow> before_limit (Some k) t" by blast
  with Suc.IH [of t] Suc.prems(2) show ?case by (cases okay) auto
qed auto

lemma verifyUlebs_numbers: "before_limit limit t \<Longrightarrow> verifyUlebs limit (length ws) (numbers ws @ t) = Some True"
  by (induction ws) (simp_all add: verify_written before_limit_append)

text \<open>A reader of a given number of LEB128 numbers, checked before it reads.\<close>

lemma verified_read_inside:
  assumes "before_limit (Some k) s" "5 \<le> k"
    and follows: "\<And>ws t. read_many n readUnsignedLeb128 s = Some (ws, t) \<Longrightarrow> \<exists>x. rd s = Some (x, t)"
  shows "\<exists>r t. verified_read n rd (Some k) s = Some (r, t) \<and> before_limit (Some k) t \<and> (\<forall>x. r = Some x \<longrightarrow> rd s = Some (x, t))"
proof -
  obtain okay where ok: "verifyUlebs (Some k) n s = Some okay" using verifyUlebs_total [OF assms(1,2)] by blast
  show ?thesis
  proof (cases okay)
    case True
    with ok verifyUlebs_true [OF _ assms(1), of n] obtain ws t where "read_many n readUnsignedLeb128 s = Some (ws, t)" "before_limit (Some k) t" by auto
    with True ok follows [OF this(1)] show ?thesis by (auto simp: verified_read_def)
  next
    case False
    with ok assms(1) show ?thesis by (simp add: verified_read_def)
  qed
qed

lemma verified_read_nums:
  assumes "before_limit limit s" "rd (numbers ws @ s) = Some (x, s)"
  shows "verified_read (length ws) rd limit (numbers ws @ s) = Some (Some x, s)"
  using verifyUlebs_numbers [OF assms(1)] assms(2) by (simp add: verified_read_def)

text \<open>A list of items whose index is written as the distance to the one before.\<close>

fun items_nums :: "(u4 \<Rightarrow> 'a \<Rightarrow> u4 list) \<Rightarrow> ('a \<Rightarrow> u4) \<Rightarrow> u4 \<Rightarrow> 'a list \<Rightarrow> u4 list" where
  "items_nums nums idx lastIndex [] = []"
| "items_nums nums idx lastIndex (x # xs) = nums lastIndex x @ items_nums nums idx (idx x) xs"

lemma numbers_append [simp]: "numbers (us @ ws) = numbers us @ numbers ws"
  by (simp add: numbers_def)

locale delta_items =
  fixes n :: nat and rd :: "u4 \<Rightarrow> ('a \<times> u4) reader" and nums :: "u4 \<Rightarrow> 'a \<Rightarrow> u4 list" and idx :: "'a \<Rightarrow> u4"
  assumes length_nums: "length (nums l x) = n"
    and rd_nums: "rd l (numbers (nums l x) @ s) = Some ((x, idx x), s)"
    and rd_follows: "read_many n readUnsignedLeb128 s = Some (ws, t) \<Longrightarrow> \<exists>x. rd l s = Some ((x, idx x), t)"
begin

abbreviation item :: "nat option \<Rightarrow> u4 \<Rightarrow> ('a \<times> u4) option reader" where
  "item limit l \<equiv> verified_read n (rd l) limit"

lemma item_nums: "before_limit limit s \<Longrightarrow> item limit l (numbers (nums l x) @ s) = Some (Some (x, idx x), s)"
  using verified_read_nums [where rd = "rd l" and ws = "nums l x"] by (simp add: length_nums rd_nums)

lemma item_inside:
  "before_limit (Some k) s \<Longrightarrow> 5 \<le> k \<Longrightarrow> \<exists>r t. item (Some k) l s = Some (r, t) \<and> before_limit (Some k) t"
  using verified_read_inside [where rd = "rd l" and n = n] rd_follows by blast

lemma read_items_nums:
  "before_limit limit s \<Longrightarrow> ptr + length xs * sz \<le> block \<Longrightarrow>
     read_items block sz (item limit) (length xs) ptr l (numbers (items_nums nums idx l xs) @ s) = Some (Some xs, s)"
proof (induction xs arbitrary: ptr l)
  case (Cons x xs)
  have "before_limit limit (numbers (items_nums nums idx (idx x) xs) @ s)" using Cons.prems(1) by (rule before_limit_append)
  from item_nums [OF this, of l x] Cons.prems Cons.IH [of "ptr + sz" "idx x"] show ?case by simp
qed simp

lemma read_items_inside:
  "before_limit (Some k) s \<Longrightarrow> 5 \<le> k \<Longrightarrow> ptr + m * sz \<le> block \<Longrightarrow>
     \<exists>r t. read_items block sz (item (Some k)) m ptr l s = Some (r, t) \<and> before_limit (Some k) t \<and>
       (\<forall>xs. r = Some xs \<longrightarrow> length xs = m)"
proof (induction m arbitrary: ptr l s)
  case (Suc m)
  from item_inside [OF Suc.prems(1,2), of l] obtain r t
    where rt: "item (Some k) l s = Some (r, t)" "before_limit (Some k) t" by blast
  show ?case
  proof (cases r)
    case (Some y)
    obtain x l' where y: "y = (x, l')" by (cases y)
    from Suc.prems(3) have "ptr + sz + m * sz \<le> block" by simp
    from Suc.IH [OF rt(2) Suc.prems(2) this, of l'] rt Some y Suc.prems(3) show ?thesis by auto
  qed (use rt in simp)
qed simp

lemma read_items_outside:
  assumes "m \<noteq> 0" "block < ptr + sz" "item limit l s = Some (Some y, t)"
  shows "read_items block sz (item limit) m ptr l s = None"
  using assms by (cases m; cases y) simp_all

end

definition header_nums :: "class_data_header \<Rightarrow> u4 list" where
  "header_nums h = [staticFieldsSize h, instanceFieldsSize h, directMethodsSize h, virtualMethodsSize h]"

definition field_nums :: "u4 \<Rightarrow> dex_field \<Rightarrow> u4 list" where
  "field_nums lastIndex x = [fieldIdx x - lastIndex, field_accessFlags x]"

definition method_nums :: "u4 \<Rightarrow> dex_method \<Rightarrow> u4 list" where
  "method_nums lastIndex x = [methodIdx x - lastIndex, method_accessFlags x, codeOff x]"

lemmas read_numerals = eval_nat_numeral

lemma header_written: "before_limit limit s \<Longrightarrow> dexReadAndVerifyClassDataHeader limit (numbers (header_nums h) @ s) = Some (Some h, s)"
  using verified_read_nums [where rd = dexReadClassDataHeader and ws = "header_nums h" and x = h]
  by (simp add: dexReadAndVerifyClassDataHeader_def header_nums_def dexReadClassDataHeader_def read_write read_numerals)

lemma header_inside:
  "before_limit (Some k) s \<Longrightarrow> 5 \<le> k \<Longrightarrow>
     \<exists>r t. dexReadAndVerifyClassDataHeader (Some k) s = Some (r, t) \<and> before_limit (Some k) t \<and>
       (\<forall>h. r = Some h \<longrightarrow> dexReadClassDataHeader s = Some (h, t))"
  unfolding dexReadAndVerifyClassDataHeader_def
  by (rule verified_read_inside)
    (auto simp: dexReadClassDataHeader_def read_numerals split: Option.bind_splits)

interpretation fields: delta_items 2 dexReadClassDataField field_nums fieldIdx
  by unfold_locales
    (auto simp: field_nums_def dexReadClassDataField_def Let_def read_write read_numerals split: Option.bind_splits)

interpretation methods: delta_items 3 dexReadClassDataMethod method_nums methodIdx
  by unfold_locales
    (auto simp: method_nums_def dexReadClassDataMethod_def Let_def read_write read_numerals split: Option.bind_splits)

section \<open>Properties\<close>

text \<open>How many bytes the result takes, and where its arrays start when that is a number of 32 bits.\<close>

definition data_bytes :: "class_data_header \<Rightarrow> nat" where
  "data_bytes h = 32 + unat (staticFieldsSize h) * 8 + unat (instanceFieldsSize h) * 8 +
     unat (directMethodsSize h) * 12 + unat (virtualMethodsSize h) * 12"

lemma array_starts:
  assumes "data_bytes h < 2 ^ 32"
  shows "unat (class_data_size h) = data_bytes h"
    and "unat (32 + staticFieldsSize h * 8) = 32 + unat (staticFieldsSize h) * 8"
    and "unat (32 + staticFieldsSize h * 8 + instanceFieldsSize h * 8) =
      32 + unat (staticFieldsSize h) * 8 + unat (instanceFieldsSize h) * 8"
    and "unat (32 + staticFieldsSize h * 8 + instanceFieldsSize h * 8 + directMethodsSize h * 12) =
      32 + unat (staticFieldsSize h) * 8 + unat (instanceFieldsSize h) * 8 + unat (directMethodsSize h) * 12"
proof -
  have w: "unat w = m" if "w = of_nat m" "m \<le> data_bytes h" for w :: u4 and m
    using that unat_of_nat_u4 [of m] assms by simp
  show "unat (class_data_size h) = data_bytes h"
    by (rule w)
      (simp_all add: class_data_size_def data_bytes_def sizeof_DexClassData_def sizeof_DexField_def sizeof_DexMethod_def)
  show "unat (32 + staticFieldsSize h * 8) = 32 + unat (staticFieldsSize h) * 8"
    by (rule w) (simp_all add: data_bytes_def)
  show "unat (32 + staticFieldsSize h * 8 + instanceFieldsSize h * 8) =
      32 + unat (staticFieldsSize h) * 8 + unat (instanceFieldsSize h) * 8"
    by (rule w) (simp_all add: data_bytes_def)
  show "unat (32 + staticFieldsSize h * 8 + instanceFieldsSize h * 8 + directMethodsSize h * 12) =
      32 + unat (staticFieldsSize h) * 8 + unat (instanceFieldsSize h) * 8 + unat (directMethodsSize h) * 12"
    by (rule w) (simp_all add: data_bytes_def)
qed

definition class_data_ok :: "class_data \<Rightarrow> bool" where
  "class_data_ok cd \<longleftrightarrow> (let h = cd_header cd in
     length (staticFields cd) = unat (staticFieldsSize h) \<and> length (instanceFields cd) = unat (instanceFieldsSize h) \<and>
     length (directMethods cd) = unat (directMethodsSize h) \<and> length (virtualMethods cd) = unat (virtualMethodsSize h))"

definition class_data_bytes :: "class_data \<Rightarrow> u1 list" where
  "class_data_bytes cd = numbers (header_nums (cd_header cd) @
     items_nums field_nums fieldIdx 0 (staticFields cd) @ items_nums field_nums fieldIdx 0 (instanceFields cd) @
     items_nums method_nums methodIdx 0 (directMethods cd) @ items_nums method_nums methodIdx 0 (virtualMethods cd))"

text \<open>The four loops, at the readers of the code.\<close>

lemma field_reader: "dexReadAndVerifyClassDataField limit = (\<lambda>l. verified_read 2 (dexReadClassDataField l) limit)"
  by (rule ext) (simp add: dexReadAndVerifyClassDataField_def)

lemma method_reader: "dexReadAndVerifyClassDataMethod limit = (\<lambda>l. verified_read 3 (dexReadClassDataMethod l) limit)"
  by (rule ext) (simp add: dexReadAndVerifyClassDataMethod_def)

lemmas items_written = fields.read_items_nums [folded field_reader] methods.read_items_nums [folded method_reader]

lemmas fields_inside = fields.read_items_inside [folded field_reader]
lemmas methods_inside = methods.read_items_inside [folded method_reader]

lemmas class_data_sizes = sizeof_DexClassData_def sizeof_DexField_def sizeof_DexMethod_def

lemma class_data_reads_back:
  assumes "class_data_ok cd" "data_bytes (cd_header cd) < 2 ^ 32" "alloc (class_data_size (cd_header cd))"
    and "before_limit limit rest"
  shows "dexReadAndVerifyClassData alloc limit (Some (class_data_bytes cd @ rest)) = Some (Some cd, Some rest)"
proof -
  let ?h = "cd_header cd"
  have len: "unat (staticFieldsSize ?h) = length (staticFields cd)" "unat (instanceFieldsSize ?h) = length (instanceFields cd)"
    "unat (directMethodsSize ?h) = length (directMethods cd)" "unat (virtualMethodsSize ?h) = length (virtualMethods cd)"
    using assms(1) by (simp_all add: class_data_ok_def Let_def)
  show ?thesis
    using assms(3) array_starts [OF assms(2)]
    by (simp add: dexReadAndVerifyClassData_def class_data_sizes Let_def class_data_bytes_def header_written
        before_limit_append assms(4) items_written data_bytes_def len)
qed

text \<open>C21. The class data that encodes some fields and methods is read back as them, whatever follows the limit
  or the data, when their number makes the result fit the address space and \<open>malloc\<close> has a block for it:
  the indices are summed up from their distances, in each of the four lists from 0.\<close>

theorem class_data_roundtrip:
  assumes "class_data_ok cd" "data_bytes (cd_header cd) < 2 ^ 32" "alloc (class_data_size (cd_header cd))"
    and "before_limit limit rest"
  shows "dexReadAndVerifyClassData alloc limit (Some (class_data_bytes cd @ rest)) = Some (Some cd, Some rest)"
  using assms by (rule class_data_reads_back)

definition sample_class :: class_data where
  "sample_class = \<lparr>cd_header = \<lparr>staticFieldsSize = 2, instanceFieldsSize = 0, directMethodsSize = 1, virtualMethodsSize = 0\<rparr>,
     staticFields = [\<lparr>fieldIdx = 300, field_accessFlags = 8\<rparr>, \<lparr>fieldIdx = 301, field_accessFlags = 9\<rparr>], instanceFields = [],
     directMethods = [\<lparr>methodIdx = 7, method_accessFlags = 1, codeOff = 0x200\<rparr>], virtualMethods = []\<rparr>"

theorem class_data_roundtrip_witness:
  "dexReadAndVerifyClassData (\<lambda>_. True) (Some 1) (Some (class_data_bytes sample_class @ [99])) = Some (Some sample_class, Some [99])"
  by (rule class_data_roundtrip) (simp_all add: sample_class_def class_data_ok_def data_bytes_def before_limit_def)

text \<open>On any data at all, the verified reader stays in memory that reaches five bytes past the limit: it stops
  there or before, and if it returns a class its four lists have the lengths of the header. This needs the
  sizes of the header to add up to less than \<open>2\<^sup>3\<^sup>2\<close> bytes.\<close>

theorem class_data_inside:
  assumes "k \<le> length s" "5 \<le> k" "dexReadClassDataHeader s = Some (h, t)" "data_bytes h < 2 ^ 32"
  shows "\<exists>r rest. dexReadAndVerifyClassData alloc (Some k) (Some s) = Some (r, Some rest) \<and> k \<le> length rest \<and>
    (\<forall>cd. r = Some cd \<longrightarrow> class_data_ok cd \<and> cd_header cd = h)"
proof -
  have b: "before_limit (Some k) s" using assms(1) by (simp add: before_limit_def)
  from header_inside [OF b assms(2)] obtain r0 s0
    where h: "dexReadAndVerifyClassDataHeader (Some k) s = Some (r0, s0)" "before_limit (Some k) s0" "r0 = None \<or> r0 = Some h"
    using assms(3) by fastforce
  let ?b = "unat (class_data_size h)"
  let ?f = "dexReadAndVerifyClassDataField (Some k)" and ?m = "dexReadAndVerifyClassDataMethod (Some k)"
  let ?p1 = "32 + staticFieldsSize h * 8"
  let ?p2 = "?p1 + instanceFieldsSize h * 8"
  let ?p3 = "?p2 + directMethodsSize h * 12"
  note starts = array_starts [OF assms(4)]
  obtain r1 s1 where 1: "read_items ?b 8 ?f (unat (staticFieldsSize h)) 32 0 s0 = Some (r1, s1)"
    "before_limit (Some k) s1" "\<And>xs. r1 = Some xs \<Longrightarrow> length xs = unat (staticFieldsSize h)"
    using fields_inside [OF h(2) assms(2), of 32 "unat (staticFieldsSize h)" 8 ?b 0] by (auto simp: starts data_bytes_def)
  obtain r2 s2 where 2: "read_items ?b 8 ?f (unat (instanceFieldsSize h)) (unat ?p1) 0 s1 = Some (r2, s2)"
    "before_limit (Some k) s2" "\<And>xs. r2 = Some xs \<Longrightarrow> length xs = unat (instanceFieldsSize h)"
    using fields_inside [OF 1(2) assms(2), of "unat ?p1" "unat (instanceFieldsSize h)" 8 ?b 0] by (auto simp: starts data_bytes_def)
  obtain r3 s3 where 3: "read_items ?b 12 ?m (unat (directMethodsSize h)) (unat ?p2) 0 s2 = Some (r3, s3)"
    "before_limit (Some k) s3" "\<And>xs. r3 = Some xs \<Longrightarrow> length xs = unat (directMethodsSize h)"
    using methods_inside [OF 2(2) assms(2), of "unat ?p2" "unat (directMethodsSize h)" 12 ?b 0] by (auto simp: starts data_bytes_def)
  obtain r4 s4 where 4: "read_items ?b 12 ?m (unat (virtualMethodsSize h)) (unat ?p3) 0 s3 = Some (r4, s4)"
    "before_limit (Some k) s4" "\<And>xs. r4 = Some xs \<Longrightarrow> length xs = unat (virtualMethodsSize h)"
    using methods_inside [OF 3(2) assms(2), of "unat ?p3" "unat (virtualMethodsSize h)" 12 ?b 0] by (auto simp: starts data_bytes_def)
  have k: "k \<le> length s0" "k \<le> length s1" "k \<le> length s2" "k \<le> length s3" "k \<le> length s4"
    using h(2) 1(2) 2(2) 3(2) 4(2) by (simp_all add: before_limit_def)
  show ?thesis
    using h(3) k 1(3) 2(3) 3(3) 4(3)
    by (auto simp: dexReadAndVerifyClassData_def class_data_sizes Let_def h(1) 1(1) 2(1) 3(1) 4(1) class_data_ok_def
        split: option.split)
qed

theorem class_data_inside_witness:
  "\<exists>r rest. dexReadAndVerifyClassData (\<lambda>_. True) (Some 5) (Some [1, 0, 0, 1, 4, 0x80, 0x80, 0x80, 0x80, 0x80]) = Some (r, Some rest) \<and>
     5 \<le> length rest"
proof -
  have "dexReadClassDataHeader [1, 0, 0, 1, 4, 0x80, 0x80, 0x80, 0x80, 0x80] =
    Some (\<lparr>staticFieldsSize = 1, instanceFieldsSize = 0, directMethodsSize = 0, virtualMethodsSize = 1\<rparr>, [4, 0x80, 0x80, 0x80, 0x80, 0x80])"
    by code_simp
  from class_data_inside [OF _ _ this, of 5 "\<lambda>_. True"] show ?thesis by (auto simp: data_bytes_def)
qed

text \<open>Otherwise the size wraps. This class has \<open>2\<^sup>2\<^sup>9\<close> static fields, the block is 32 bytes long, and the first
  field is written behind it.\<close>

lemma class_data_size_wraps:
  "dexReadAndVerifyClassData (\<lambda>_. True) (Some 5) (Some ([0x80, 0x80, 0x80, 0x80, 2, 0, 0, 0, 1, 1] @ rest)) = None \<or> length rest < 5"
proof (cases "length rest < 5")
  case False
  let ?h = "\<lparr>staticFieldsSize = 2 ^ 29, instanceFieldsSize = 0, directMethodsSize = 0, virtualMethodsSize = 0\<rparr>"
  let ?x = "\<lparr>fieldIdx = 1, field_accessFlags = 1\<rparr>"
  have limit: "before_limit (Some 5) rest" using False by (simp add: before_limit_def)
  have "writeUnsignedLeb128 (2 ^ 29) = [0x80, 0x80, 0x80, 0x80, 2]" "writeUnsignedLeb128 0 = [0]" "writeUnsignedLeb128 1 = [1]"
    by code_simp+
  then have bytes: "[0x80, 0x80, 0x80, 0x80, 2, 0, 0, 0, 1, 1] @ rest = numbers (header_nums ?h) @ numbers (field_nums 0 ?x) @ rest"
    by (simp add: header_nums_def field_nums_def)
  have "read_items 32 8 (dexReadAndVerifyClassDataField (Some 5)) (2 ^ 29) 32 0 (numbers (field_nums 0 ?x) @ rest) = None"
    unfolding field_reader by (rule fields.read_items_outside [OF _ _ fields.item_nums [OF limit]]) simp_all
  then show ?thesis
    unfolding bytes
    by (simp add: dexReadAndVerifyClassData_def class_data_sizes Let_def header_written before_limit_append limit class_data_size_def)
qed simp

end
