(* ===== verification/DexProto.thy ===== *)
theory DexProto
  imports DexImage
begin

text \<open>
  \<^verbatim>\<open>jni/dalvik/libdex/DexProto.cpp\<close> and \<^verbatim>\<open>.h\<close>: method prototypes, the string cache their descriptors are built in,
  the orders on them and the iterator over parameters. A C string is its bytes before the terminator.
  \<open>None\<close> is a read outside the dex file or a write outside a buffer. What \<open>malloc\<close> returns is given by the
  argument \<open>fresh\<close>; the signedness of \<open>char\<close>, which depends on the target, by \<open>sg\<close>.
\<close>

unbundle bit_operations_syntax

section \<open>The string cache\<close>

text \<open>\<open>value\<close> points to \<open>cache_buffer\<close> while \<open>allocatedSize\<close> is 0, and to a block of its own otherwise.\<close>

record string_cache =
  allocatedSize :: u4
  cache_block :: "u1 list"
  cache_buffer :: "u1 list"

definition value_of :: "string_cache \<Rightarrow> u1 list" where
  "value_of c = (if allocatedSize c = 0 then cache_buffer c else cache_block c)"

definition set_value :: "u1 list \<Rightarrow> string_cache \<Rightarrow> string_cache" where
  "set_value v c = (if allocatedSize c = 0 then c\<lparr>cache_buffer := v\<rparr> else c\<lparr>cache_block := v\<rparr>)"

definition dexStringCacheAlloc :: "(nat \<Rightarrow> u1 list) \<Rightarrow> string_cache \<Rightarrow> u4 \<Rightarrow> string_cache" where
  "dexStringCacheAlloc fresh c length' =
     (if allocatedSize c \<noteq> 0 \<and> allocatedSize c \<ge> length' then c
      else if length' \<le> 120 then c\<lparr>allocatedSize := 0\<rparr>
      else c\<lparr>allocatedSize := length', cache_block := fresh (unat length')\<rparr>)"

definition dexStringCacheInit :: "string_cache \<Rightarrow> string_cache" where
  "dexStringCacheInit c = c\<lparr>allocatedSize := 0, cache_buffer := (cache_buffer c)[0 := 0]\<rparr>"

definition dexStringCacheRelease :: "string_cache \<Rightarrow> string_cache" where
  "dexStringCacheRelease c = c\<lparr>allocatedSize := 0\<rparr>"

text \<open>Writing bytes into a buffer.\<close>

definition put :: "nat \<Rightarrow> u1 list \<Rightarrow> u1 list \<Rightarrow> u1 list option" where
  "put i bs v = (if i + length bs \<le> length v then Some (take i v @ bs @ drop (i + length bs) v) else None)"

definition str_in :: "u1 list \<Rightarrow> u1 list option" where
  "str_in v = (if 0 \<in> set v then Some (takeWhile (\<lambda>b. b \<noteq> 0) v) else None)"

text \<open>A value passed to the next two functions is the cache's own (\<open>None\<close>) or another string.\<close>

definition dexStringCacheEnsureCopy :: "(nat \<Rightarrow> u1 list) \<Rightarrow> string_cache \<Rightarrow> u1 list option \<Rightarrow> string_cache option" where
  "dexStringCacheEnsureCopy fresh c val =
     (case val of
        None \<Rightarrow> Some c
      | Some s \<Rightarrow>
          let c' = dexStringCacheAlloc fresh c (of_nat (length s + 1)) in
          map_option (\<lambda>v. set_value v c') (put 0 (s @ [0]) (value_of c')))"

text \<open>The result is the string in a block of its own.\<close>

definition dexStringCacheAbandon :: "string_cache \<Rightarrow> u1 list option \<Rightarrow> (u1 list \<times> string_cache) option" where
  "dexStringCacheAbandon c val =
     (case val of
        None \<Rightarrow>
          if allocatedSize c \<noteq> 0 then map_option (\<lambda>s. (s, c\<lparr>allocatedSize := 0\<rparr>)) (str_in (value_of c))
          else map_option (\<lambda>s. (s, c)) (str_in (value_of c))
      | Some s \<Rightarrow> Some (s, c))"

section \<open>Prototypes\<close>

record dex_proto =
  dexFile :: dex_file
  protoIdx :: u4

definition dexProtoSetFromMethodId :: "dex_file \<Rightarrow> u4 \<Rightarrow> dex_proto option" where
  "dexProtoSetFromMethodId f pMethodId =
     map_option (\<lambda>idx. \<lparr>dexFile = f, protoIdx = ucast idx\<rparr>) (rd2 (mem f) (pMethodId + 2))"

definition getProtoId :: "dex_proto \<Rightarrow> u4" where
  "getProtoId p = dexGetProtoId (dexFile p) (protoIdx p)"

text \<open>The string a pointer of the dex file points to, and the descriptor of a type.\<close>

definition proto_str :: "dex_proto \<Rightarrow> u4 \<Rightarrow> u1 list option" where
  "proto_str p ptr = c_string (mem (dexFile p)) ptr"

definition type_desc :: "dex_proto \<Rightarrow> u4 \<Rightarrow> u1 list option" where
  "type_desc p idx = do { ptr \<leftarrow> dexStringByTypeIdx (dexFile p) idx; proto_str p ptr }"

definition dexProtoGetShorty :: "dex_proto \<Rightarrow> u4 option" where
  "dexProtoGetShorty p =
     do { shortyIdx \<leftarrow> rd4 (mem (dexFile p)) (getProtoId p); dexStringById (dexFile p) shortyIdx }"

definition returnTypeIdx :: "dex_proto \<Rightarrow> u4 option" where
  "returnTypeIdx p = rd4 (mem (dexFile p)) (getProtoId p + 4)"

text \<open>The parameter list (0 is \<open>NULL\<close>) and its size.\<close>

definition type_list :: "dex_proto \<Rightarrow> (u4 \<times> u4) option" where
  "type_list p =
     do { typeList \<leftarrow> dexGetProtoParameters (dexFile p) (getProtoId p);
       paramCount \<leftarrow> if typeList = 0 then Some 0 else rd4 (mem (dexFile p)) typeList;
       Some (typeList, paramCount) }"

definition param_desc :: "dex_proto \<Rightarrow> u4 \<Rightarrow> nat \<Rightarrow> u1 list option" where
  "param_desc p typeList i =
     do { idx \<leftarrow> dexTypeListGetIdx (dexFile p) typeList (of_nat i); type_desc p idx }"

fun desc_lengths :: "dex_proto \<Rightarrow> u4 \<Rightarrow> nat list \<Rightarrow> u4 \<Rightarrow> u4 option" where
  "desc_lengths p typeList [] length' = Some length'"
| "desc_lengths p typeList (i # is) length' =
     do { d \<leftarrow> param_desc p typeList i; desc_lengths p typeList is (length' + of_nat (length d)) }"

fun copy_descs :: "dex_proto \<Rightarrow> u4 \<Rightarrow> nat list \<Rightarrow> nat \<Rightarrow> u1 list \<Rightarrow> (nat \<times> u1 list) option" where
  "copy_descs p typeList [] pos v = Some (pos, v)"
| "copy_descs p typeList (i # is) pos v =
     do { d \<leftarrow> param_desc p typeList i;
       v' \<leftarrow> put pos (d @ [0]) v;
       copy_descs p typeList is (pos + length d) v' }"

definition dexProtoGetMethodDescriptor :: "(nat \<Rightarrow> u1 list) \<Rightarrow> dex_proto \<Rightarrow> string_cache \<Rightarrow> string_cache option" where
  "dexProtoGetMethodDescriptor fresh p c =
     do { (typeList, paramCount) \<leftarrow> type_list p;
       length1 \<leftarrow> desc_lengths p typeList [0..<unat paramCount] 3;
       retIdx \<leftarrow> returnTypeIdx p;
       ret \<leftarrow> type_desc p retIdx;
       let c' = dexStringCacheAlloc fresh c (length1 + of_nat (length ret));
       v \<leftarrow> put 0 [0x28] (value_of c');
       (pos, v) \<leftarrow> copy_descs p typeList [0..<unat paramCount] 1 v;
       v \<leftarrow> put pos [0x29] v;
       v \<leftarrow> put (pos + 1) (ret @ [0]) v;
       Some (set_value v c') }"

definition dexProtoCopyMethodDescriptor :: "(nat \<Rightarrow> u1 list) \<Rightarrow> dex_proto \<Rightarrow> string_cache \<Rightarrow> (u1 list \<times> string_cache) option" where
  "dexProtoCopyMethodDescriptor fresh p c =
     do { c' \<leftarrow> dexProtoGetMethodDescriptor fresh p (dexStringCacheInit c); dexStringCacheAbandon c' None }"

definition dexGetDescriptorFromMethodId :: "(nat \<Rightarrow> u1 list) \<Rightarrow> dex_file \<Rightarrow> u4 \<Rightarrow> string_cache \<Rightarrow> string_cache option" where
  "dexGetDescriptorFromMethodId fresh f pMethodId c =
     do { p \<leftarrow> dexProtoSetFromMethodId f pMethodId; dexProtoGetMethodDescriptor fresh p c }"

definition dexCopyDescriptorFromMethodId ::
  "(nat \<Rightarrow> u1 list) \<Rightarrow> dex_file \<Rightarrow> u4 \<Rightarrow> string_cache \<Rightarrow> (u1 list \<times> string_cache) option" where
  "dexCopyDescriptorFromMethodId fresh f pMethodId c =
     do { p \<leftarrow> dexProtoSetFromMethodId f pMethodId; dexProtoCopyMethodDescriptor fresh p c }"

definition dexProtoGetReturnType :: "dex_proto \<Rightarrow> u4 option" where
  "dexProtoGetReturnType p = do { idx \<leftarrow> returnTypeIdx p; dexStringByTypeIdx (dexFile p) idx }"

definition dexProtoGetParameterCount :: "dex_proto \<Rightarrow> u4 option" where
  "dexProtoGetParameterCount p = map_option snd (type_list p)"

fun args_size :: "u1 list \<Rightarrow> int" where
  "args_size [] = 0"
| "args_size (c # shorty) = (if c = 0x44 \<or> c = 0x4a then 2 else 1) + args_size shorty"

definition dexProtoComputeArgsSize :: "dex_proto \<Rightarrow> int option" where
  "dexProtoComputeArgsSize p =
     do { shorty \<leftarrow> dexProtoGetShorty p; s \<leftarrow> proto_str p (shorty + 1); Some (args_size s) }"

section \<open>Iterating over parameters\<close>

record param_iterator =
  it_proto :: dex_proto
  parameters :: u4
  parameterCount :: int
  cursor :: int

definition dexParameterIteratorInit :: "dex_proto \<Rightarrow> param_iterator option" where
  "dexParameterIteratorInit p =
     map_option (\<lambda>(typeList, n). \<lparr>it_proto = p, parameters = typeList, parameterCount = sint n, cursor = 0\<rparr>) (type_list p)"

definition dexParameterIteratorNextIndex :: "param_iterator \<Rightarrow> (u4 \<times> param_iterator) option" where
  "dexParameterIteratorNextIndex it =
     (if cursor it \<ge> parameterCount it then Some (kDexNoIndex, it)
      else map_option (\<lambda>idx. (idx, it\<lparr>cursor := cursor it + 1\<rparr>))
        (dexTypeListGetIdx (dexFile (it_proto it)) (parameters it) (of_int (cursor it))))"

definition dexParameterIteratorNextDescriptor :: "param_iterator \<Rightarrow> (u4 \<times> param_iterator) option" where
  "dexParameterIteratorNextDescriptor it =
     do { (idx, it') \<leftarrow> dexParameterIteratorNextIndex it;
       if idx = kDexNoIndex then Some (0, it')
       else map_option (\<lambda>ptr. (ptr, it')) (dexStringByTypeIdx (dexFile (it_proto it)) idx) }"

lemma type_idx_not_kDexNoIndex: "dexTypeListGetIdx f l i = Some idx \<Longrightarrow> idx \<noteq> kDexNoIndex"
proof -
  assume "dexTypeListGetIdx f l i = Some idx"
  then obtain w :: u2 where "idx = ucast w" by (auto simp: dexTypeListGetIdx_def)
  then have "\<not> bit idx 31" using bit_imp_le_length [of w 31] by (auto simp: bit_simps)
  moreover have "bit kDexNoIndex 31" by (simp add: kDexNoIndex_def)
  ultimately show ?thesis by auto
qed

text \<open>The descriptors from the iterator's position on, up to \<open>NULL\<close>, which is what comes after the last.\<close>

function iter_descs :: "param_iterator \<Rightarrow> u1 list list option" where
  "iter_descs it =
     (case dexParameterIteratorNextDescriptor it of
        None \<Rightarrow> None
      | Some (ptr, it') \<Rightarrow>
          if ptr = 0 \<or> cursor it \<ge> parameterCount it then Some []
          else do { d \<leftarrow> proto_str (it_proto it) ptr; ds \<leftarrow> iter_descs it'; Some (d # ds) })"
  by pat_completeness auto
termination
  by (relation "measure (\<lambda>it. nat (parameterCount it - cursor it))")
    (auto simp: dexParameterIteratorNextDescriptor_def dexParameterIteratorNextIndex_def
      split: Option.bind_splits if_splits)

declare iter_descs.simps [simp del]

definition dexProtoGetParameterDescriptors :: "(nat \<Rightarrow> u1 list) \<Rightarrow> dex_proto \<Rightarrow> string_cache \<Rightarrow> string_cache option" where
  "dexProtoGetParameterDescriptors fresh p c =
     do { it \<leftarrow> dexParameterIteratorInit p;
       ds \<leftarrow> iter_descs it;
       let c' = dexStringCacheAlloc fresh c (foldl (\<lambda>n d. n + of_nat (length d)) 1 ds);
       (_, v) \<leftarrow> foldl (\<lambda>r d. do { (pos, v) \<leftarrow> r; v' \<leftarrow> put pos (d @ [0]) v; Some (pos + length d, v') })
         (Some (0, value_of c')) ds;
       Some (set_value v c') }"

section \<open>Comparing\<close>

fun strcmp :: "u1 list \<Rightarrow> u1 list \<Rightarrow> int" where
  "strcmp [] [] = 0"
| "strcmp [] (b # t) = - uint b"
| "strcmp (a # s) [] = uint a"
| "strcmp (a # s) (b # t) = (if a = b then strcmp s t else uint a - uint b)"

text \<open>The loop over the parameters both prototypes have.\<close>

fun compare_params :: "dex_proto \<Rightarrow> u4 \<Rightarrow> dex_proto \<Rightarrow> u4 \<Rightarrow> nat list \<Rightarrow> int option" where
  "compare_params p1 l1 p2 l2 [] = Some 0"
| "compare_params p1 l1 p2 l2 (i # is) =
     do { d1 \<leftarrow> param_desc p1 l1 i;
       d2 \<leftarrow> param_desc p2 l2 i;
       let result = strcmp d1 d2;
       if result \<noteq> 0 then Some result else compare_params p1 l1 p2 l2 is }"

text \<open>Whether the two pointers are the same is the argument \<open>same\<close>.\<close>

definition protoCompare :: "bool \<Rightarrow> dex_proto \<Rightarrow> dex_proto \<Rightarrow> bool \<Rightarrow> int option" where
  "protoCompare same p1 p2 compareReturnType =
     (if same then Some 0
      else do { (typeList1, n1) \<leftarrow> type_list p1;
        (typeList2, n2) \<leftarrow> type_list p2;
        let paramCount1 = sint n1;
        let paramCount2 = sint n2;
        if getProtoId p1 = getProtoId p2 then Some 0
        else do {
          result \<leftarrow> if compareReturnType then
            do { idx1 \<leftarrow> returnTypeIdx p1; r1 \<leftarrow> type_desc p1 idx1;
              idx2 \<leftarrow> returnTypeIdx p2; r2 \<leftarrow> type_desc p2 idx2; Some (strcmp r1 r2) }
            else Some 0;
          if result \<noteq> 0 then Some result
          else do {
            let minParam = (if paramCount1 > paramCount2 then paramCount2 else paramCount1);
            result \<leftarrow> compare_params p1 typeList1 p2 typeList2 [0..<nat minParam];
            if result \<noteq> 0 then Some result
            else Some (if paramCount1 < paramCount2 then - 1 else if paramCount1 > paramCount2 then 1 else 0) } } })"

definition dexProtoCompare :: "bool \<Rightarrow> dex_proto \<Rightarrow> dex_proto \<Rightarrow> int option" where
  "dexProtoCompare same p1 p2 = protoCompare same p1 p2 True"

definition dexProtoCompareParameters :: "bool \<Rightarrow> dex_proto \<Rightarrow> dex_proto \<Rightarrow> int option" where
  "dexProtoCompareParameters same p1 p2 = protoCompare same p1 p2 False"

section \<open>Comparing with a descriptor\<close>

text \<open>What follows the first occurrence of a character, \<open>strchr(s, c) + 1\<close>.\<close>

fun after_char :: "u1 \<Rightarrow> u1 list \<Rightarrow> u1 list option" where
  "after_char c [] = None"
| "after_char c (b # s) = (if b = c then Some s else after_char c s)"

definition methodDescriptorReturnType :: "u1 list \<Rightarrow> u1 list option" where
  "methodDescriptorReturnType descriptor = after_char 0x29 descriptor"

definition methodDescriptorNextType :: "u1 list \<Rightarrow> u1 list option" where
  "methodDescriptorNextType descriptor =
     (case dropWhile (\<lambda>b. b = 0x5b) descriptor of
        [] \<Rightarrow> None
      | b # s \<Rightarrow>
          if b \<in> set [0x42, 0x43, 0x44, 0x46, 0x49, 0x4a, 0x53, 0x5a] then Some s
          else if b = 0x4c then after_char 0x3b s
          else None)"

definition char_int :: "bool \<Rightarrow> u1 \<Rightarrow> int" where
  "char_int sg c = (if sg then sint c else uint c)"

text \<open>The characters of a parameter's descriptor against those up to \<open>nextDesc\<close>; a string that has ended
  goes on with its terminator.\<close>

fun compare_chars :: "bool \<Rightarrow> u1 list \<Rightarrow> u1 list \<Rightarrow> int" where
  "compare_chars sg [] [] = 0"
| "compare_chars sg [] (c2 # d) = (if 0 < char_int sg c2 then - 1 else if 0 > char_int sg c2 then 1 else 0)"
| "compare_chars sg (c1 # p) [] = (if char_int sg c1 < 0 then - 1 else if char_int sg c1 > 0 then 1 else 0)"
| "compare_chars sg (c1 # p) (c2 # d) =
     (if char_int sg c1 < char_int sg c2 then - 1
      else if char_int sg c1 > char_int sg c2 then 1
      else compare_chars sg p d)"

text \<open>Without a next type, which the \<open>assert\<close> rules out, the descriptor counts as ended and is not advanced.\<close>

fun compare_descriptor :: "bool \<Rightarrow> u1 \<Rightarrow> u1 list list \<Rightarrow> u1 list \<Rightarrow> int" where
  "compare_descriptor sg expectedEndChar ds descriptor =
     (if (case descriptor of [] \<Rightarrow> 0 | b # _ \<Rightarrow> b) = expectedEndChar then (if ds = [] then 0 else 1)
      else case ds of
        [] \<Rightarrow> - 1
      | protoDesc # ds' \<Rightarrow>
          (case methodDescriptorNextType descriptor of
             None \<Rightarrow>
               let result = compare_chars sg protoDesc [] in
               if result \<noteq> 0 then result else compare_descriptor sg expectedEndChar ds' descriptor
           | Some nextDesc \<Rightarrow>
               let result = compare_chars sg protoDesc (take (length descriptor - length nextDesc) descriptor) in
               if result \<noteq> 0 then result else compare_descriptor sg expectedEndChar ds' nextDesc))"

declare compare_descriptor.simps [simp del]

definition protoCompareToParameterDescriptors :: "bool \<Rightarrow> dex_proto \<Rightarrow> u1 list \<Rightarrow> bool \<Rightarrow> int option" where
  "protoCompareToParameterDescriptors sg p descriptor expectParens =
     do { it \<leftarrow> dexParameterIteratorInit p;
       ds \<leftarrow> iter_descs it;
       Some (compare_descriptor sg (if expectParens then 0x29 else 0) ds
         (if expectParens then drop 1 descriptor else descriptor)) }"

definition dexProtoCompareToDescriptor :: "bool \<Rightarrow> dex_proto \<Rightarrow> u1 list \<Rightarrow> int option" where
  "dexProtoCompareToDescriptor sg p descriptor =
     do { returnType \<leftarrow> methodDescriptorReturnType descriptor;
       ptr \<leftarrow> dexProtoGetReturnType p;
       r \<leftarrow> proto_str p ptr;
       let result = strcmp r returnType;
       if result \<noteq> 0 then Some result else protoCompareToParameterDescriptors sg p descriptor True }"

definition dexProtoCompareToParameterDescriptors :: "bool \<Rightarrow> dex_proto \<Rightarrow> u1 list \<Rightarrow> int option" where
  "dexProtoCompareToParameterDescriptors sg p descriptors = protoCompareToParameterDescriptors sg p descriptors False"

section \<open>What a prototype says\<close>

text \<open>The descriptors of the parameters and of the return type.\<close>

definition proto_types :: "dex_proto \<Rightarrow> (u1 list list \<times> u1 list) option" where
  "proto_types p =
     do { (l, n) \<leftarrow> type_list p;
       ds \<leftarrow> those (map (param_desc p l) [0..<unat n]);
       idx \<leftarrow> returnTypeIdx p;
       r \<leftarrow> type_desc p idx;
       Some (ds, r) }"

lemma proto_typesE:
  assumes "proto_types p = Some (ds, r)"
  obtains l n idx where "type_list p = Some (l, n)" "those (map (param_desc p l) [0..<unat n]) = Some ds"
    "returnTypeIdx p = Some idx" "type_desc p idx = Some r"
  using assms by (auto simp: proto_types_def split: Option.bind_splits)

lemma those_Cons: "those (x # xs) = Some ys \<longleftrightarrow> (\<exists>y zs. x = Some y \<and> those xs = Some zs \<and> ys = y # zs)"
  by (auto split: option.splits)

lemma those_length: "those xs = Some ys \<Longrightarrow> length ys = length xs"
proof (induction xs arbitrary: ys)
  case (Cons x xs)
  then show ?case by (auto simp: those_Cons simp del: those.simps)
qed simp

lemma c_string_no_NUL: "c_string m p = Some s \<Longrightarrow> 0 \<notin> set s"
  by (auto simp: c_string_def split: if_splits dest: set_takeWhileD)

lemma type_desc_no_NUL: "type_desc p idx = Some d \<Longrightarrow> 0 \<notin> set d"
  by (auto simp: type_desc_def proto_str_def split: Option.bind_splits dest: c_string_no_NUL)

lemma params_no_NUL: "those (map (param_desc p l) is) = Some ds \<Longrightarrow> d \<in> set ds \<Longrightarrow> 0 \<notin> set d"
proof (induction "is" arbitrary: ds)
  case (Cons i "is")
  then obtain e es where "param_desc p l i = Some e" "those (map (param_desc p l) is) = Some es" "ds = e # es"
    by (auto simp: those_Cons simp del: those.simps)
  with Cons show ?case by (auto simp: param_desc_def split: Option.bind_splits dest: type_desc_no_NUL)
qed simp

section \<open>Building descriptors\<close>

definition cache_ok :: "string_cache \<Rightarrow> bool" where
  "cache_ok c \<longleftrightarrow> length (cache_buffer c) = 120 \<and> (allocatedSize c \<noteq> 0 \<longrightarrow> length (cache_block c) = unat (allocatedSize c))"

lemma alloc_ok:
  assumes "cache_ok c" "\<forall>n. length (fresh n) = n" "n < 2 ^ 32"
  shows "cache_ok (dexStringCacheAlloc fresh c (of_nat n))" "n \<le> length (value_of (dexStringCacheAlloc fresh c (of_nat n)))"
proof -
  have n: "unat (of_nat n :: u4) = n" using assms(3) by (rule unat_of_nat_u4)
  show "cache_ok (dexStringCacheAlloc fresh c (of_nat n))"
    using assms n by (auto simp: cache_ok_def dexStringCacheAlloc_def)
  show "n \<le> length (value_of (dexStringCacheAlloc fresh c (of_nat n)))"
    using assms(1,2) n by (auto simp: cache_ok_def dexStringCacheAlloc_def value_of_def word_le_nat_alt)
qed

lemma set_value_ok: "cache_ok c \<Longrightarrow> length v = length (value_of c) \<Longrightarrow> cache_ok (set_value v c) \<and> value_of (set_value v c) = v"
  by (auto simp: cache_ok_def set_value_def value_of_def)

text \<open>A buffer whose first bytes are known.\<close>

definition starts :: "u1 list \<Rightarrow> u1 list \<Rightarrow> bool" where
  "starts s v \<longleftrightarrow> take (length s) v = s"

lemma put_starts:
  assumes "starts s v" "length s + length bs \<le> length v"
  obtains v' where "put (length s) bs v = Some v'" "starts (s @ bs) v'" "length v' = length v"
  using assms by (auto simp: put_def starts_def)

lemma starts_append: "starts (s @ t) v \<Longrightarrow> starts s v"
proof -
  assume "starts (s @ t) v"
  then have "take (length s) (take (length (s @ t)) v) = take (length s) (s @ t)" by (simp only: starts_def)
  then show ?thesis by (simp add: starts_def min_def)
qed

lemma starts_str: "starts (s @ [0]) v \<Longrightarrow> 0 \<notin> set s \<Longrightarrow> str_in v = Some s"
proof -
  assume "starts (s @ [0]) v" "0 \<notin> set s"
  then have "v = s @ 0 # drop (length s + 1) v" unfolding starts_def
    by (metis append.assoc append_Cons append_Nil append_take_drop_id length_append_singleton Suc_eq_plus1)
  with \<open>0 \<notin> set s\<close> show ?thesis
    unfolding str_in_def by (metis (mono_tags, lifting) in_set_conv_decomp takeWhile_eq_all_conv takeWhile_tail)
qed

lemma copy_descs_starts:
  "those (map (param_desc p l) is) = Some ds \<Longrightarrow> starts s v \<Longrightarrow> length s + length (concat ds) < length v \<Longrightarrow>
    \<exists>v'. copy_descs p l is (length s) v = Some (length s + length (concat ds), v') \<and> starts (s @ concat ds) v' \<and> length v' = length v"
proof (induction "is" arbitrary: ds s v)
  case (Cons i "is")
  then obtain d es where d: "param_desc p l i = Some d" "those (map (param_desc p l) is) = Some es" "ds = d # es"
    by (auto simp: those_Cons simp del: those.simps)
  have room: "length s + length (d @ [0]) \<le> length v" using Cons.prems(3) d(3) by simp
  obtain v' where v': "put (length s) (d @ [0]) v = Some v'" "starts (s @ d @ [0]) v'" "length v' = length v"
    by (rule put_starts [OF Cons.prems(2) room])
  then have "starts (s @ d) v'" using starts_append [of "s @ d" "[0]" v'] by simp
  from Cons.IH [OF d(2) this] Cons.prems(3) d v' show ?case by (simp add: add.assoc)
qed simp

lemma desc_lengths_sum:
  "those (map (param_desc p l) is) = Some ds \<Longrightarrow> desc_lengths p l is n = Some (n + of_nat (length (concat ds)))"
proof (induction "is" arbitrary: ds n)
  case (Cons i "is")
  then show ?case by (auto simp: those_Cons add.assoc simp del: those.simps)
qed simp

lemma method_descriptor:
  assumes types: "proto_types p = Some (ds, r)" and c: "cache_ok c" and fresh: "\<forall>n. length (fresh n) = n"
    and len: "length (concat ds) + length r + 3 < 2 ^ 32"
  obtains c' where "dexProtoGetMethodDescriptor fresh p c = Some c'" "cache_ok c'"
    "str_in (value_of c') = Some (0x28 # concat ds @ 0x29 # r)"
proof -
  obtain l n idx where t: "type_list p = Some (l, n)" "those (map (param_desc p l) [0..<unat n]) = Some ds"
    "returnTypeIdx p = Some idx" "type_desc p idx = Some r" by (rule proto_typesE [OF types])
  let ?n = "length (concat ds) + length r + 3"
  let ?c = "dexStringCacheAlloc fresh c (of_nat ?n)"
  have room: "?n \<le> length (value_of ?c)" and ok: "cache_ok ?c" using alloc_ok [OF c fresh len] by auto
  have lens: "desc_lengths p l [0..<unat n] 3 = Some (3 + of_nat (length (concat ds)))" by (rule desc_lengths_sum [OF t(2)])
  have eq: "(3 :: u4) + of_nat (length (concat ds)) + of_nat (length r) = of_nat ?n" by simp
  have "starts [] (value_of ?c)" by (simp add: starts_def)
  then obtain v1 where v1: "put 0 [0x28] (value_of ?c) = Some v1" "starts [0x28] v1" "length v1 = length (value_of ?c)"
    by (rule put_starts [where bs = "[0x28]"]) (use room in auto)
  obtain v2 where v2: "copy_descs p l [0..<unat n] 1 v1 = Some (1 + length (concat ds), v2)" "starts (0x28 # concat ds) v2"
    "length v2 = length v1"
    using copy_descs_starts [OF t(2) v1(2)] room v1(3) by auto
  obtain v3 where v3: "put (1 + length (concat ds)) [0x29] v2 = Some v3" "starts (0x28 # concat ds @ [0x29]) v3" "length v3 = length v2"
    by (rule put_starts [OF v2(2), where bs = "[0x29]"]) (use room v1(3) v2(3) in auto)
  obtain v4 where v4: "put (1 + length (concat ds) + 1) (r @ [0]) v3 = Some v4"
    "starts ((0x28 # concat ds @ 0x29 # r) @ [0]) v4" "length v4 = length v3"
    by (rule put_starts [OF v3(2), where bs = "r @ [0]"]) (use room v1(3) v2(3) v3(3) in auto)
  have "0 \<notin> set (0x28 # concat ds @ 0x29 # r)" using params_no_NUL [OF t(2)] type_desc_no_NUL [OF t(4)] by auto
  with v4(2) have "str_in v4 = Some (0x28 # concat ds @ 0x29 # r)" by (rule starts_str)
  moreover have "dexProtoGetMethodDescriptor fresh p c = Some (set_value v4 ?c)"
    using t lens v1(1) v2(1) v3(1) v4(1) unfolding dexProtoGetMethodDescriptor_def by (simp add: eq)
  ultimately show thesis
    using set_value_ok [OF ok, of v4] v1(3) v2(3) v3(3) v4(3) that by simp
qed

section \<open>Iterating\<close>

lemma iter_descs_from:
  assumes "type_list p = Some (l, n)" "\<forall>idx. dexStringByTypeIdx (dexFile p) idx \<noteq> Some 0"
    "those (map (param_desc p l) [k..<m]) = Some ds" "k \<le> m"
  shows "iter_descs \<lparr>it_proto = p, parameters = l, parameterCount = int m, cursor = int k\<rparr> = Some ds"
  using assms(3,4)
proof (induction ds arbitrary: k)
  case Nil
  then have "k = m" using those_length [OF Nil(1)] by simp
  then show ?case
    by (subst iter_descs.simps) (simp add: dexParameterIteratorNextDescriptor_def dexParameterIteratorNextIndex_def)
next
  case (Cons d ds)
  have k: "k < m" using those_length [OF Cons.prems(1)] by simp
  then have "[k..<m] = k # [Suc k..<m]" by (rule upt_conv_Cons)
  with Cons.prems have d: "param_desc p l k = Some d" "those (map (param_desc p l) [Suc k..<m]) = Some ds"
    by (auto simp: those_Cons simp del: those.simps)
  then obtain idx ptr where i: "dexTypeListGetIdx (dexFile p) l (of_nat k) = Some idx" "dexStringByTypeIdx (dexFile p) idx = Some ptr"
    "proto_str p ptr = Some d" by (auto simp: param_desc_def type_desc_def split: Option.bind_splits)
  have "iter_descs \<lparr>it_proto = p, parameters = l, parameterCount = int m, cursor = int (Suc k)\<rparr> = Some ds"
    using Cons.IH [OF d(2)] k by simp
  moreover have "idx \<noteq> kDexNoIndex" by (rule type_idx_not_kDexNoIndex [OF i(1)])
  moreover have "ptr \<noteq> 0" using i(2) assms(2) by auto
  ultimately show ?case
    using i k by (subst iter_descs.simps)
      (simp add: dexParameterIteratorNextDescriptor_def dexParameterIteratorNextIndex_def add.commute)
qed

text \<open>The number of parameters is an \<open>int\<close> and no string lies at the null address.\<close>

definition proto_ok :: "dex_proto \<Rightarrow> bool" where
  "proto_ok p \<longleftrightarrow> (case type_list p of None \<Rightarrow> False | Some (l, n) \<Rightarrow> unat n < 2 ^ 31) \<and>
     (\<forall>idx. dexStringByTypeIdx (dexFile p) idx \<noteq> Some 0)"

lemma sint_small: "unat (n :: u4) < 2 ^ 31 \<Longrightarrow> sint n = int (unat n)"
proof -
  assume "unat n < 2 ^ 31"
  then have "nat (uint n) < 2 ^ 31" by (simp only: unat_eq_nat_uint)
  then have "uint n < 2 ^ 31" by (subst (asm) nat_less_iff) (simp_all add: unsigned_greater_eq)
  moreover have "- (2 ^ 31) \<le> uint n" by (rule order_trans [OF _ unsigned_greater_eq]) simp
  ultimately have "sint n = uint n" by (simp add: sint_uint signed_take_bit_int_eq_self)
  then show ?thesis by simp
qed

lemma iter_all:
  assumes "proto_ok p" "proto_types p = Some (ds, r)"
  obtains it where "dexParameterIteratorInit p = Some it" "iter_descs it = Some ds"
proof -
  obtain l n where t: "type_list p = Some (l, n)" "those (map (param_desc p l) [0..<unat n]) = Some ds"
    by (rule proto_typesE [OF assms(2)])
  with assms(1) have "sint n = int (unat n)" by (intro sint_small) (simp add: proto_ok_def)
  with iter_descs_from [OF t(1) _ t(2)] assms(1) t(1) that show thesis
    by (simp add: dexParameterIteratorInit_def proto_ok_def)
qed

section \<open>The order\<close>

text \<open>Lists of descriptors, the first one first; a list that ends earlier is less.\<close>

fun lex_cmp :: "u1 list list \<Rightarrow> u1 list list \<Rightarrow> int" where
  "lex_cmp [] [] = 0"
| "lex_cmp [] (e # es) = - 1"
| "lex_cmp (d # ds) [] = 1"
| "lex_cmp (d # ds) (e # es) = (if strcmp d e \<noteq> 0 then sgn (strcmp d e) else lex_cmp ds es)"

lemma uint_pos: "(c :: u1) \<noteq> 0 \<Longrightarrow> 0 < uint c"
  using unsigned_greater_eq [of c, where ?'a = int] by (metis order_le_less unsigned_eq_0_iff)

lemma strcmp_zero: "0 \<notin> set s \<Longrightarrow> 0 \<notin> set t \<Longrightarrow> strcmp s t = 0 \<longleftrightarrow> s = t"
  by (induction s t rule: strcmp.induct) (auto dest: uint_pos unsigned_word_eqI)

lemma strcmp_refl [simp]: "strcmp s s = 0"
  by (induction s) auto

lemma lex_cmp_refl [simp]: "lex_cmp ds ds = 0"
  by (induction ds) auto

lemma lex_cmp_zero: "\<forall>d \<in> set ds \<union> set es. 0 \<notin> set d \<Longrightarrow> lex_cmp ds es = 0 \<longleftrightarrow> ds = es"
  by (induction ds es rule: lex_cmp.induct) (auto simp: strcmp_zero sgn_if)

lemma strcmp_swap: "strcmp t s = - strcmp s t"
  by (induction s t rule: strcmp.induct) auto

lemma lex_cmp_swap: "lex_cmp es ds = - lex_cmp ds es"
proof (induction ds es rule: lex_cmp.induct)
  case (4 d ds e es)
  then show ?case using strcmp_swap [of e d] by (simp add: sgn_minus)
qed simp_all

text \<open>The loop over the common parameters and the comparison of the numbers.\<close>

lemma compare_params_lex:
  assumes "those (map (param_desc p1 l1) [k..<n1]) = Some ds" "those (map (param_desc p2 l2) [k..<n2]) = Some es"
    "k \<le> n1" "k \<le> n2"
  shows "\<exists>x. compare_params p1 l1 p2 l2 [k..<min n1 n2] = Some x \<and>
    lex_cmp ds es = (if x \<noteq> 0 then sgn x else if n1 < n2 then - 1 else if n1 > n2 then 1 else 0)"
  using assms
proof (induction ds es arbitrary: k rule: lex_cmp.induct)
  case (4 d ds e es)
  have k: "k < n1" "k < n2" using those_length [OF 4(2)] those_length [OF 4(3)] by auto
  have upt: "[k..<n] = k # [Suc k..<n]" if "k < n" for n using that by (rule upt_conv_Cons)
  have d: "param_desc p1 l1 k = Some d" "those (map (param_desc p1 l1) [Suc k..<n1]) = Some ds"
    "param_desc p2 l2 k = Some e" "those (map (param_desc p2 l2) [Suc k..<n2]) = Some es"
    using 4(2,3) k by (auto simp: upt those_Cons simp del: those.simps)
  show ?case
  proof (cases "strcmp d e = 0")
    case True
    with 4(1) [OF _ d(2,4)] k d show ?thesis by (simp add: upt)
  qed (use d k in \<open>simp add: upt\<close>)
qed (use those_length in \<open>fastforce+\<close>)

lemma protoCompare_lex:
  assumes "proto_types p1 = Some (ds1, r1)" "proto_types p2 = Some (ds2, r2)" "proto_ok p1" "proto_ok p2"
    and "same \<longrightarrow> p1 = p2" "getProtoId p1 = getProtoId p2 \<longrightarrow> dexFile p1 = dexFile p2"
  shows "\<exists>x. protoCompare same p1 p2 b = Some x \<and>
    sgn x = (if b then lex_cmp (r1 # ds1) (r2 # ds2) else lex_cmp ds1 ds2)"
proof -
  obtain l1 n1 i1 where t1: "type_list p1 = Some (l1, n1)" "those (map (param_desc p1 l1) [0..<unat n1]) = Some ds1"
    "returnTypeIdx p1 = Some i1" "type_desc p1 i1 = Some r1" by (rule proto_typesE [OF assms(1)])
  obtain l2 n2 i2 where t2: "type_list p2 = Some (l2, n2)" "those (map (param_desc p2 l2) [0..<unat n2]) = Some ds2"
    "returnTypeIdx p2 = Some i2" "type_desc p2 i2 = Some r2" by (rule proto_typesE [OF assms(2)])
  have n: "sint n1 = int (unat n1)" "sint n2 = int (unat n2)" 
    using assms(3,4) t1(1) t2(1) sint_small [of n1] sint_small [of n2] by (simp_all add: proto_ok_def)
  show ?thesis
  proof (cases "same \<or> getProtoId p1 = getProtoId p2")
    case True
    have "proto_types p1 = proto_types p2"
    proof (cases same)
      case False
      with True assms(6) have eq: "getProtoId p1 = getProtoId p2" "dexFile p1 = dexFile p2" by auto
      then have "type_list p1 = type_list p2" "returnTypeIdx p1 = returnTypeIdx p2" "type_desc p1 = type_desc p2"
        "param_desc p1 = param_desc p2"
        unfolding type_list_def returnTypeIdx_def type_desc_def param_desc_def proto_str_def fun_eq_iff eq by simp_all
      then show ?thesis by (simp add: proto_types_def)
    qed (use assms(5) in simp)
    then have "ds1 = ds2" "r1 = r2" using assms(1,2) by auto
    with True t1(1) t2(1) show ?thesis by (cases same) (auto simp: protoCompare_def)
  next
    case False
    obtain x where x: "compare_params p1 l1 p2 l2 [0..<min (unat n1) (unat n2)] = Some x"
      "lex_cmp ds1 ds2 = (if x \<noteq> 0 then sgn x else if unat n1 < unat n2 then - 1 else if unat n1 > unat n2 then 1 else 0)"
      using compare_params_lex [OF t1(2) t2(2)] by auto
    show ?thesis
      unfolding protoCompare_def using False t1 t2 x
      by (cases "unat n1" "unat n2" rule: linorder_cases; cases b; cases "strcmp r1 r2 = 0")
        (simp_all add: n Let_def min_def del: of_nat_unat)
  qed
qed

section \<open>The order and descriptors\<close>

text \<open>A descriptor of one parameter type.\<close>

definition one_type :: "u1 list \<Rightarrow> bool" where
  "one_type d \<longleftrightarrow> methodDescriptorNextType d = Some [] \<and> 0 \<notin> set d \<and> 0x29 \<notin> set d"

lemma after_char_append: "after_char c s = Some t \<Longrightarrow> after_char c (s @ u) = Some (t @ u)"
  by (induction s) (auto split: if_splits)

lemma next_type_append: "methodDescriptorNextType d = Some t \<Longrightarrow> methodDescriptorNextType (d @ u) = Some (t @ u)"
proof -
  assume d: "methodDescriptorNextType d = Some t"
  then obtain b s where b: "dropWhile (\<lambda>b. b = 0x5b) d = b # s" by (auto simp: methodDescriptorNextType_def split: list.splits)
  then have "b \<noteq> 0x5b" using hd_dropWhile [of "\<lambda>b. b = 0x5b" d] by auto
  then have "dropWhile (\<lambda>b. b = 0x5b) (d @ u) = b # s @ u"
    using b by (metis append_Cons dropWhile_append3 dropWhile_eq_Nil_conv dropWhile_append1 hd_in_set list.sel(1) list.simps(3) set_dropWhileD)
  with d b show ?thesis by (auto simp: methodDescriptorNextType_def after_char_append split: if_splits)
qed

lemma compare_chars_strcmp:
  "0 \<notin> set s \<Longrightarrow> 0 \<notin> set t \<Longrightarrow> compare_chars False s t = sgn (strcmp s t)"
proof (induction s t rule: strcmp.induct)
  case (4 a s b t)
  then show ?case by (auto simp: char_int_def sgn_if dest: unsigned_word_eqI)
qed (auto simp: char_int_def sgn_if dest: uint_pos)

lemma one_type_hd: "one_type f \<Longrightarrow> f \<noteq> [] \<and> hd f \<noteq> 0 \<and> hd f \<noteq> 0x29"
proof -
  assume f: "one_type f"
  then have "f \<noteq> []" by (auto simp: one_type_def methodDescriptorNextType_def)
  then have "hd f \<in> set f" by simp
  with f \<open>f \<noteq> []\<close> show ?thesis unfolding one_type_def by metis
qed

lemma compare_descriptor_lex:
  assumes "\<forall>d \<in> set ds. 0 \<notin> set d" "\<forall>e \<in> set es. one_type e"
    "e = 0 \<and> tail = [] \<or> e = 0x29 \<and> (\<exists>r. tail = 0x29 # r)"
  shows "compare_descriptor False e ds (concat es @ tail) = lex_cmp ds es"
  using assms(1,2)
proof (induction ds es rule: lex_cmp.induct)
  case 1
  with assms(3) show ?case by (subst compare_descriptor.simps) auto
next
  case (3 d ds)
  with assms(3) show ?case by (subst compare_descriptor.simps) auto
next
  case (2 f es)
  then have "f \<noteq> []" "hd f \<noteq> 0" "hd f \<noteq> 0x29" using one_type_hd [of f] by auto
  with assms(3) show ?case by (subst compare_descriptor.simps) (auto split: list.splits simp: append_eq_Cons_conv)
next
  case (4 d ds f es)
  have f: "methodDescriptorNextType f = Some []" "0 \<notin> set f" using 4(3) by (auto simp: one_type_def)
  obtain b f' where hd: "f = b # f'" "b \<noteq> 0" "b \<noteq> 0x29" using 4(3) one_type_hd [of f] by (cases f) auto
  have "compare_descriptor False e (d # ds) (f @ concat es @ tail) =
    (let result = compare_chars False d f in if result \<noteq> 0 then result else compare_descriptor False e ds (concat es @ tail))"
    using next_type_append [OF f(1), of "concat es @ tail"] assms(3) hd
    by (subst compare_descriptor.simps) (auto simp: Let_def)
  with 4 f(2) compare_chars_strcmp [of d f] show ?case by (auto simp: Let_def sgn_if)
qed

lemma after_paren: "\<forall>e \<in> set es. 0x29 \<notin> set e \<Longrightarrow> after_char 0x29 (concat es @ 0x29 # r) = Some r"
proof -
  have "0x29 \<notin> set s \<Longrightarrow> after_char 0x29 (s @ 0x29 # r) = Some r" for s by (induction s) auto
  then show "\<forall>e \<in> set es. 0x29 \<notin> set e \<Longrightarrow> ?thesis" by auto
qed

section \<open>Properties\<close>

text \<open>C33. \<open>dexProtoGetMethodDescriptor\<close> computes the length its text needs, allocates that, and writes the
  parameter descriptors in parentheses and the return type; it never writes outside of the buffer, whatever
  the cache held before.\<close>

theorem method_descriptor_text:
  assumes "proto_types p = Some (ds, r)" "cache_ok c" "\<forall>n. length (fresh n) = n" "length (concat ds) + length r + 3 < 2 ^ 32"
  shows "\<exists>c'. dexProtoGetMethodDescriptor fresh p c = Some c' \<and> cache_ok c' \<and>
    str_in (value_of c') = Some (0x28 # concat ds @ 0x29 # r)"
  by (rule method_descriptor [OF assms]) blast

text \<open>\<open>dexProtoCompare\<close> orders prototypes by the return type and then the parameters, a shorter parameter list
  first; it gives 0 exactly for equal types and the opposite sign for swapped arguments.
  \<open>dexProtoCompareParameters\<close> leaves out the return type.\<close>

theorem prototypes_in_order:
  assumes "proto_types p1 = Some (ds1, r1)" "proto_types p2 = Some (ds2, r2)" "proto_ok p1" "proto_ok p2"
    "same \<longrightarrow> p1 = p2" "getProtoId p1 = getProtoId p2 \<longrightarrow> dexFile p1 = dexFile p2"
  shows "\<exists>x y z. dexProtoCompare same p1 p2 = Some x \<and> dexProtoCompare same p2 p1 = Some y \<and>
    dexProtoCompareParameters same p1 p2 = Some z \<and>
    sgn x = lex_cmp (r1 # ds1) (r2 # ds2) \<and> sgn y = - sgn x \<and> sgn z = lex_cmp ds1 ds2 \<and>
    (x = 0 \<longleftrightarrow> r1 = r2 \<and> ds1 = ds2) \<and> (z = 0 \<longleftrightarrow> ds1 = ds2)"
proof -
  obtain x where x: "dexProtoCompare same p1 p2 = Some x" "sgn x = lex_cmp (r1 # ds1) (r2 # ds2)"
    using protoCompare_lex [OF assms, of True] by (auto simp: dexProtoCompare_def)
  obtain y where y: "dexProtoCompare same p2 p1 = Some y" "sgn y = lex_cmp (r2 # ds2) (r1 # ds1)"
    using protoCompare_lex [OF assms(2,1,4,3), of same True] assms(5,6) by (auto simp: dexProtoCompare_def)
  obtain z where z: "dexProtoCompareParameters same p1 p2 = Some z" "sgn z = lex_cmp ds1 ds2"
    using protoCompare_lex [OF assms, of False] by (auto simp: dexProtoCompareParameters_def)
  have nul: "0 \<notin> set r1 \<and> (\<forall>d \<in> set ds1. 0 \<notin> set d)" "0 \<notin> set r2 \<and> (\<forall>d \<in> set ds2. 0 \<notin> set d)"
    using assms(1,2) by (auto elim!: proto_typesE dest: type_desc_no_NUL params_no_NUL)
  have all: "\<forall>d \<in> set (r1 # ds1) \<union> set (r2 # ds2). 0 \<notin> set d" "\<forall>d \<in> set ds1 \<union> set ds2. 0 \<notin> set d" using nul by auto
  have "sgn x = 0 \<longleftrightarrow> r1 # ds1 = r2 # ds2" "sgn z = 0 \<longleftrightarrow> ds1 = ds2"
    unfolding x(2) z(2) by (rule lex_cmp_zero [OF all(1)], rule lex_cmp_zero [OF all(2)])
  then have "x = 0 \<longleftrightarrow> r1 # ds1 = r2 # ds2" "z = 0 \<longleftrightarrow> ds1 = ds2" by (auto simp: sgn_0_0)
  with x y z lex_cmp_swap [of "r2 # ds2" "r1 # ds1"] show ?thesis by auto
qed

text \<open>C32. Comparing a prototype with the text of another one's descriptor gives the same order as comparing the
  prototypes, where \<open>char\<close> is unsigned.\<close>

theorem compare_to_descriptor_agrees:
  assumes "proto_types p1 = Some (ds1, r1)" "proto_types p2 = Some (ds2, r2)" "proto_ok p1" "proto_ok p2"
    "same \<longrightarrow> p1 = p2" "getProtoId p1 = getProtoId p2 \<longrightarrow> dexFile p1 = dexFile p2" "\<forall>d \<in> set ds2. one_type d"
  shows "\<exists>x y. dexProtoCompare same p1 p2 = Some x \<and>
    dexProtoCompareToDescriptor False p1 (0x28 # concat ds2 @ 0x29 # r2) = Some y \<and> sgn x = sgn y \<and>
    dexProtoCompareToParameterDescriptors False p1 (concat ds2) = Some (lex_cmp ds1 ds2)"
proof -
  obtain x where x: "dexProtoCompare same p1 p2 = Some x" "sgn x = lex_cmp (r1 # ds1) (r2 # ds2)"
    using protoCompare_lex [OF assms(1-6), of True] by (auto simp: dexProtoCompare_def)
  have nul: "\<forall>d \<in> set ds1. 0 \<notin> set d" using assms(1) by (auto elim!: proto_typesE dest: params_no_NUL)
  obtain it where it: "dexParameterIteratorInit p1 = Some it" "iter_descs it = Some ds1" by (rule iter_all [OF assms(3,1)])
  have ret: "after_char 0x29 (0x28 # concat ds2 @ 0x29 # r2) = Some r2" using after_paren [of ds2 r2] assms(7) by (simp add: one_type_def)
  obtain idx ptr where "returnTypeIdx p1 = Some idx" "dexStringByTypeIdx (dexFile p1) idx = Some ptr" "proto_str p1 ptr = Some r1"
    using assms(1) by (auto elim!: proto_typesE simp: type_desc_def split: Option.bind_splits)
  then have own: "dexProtoGetReturnType p1 = Some ptr" "proto_str p1 ptr = Some r1" by (auto simp: dexProtoGetReturnType_def)
  have "compare_descriptor False 0x29 ds1 (concat ds2 @ 0x29 # r2) = lex_cmp ds1 ds2"
    "compare_descriptor False 0 ds1 (concat ds2) = lex_cmp ds1 ds2"
    using compare_descriptor_lex [OF nul assms(7), of "0x29" "0x29 # r2"] compare_descriptor_lex [OF nul assms(7), of 0 "[]"] by auto
  moreover have "sgn (lex_cmp ds1 ds2) = lex_cmp ds1 ds2" by (induction ds1 ds2 rule: lex_cmp.induct) auto
  ultimately show ?thesis
    using x own it ret by (auto simp: dexProtoCompareToDescriptor_def dexProtoCompareToParameterDescriptors_def
        protoCompareToParameterDescriptors_def methodDescriptorReturnType_def)
qed

text \<open>A dex file with four prototypes, \<open>()V\<close>, \<open>(IJ)V\<close>, \<open>(LA;)V\<close> and \<open>(Lx;)V\<close> with a letter that is not ASCII.\<close>

definition four_protos :: dex_file where
  "four_protos = \<lparr>mem = \<lparr>img_base = 0x1000, img_bytes =
       concat (map le_bytes [112, 115, 118, 121, 126, 0, 1, 2, 3, 4, 0, 0, 0, 0, 0, 88, 0, 0, 96, 0, 0, 104]) @
       [2, 0, 0, 0, 1, 0, 2, 0, 1, 0, 0, 0, 3, 0, 0, 0, 1, 0, 0, 0, 4, 0, 0, 0,
        1, 86, 0, 1, 73, 0, 1, 74, 0, 3, 76, 65, 59, 0, 3, 76, 0xc3, 59, 0]\<rparr>,
     pOptHeader = 0, pHeader = 0, pStringIds = 0x1000, pTypeIds = 0x1014, pFieldIds = 0, pMethodIds = 0, pProtoIds = 0x1028,
     pClassDefs = 0, pLinkData = 0, pClassLookup = 0, pRegisterMapPool = 0, baseAddr = 0x1000\<rparr>"

definition proto_no :: "u4 \<Rightarrow> dex_proto" where
  "proto_no i = \<lparr>dexFile = four_protos, protoIdx = i\<rparr>"

lemma four_protos_types:
  "proto_types (proto_no 0) = Some ([], [86])" "proto_types (proto_no 1) = Some ([[73], [74]], [86])"
  "proto_types (proto_no 2) = Some ([[76, 65, 59]], [86])" "proto_types (proto_no 3) = Some ([[76, 0xc3, 59]], [86])"
  "type_list (proto_no 0) = Some (0, 0)" "type_list (proto_no 1) = Some (0x1058, 2)" "type_list (proto_no 2) = Some (0x1060, 1)"
  "one_type [73]" "one_type [74]"
  by code_simp+

lemma four_protos_ok: "proto_ok (proto_no 0)" "proto_ok (proto_no 1)" "proto_ok (proto_no 2)"
proof -
  have len: "length (img_bytes (mem four_protos)) = 131" "img_base (mem four_protos) = 0x1000" by (simp_all add: four_protos_def)
  then have fit: "fits (mem four_protos)" by (simp add: fits_def)
  have "dexStringByTypeIdx four_protos idx \<noteq> Some 0" for idx
    using string_inside [OF fit, where p = 0] by (auto simp: dexStringByTypeIdx_def len split: Option.bind_splits)
  then show "proto_ok (proto_no 0)" "proto_ok (proto_no 1)" "proto_ok (proto_no 2)"
    by (auto simp: proto_ok_def four_protos_types) (simp_all add: proto_no_def)
qed

definition some_cache :: string_cache where
  "some_cache = \<lparr>allocatedSize = 0, cache_block = [], cache_buffer = 0x78 # 0 # replicate 118 0\<rparr>"

lemma some_cache_ok: "cache_ok some_cache"
  by (simp add: cache_ok_def some_cache_def)

theorem method_descriptor_text_witness:
  "\<exists>c'. dexProtoGetMethodDescriptor (\<lambda>n. replicate n 0xaa) (proto_no 1) some_cache = Some c' \<and>
     str_in (value_of c') = Some [0x28, 73, 74, 0x29, 86]"
  using method_descriptor_text [of "proto_no 1" "[[73], [74]]" "[86]" some_cache "\<lambda>n. replicate n 0xaa"] four_protos_types some_cache_ok
  by auto

theorem prototypes_in_order_witness:
  "\<exists>x. dexProtoCompare False (proto_no 0) (proto_no 1) = Some x \<and> x < 0"
proof -
  have "getProtoId (proto_no 0) \<noteq> getProtoId (proto_no 1)" by (simp add: getProtoId_def dexGetProtoId_def proto_no_def)
  with prototypes_in_order [OF four_protos_types(1,2) four_protos_ok(1,2), of False] show ?thesis by (auto simp: sgn_if split: if_splits)
qed

theorem compare_to_descriptor_agrees_witness:
  "\<exists>x y. dexProtoCompare False (proto_no 2) (proto_no 1) = Some x \<and>
     dexProtoCompareToDescriptor False (proto_no 2) [0x28, 73, 74, 0x29, 86] = Some y \<and> sgn x = sgn y"
proof -
  have "getProtoId (proto_no 2) \<noteq> getProtoId (proto_no 1)" by (simp add: getProtoId_def dexGetProtoId_def proto_no_def)
  with compare_to_descriptor_agrees [OF four_protos_types(3,2) four_protos_ok(3,2), of False] four_protos_types(8,9) show ?thesis
    by auto
qed

text \<open>Where \<open>char\<close> is signed, as on x86, the two disagree: a letter outside of ASCII is greater than an ASCII
  letter for \<open>strcmp\<close>, and less for \<open>dexProtoCompareToDescriptor\<close>.\<close>

theorem signed_char_reverses_order:
  "dexProtoCompare False (proto_no 3) (proto_no 2) = Some 130 \<and>
   dexProtoCompareToDescriptor True (proto_no 3) [0x28, 76, 65, 59, 0x29, 86] = Some (- 1)"
  by code_simp

text \<open>The parameter descriptors of a prototype without parameters are the empty string, but nothing is
  written: the caller gets the string that the cache held before.\<close>

theorem no_parameters_returns_stale_string:
  assumes "proto_types p = Some ([], r)" "proto_ok p"
  shows "dexProtoGetParameterDescriptors fresh p c = Some c"
proof -
  obtain it where "dexParameterIteratorInit p = Some it" "iter_descs it = Some []" by (rule iter_all [OF assms(2,1)])
  moreover have "dexStringCacheAlloc fresh c 1 = c"
  proof (cases "allocatedSize c = 0")
    case False
    then have "unat (allocatedSize c) \<noteq> 0" by (simp add: unat_eq_zero)
    then have "1 \<le> allocatedSize c" by (simp add: word_le_nat_alt)
    then show ?thesis by (simp add: dexStringCacheAlloc_def)
  qed (simp add: dexStringCacheAlloc_def)
  moreover have "set_value (value_of c) c = c" by (simp add: set_value_def value_of_def)
  ultimately show ?thesis by (simp add: dexProtoGetParameterDescriptors_def)
qed

theorem no_parameters_returns_stale_string_witness:
  "\<exists>c'. dexProtoGetParameterDescriptors (\<lambda>n. replicate n 0xaa) (proto_no 0) some_cache = Some c' \<and> str_in (value_of c') = Some [0x78]"
  using no_parameters_returns_stale_string [OF four_protos_types(1) four_protos_ok(1), of "\<lambda>n. replicate n 0xaa" some_cache]
  by (auto simp: some_cache_def str_in_def value_of_def)

end
