(* ===== verification/DexDebugInfo.thy ===== *)
theory DexDebugInfo
  imports DexProto
begin

text \<open>
  \<^verbatim>\<open>jni/dalvik/libdex/DexDebugInfo.cpp\<close>: the debug information of a method is a byte code that moves an address
  and a line number and says which local variable a register holds. Its interpreter calls back for every
  position and for every range of addresses in which a register held a variable.

  The stream is the list of the bytes from the pointer on. The registers are the list \<open>localInReg\<close>; \<open>None\<close> is an
  access outside of it or of the dex file. The callbacks are parameters that change a context; a position
  callback also says whether to stop.
\<close>

unbundle bit_operations_syntax

section \<open>Signatures\<close>

text \<open>The letter of the next argument and what follows it. The search for \<open>;\<close> does not stop at the end of the
  string.\<close>

definition decodeSignature :: "u1 list \<Rightarrow> (u1 \<times> u1 list) option" where
  "decodeSignature pSig =
     do { let sig = (case pSig of b # s \<Rightarrow> if b = 0x28 then s else pSig | [] \<Rightarrow> []);
       case sig of
         [] \<Rightarrow> None
       | b # s \<Rightarrow>
           if b = 0x4c then map_option (\<lambda>r. (0x4c, r)) (after_char 0x3b s)
           else if b = 0x5b then
             (case dropWhile (\<lambda>c. c = 0x5b) s of
                [] \<Rightarrow> None
              | c # t \<Rightarrow> if c = 0x4c then map_option (\<lambda>r. (0x5b, r)) (after_char 0x3b t) else Some (0x5b, t))
           else if b = 0 then Some (0, pSig)
           else Some (b, s) }"

definition typeLength :: "u1 list \<Rightarrow> nat option" where
  "typeLength type = map_option (\<lambda>(_, rest). length type - length rest) (decodeSignature type)"

section \<open>State\<close>

text \<open>A C string: a pointer, of which 0 is \<open>NULL\<close>, or a literal of the code.\<close>

datatype str_ptr = Ptr u4 | Literal string

record local_info =
  li_name :: str_ptr
  li_descriptor :: str_ptr
  li_signature :: str_ptr
  li_startAddress :: u2
  li_live :: bool

definition zero_local :: local_info where
  "zero_local = \<lparr>li_name = Ptr 0, li_descriptor = Ptr 0, li_signature = Ptr 0, li_startAddress = 0, li_live = False\<rparr>"

record code_item =
  registersSize :: u2
  insSize :: u2
  debugInfoOff :: u4
  insnsSize :: u4

type_synonym 'c pos_cb = "'c \<Rightarrow> u4 \<Rightarrow> u4 \<Rightarrow> int \<times> 'c"
type_synonym 'c local_cb = "'c \<Rightarrow> u2 \<Rightarrow> u4 \<Rightarrow> u4 \<Rightarrow> str_ptr \<Rightarrow> str_ptr \<Rightarrow> str_ptr \<Rightarrow> 'c"

record 'c debug_args =
  da_file :: dex_file
  da_code :: code_item
  da_class :: str_ptr
  da_protoIdx :: u4
  da_accessFlags :: u4
  da_posCb :: "'c pos_cb option"
  da_localCb :: "'c local_cb option"

record 'c debug_state =
  ds_cnxt :: 'c
  ds_locals :: "local_info list"
  ds_address :: u4
  ds_line :: u4
  ds_stream :: "u1 list"

text \<open>How the interpreter returns: at the end of the stream, after \<open>invalidStream\<close>, or because a callback asked it to.\<close>

datatype outcome = Ended | Invalid | Stopped

datatype 'c progress = More "'c debug_state" | Exit outcome "'c debug_state"

section \<open>Interpreter\<close>

definition readStringIdx :: "dex_file \<Rightarrow> str_ptr reader" where
  "readStringIdx f s =
     do { (stringIdx, s) \<leftarrow> readUnsignedLeb128 s;
       if stringIdx = 0 then Some (Ptr 0, s)
       else map_option (\<lambda>p. (Ptr p, s)) (dexStringById f (stringIdx - 1)) }"

definition readTypeIdx :: "dex_file \<Rightarrow> str_ptr reader" where
  "readTypeIdx f s =
     do { (typeIdx, s) \<leftarrow> readUnsignedLeb128 s;
       if typeIdx = 0 then Some (Ptr 0, s)
       else map_option (\<lambda>p. (Ptr p, s)) (dexStringByTypeIdx f (typeIdx - 1)) }"

text \<open>Reading and writing the entry of a register.\<close>

definition local_at :: "local_info list \<Rightarrow> nat \<Rightarrow> local_info option" where
  "local_at ls reg = (if reg < length ls then Some (ls ! reg) else None)"

definition set_local :: "nat \<Rightarrow> local_info \<Rightarrow> local_info list \<Rightarrow> local_info list option" where
  "set_local reg l ls = (if reg < length ls then Some (ls[reg := l]) else None)"

definition emitLocalCbIfLive :: "'c local_cb option \<Rightarrow> 'c \<Rightarrow> nat \<Rightarrow> u4 \<Rightarrow> local_info list \<Rightarrow> 'c option" where
  "emitLocalCbIfLive localCb cnxt reg endAddress ls =
     (case localCb of
        None \<Rightarrow> Some cnxt
      | Some cb \<Rightarrow>
          do { l \<leftarrow> local_at ls reg;
            if li_live l
            then Some (cb cnxt (of_nat reg) (ucast (li_startAddress l)) endAddress (li_name l) (li_descriptor l)
              (if li_signature l = Ptr 0 then Literal [] else li_signature l))
            else Some cnxt })"

text \<open>The receiver, the first argument of a method that is not static. Its \<open>signature\<close> is not written.\<close>

definition start_this :: "'c debug_args \<Rightarrow> local_info list \<Rightarrow> (u2 \<times> local_info list) option" where
  "start_this a ls =
     (let argReg = registersSize (da_code a) - insSize (da_code a) in
      if da_accessFlags a AND 8 = 0 then
        do { l \<leftarrow> local_at ls (unat argReg);
          ls \<leftarrow> set_local (unat argReg)
            (l\<lparr>li_name := Literal ''this'', li_descriptor := da_class a, li_startAddress := 0, li_live := True\<rparr>) ls;
          Some (argReg + 1, ls) }
      else Some (argReg, ls))"

text \<open>The parameters; \<open>False\<close> when the stream is invalid.\<close>

fun start_params :: "'c debug_args \<Rightarrow> nat \<Rightarrow> param_iterator \<Rightarrow> u2 \<Rightarrow> local_info list \<Rightarrow> u1 list \<Rightarrow>
    (bool \<times> local_info list \<times> u1 list) option" where
  "start_params a 0 it argReg ls s = Some (True, ls, s)"
| "start_params a (Suc n) it argReg ls s =
     do { (descriptor, it) \<leftarrow> dexParameterIteratorNextDescriptor it;
       if argReg \<ge> registersSize (da_code a) \<or> descriptor = 0 then Some (False, ls, s)
       else
         do { (name, s) \<leftarrow> readStringIdx (da_file a) s;
           c \<leftarrow> (case mem_at (mem (da_file a)) descriptor of [] \<Rightarrow> None | c # _ \<Rightarrow> Some c);
           let argReg' = (if c = 0x44 \<or> c = 0x4a then argReg + 2 else argReg + 1);
           ls \<leftarrow> if name \<noteq> Ptr 0
             then set_local (unat argReg) \<lparr>li_name = name, li_descriptor = Ptr descriptor, li_signature = Ptr 0,
               li_startAddress = 0, li_live = True\<rparr> ls
             else Some ls;
           start_params a n it argReg' ls s } }"

abbreviation "DBG_END_SEQUENCE \<equiv> 0x00 :: u1"
abbreviation "DBG_ADVANCE_PC \<equiv> 0x01 :: u1"
abbreviation "DBG_ADVANCE_LINE \<equiv> 0x02 :: u1"
abbreviation "DBG_START_LOCAL \<equiv> 0x03 :: u1"
abbreviation "DBG_START_LOCAL_EXTENDED \<equiv> 0x04 :: u1"
abbreviation "DBG_END_LOCAL \<equiv> 0x05 :: u1"
abbreviation "DBG_RESTART_LOCAL \<equiv> 0x06 :: u1"
abbreviation "DBG_SET_PROLOGUE_END \<equiv> 0x07 :: u1"
abbreviation "DBG_SET_EPILOGUE_BEGIN \<equiv> 0x08 :: u1"
abbreviation "DBG_SET_FILE \<equiv> 0x09 :: u1"
abbreviation "DBG_FIRST_SPECIAL \<equiv> 0x0a :: u1"

text \<open>The operations on locals, after the opcode. The register number keeps its low 16 bits.\<close>

definition start_local :: "'c debug_args \<Rightarrow> bool \<Rightarrow> 'c debug_state \<Rightarrow> 'c progress option" where
  "start_local a extended st =
     do { (w, s) \<leftarrow> readUnsignedLeb128 (ds_stream st);
       let reg = (ucast w :: u2);
       if reg > registersSize (da_code a) then Some (Exit Invalid (st\<lparr>ds_stream := s\<rparr>))
       else
         do { c \<leftarrow> emitLocalCbIfLive (da_localCb a) (ds_cnxt st) (unat reg) (ds_address st) (ds_locals st);
           (name, s) \<leftarrow> readStringIdx (da_file a) s;
           (descriptor, s) \<leftarrow> readTypeIdx (da_file a) s;
           (signature, s) \<leftarrow> if extended then readStringIdx (da_file a) s else Some (Ptr 0, s);
           ls \<leftarrow> set_local (unat reg) \<lparr>li_name = name, li_descriptor = descriptor, li_signature = signature,
             li_startAddress = ucast (ds_address st), li_live = True\<rparr> (ds_locals st);
           Some (More (st\<lparr>ds_cnxt := c, ds_locals := ls, ds_stream := s\<rparr>)) } }"

definition end_local :: "'c debug_args \<Rightarrow> 'c debug_state \<Rightarrow> 'c progress option" where
  "end_local a st =
     do { (w, s) \<leftarrow> readUnsignedLeb128 (ds_stream st);
       let reg = (ucast w :: u2);
       if reg > registersSize (da_code a) then Some (Exit Invalid (st\<lparr>ds_stream := s\<rparr>))
       else
         do { c \<leftarrow> emitLocalCbIfLive (da_localCb a) (ds_cnxt st) (unat reg) (ds_address st) (ds_locals st);
           l \<leftarrow> local_at (ds_locals st) (unat reg);
           ls \<leftarrow> set_local (unat reg) (l\<lparr>li_live := False\<rparr>) (ds_locals st);
           Some (More (st\<lparr>ds_cnxt := c, ds_locals := ls, ds_stream := s\<rparr>)) } }"

definition restart_local :: "'c debug_args \<Rightarrow> 'c debug_state \<Rightarrow> 'c progress option" where
  "restart_local a st =
     do { (w, s) \<leftarrow> readUnsignedLeb128 (ds_stream st);
       let reg = (ucast w :: u2);
       if reg > registersSize (da_code a) then Some (Exit Invalid (st\<lparr>ds_stream := s\<rparr>))
       else
         do { l \<leftarrow> local_at (ds_locals st) (unat reg);
           if li_name l = Ptr 0 \<or> li_descriptor l = Ptr 0 then Some (Exit Invalid (st\<lparr>ds_stream := s\<rparr>))
           else if \<not> li_live l
           then do { ls \<leftarrow> set_local (unat reg) (l\<lparr>li_startAddress := ucast (ds_address st), li_live := True\<rparr>) (ds_locals st);
             Some (More (st\<lparr>ds_locals := ls, ds_stream := s\<rparr>)) }
           else Some (More (st\<lparr>ds_stream := s\<rparr>)) } }"

text \<open>A special opcode moves both the address and the line, and is a position.\<close>

definition special :: "'c debug_args \<Rightarrow> u1 \<Rightarrow> 'c debug_state \<Rightarrow> 'c progress option" where
  "special a opcode st =
     (let adjopcode = uint opcode - 0x0a;
          address = ds_address st + word_of_int (adjopcode sdiv 15);
          line = ds_line st + word_of_int (- 4 + adjopcode smod 15);
          st = st\<lparr>ds_address := address, ds_line := line\<rparr>
      in case da_posCb a of
           None \<Rightarrow> Some (More st)
         | Some cb \<Rightarrow>
             let (done', c) = cb (ds_cnxt st) address line; st = st\<lparr>ds_cnxt := c\<rparr>
             in if done' \<noteq> 0 then Some (Exit Stopped st) else Some (More st))"

text \<open>One turn of the loop.\<close>

definition debug_step :: "'c debug_args \<Rightarrow> 'c debug_state \<Rightarrow> 'c progress option" where
  "debug_step a st =
     (case ds_stream st of
        [] \<Rightarrow> None
      | opcode # s \<Rightarrow>
          let st = st\<lparr>ds_stream := s\<rparr> in
          if opcode = DBG_END_SEQUENCE then Some (Exit Ended st)
          else if opcode = DBG_ADVANCE_PC then
            do { (w, s) \<leftarrow> readUnsignedLeb128 s; Some (More (st\<lparr>ds_address := ds_address st + w, ds_stream := s\<rparr>)) }
          else if opcode = DBG_ADVANCE_LINE then
            do { (w, s) \<leftarrow> readSignedLeb128 s; Some (More (st\<lparr>ds_line := ds_line st + w, ds_stream := s\<rparr>)) }
          else if opcode = DBG_START_LOCAL \<or> opcode = DBG_START_LOCAL_EXTENDED
          then start_local a (opcode = DBG_START_LOCAL_EXTENDED) st
          else if opcode = DBG_END_LOCAL then end_local a st
          else if opcode = DBG_RESTART_LOCAL then restart_local a st
          else if opcode = DBG_SET_PROLOGUE_END \<or> opcode = DBG_SET_EPILOGUE_BEGIN \<or> opcode = DBG_SET_FILE then Some (More st)
          else special a opcode st)"

lemma readUnsigned_less: "readUnsignedLeb128 s = Some (w, t) \<Longrightarrow> length t < length s"
  using readUnsigned_shrinks by force

lemma readSigned_less: "readSignedLeb128 s = Some (w, t) \<Longrightarrow> length t < length s"
  by (auto simp: readSignedLeb128_def Let_def elim!: next_byte.elims split: Option.bind_splits if_splits)

lemma readStringIdx_less: "readStringIdx f s = Some (p, t) \<Longrightarrow> length t < length s"
  by (auto simp: readStringIdx_def dest!: readUnsigned_less split: Option.bind_splits if_splits)

lemma readTypeIdx_less: "readTypeIdx f s = Some (p, t) \<Longrightarrow> length t < length s"
  by (auto simp: readTypeIdx_def dest!: readUnsigned_less split: Option.bind_splits if_splits)

lemmas readers_less = readUnsigned_less readSigned_less readStringIdx_less readTypeIdx_less

lemma start_local_less: "start_local a x st = Some (More st') \<Longrightarrow> length (ds_stream st') < length (ds_stream st)"
  by (auto simp: start_local_def Let_def dest!: readers_less split: Option.bind_splits if_splits)

lemma end_local_less: "end_local a st = Some (More st') \<Longrightarrow> length (ds_stream st') < length (ds_stream st)"
  by (auto simp: end_local_def Let_def dest!: readers_less split: Option.bind_splits if_splits)

lemma restart_local_less: "restart_local a st = Some (More st') \<Longrightarrow> length (ds_stream st') < length (ds_stream st)"
  by (auto simp: restart_local_def Let_def dest!: readers_less split: Option.bind_splits if_splits)

lemma special_stream: "special a b st = Some (More st') \<Longrightarrow> ds_stream st' = ds_stream st"
  by (auto simp: special_def Let_def split: option.splits if_splits prod.splits)

lemma debug_step_less:
  assumes "debug_step a st = Some (More st')"
  shows "length (ds_stream st') < length (ds_stream st)"
proof (cases "ds_stream st")
  case (Cons b s)
  let ?st = "st\<lparr>ds_stream := s\<rparr>"
  show ?thesis
    using assms Cons start_local_less [of a _ ?st st'] end_local_less [of a ?st st'] restart_local_less [of a ?st st']
      special_stream [of a b ?st st']
    by (fastforce simp: debug_step_def Let_def dest!: readers_less split: Option.bind_splits if_splits)
qed (use assms in \<open>simp add: debug_step_def\<close>)

function debug_loop :: "'c debug_args \<Rightarrow> 'c debug_state \<Rightarrow> (outcome \<times> 'c debug_state) option" where
  "debug_loop a st =
     (case debug_step a st of
        None \<Rightarrow> None
      | Some (Exit r st') \<Rightarrow> Some (r, st')
      | Some (More st') \<Rightarrow> debug_loop a st')"
  by pat_completeness auto

termination
  by (relation "measure (\<lambda>(a, st). length (ds_stream st))") (auto simp: debug_step_less)

declare debug_loop.simps [simp del]

definition dexDecodeDebugInfo0 :: "'c debug_args \<Rightarrow> 'c \<Rightarrow> u1 list \<Rightarrow> local_info list \<Rightarrow> (outcome \<times> 'c debug_state) option" where
  "dexDecodeDebugInfo0 a cnxt s ls =
     do { (line, s) \<leftarrow> readUnsignedLeb128 s;
       (parametersSize, s) \<leftarrow> readUnsignedLeb128 s;
       (argReg, ls) \<leftarrow> start_this a ls;
       it \<leftarrow> dexParameterIteratorInit \<lparr>dexFile = da_file a, protoIdx = da_protoIdx a\<rparr>;
       (ok, ls, s) \<leftarrow> start_params a (unat parametersSize) it argReg ls s;
       let st = \<lparr>ds_cnxt = cnxt, ds_locals = ls, ds_address = 0, ds_line = line, ds_stream = s\<rparr>;
       if ok then debug_loop a st else Some (Invalid, st) }"

definition dexGetDebugInfoStream :: "dex_file \<Rightarrow> code_item \<Rightarrow> u4" where
  "dexGetDebugInfoStream f c = (if debugInfoOff c = 0 then 0 else baseAddr f + debugInfoOff c)"

text \<open>What is live at the end of the method.\<close>

fun emit_all :: "'c local_cb option \<Rightarrow> u4 \<Rightarrow> local_info list \<Rightarrow> nat list \<Rightarrow> 'c \<Rightarrow> 'c option" where
  "emit_all cb endAddress ls [] cnxt = Some cnxt"
| "emit_all cb endAddress ls (reg # regs) cnxt =
     do { cnxt \<leftarrow> emitLocalCbIfLive cb cnxt reg endAddress ls; emit_all cb endAddress ls regs cnxt }"

definition dexDecodeDebugInfo :: "'c debug_args \<Rightarrow> 'c \<Rightarrow> 'c option" where
  "dexDecodeDebugInfo a cnxt =
     (let stream = dexGetDebugInfoStream (da_file a) (da_code a);
          n = unat (registersSize (da_code a));
          ls = replicate n zero_local
      in do {
        (cnxt, ls) \<leftarrow>
          if stream \<noteq> 0
          then map_option (\<lambda>(_, st). (ds_cnxt st, ds_locals st)) (dexDecodeDebugInfo0 a cnxt (mem_at (mem (da_file a)) stream) ls)
          else Some (cnxt, ls);
        emit_all (da_localCb a) (insnsSize (da_code a)) ls [0..<n] cnxt })"

section \<open>What a stream says\<close>

text \<open>The operations, with the numbers as they are written: indices have one added. \<open>DBG_SET_FILE\<close>, which has an operand
  that the interpreter does not read, is treated below.\<close>

datatype dbg_op =
    Advance_Pc u4
  | Advance_Line nat u4
  | Start_Local u4 u4 u4
  | Start_Local_Extended u4 u4 u4 u4
  | End_Local u4
  | Restart_Local u4
  | Set_Prologue_End
  | Set_Epilogue_Begin
  | Special u1

fun op_bytes :: "dbg_op \<Rightarrow> u1 list" where
  "op_bytes (Advance_Pc w) = DBG_ADVANCE_PC # writeUnsignedLeb128 w"
| "op_bytes (Advance_Line n w) = DBG_ADVANCE_LINE # leb_bytes n w"
| "op_bytes (Start_Local r i t) = DBG_START_LOCAL # writeUnsignedLeb128 r @ writeUnsignedLeb128 i @ writeUnsignedLeb128 t"
| "op_bytes (Start_Local_Extended r i t g) =
     DBG_START_LOCAL_EXTENDED # writeUnsignedLeb128 r @ writeUnsignedLeb128 i @ writeUnsignedLeb128 t @ writeUnsignedLeb128 g"
| "op_bytes (End_Local r) = DBG_END_LOCAL # writeUnsignedLeb128 r"
| "op_bytes (Restart_Local r) = DBG_RESTART_LOCAL # writeUnsignedLeb128 r"
| "op_bytes Set_Prologue_End = [DBG_SET_PROLOGUE_END]"
| "op_bytes Set_Epilogue_Begin = [DBG_SET_EPILOGUE_BEGIN]"
| "op_bytes (Special b) = [b]"

definition ops_bytes :: "dbg_op list \<Rightarrow> u1 list" where
  "ops_bytes ops = concat (map op_bytes ops) @ [DBG_END_SEQUENCE]"

text \<open>What the callbacks are told.\<close>

datatype dbg_event = Position u4 u4 | Range u2 u4 u4 str_ptr str_ptr str_ptr

definition live_event :: "local_info list \<Rightarrow> nat \<Rightarrow> u4 \<Rightarrow> dbg_event list" where
  "live_event ls reg endAddress =
     (let l = ls ! reg in
      if li_live l
      then [Range (of_nat reg) (ucast (li_startAddress l)) endAddress (li_name l) (li_descriptor l)
        (if li_signature l = Ptr 0 then Literal [] else li_signature l)]
      else [])"

definition string_at :: "dex_file \<Rightarrow> u4 \<Rightarrow> str_ptr" where
  "string_at f i = Ptr (if i = 0 then 0 else the (dexStringById f (i - 1)))"

definition type_at :: "dex_file \<Rightarrow> u4 \<Rightarrow> str_ptr" where
  "type_at f i = Ptr (if i = 0 then 0 else the (dexStringByTypeIdx f (i - 1)))"

definition begin_local :: "u4 \<Rightarrow> str_ptr \<Rightarrow> str_ptr \<Rightarrow> str_ptr \<Rightarrow> local_info" where
  "begin_local address name descriptor signature =
     \<lparr>li_name = name, li_descriptor = descriptor, li_signature = signature, li_startAddress = ucast address, li_live = True\<rparr>"

text \<open>The locals, the address and the line; an operation and what it reports.\<close>

type_synonym dbg_vars = "local_info list \<times> u4 \<times> u4"

fun op_exec :: "dex_file \<Rightarrow> dbg_op \<Rightarrow> dbg_vars \<Rightarrow> dbg_event list \<times> dbg_vars" where
  "op_exec f (Advance_Pc w) (ls, ad, lno) = ([], ls, ad + w, lno)"
| "op_exec f (Advance_Line n w) (ls, ad, lno) = ([], ls, ad, lno + w)"
| "op_exec f (Start_Local r i t) (ls, ad, lno) =
     (live_event ls (unat r) ad, ls[unat r := begin_local ad (string_at f i) (type_at f t) (Ptr 0)], ad, lno)"
| "op_exec f (Start_Local_Extended r i t g) (ls, ad, lno) =
     (live_event ls (unat r) ad, ls[unat r := begin_local ad (string_at f i) (type_at f t) (string_at f g)], ad, lno)"
| "op_exec f (End_Local r) (ls, ad, lno) =
     (live_event ls (unat r) ad, ls[unat r := (ls ! unat r)\<lparr>li_live := False\<rparr>], ad, lno)"
| "op_exec f (Restart_Local r) (ls, ad, lno) =
     ([], if li_live (ls ! unat r) then ls
          else ls[unat r := (ls ! unat r)\<lparr>li_startAddress := ucast ad, li_live := True\<rparr>], ad, lno)"
| "op_exec f Set_Prologue_End v = ([], v)"
| "op_exec f Set_Epilogue_Begin v = ([], v)"
| "op_exec f (Special b) (ls, ad, lno) =
     (let ad' = ad + of_nat ((unat b - 10) div 15); lno' = lno + of_nat ((unat b - 10) mod 15) - 4
      in ([Position ad' lno'], ls, ad', lno'))"

fun ops_exec :: "dex_file \<Rightarrow> dbg_op list \<Rightarrow> dbg_vars \<Rightarrow> dbg_event list \<times> dbg_vars" where
  "ops_exec f [] v = ([], v)"
| "ops_exec f (op # ops) v =
     (let (es, v) = op_exec f op v; (es', v) = ops_exec f ops v in (es @ es', v))"

definition string_ok :: "dex_file \<Rightarrow> u4 \<Rightarrow> bool" where
  "string_ok f i \<longleftrightarrow> i = 0 \<or> dexStringById f (i - 1) \<noteq> None"

definition type_ok :: "dex_file \<Rightarrow> u4 \<Rightarrow> bool" where
  "type_ok f i \<longleftrightarrow> i = 0 \<or> dexStringByTypeIdx f (i - 1) \<noteq> None"

text \<open>Registers exist, strings can be read, and what is restarted was started.\<close>

fun op_ok :: "dex_file \<Rightarrow> dbg_op \<Rightarrow> dbg_vars \<Rightarrow> bool" where
  "op_ok f (Advance_Line n w) v \<longleftrightarrow> count_fits n w"
| "op_ok f (Start_Local r i t) (ls, ad, lno) \<longleftrightarrow> unat r < length ls \<and> string_ok f i \<and> type_ok f t"
| "op_ok f (Start_Local_Extended r i t g) (ls, ad, lno) \<longleftrightarrow> unat r < length ls \<and> string_ok f i \<and> type_ok f t \<and> string_ok f g"
| "op_ok f (End_Local r) (ls, ad, lno) \<longleftrightarrow> unat r < length ls"
| "op_ok f (Restart_Local r) (ls, ad, lno) \<longleftrightarrow>
     unat r < length ls \<and> li_name (ls ! unat r) \<noteq> Ptr 0 \<and> li_descriptor (ls ! unat r) \<noteq> Ptr 0"
| "op_ok f (Special b) v \<longleftrightarrow> DBG_FIRST_SPECIAL \<le> b"
| "op_ok f _ v \<longleftrightarrow> True"

fun ops_ok :: "dex_file \<Rightarrow> dbg_op list \<Rightarrow> dbg_vars \<Rightarrow> bool" where
  "ops_ok f [] v \<longleftrightarrow> True"
| "ops_ok f (op # ops) v \<longleftrightarrow> op_ok f op v \<and> ops_ok f ops (snd (op_exec f op v))"

text \<open>The callbacks on a list of events.\<close>

definition tell :: "'c debug_args \<Rightarrow> dbg_event \<Rightarrow> 'c \<Rightarrow> 'c" where
  "tell a e c = (case e of
     Position ad lno \<Rightarrow> (case da_posCb a of None \<Rightarrow> c | Some cb \<Rightarrow> snd (cb c ad lno))
   | Range r b en n d g \<Rightarrow> (case da_localCb a of None \<Rightarrow> c | Some cb \<Rightarrow> cb c r b en n d g))"

definition never_stops :: "'c debug_args \<Rightarrow> bool" where
  "never_stops a \<longleftrightarrow> (case da_posCb a of None \<Rightarrow> True | Some cb \<Rightarrow> (\<forall>c ad lno. fst (cb c ad lno) = 0))"

section \<open>The interpreter does what the stream says\<close>

lemma readStringIdx_written: "string_ok f i \<Longrightarrow> readStringIdx f (writeUnsignedLeb128 i @ s) = Some (string_at f i, s)"
  by (auto simp: readStringIdx_def read_write string_ok_def string_at_def)

lemma readTypeIdx_written: "type_ok f i \<Longrightarrow> readTypeIdx f (writeUnsignedLeb128 i @ s) = Some (type_at f i, s)"
  by (auto simp: readTypeIdx_def read_write type_ok_def type_at_def)

lemma emit_live:
  "reg < length ls \<Longrightarrow> emitLocalCbIfLive (da_localCb a) c reg ad ls = Some (fold (tell a) (live_event ls reg ad) c)"
  by (auto simp: emitLocalCbIfLive_def local_at_def live_event_def tell_def Let_def split: option.splits)

text \<open>A register number that is in range keeps its value in 16 bits.\<close>

lemma reg_u2:
  assumes "unat (r :: u4) < unat (n :: u2)"
  shows "unat (ucast r :: u2) = unat r" and "\<not> n < (ucast r :: u2)"
proof -
  have "unat n < 2 ^ 16" using unsigned_less [of n, where ?'a = nat] by simp
  with assms have "take_bit 16 (unat r) = unat r" by (simp add: take_bit_nat_eq_self)
  then show "unat (ucast r :: u2) = unat r" by (simp add: unsigned_ucast_eq)
  with assms show "\<not> n < (ucast r :: u2)" by (simp add: word_less_nat_alt)
qed

lemma op_exec_length: "length (fst (snd (op_exec f op v))) = length (fst v)"
  by (cases "(f, op, v)" rule: op_exec.cases) (auto simp: Let_def)

definition dbg_at :: "'c \<Rightarrow> dbg_vars \<Rightarrow> u1 list \<Rightarrow> 'c debug_state" where
  "dbg_at c v s = (case v of (ls, ad, lno) \<Rightarrow> \<lparr>ds_cnxt = c, ds_locals = ls, ds_address = ad, ds_line = lno, ds_stream = s\<rparr>)"

lemma special_step:
  assumes "DBG_FIRST_SPECIAL \<le> b" "never_stops a"
  shows "special a b (dbg_at c (ls, ad, lno) s) =
    Some (More (dbg_at (fold (tell a) (fst (op_exec (da_file a) (Special b) (ls, ad, lno))) c)
      (snd (op_exec (da_file a) (Special b) (ls, ad, lno))) s))"
proof -
  have "10 \<le> unat b" using assms(1) by (simp add: word_le_nat_alt)
  then have b: "uint b - 10 = int (unat b - 10)" by simp
  have "(uint b - 10) sdiv 15 = int ((unat b - 10) div 15)" "(uint b - 10) smod 15 = int ((unat b - 10) mod 15)"
    unfolding b by (simp_all only: sdiv_nonneg smod_nonneg zdiv_int zmod_int of_nat_0_le_iff zero_less_numeral of_nat_numeral)
  then show ?thesis
    using assms(2) by (auto simp: special_def Let_def dbg_at_def tell_def never_stops_def case_prod_beta add_diff_eq split: option.splits)
qed

lemma special_opcode:
  assumes "DBG_FIRST_SPECIAL \<le> b"
  shows "b \<notin> {0, 1, 2, 3, 4, 5, 6, 7, 8, 9}"
  using assms by (auto simp: word_le_nat_alt)

lemma step_op:
  assumes "length ls = unat (registersSize (da_code a))" "op_ok (da_file a) op (ls, ad, lno)" "never_stops a"
  shows "debug_step a (dbg_at c (ls, ad, lno) (op_bytes op @ s)) =
    Some (More (dbg_at (fold (tell a) (fst (op_exec (da_file a) op (ls, ad, lno))) c)
      (snd (op_exec (da_file a) op (ls, ad, lno))) s))"
proof (cases op)
  case (Special b)
  then have b: "DBG_FIRST_SPECIAL \<le> b" using assms(2) by simp
  from special_opcode [OF b] special_step [OF b assms(3), of c ls ad lno s] Special show ?thesis
    by (simp add: debug_step_def dbg_at_def)
next
  case (Advance_Line n w)
  then have "readSignedLeb128 (leb_bytes n w @ s) = Some (w, s)"
    using assms(2) readSigned_bytes [of n w s] by (auto simp: count_fits_def)
  with Advance_Line show ?thesis by (simp add: debug_step_def dbg_at_def)
next
  case (Start_Local r i t)
  with assms reg_u2 [of r "registersSize (da_code a)"] show ?thesis
    by (simp add: debug_step_def dbg_at_def start_local_def Let_def read_write readStringIdx_written readTypeIdx_written
        emit_live set_local_def begin_local_def)
next
  case (Start_Local_Extended r i t g)
  with assms reg_u2 [of r "registersSize (da_code a)"] show ?thesis
    by (simp add: debug_step_def dbg_at_def start_local_def Let_def read_write readStringIdx_written readTypeIdx_written
        emit_live set_local_def begin_local_def)
next
  case (End_Local r)
  with assms reg_u2 [of r "registersSize (da_code a)"] show ?thesis
    by (simp add: debug_step_def dbg_at_def end_local_def Let_def read_write emit_live set_local_def local_at_def)
next
  case (Restart_Local r)
  with assms reg_u2 [of r "registersSize (da_code a)"] show ?thesis
    by (simp add: debug_step_def dbg_at_def restart_local_def Let_def read_write set_local_def local_at_def)
qed (simp_all add: debug_step_def dbg_at_def read_write)

lemma loop_ops:
  assumes "never_stops a" "length (fst v) = unat (registersSize (da_code a))" "ops_ok (da_file a) ops v"
  shows "debug_loop a (dbg_at c v (ops_bytes ops @ s)) =
    Some (Ended, dbg_at (fold (tell a) (fst (ops_exec (da_file a) ops v)) c) (snd (ops_exec (da_file a) ops v)) s)"
  using assms(2,3)
proof (induction ops arbitrary: v c)
  case Nil
  then show ?case
    by (cases v) (simp add: ops_bytes_def debug_loop.simps [of a] debug_step_def dbg_at_def)
next
  case (Cons op ops)
  obtain ls ad lno where v: "v = (ls, ad, lno)" by (cases v)
  let ?r = "op_exec (da_file a) op v"
  have "debug_step a (dbg_at c v (op_bytes op @ ops_bytes ops @ s)) =
    Some (More (dbg_at (fold (tell a) (fst ?r) c) (snd ?r) (ops_bytes ops @ s)))"
    unfolding v by (rule step_op [OF _ _ assms(1)]) (use Cons.prems v in simp_all)
  moreover have "debug_loop a (dbg_at (fold (tell a) (fst ?r) c) (snd ?r) (ops_bytes ops @ s)) =
    Some (Ended, dbg_at (fold (tell a) (fst (ops_exec (da_file a) ops (snd ?r))) (fold (tell a) (fst ?r) c))
      (snd (ops_exec (da_file a) ops (snd ?r))) s)"
    by (rule Cons.IH) (use Cons.prems op_exec_length [of "da_file a" op v] in simp_all)
  ultimately show ?case
    by (simp add: ops_bytes_def debug_loop.simps [of a "dbg_at c v _"] Let_def split: prod.split)
qed

section \<open>Order\<close>

text \<open>How far the operations move the address, and when an event happens.\<close>

fun op_advance :: "dbg_op \<Rightarrow> nat" where
  "op_advance (Advance_Pc w) = unat w"
| "op_advance (Special b) = (unat b - 10) div 15"
| "op_advance _ = 0"

definition ops_advance :: "dbg_op list \<Rightarrow> nat" where
  "ops_advance ops = sum_list (map op_advance ops)"

fun event_time :: "dbg_event \<Rightarrow> nat" where
  "event_time (Position ad lno) = unat ad"
| "event_time (Range r b e n d g) = unat e"

lemma unat_advance: "unat (ad :: u4) + k < 2 ^ 32 \<Longrightarrow> unat (ad + of_nat k) = unat ad + k"
  using unat_of_nat_u4 [of "unat ad + k"] by simp

lemma live_event_time: "e \<in> set (live_event ls r ad) \<Longrightarrow> event_time e = unat ad"
  by (auto simp: live_event_def Let_def split: if_splits)

lemma op_exec_time:
  assumes "unat ad + op_advance op < 2 ^ 32"
  shows "unat (fst (snd (snd (op_exec f op (ls, ad, lno))))) = unat ad + op_advance op"
    and "e \<in> set (fst (op_exec f op (ls, ad, lno))) \<Longrightarrow> event_time e = unat ad + op_advance op"
    and "length (fst (op_exec f op (ls, ad, lno))) \<le> 1"
  using assms unat_advance [of ad "op_advance op"] live_event_time [of e ls _ ad]
  by (cases op; auto simp: Let_def live_event_def split: if_splits)+

lemma ops_exec_sorted:
  assumes "unat (fst (snd v)) + ops_advance ops < 2 ^ 32"
  shows "sorted (map event_time (fst (ops_exec f ops v))) \<and>
    (\<forall>e\<in>set (fst (ops_exec f ops v)). unat (fst (snd v)) \<le> event_time e \<and> event_time e \<le> unat (fst (snd v)) + ops_advance ops) \<and>
    unat (fst (snd (snd (ops_exec f ops v)))) = unat (fst (snd v)) + ops_advance ops"
  using assms
proof (induction ops arbitrary: v)
  case Nil
  then show ?case by (simp add: ops_advance_def)
next
  case (Cons op ops)
  obtain ls ad lno where v: "v = (ls, ad, lno)" by (cases v)
  let ?v = "snd (op_exec f op v)"
  have adv: "ops_advance (op # ops) = op_advance op + ops_advance ops" by (simp add: ops_advance_def)
  with Cons.prems have small: "unat ad + op_advance op < 2 ^ 32" by (simp add: v)
  note t = op_exec_time [OF small, where f = f and ls = ls and lno = lno, folded v]
  from Cons.prems adv t(1) have "unat (fst (snd ?v)) + ops_advance ops < 2 ^ 32" by (simp add: v)
  note IH = Cons.IH [OF this]
  have "sorted (map event_time (fst (op_exec f op v)))"
    using t(3) by (cases "fst (op_exec f op v)") auto
  with IH t(1,2) adv show ?case
    by (auto simp: Let_def case_prod_beta sorted_append v)
qed

section \<open>Ranges\<close>

text \<open>The ranges of a register, one after the other, from an address on.\<close>

definition ranges_of :: "nat \<Rightarrow> dbg_event list \<Rightarrow> (nat \<times> nat) list" where
  "ranges_of r es = List.map_filter (\<lambda>e. case e of
     Range r' b en n d g \<Rightarrow> if r' = of_nat r then Some (unat b, unat en) else None | Position ad lno \<Rightarrow> None) es"

fun one_after_other :: "nat \<Rightarrow> (nat \<times> nat) list \<Rightarrow> bool" where
  "one_after_other lo [] \<longleftrightarrow> True"
| "one_after_other lo ((b, e) # rs) \<longleftrightarrow> lo \<le> b \<and> b \<le> e \<and> one_after_other e rs"

lemma ranges_of_simps [simp]:
  "ranges_of r [] = []" "ranges_of r (es @ es') = ranges_of r es @ ranges_of r es'" "ranges_of r (Position ad lno # es) = ranges_of r es"
  by (simp_all add: ranges_of_def map_filter_def)

lemma one_after_other_mono: "one_after_other lo rs \<Longrightarrow> lo' \<le> lo \<Longrightarrow> one_after_other lo' rs"
  by (cases rs) auto

text \<open>Where the next range of a register may begin.\<close>

definition range_from :: "dbg_vars \<Rightarrow> nat \<Rightarrow> nat" where
  "range_from v r = (case v of (ls, ad, lno) \<Rightarrow> if li_live (ls ! r) then unat (li_startAddress (ls ! r)) else unat ad)"

definition locals_ok :: "dbg_vars \<Rightarrow> bool" where
  "locals_ok v \<longleftrightarrow> (\<forall>r < length (fst v). range_from v r \<le> unat (fst (snd v)))"

lemma u2_register:
  assumes "r < 2 ^ 16" "q < 2 ^ 16"
  shows "(of_nat q :: u2) = of_nat r \<longleftrightarrow> q = r"
proof
  assume "(of_nat q :: u2) = of_nat r"
  then have "unat (of_nat q :: u2) = unat (of_nat r :: u2)" by (rule arg_cong)
  with assms show "q = r" by (simp add: unat_of_nat)
qed simp

lemma unat_u2_u4: "unat (ucast (w :: u2) :: u4) = unat w"
proof -
  have "unat w < 2 ^ 16" using unsigned_less [of w, where ?'a = nat] by simp
  then show ?thesis by (simp add: unsigned_ucast_eq take_bit_nat_eq_self)
qed

lemma ranges_of_live:
  assumes "length ls \<le> 2 ^ 16" "r < length ls" "q < length ls"
  shows "ranges_of r (live_event ls q ad) = (if q = r \<and> li_live (ls ! r) then [(unat (li_startAddress (ls ! r)), unat ad)] else [])"
proof -
  have "(of_nat q :: u2) = of_nat r \<longleftrightarrow> q = r" using assms by (intro u2_register) simp_all
  then show ?thesis by (auto simp: live_event_def ranges_of_def map_filter_def Let_def unat_u2_u4)
qed

lemma unat_ucast_u2: "unat (ad :: u4) < 2 ^ 16 \<Longrightarrow> unat (ucast ad :: u2) = unat ad"
  by (simp add: unsigned_ucast_eq take_bit_nat_eq_self)

lemma range_from_le: "locals_ok (ls, ad, lno) \<Longrightarrow> r < length ls \<Longrightarrow> range_from (ls, ad, lno) r \<le> unat ad"
  by (simp add: locals_ok_def)

text \<open>An operation on a register reports the range that ends, and the next one begins here or later.\<close>

lemma register_range:
  assumes "length ls \<le> 2 ^ 16" "r < length ls" "q < length ls" "locals_ok (ls, ad, lno)"
    and "li_live l' \<Longrightarrow> unat (li_startAddress l') = unat ad"
    and "one_after_other (range_from (ls[q := l'], ad, lno) r) rest"
  shows "one_after_other (range_from (ls, ad, lno) r) (ranges_of r (live_event ls q ad) @ rest)"
proof (cases "q = r")
  case True
  then have "range_from (ls[q := l'], ad, lno) r = unat ad" using assms(3,5) by (simp add: range_from_def)
  with True assms(6) range_from_le [OF assms(4,2)] show ?thesis
    by (auto simp: ranges_of_live [OF assms(1,2,2)] range_from_def split: if_splits)
next
  case False
  then have "ls[q := l'] ! r = ls ! r" by simp
  then have "range_from (ls[q := l'], ad, lno) r = range_from (ls, ad, lno) r" by (simp only: range_from_def prod.case)
  with False assms(6) show ?thesis by (simp add: ranges_of_live [OF assms(1-3)])
qed

lemma register_locals_ok:
  assumes "q < length ls" "locals_ok (ls, ad, lno)" "li_live l' \<Longrightarrow> unat (li_startAddress l') = unat ad"
  shows "locals_ok (ls[q := l'], ad, lno)"
  using assms by (auto simp: locals_ok_def range_from_def nth_list_update)

lemma op_locals_ok:
  assumes "op_ok f op (ls, ad, lno)" "unat ad + op_advance op < 2 ^ 16" "locals_ok (ls, ad, lno)"
  shows "locals_ok (snd (op_exec f op (ls, ad, lno)))"
proof -
  have start: "unat (ucast ad :: u2) = unat ad" using assms(2) by (intro unat_ucast_u2) simp
  have move: "locals_ok (ls, ad + w, lno')" if "unat (ad + w) = unat ad + k" for w lno' k
    using assms(3) that by (auto simp: locals_ok_def range_from_def intro: trans_le_add1)
  show ?thesis
    using assms start move [of 0 0] move [of _ "op_advance op"] unat_advance [of ad "op_advance op"]
    by (cases op) (auto simp: Let_def begin_local_def intro!: register_locals_ok)
qed

lemma op_range:
  assumes "op_ok f op (ls, ad, lno)" "length ls \<le> 2 ^ 16" "r < length ls" "unat ad + op_advance op < 2 ^ 16" "locals_ok (ls, ad, lno)"
    and "one_after_other (range_from (snd (op_exec f op (ls, ad, lno))) r) rest"
  shows "one_after_other (range_from (ls, ad, lno) r) (ranges_of r (fst (op_exec f op (ls, ad, lno))) @ rest)"
proof -
  have start: "unat (ucast ad :: u2) = unat ad" using assms(4) by (intro unat_ucast_u2) simp
  note reg = register_range [OF assms(2,3) _ assms(5)]
  have move: "one_after_other (range_from (ls, ad, lno) r) rest"
    if "one_after_other (range_from (ls, ad + w, lno') r) rest" "unat (ad + w) = unat ad + k" for w lno' k
    using that by (auto simp: range_from_def split: if_splits intro: one_after_other_mono)
  show ?thesis
  proof (cases op)
    case (Start_Local q i t)
    with assms(6) have "one_after_other (range_from (ls[unat q := begin_local ad (string_at f i) (type_at f t) (Ptr 0)], ad, lno) r) rest"
      by simp
    from reg [OF _ _ this] assms(1) start Start_Local show ?thesis by (simp add: begin_local_def)
  next
    case (Start_Local_Extended q i t g)
    with assms(6) have "one_after_other (range_from (ls[unat q := begin_local ad (string_at f i) (type_at f t) (string_at f g)], ad, lno) r) rest"
      by simp
    from reg [OF _ _ this] assms(1) start Start_Local_Extended show ?thesis by (simp add: begin_local_def)
  next
    case (End_Local q)
    with assms(6) have "one_after_other (range_from (ls[unat q := (ls ! unat q)\<lparr>li_live := False\<rparr>], ad, lno) r) rest" by simp
    from reg [OF _ _ this] assms(1) End_Local show ?thesis by simp
  next
    case (Restart_Local q)
    then show ?thesis
      using assms start range_from_le [OF assms(5,3)]
      by (auto simp: range_from_def nth_list_update split: if_splits intro: one_after_other_mono)
  next
    case (Special b)
    then show ?thesis using assms(4,6) move [of _ _ "op_advance op"] unat_advance [of ad "op_advance op"]
      by (simp add: Let_def)
  next
    case (Advance_Pc w)
    then show ?thesis using assms(4,6) move [of w lno "unat w"] unat_advance [of ad "unat w"] by simp
  qed (use assms(6) in \<open>simp_all add: range_from_def\<close>)
qed

lemma ops_range:
  assumes "ops_ok f ops v" "length (fst v) \<le> 2 ^ 16" "r < length (fst v)" "unat (fst (snd v)) + ops_advance ops < 2 ^ 16" "locals_ok v"
    and "one_after_other (range_from (snd (ops_exec f ops v)) r) rest"
  shows "one_after_other (range_from v r) (ranges_of r (fst (ops_exec f ops v)) @ rest)"
  using assms
proof (induction ops arbitrary: v)
  case (Cons op ops)
  obtain ls ad lno where v: "v = (ls, ad, lno)" by (cases v)
  let ?v = "snd (op_exec f op v)"
  have adv: "ops_advance (op # ops) = op_advance op + ops_advance ops" by (simp add: ops_advance_def)
  with Cons.prems have small: "unat ad + op_advance op < 2 ^ 16" by (simp add: v)
  then have "unat (fst (snd ?v)) = unat ad + op_advance op" using op_exec_time(1) [of ad op f ls lno] by (simp add: v)
  then have IH: "one_after_other (range_from ?v r) (ranges_of r (fst (ops_exec f ops ?v)) @ rest)"
    using Cons.prems adv op_exec_length [of f op v] op_locals_ok [of f op ls ad lno, OF _ small]
    by (intro Cons.IH) (simp_all add: v Let_def case_prod_beta)
  have "one_after_other (range_from v r) (ranges_of r (fst (op_exec f op v)) @ ranges_of r (fst (ops_exec f ops ?v)) @ rest)"
    using Cons.prems small IH unfolding v by (intro op_range) simp_all
  then show ?case by (simp add: Let_def case_prod_beta)
qed simp

lemma ops_exec_length: "length (fst (snd (ops_exec f ops v))) = length (fst v)"
  by (induction ops arbitrary: v) (simp_all add: Let_def case_prod_beta op_exec_length)

lemma ops_locals_ok:
  assumes "ops_ok f ops v" "unat (fst (snd v)) + ops_advance ops < 2 ^ 16" "locals_ok v"
  shows "locals_ok (snd (ops_exec f ops v))"
  using assms
proof (induction ops arbitrary: v)
  case (Cons op ops)
  obtain ls ad lno where v: "v = (ls, ad, lno)" by (cases v)
  have adv: "ops_advance (op # ops) = op_advance op + ops_advance ops" by (simp add: ops_advance_def)
  with Cons.prems have small: "unat ad + op_advance op < 2 ^ 16" by (simp add: v)
  then have "unat (fst (snd (snd (op_exec f op v)))) = unat ad + op_advance op" using op_exec_time(1) [of ad op f ls lno] by (simp add: v)
  then show ?case
    using Cons.prems adv op_locals_ok [of f op ls ad lno, OF _ small] Cons.IH [of "snd (op_exec f op v)"]
    by (simp add: v Let_def case_prod_beta)
qed simp

section \<open>The whole item\<close>

text \<open>The ranges that end with the method.\<close>

definition end_events :: "local_info list \<Rightarrow> u4 \<Rightarrow> dbg_event list" where
  "end_events ls endAddress = concat (map (\<lambda>reg. live_event ls reg endAddress) [0..<length ls])"

lemma emit_all_events:
  "(\<And>r. r \<in> set regs \<Longrightarrow> r < length ls) \<Longrightarrow>
     emit_all (da_localCb a) e ls regs c = Some (fold (tell a) (concat (map (\<lambda>reg. live_event ls reg e) regs)) c)"
  by (induction regs arbitrary: c) (simp_all add: emit_live)

lemma ranges_of_concat: "ranges_of r (concat ess) = concat (map (ranges_of r) ess)"
  by (induction ess) simp_all

lemma concat_one: "r < n \<Longrightarrow> concat (map (\<lambda>q. if q = r then xs else []) [0..<n]) = xs"
  by (induction n) (auto simp: less_Suc_eq concat_eq_Nil_conv)

lemma ranges_of_end:
  assumes "length ls \<le> 2 ^ 16" "r < length ls"
  shows "ranges_of r (end_events ls e) = (if li_live (ls ! r) then [(unat (li_startAddress (ls ! r)), unat e)] else [])"
proof -
  let ?x = "if li_live (ls ! r) then [(unat (li_startAddress (ls ! r)), unat e)] else []"
  have "ranges_of r (end_events ls e) = concat (map (\<lambda>q. ranges_of r (live_event ls q e)) [0..<length ls])"
    by (simp add: end_events_def ranges_of_concat o_def)
  also have "map (\<lambda>q. ranges_of r (live_event ls q e)) [0..<length ls] = map (\<lambda>q. if q = r then ?x else []) [0..<length ls]"
    using ranges_of_live [OF assms] by (intro map_cong) auto
  also have "concat \<dots> = ?x" by (rule concat_one [OF assms(2)])
  finally show ?thesis .
qed

text \<open>The parameters: the descriptors the prototype has and the name indices of the stream.\<close>

fun next_descriptors :: "nat \<Rightarrow> param_iterator \<Rightarrow> u4 list option" where
  "next_descriptors 0 it = Some []"
| "next_descriptors (Suc n) it =
     do { (d, it) \<leftarrow> dexParameterIteratorNextDescriptor it;
       if d = 0 then None else map_option (Cons d) (next_descriptors n it) }"

definition param_width :: "dex_file \<Rightarrow> u4 \<Rightarrow> nat" where
  "param_width f d = (if hd (mem_at (mem f) d) = 0x44 \<or> hd (mem_at (mem f) d) = 0x4a then 2 else 1)"

fun params_exec :: "dex_file \<Rightarrow> nat \<Rightarrow> (u4 \<times> u4) list \<Rightarrow> local_info list \<Rightarrow> local_info list" where
  "params_exec f argReg [] ls = ls"
| "params_exec f argReg ((d, i) # ps) ls =
     params_exec f (argReg + param_width f d) ps
       (if string_at f i = Ptr 0 then ls else ls[argReg := begin_local 0 (string_at f i) (Ptr d) (Ptr 0)])"

fun params_ok :: "dex_file \<Rightarrow> nat \<Rightarrow> nat \<Rightarrow> (u4 \<times> u4) list \<Rightarrow> bool" where
  "params_ok f n argReg [] \<longleftrightarrow> True"
| "params_ok f n argReg ((d, i) # ps) \<longleftrightarrow>
     argReg < n \<and> string_ok f i \<and> mem_at (mem f) d \<noteq> [] \<and> params_ok f n (argReg + param_width f d) ps"

lemma start_params_exec:
  assumes "next_descriptors (length ps) it = Some (map fst ps)" "params_ok (da_file a) (unat (registersSize (da_code a))) k ps"
    and "ps = [] \<or> unat argReg = k" "length ls = unat (registersSize (da_code a))"
  shows "start_params a (length ps) it argReg ls (concat (map (\<lambda>p. writeUnsignedLeb128 (snd p)) ps) @ s) =
    Some (True, params_exec (da_file a) k ps ls, s)"
  using assms
proof (induction ps arbitrary: it k argReg ls)
  case (Cons p ps)
  obtain d i where p: "p = (d, i)" by (cases p)
  let ?f = "da_file a" and ?n = "registersSize (da_code a)"
  from Cons.prems(1) obtain it' where it: "dexParameterIteratorNextDescriptor it = Some (d, it')" "d \<noteq> 0"
    "next_descriptors (length ps) it' = Some (map fst ps)"
    by (auto simp: p split: Option.bind_splits if_splits)
  obtain c t where c: "mem_at (mem ?f) d = c # t" using Cons.prems(2) by (auto simp: p neq_Nil_conv)
  have k: "unat argReg = k" "k < unat ?n" "string_ok ?f i" "params_ok ?f (unat ?n) (k + param_width ?f d) ps"
    using Cons.prems(2,3) by (simp_all add: p)
  have w: "ps = [] \<or> unat (if c = 0x44 \<or> c = 0x4a then argReg + 2 else argReg + 1) = k + param_width ?f d"
  proof (cases ps)
    case (Cons q qs)
    then have "k + param_width ?f d < unat ?n" using k(4) by (cases q) simp
    moreover have "unat ?n < 2 ^ 16" using unsigned_less [of ?n, where ?'a = nat] by simp
    ultimately show ?thesis using k(1) by (auto simp: param_width_def c unat_word_ariths)
  qed simp
  let ?ls = "if string_at ?f i = Ptr 0 then ls else ls[k := begin_local 0 (string_at ?f i) (Ptr d) (Ptr 0)]"
  have "start_params a (length ps) it' (if c = 0x44 \<or> c = 0x4a then argReg + 2 else argReg + 1) ?ls
      (concat (map (\<lambda>p. writeUnsignedLeb128 (snd p)) ps) @ s) = Some (True, params_exec ?f (k + param_width ?f d) ps ?ls, s)"
    by (rule Cons.IH [OF it(3) k(4) w]) (use Cons.prems(4) in simp)
  moreover have "\<not> argReg \<ge> ?n" using k(1,2) by (simp add: word_le_nat_alt)
  ultimately show ?case
    using it c k Cons.prems(4)
    by (cases "string_at ?f i = Ptr 0")
      (simp_all add: p readStringIdx_written Let_def set_local_def begin_local_def split del: if_split)
qed simp

definition is_static :: "'c debug_args \<Rightarrow> bool" where
  "is_static a \<longleftrightarrow> da_accessFlags a AND 8 \<noteq> 0"

text \<open>The locals that are live when the method begins.\<close>

definition first_locals :: "'c debug_args \<Rightarrow> (u4 \<times> u4) list \<Rightarrow> local_info list" where
  "first_locals a ps =
     (let n = unat (registersSize (da_code a)); k = n - unat (insSize (da_code a)); ls = replicate n zero_local
      in if is_static a then params_exec (da_file a) k ps ls
         else params_exec (da_file a) (k + 1) ps (ls[k := begin_local 0 (Literal ''this'') (da_class a) (Ptr 0)]))"

definition debug_events :: "'c debug_args \<Rightarrow> (u4 \<times> u4) list \<Rightarrow> u4 \<Rightarrow> dbg_op list \<Rightarrow> dbg_event list" where
  "debug_events a ps line ops =
     (let (es, ls, _) = ops_exec (da_file a) ops (first_locals a ps, 0, line) in es @ end_events ls (insnsSize (da_code a)))"

text \<open>A method whose debug information holds a line number, the names of parameters and some operations, with as many
  registers as they need.\<close>

definition debug_item :: "'c debug_args \<Rightarrow> (u4 \<times> u4) list \<Rightarrow> u4 \<Rightarrow> dbg_op list \<Rightarrow> u1 list \<Rightarrow> bool" where
  "debug_item a ps line ops rest \<longleftrightarrow>
     (let f = da_file a; p = baseAddr f + debugInfoOff (da_code a); n = unat (registersSize (da_code a));
          k = n - unat (insSize (da_code a))
      in debugInfoOff (da_code a) \<noteq> 0 \<and> p \<noteq> 0 \<and>
         mem_at (mem f) p = writeUnsignedLeb128 line @ writeUnsignedLeb128 (of_nat (length ps)) @
           concat (map (\<lambda>p. writeUnsignedLeb128 (snd p)) ps) @ ops_bytes ops @ rest \<and>
         length ps < 2 ^ 32 \<and>
         (\<exists>it. dexParameterIteratorInit \<lparr>dexFile = f, protoIdx = da_protoIdx a\<rparr> = Some it \<and>
            next_descriptors (length ps) it = Some (map fst ps)) \<and>
         unat (insSize (da_code a)) \<le> n \<and> (is_static a \<or> k < n) \<and>
         params_ok f n (if is_static a then k else k + 1) ps \<and>
         ops_ok f ops (first_locals a ps, 0, line))"

lemma params_exec_length: "length (params_exec f k ps ls) = length ls"
  by (induction f k ps ls rule: params_exec.induct) simp_all

lemma first_locals_length: "length (first_locals a ps) = unat (registersSize (da_code a))"
  by (simp add: first_locals_def Let_def params_exec_length)

lemma decode0_item:
  assumes "debug_item a ps line ops rest" "never_stops a"
  shows "dexDecodeDebugInfo0 a c (mem_at (mem (da_file a)) (baseAddr (da_file a) + debugInfoOff (da_code a)))
      (replicate (unat (registersSize (da_code a))) zero_local) =
    Some (Ended, dbg_at (fold (tell a) (fst (ops_exec (da_file a) ops (first_locals a ps, 0, line))) c)
      (snd (ops_exec (da_file a) ops (first_locals a ps, 0, line))) rest)"
proof -
  let ?f = "da_file a" and ?n = "unat (registersSize (da_code a))"
  let ?k = "?n - unat (insSize (da_code a))" and ?ls = "replicate ?n zero_local"
  let ?r = "registersSize (da_code a) - insSize (da_code a)"
  note item = assms(1) [unfolded debug_item_def Let_def]
  obtain it where it: "dexParameterIteratorInit \<lparr>dexFile = ?f, protoIdx = da_protoIdx a\<rparr> = Some it"
    "next_descriptors (length ps) it = Some (map fst ps)" using item by blast
  have r: "unat ?r = ?k" using item by (simp add: unat_sub word_le_nat_alt)
  let ?k' = "if is_static a then ?k else ?k + 1"
  let ?ls' = "if is_static a then ?ls else ?ls[?k := begin_local 0 (Literal ''this'') (da_class a) (Ptr 0)]"
  let ?r' = "if is_static a then ?r else ?r + 1"
  have recv: "start_this a ?ls = Some (?r', ?ls')"
    using item r by (auto simp: start_this_def is_static_def Let_def local_at_def set_local_def zero_local_def begin_local_def)
  have "ps = [] \<or> unat ?r' = ?k'"
  proof (cases "is_static a \<or> ps = []")
    case False
    then have "?k + 1 < ?n" using item by (cases ps) auto
    moreover have "?n < 2 ^ 16" using unsigned_less [of "registersSize (da_code a)", where ?'a = nat] by simp
    ultimately show ?thesis using False r by (simp add: unat_word_ariths)
  qed (use r in auto)
  then have params: "start_params a (length ps) it ?r' ?ls' (concat (map (\<lambda>p. writeUnsignedLeb128 (snd p)) ps) @ ops_bytes ops @ rest) =
    Some (True, first_locals a ps, ops_bytes ops @ rest)"
    using start_params_exec [OF it(2), of a ?k' ?r' ?ls' "ops_bytes ops @ rest"] item
    by (simp add: first_locals_def Let_def)
  have len: "length (fst (first_locals a ps, 0 :: u4, line)) = ?n" by (simp add: first_locals_length)
  have ok: "ops_ok ?f ops (first_locals a ps, 0, line)" using item by blast
  have "unat (of_nat (length ps) :: u4) = length ps" using item by (intro unat_of_nat_u4) blast
  then show ?thesis
    using loop_ops [OF assms(2) len ok, of c rest] item
    by (simp add: dexDecodeDebugInfo0_def read_write recv it(1) params dbg_at_def)
qed

lemma decode_item:
  assumes "debug_item a ps line ops rest" "never_stops a"
  shows "dexDecodeDebugInfo a c = Some (fold (tell a) (debug_events a ps line ops) c)"
proof -
  let ?f = "da_file a" and ?n = "unat (registersSize (da_code a))"
  obtain es ls ad lno where e: "ops_exec ?f ops (first_locals a ps, 0, line) = (es, ls, ad, lno)"
    by (cases "ops_exec ?f ops (first_locals a ps, 0, line)") auto
  have len: "length ls = ?n"
    using ops_exec_length [of ?f ops "(first_locals a ps, 0, line)"] by (simp add: e first_locals_length)
  have "dexGetDebugInfoStream ?f (da_code a) = baseAddr ?f + debugInfoOff (da_code a)"
    "baseAddr ?f + debugInfoOff (da_code a) \<noteq> 0"
    using assms(1) by (simp_all add: dexGetDebugInfoStream_def debug_item_def Let_def)
  then show ?thesis
    using decode0_item [OF assms, of c] emit_all_events [of "[0..<?n]" ls a "insnsSize (da_code a)"] len
    by (simp add: dexDecodeDebugInfo_def Let_def e dbg_at_def debug_events_def end_events_def)
qed

section \<open>Properties\<close>

lemma starts_at_0:
  "(\<forall>l\<in>set ls. li_startAddress l = 0) \<Longrightarrow> \<forall>l\<in>set (ls[i := begin_local 0 n d g]). li_startAddress l = 0"
  by (auto simp: begin_local_def dest!: set_update_subset_insert [THEN subsetD])

lemma params_start_at_0:
  "(\<forall>l\<in>set ls. li_startAddress l = 0) \<Longrightarrow> \<forall>l\<in>set (params_exec f k ps ls). li_startAddress l = 0"
proof (induction f k ps ls rule: params_exec.induct)
  case (2 f k d i ps ls)
  have "\<forall>l\<in>set (if string_at f i = Ptr 0 then ls else ls[k := begin_local 0 (string_at f i) (Ptr d) (Ptr 0)]). li_startAddress l = 0"
    using 2(2) starts_at_0 [OF 2(2)] by presburger
  from 2(1) [OF this] show ?case by (simp only: params_exec.simps)
qed simp

lemma first_locals_start: "r < length (first_locals a ps) \<Longrightarrow> li_startAddress (first_locals a ps ! r) = 0"
proof -
  have z: "\<forall>l\<in>set (replicate n zero_local). li_startAddress l = 0" for n by (simp add: zero_local_def)
  have "\<forall>l\<in>set (first_locals a ps). li_startAddress l = 0"
    unfolding first_locals_def Let_def using params_start_at_0 [OF z] params_start_at_0 [OF starts_at_0 [OF z]] by simp
  then show "r < length (first_locals a ps) \<Longrightarrow> ?thesis" by simp
qed

lemma first_locals_ok: "locals_ok (first_locals a ps, 0, line)"
  using first_locals_start [of _ a ps] by (simp add: locals_ok_def range_from_def)


text \<open>A method with one register, whose callbacks keep a list of addresses.\<close>

definition some_code :: code_item where
  "some_code = \<lparr>registersSize = 1, insSize = 0, debugInfoOff = 19, insnsSize = 8\<rparr>"

definition some_debug :: "nat list debug_args" where
  "some_debug = \<lparr>da_file = \<lparr>mem = \<lparr>img_base = 0x1000, img_bytes = replicate 12 0 @ [16, 0, 0, 0, 1, 0x78, 0] @
       [10, 0, 0x19, 3, 0, 1, 0, 1, 3, 5, 0, 0x0e, 0]\<rparr>,
       pOptHeader = 0, pHeader = 0, pStringIds = 0x100c, pTypeIds = 0, pFieldIds = 0, pMethodIds = 0, pProtoIds = 0x1000,
       pClassDefs = 0, pLinkData = 0, pClassLookup = 0, pRegisterMapPool = 0, baseAddr = 0x1000\<rparr>,
     da_code = some_code, da_class = Literal ''LA;'', da_protoIdx = 0, da_accessFlags = 8,
     da_posCb = Some (\<lambda>c ad lno. (0, c @ [unat ad])), da_localCb = Some (\<lambda>c r b e n d g. c @ [unat b, unat e])\<rparr>"

definition some_ops :: "dbg_op list" where
  "some_ops = [Special 0x19, Start_Local 0 1 0, Advance_Pc 3, End_Local 0, Special 0x0e]"

lemma some_item: "debug_item some_debug [] 10 some_ops []" "never_stops some_debug"
proof -
  have w: "writeUnsignedLeb128 0 = [0]" "writeUnsignedLeb128 1 = [1]" "writeUnsignedLeb128 3 = [3]" "writeUnsignedLeb128 10 = [10]"
    by code_simp+
  have s: "dexStringById (da_file some_debug) 0 \<noteq> None" by code_simp
  have it: "dexParameterIteratorInit \<lparr>dexFile = da_file some_debug, protoIdx = da_protoIdx some_debug\<rparr> \<noteq> None" by code_simp
  have m: "mem_at (mem (da_file some_debug)) (baseAddr (da_file some_debug) + 19) = [10, 0, 0x19, 3, 0, 1, 0, 1, 3, 5, 0, 0x0e, 0]"
    by code_simp
  have c: "da_code some_debug = some_code" "is_static some_debug" "baseAddr (da_file some_debug) = 0x1000"
    by (simp_all add: some_debug_def is_static_def)
  have fl: "first_locals some_debug [] = [zero_local]" by (simp add: first_locals_def c some_code_def)
  show "debug_item some_debug [] 10 some_ops []"
    using s it m unfolding debug_item_def Let_def
    by (simp add: c some_code_def some_ops_def ops_bytes_def w fl string_ok_def type_ok_def)
  show "never_stops some_debug" by (simp add: never_stops_def some_debug_def)
qed

lemma some_advance: "ops_advance some_ops = 4"
  by (simp add: ops_advance_def some_ops_def)


lemma ranges_one_after_other:
  assumes "debug_item a ps line ops rest" "ops_advance ops \<le> unat (insnsSize (da_code a))" "ops_advance ops < 2 ^ 16"
    and "r < unat (registersSize (da_code a))"
  shows "one_after_other 0 (ranges_of r (debug_events a ps line ops))"
proof -
  let ?v = "(first_locals a ps, 0, line)"
  obtain es ls ad lno where e: "ops_exec (da_file a) ops ?v = (es, ls, ad, lno)" by (cases "ops_exec (da_file a) ops ?v") auto
  have len: "length (first_locals a ps) \<le> 2 ^ 16" "r < length (first_locals a ps)"
    using assms(4) unsigned_less [of "registersSize (da_code a)", where ?'a = nat] by (simp_all add: first_locals_length)
  have ok: "ops_ok (da_file a) ops ?v" using assms(1) by (simp add: debug_item_def Let_def)
  have n: "length ls = length (first_locals a ps)" using ops_exec_length [of "da_file a" ops ?v] by (simp add: e)
  have lok: "locals_ok (ls, ad, lno)" using ops_locals_ok [OF ok] first_locals_ok [of a ps line] assms(3) e by simp
  have "unat ad = ops_advance ops" using ops_exec_sorted [of ?v ops "da_file a"] assms(3) by (simp add: e)
  then have "one_after_other (range_from (ls, ad, lno) r) (ranges_of r (end_events ls (insnsSize (da_code a))))"
    using range_from_le [OF lok, of r] len n assms(2) by (auto simp: ranges_of_end range_from_def split: if_splits)
  from ops_range [OF ok _ _ _ first_locals_ok, of r] this len assms(3)
  have "one_after_other (range_from ?v r) (ranges_of r es @ ranges_of r (end_events ls (insnsSize (da_code a))))" by (simp add: e)
  then show ?thesis by (auto simp: debug_events_def e intro: one_after_other_mono)
qed

text \<open>Callbacks that write down what they are told.\<close>

definition logging :: "dbg_event list debug_args \<Rightarrow> bool" where
  "logging a \<longleftrightarrow> da_posCb a = Some (\<lambda>es ad lno. (0, es @ [Position ad lno])) \<and>
     da_localCb a = Some (\<lambda>es r b e n d g. es @ [Range r b e n d g])"

lemma logging_tells: "logging a \<Longrightarrow> never_stops a \<and> fold (tell a) es told = told @ es"
proof
  assume l: "logging a"
  then show "never_stops a" by (simp add: logging_def never_stops_def)
  have "tell a e c = c @ [e]" for e c using l by (cases e) (simp_all add: logging_def tell_def)
  then show "fold (tell a) es told = told @ es" by (induction es arbitrary: told) simp_all
qed

text \<open>C31. The ranges reported for a register do not overlap: each begins at or after the end of the one before, and does
  not end before it begins. Start addresses are kept in 16 bits, so this is for methods whose debug information
  stays below \<open>2\<^sup>1\<^sup>6\<close>.\<close>

theorem local_ranges_disjoint:
  assumes "debug_item a ps line ops rest" "ops_advance ops \<le> unat (insnsSize (da_code a))" "ops_advance ops < 2 ^ 16"
    and "r < unat (registersSize (da_code a))" "logging a"
  shows "\<exists>es. dexDecodeDebugInfo a [] = Some es \<and> one_after_other 0 (ranges_of r es)"
  using ranges_one_after_other [OF assms(1-4)] decode_item [OF assms(1), of "[]"] logging_tells [OF assms(5)] by simp

definition some_log :: "dbg_event list debug_args" where
  "some_log = \<lparr>da_file = da_file some_debug, da_code = some_code, da_class = Literal ''LA;'', da_protoIdx = 0, da_accessFlags = 8,
     da_posCb = Some (\<lambda>es ad lno. (0, es @ [Position ad lno])), da_localCb = Some (\<lambda>es r b e n d g. es @ [Range r b e n d g])\<rparr>"

theorem local_ranges_disjoint_witness: "\<exists>es. dexDecodeDebugInfo some_log [] = Some es \<and> one_after_other 0 (ranges_of 0 es)"
proof -
  have "debug_item some_log [] 10 some_ops []"
    using some_item(1) by (simp add: debug_item_def is_static_def first_locals_def some_log_def some_debug_def)
  then show ?thesis by (rule local_ranges_disjoint) (simp_all add: some_advance some_log_def some_code_def logging_def)
qed

text \<open>Beyond that the start of a range is reported modulo \<open>2\<^sup>1\<^sup>6\<close>: this local begins at \<open>0x10000\<close>.\<close>

lemma start_address_truncated:
  "fst (ops_exec f [Advance_Pc 0x10000, Start_Local 0 0 0, Advance_Pc 4, End_Local 0] ([zero_local], 0, lno)) =
     [Range 0 0 0x10004 (Ptr 0) (Ptr 0) (Literal [])]"
  by (simp add: live_event_def begin_local_def zero_local_def string_at_def type_at_def)

text \<open>The check of a register number lets through the number of registers, which is one too many: the interpreter then uses
  an entry behind the last.\<close>

lemma register_check_off_by_one:
  assumes "length ls = unat (registersSize (da_code a))" "op \<in> {End_Local r, Restart_Local r}" "r = ucast (registersSize (da_code a))"
  shows "debug_step a (dbg_at c (ls, ad, lno) (op_bytes op @ s)) = None"
proof -
  have r: "(ucast r :: u2) = registersSize (da_code a)" unfolding assms(3) by (rule bit_word_eqI) (simp add: bit_simps)
  have "emitLocalCbIfLive (da_localCb a) c (unat (registersSize (da_code a))) ad ls \<in> {None, Some c}"
    using assms(1) by (auto simp: emitLocalCbIfLive_def local_at_def split: option.splits)
  with assms(1,2) r show ?thesis
    by (auto simp: debug_step_def dbg_at_def end_local_def restart_local_def Let_def read_write local_at_def)
qed

text \<open>\<open>DBG_SET_FILE\<close> is followed by an index, as in the format; the interpreter leaves it in the stream, where it is
  taken for the next operation.\<close>

lemma set_file_operand_left:
  "debug_step a (dbg_at c v (DBG_SET_FILE # writeUnsignedLeb128 i @ s)) = Some (More (dbg_at c v (writeUnsignedLeb128 i @ s)))"
  by (cases v) (simp add: debug_step_def dbg_at_def)

text \<open>On a descriptor, \<open>decodeSignature\<close> advances as far as \<open>methodDescriptorNextType\<close> of \<^verbatim>\<open>DexProto.cpp\<close> does, so that
  \<open>typeLength\<close> is the length of the first type; and it returns the letter of the type.\<close>

theorem decode_signature_advances:
  assumes "methodDescriptorNextType sig = Some rest"
  shows "decodeSignature sig = Some (hd sig, rest) \<and> typeLength sig = Some (length sig - length rest)"
proof -
  obtain b s where sig: "sig = b # s" using assms by (cases sig) (auto simp: methodDescriptorNextType_def)
  have "decodeSignature sig = Some (b, rest)"
  proof (cases "b = 0x5b")
    case True
    with assms obtain c t where t: "dropWhile (\<lambda>b. b = 0x5b) s = c # t"
      "(if c \<in> set [0x42, 0x43, 0x44, 0x46, 0x49, 0x4a, 0x53, 0x5a] then Some t else if c = 0x4c then after_char 0x3b t else None) = Some rest"
      by (simp add: sig methodDescriptorNextType_def split: list.splits)
    then show ?thesis by (cases "c = 0x4c") (simp_all add: sig True decodeSignature_def Let_def split: if_splits)
  next
    case False
    with assms have "(if b \<in> set [0x42, 0x43, 0x44, 0x46, 0x49, 0x4a, 0x53, 0x5a] then Some s else if b = 0x4c then after_char 0x3b s else None) = Some rest"
      by (simp add: sig methodDescriptorNextType_def)
    then show ?thesis
      by (cases "b = 0x4c") (auto simp: sig decodeSignature_def Let_def split: if_splits)
  qed
  then show ?thesis by (simp add: typeLength_def sig)
qed

theorem decode_signature_advances_witness:
  "decodeSignature [0x5b, 0x4c, 0x41, 0x3b, 0x49] = Some (0x5b, [0x49]) \<and> typeLength [0x5b, 0x4c, 0x41, 0x3b, 0x49] = Some 4"
proof -
  have "methodDescriptorNextType [0x5b, 0x4c, 0x41, 0x3b, 0x49] = Some [0x49]" by (simp add: methodDescriptorNextType_def)
  from decode_signature_advances [OF this] show ?thesis by simp
qed

end
