(* ===== verification/DexVerify.thy ===== *)
theory DexVerify
  imports DexClass DexDebugInfo DexUtf
begin

text \<open>
  The verification of single items of \<^verbatim>\<open>jni/dalvik/libdex/DexSwapVerify.cpp\<close>: string data, debug information, class data,
  encoded values and annotations. A pointer is its distance from \<open>fileStart\<close>; \<open>vs_bytes\<close> is the memory from there on, of
  which the file is the first \<open>fileLen\<close> bytes. A verifier gives \<open>None\<close> when it reads outside the memory,
  \<open>Some None\<close> when it returns \<open>NULL\<close>, and otherwise the pointer behind the item.
\<close>

unbundle bit_operations_syntax

section \<open>Pointers and checks\<close>

record check_state =
  vs_bytes :: "u1 list"
  fileLen :: nat
  hdr_stringIdsSize :: u4
  hdr_typeIdsSize :: u4
  hdr_fieldIdsSize :: u4
  hdr_methodIdsSize :: u4
  vs_dexFile :: dex_file

type_synonym verdict = "nat option option"

definition and_then :: "'a option option \<Rightarrow> ('a \<Rightarrow> 'b option option) \<Rightarrow> 'b option option" where
  "and_then r k = (case r of None \<Rightarrow> None | Some None \<Rightarrow> Some None | Some (Some x) \<Rightarrow> k x)"

text \<open>A check that returns \<open>NULL\<close> when it fails.\<close>

definition require :: "bool \<Rightarrow> 'b option option \<Rightarrow> 'b option option" where
  "require b r = (if b then r else Some None)"

definition byte_at :: "check_state \<Rightarrow> nat \<Rightarrow> u1 option" where
  "byte_at st p = (if p < length (vs_bytes st) then Some (vs_bytes st ! p) else None)"

definition checkPtrRange :: "check_state \<Rightarrow> nat \<Rightarrow> nat \<Rightarrow> bool" where
  "checkPtrRange st start end' \<longleftrightarrow> \<not> (start > fileLen st \<or> end' < start \<or> end' > fileLen st)"

text \<open>A checked number, and \<open>NULL\<close> when it is not okay.\<close>

definition checked_leb :: "(nat option \<Rightarrow> bool \<Rightarrow> u1 list \<Rightarrow> (u4 \<times> bool \<times> u1 list) option) \<Rightarrow> check_state \<Rightarrow> nat \<Rightarrow>
    (u4 \<times> nat) option option" where
  "checked_leb rd st p =
     do { (w, okay, rest) \<leftarrow> rd (Some (fileLen st - p)) True (drop p (vs_bytes st));
       Some (if okay then Some (w, length (vs_bytes st) - length rest) else None) }"

abbreviation checked_uleb :: "check_state \<Rightarrow> nat \<Rightarrow> (u4 \<times> nat) option option" where
  "checked_uleb \<equiv> checked_leb readAndVerifyUnsignedLeb128"

abbreviation checked_sleb :: "check_state \<Rightarrow> nat \<Rightarrow> (u4 \<times> nat) option option" where
  "checked_sleb \<equiv> checked_leb readAndVerifySignedLeb128"

section \<open>String data\<close>

text \<open>One turn of the loop over the characters.\<close>

definition verify_char :: "check_state \<Rightarrow> nat \<Rightarrow> verdict" where
  "verify_char st data =
     (if data \<ge> fileLen st then Some None
      else do {
        byte1 \<leftarrow> byte_at st data;
        let hi = drop_bit 4 byte1;
        if hi = 0 then (if byte1 = 0 then Some None else Some (Some (data + 1)))
        else if hi \<le> 7 then Some (Some (data + 1))
        else if hi \<le> 0xb \<or> hi = 0xf then Some None
        else if hi = 0xe then
          do { byte2 \<leftarrow> byte_at st (data + 1);
            if byte2 AND 0xc0 \<noteq> 0x80 then Some None
            else do { byte3 \<leftarrow> byte_at st (data + 2);
              if byte3 AND 0xc0 \<noteq> 0x80 then Some None
              else
                let value = push_bit 12 (ucast byte1 AND 0x0f) OR push_bit 6 (ucast byte2 AND 0x3f) OR (ucast byte3 AND 0x3f) :: u2
                in if value < 0x800 then Some None else Some (Some (data + 3)) } }
        else
          do { byte2 \<leftarrow> byte_at st (data + 1);
            if byte2 AND 0xc0 \<noteq> 0x80 then Some None
            else
              let value = push_bit 6 (ucast byte1 AND 0x1f) OR (ucast byte2 AND 0x3f) :: u2
              in if value \<noteq> 0 \<and> value < 0x80 then Some None else Some (Some (data + 2)) } })"

fun verify_chars :: "check_state \<Rightarrow> nat \<Rightarrow> nat \<Rightarrow> verdict" where
  "verify_chars st 0 data = Some (Some data)"
| "verify_chars st (Suc n) data = and_then (verify_char st data) (verify_chars st n)"

definition intraVerifyStringDataItem :: "check_state \<Rightarrow> nat \<Rightarrow> verdict" where
  "intraVerifyStringDataItem st ptr =
     and_then (checked_uleb st ptr) (\<lambda>(utf16Size, data).
     and_then (verify_chars st (unat utf16Size) data) (\<lambda>data.
       do { b \<leftarrow> byte_at st data; if b \<noteq> 0 then Some None else Some (Some (data + 1)) }))"

section \<open>Debug information\<close>

text \<open>An index that is written with one added.\<close>

definition checked_idx_p1 :: "check_state \<Rightarrow> u4 \<Rightarrow> nat \<Rightarrow> verdict" where
  "checked_idx_p1 st limit data =
     and_then (checked_uleb st data) (\<lambda>(idx, data). require (idx = 0 \<or> idx - 1 < limit) (Some (Some data)))"

definition checked_reg :: "check_state \<Rightarrow> nat \<Rightarrow> verdict" where
  "checked_reg st data =
     and_then (checked_uleb st data) (\<lambda>(regNum, data). require (regNum < 65536) (Some (Some data)))"

fun verify_names :: "check_state \<Rightarrow> nat \<Rightarrow> nat \<Rightarrow> verdict" where
  "verify_names st 0 data = Some (Some data)"
| "verify_names st (Suc n) data = and_then (checked_idx_p1 st (hdr_stringIdsSize st) data) (verify_names st n)"

text \<open>The operands of an opcode; \<open>data\<close> points behind it.\<close>

definition verify_operands :: "check_state \<Rightarrow> u1 \<Rightarrow> nat \<Rightarrow> verdict" where
  "verify_operands st opcode data =
     (if opcode = DBG_ADVANCE_PC then and_then (checked_uleb st data) (\<lambda>(_, data). Some (Some data))
      else if opcode = DBG_ADVANCE_LINE then and_then (checked_sleb st data) (\<lambda>(_, data). Some (Some data))
      else if opcode = DBG_START_LOCAL then
        and_then (checked_reg st data) (\<lambda>data.
        and_then (checked_idx_p1 st (hdr_stringIdsSize st) data)
          (checked_idx_p1 st (hdr_stringIdsSize st)))
      else if opcode = DBG_END_LOCAL \<or> opcode = DBG_RESTART_LOCAL then checked_reg st data
      else if opcode = DBG_START_LOCAL_EXTENDED then
        and_then (checked_reg st data) (\<lambda>data.
        and_then (checked_idx_p1 st (hdr_stringIdsSize st) data) (\<lambda>data.
        and_then (checked_idx_p1 st (hdr_stringIdsSize st) data)
          (checked_idx_p1 st (hdr_stringIdsSize st))))
      else if opcode = DBG_SET_FILE then checked_idx_p1 st (hdr_stringIdsSize st) data
      else Some (Some data))"

text \<open>The numbers move the pointer forward.\<close>

lemma and_then_Some: "and_then r k = Some (Some y) \<longleftrightarrow> (\<exists>x. r = Some (Some x) \<and> k x = Some (Some y))"
  by (auto simp: and_then_def split: option.splits)

lemma require_Some: "require b r = Some (Some y) \<longleftrightarrow> b \<and> r = Some (Some y)"
  by (simp add: require_def)

lemma checked_uleb_forward:
  assumes "checked_uleb st p = Some (Some (w, q))"
  shows "p < q \<and> q \<le> fileLen st \<and> q \<le> length (vs_bytes st)"
proof -
  obtain rest where r: "readUnsignedLeb128 (drop p (vs_bytes st)) = Some (w, rest)"
    and q: "q = length (vs_bytes st) - length rest" "\<not> fileLen st - p < length (drop p (vs_bytes st)) - length rest"
    using assms
    by (auto simp: checked_leb_def readAndVerifyUnsignedLeb128_def verify_leb128_def Let_def split: Option.bind_splits if_splits)
  obtain u where u: "u \<noteq> []" "drop p (vs_bytes st) = u @ rest" using readUnsigned_shrinks [OF r] by blast
  have "length (vs_bytes st) - p = length u + length rest" using arg_cong [OF u(2), of length] by simp
  moreover have "0 < length u" using u(1) by simp
  ultimately show ?thesis using q by (simp, linarith)
qed

lemma checked_sleb_forward: "checked_sleb st p = Some (Some (w, q)) \<Longrightarrow> p < q"
proof -
  assume "checked_sleb st p = Some (Some (w, q))"
  then obtain rest where r: "readSignedLeb128 (drop p (vs_bytes st)) = Some (w, rest)" "q = length (vs_bytes st) - length rest"
    by (auto simp: checked_leb_def readAndVerifySignedLeb128_def verify_leb128_def Let_def split: Option.bind_splits if_splits)
  with readSigned_less [OF r(1)] show ?thesis by simp
qed

lemma checked_idx_forward: "checked_idx_p1 st l p = Some (Some q) \<Longrightarrow> p < q"
  using checked_uleb_forward by (fastforce simp: checked_idx_p1_def and_then_Some require_Some)

lemma checked_reg_forward: "checked_reg st p = Some (Some q) \<Longrightarrow> p < q"
  using checked_uleb_forward by (fastforce simp: checked_reg_def and_then_Some require_Some)

lemma verify_operands_forward:
  assumes "verify_operands st opcode p = Some (Some q)"
  shows "p \<le> q"
  using assms unfolding verify_operands_def
  by (auto simp: and_then_Some split: if_splits
      dest!: checked_uleb_forward checked_sleb_forward checked_idx_forward checked_reg_forward)

function verify_debug_ops :: "check_state \<Rightarrow> nat \<Rightarrow> verdict" where
  "verify_debug_ops st data =
     (case byte_at st data of
        None \<Rightarrow> None
      | Some opcode \<Rightarrow>
          if opcode = DBG_END_SEQUENCE then Some (Some (data + 1))
          else (case verify_operands st opcode (data + 1) of
              None \<Rightarrow> None
            | Some None \<Rightarrow> Some None
            | Some (Some data') \<Rightarrow> verify_debug_ops st data'))"
  by pat_completeness auto

termination
proof (relation "measure (\<lambda>(st, data). length (vs_bytes st) - data)", goal_cases)
  case (2 st data opcode r data')
  then have "data + 1 \<le> data'" using verify_operands_forward by blast
  moreover have "data < length (vs_bytes st)" using 2(1) by (simp add: byte_at_def split: if_splits)
  ultimately show ?case by simp
qed simp

declare verify_debug_ops.simps [simp del]

definition intraVerifyDebugInfoItem :: "check_state \<Rightarrow> nat \<Rightarrow> verdict" where
  "intraVerifyDebugInfoItem st ptr =
     and_then (checked_uleb st ptr) (\<lambda>(_, data).
     and_then (checked_uleb st data) (\<lambda>(parametersSize, data).
     require (\<not> parametersSize > 65536)
       (and_then (verify_names st (unat parametersSize) data) (verify_debug_ops st))))"

section \<open>Class data\<close>

definition ACC_FIELD_MASK :: u4 where "ACC_FIELD_MASK = 0x50df"
definition ACC_METHOD_MASK :: u4 where "ACC_METHOD_MASK = 0x31dff"

definition field_flags_ok :: "check_state \<Rightarrow> bool \<Rightarrow> dex_field \<Rightarrow> bool" where
  "field_flags_ok st expectStatic x \<longleftrightarrow>
     fieldIdx x < hdr_fieldIdsSize st \<and> ((field_accessFlags x AND 0x8 \<noteq> 0) = expectStatic) \<and>
     field_accessFlags x AND NOT ACC_FIELD_MASK = 0"

fun verifyFields :: "check_state \<Rightarrow> bool \<Rightarrow> dex_field list \<Rightarrow> bool" where
  "verifyFields st expectStatic [] = True"
| "verifyFields st expectStatic (x # xs) = (if \<not> field_flags_ok st expectStatic x then False else verifyFields st expectStatic xs)"

definition method_flags_ok :: "check_state \<Rightarrow> bool \<Rightarrow> dex_method \<Rightarrow> bool" where
  "method_flags_ok st expectDirect m \<longleftrightarrow>
     (let accessFlags = method_accessFlags m;
          isDirect = (accessFlags AND 0x1000a \<noteq> 0);
          expectCode = (accessFlags AND 0x500 = 0);
          isSynchronized = (accessFlags AND 0x20 \<noteq> 0);
          allowSynchronized = (accessFlags AND 0x100 \<noteq> 0)
      in methodIdx m < hdr_methodIdsSize st \<and> isDirect = expectDirect \<and>
         \<not> (accessFlags AND NOT ACC_METHOD_MASK \<noteq> 0 \<or> (isSynchronized \<and> \<not> allowSynchronized)) \<and>
         (if expectCode then codeOff m \<noteq> 0 else codeOff m = 0))"

fun verifyMethods :: "check_state \<Rightarrow> bool \<Rightarrow> dex_method list \<Rightarrow> bool" where
  "verifyMethods st expectDirect [] = True"
| "verifyMethods st expectDirect (m # ms) = (if \<not> method_flags_ok st expectDirect m then False else verifyMethods st expectDirect ms)"

text \<open>The result for the instance fields is not assigned to \<open>okay\<close>.\<close>

definition verifyClassDataItem0 :: "check_state \<Rightarrow> class_data \<Rightarrow> bool" where
  "verifyClassDataItem0 st cd =
     (let okay = verifyFields st True (staticFields cd) in
      if \<not> okay then False
      else
        let _ = verifyFields st False (instanceFields cd) in
        if \<not> okay then False
        else
          let okay = verifyMethods st True (directMethods cd) in
          if \<not> okay then False else let okay = verifyMethods st False (virtualMethods cd) in okay)"

definition intraVerifyClassDataItem :: "(u4 \<Rightarrow> bool) \<Rightarrow> check_state \<Rightarrow> nat \<Rightarrow> verdict" where
  "intraVerifyClassDataItem alloc st ptr =
     do { (classData, data) \<leftarrow>
         dexReadAndVerifyClassData alloc (Some (length (vs_bytes st) - fileLen st)) (Some (drop ptr (vs_bytes st)));
       case classData of
         None \<Rightarrow> Some None
       | Some cd \<Rightarrow> if \<not> verifyClassDataItem0 st cd then Some None
           else Some (map_option (\<lambda>rest. length (vs_bytes st) - length rest) data) }"

section \<open>Encoded values\<close>

fun read_le :: "check_state \<Rightarrow> nat \<Rightarrow> nat \<Rightarrow> nat \<Rightarrow> u4 \<Rightarrow> u4 option" where
  "read_le st data 0 i result = Some result"
| "read_le st data (Suc n) i result =
     do { b \<leftarrow> byte_at st data; read_le st (data + 1) n (i + 1) (result OR push_bit (i * 8) (ucast b)) }"

text \<open>The range check returns 0 from the function, which is its result, and leaves the pointer.\<close>

definition readUnsignedLittleEndian :: "check_state \<Rightarrow> nat \<Rightarrow> nat \<Rightarrow> (u4 \<times> nat) option" where
  "readUnsignedLittleEndian st data size' =
     (if \<not> checkPtrRange st data (data + size') then Some (0, data)
      else map_option (\<lambda>w. (w, data + size')) (read_le st data size' 0 0))"

text \<open>The loops over the elements of an array and of an annotation, given the verification of a value.\<close>

fun verify_items :: "(nat \<Rightarrow> verdict) \<Rightarrow> nat \<Rightarrow> nat \<Rightarrow> verdict" where
  "verify_items value 0 data = Some (Some data)"
| "verify_items value (Suc n) data = and_then (value data) (verify_items value n)"

definition verifyEncodedArray :: "(nat \<Rightarrow> verdict) \<Rightarrow> check_state \<Rightarrow> nat \<Rightarrow> verdict" where
  "verifyEncodedArray value st data =
     and_then (checked_uleb st data) (\<lambda>(size', data). verify_items value (unat size') data)"

definition class_type :: "check_state \<Rightarrow> u4 \<Rightarrow> bool option" where
  "class_type st idx =
     do { p \<leftarrow> dexStringByTypeIdx (vs_dexFile st) idx; dexIsClassDescriptor (mem_at (mem (vs_dexFile st)) p) }"

definition member_name :: "check_state \<Rightarrow> u4 \<Rightarrow> bool option" where
  "member_name st idx =
     do { p \<leftarrow> dexStringById (vs_dexFile st) idx; dexIsValidMemberName (mem_at (mem (vs_dexFile st)) p) }"

fun verify_elements :: "(nat \<Rightarrow> verdict) \<Rightarrow> check_state \<Rightarrow> bool \<Rightarrow> nat \<Rightarrow> u4 option \<Rightarrow> nat \<Rightarrow> verdict" where
  "verify_elements value st crossVerify 0 lastIdx data = Some (Some data)"
| "verify_elements value st crossVerify (Suc n) lastIdx data =
     and_then (checked_uleb st data) (\<lambda>(idx, data).
     require (idx < hdr_stringIdsSize st)
       (do { named \<leftarrow> if crossVerify then member_name st idx else Some True;
         require (named \<and> (case lastIdx of None \<Rightarrow> True | Some l \<Rightarrow> \<not> l \<ge> idx))
           (and_then (value data) (verify_elements value st crossVerify n (Some idx))) }))"

definition verifyEncodedAnnotation :: "(nat \<Rightarrow> verdict) \<Rightarrow> check_state \<Rightarrow> bool \<Rightarrow> nat \<Rightarrow> verdict" where
  "verifyEncodedAnnotation value st crossVerify data =
     and_then (checked_uleb st data) (\<lambda>(idx, data).
     require (idx < hdr_typeIdsSize st)
       (do { isClass \<leftarrow> if crossVerify then class_type st idx else Some True;
         require isClass
           (and_then (checked_uleb st data) (\<lambda>(size', data). verify_elements value st crossVerify (unat size') None data)) }))"

definition verify_index :: "check_state \<Rightarrow> u4 \<Rightarrow> nat \<Rightarrow> nat \<Rightarrow> verdict" where
  "verify_index st limit valueArg data =
     require (\<not> valueArg > 3)
       (do { (idx, data) \<leftarrow> readUnsignedLittleEndian st data (valueArg + 1); require (idx < limit) (Some (Some data)) })"

text \<open>The \<open>switch\<close>; \<open>data\<close> points behind the header byte.\<close>

definition verify_by_type :: "(nat \<Rightarrow> verdict) \<Rightarrow> check_state \<Rightarrow> bool \<Rightarrow> u1 \<Rightarrow> nat \<Rightarrow> nat \<Rightarrow> verdict" where
  "verify_by_type value st crossVerify valueType valueArg data =
     (if valueType = 0 then require (valueArg = 0) (Some (Some (data + 1)))
      else if valueType = 2 \<or> valueType = 3 then require (\<not> valueArg > 1) (Some (Some (data + (valueArg + 1))))
      else if valueType = 4 \<or> valueType = 0x10 then require (\<not> valueArg > 3) (Some (Some (data + (valueArg + 1))))
      else if valueType = 6 \<or> valueType = 0x11 then Some (Some (data + (valueArg + 1)))
      else if valueType = 0x17 then verify_index st (hdr_stringIdsSize st) valueArg data
      else if valueType = 0x18 then verify_index st (hdr_typeIdsSize st) valueArg data
      else if valueType = 0x19 \<or> valueType = 0x1b then verify_index st (hdr_fieldIdsSize st) valueArg data
      else if valueType = 0x1a then verify_index st (hdr_methodIdsSize st) valueArg data
      else if valueType = 0x1c then require (valueArg = 0) (verifyEncodedArray value st data)
      else if valueType = 0x1d then require (valueArg = 0) (verifyEncodedAnnotation value st crossVerify data)
      else if valueType = 0x1e then require (valueArg = 0) (Some (Some data))
      else if valueType = 0x1f then require (\<not> valueArg > 1) (Some (Some data))
      else Some None)"

text \<open>The first argument bounds the depth of the nesting.\<close>

fun verify_value :: "nat \<Rightarrow> check_state \<Rightarrow> bool \<Rightarrow> nat \<Rightarrow> verdict" where
  "verify_value 0 st crossVerify data = None"
| "verify_value (Suc d) st crossVerify data =
     require (checkPtrRange st data (data + 1))
       (do { headerByte \<leftarrow> byte_at st data;
         verify_by_type (verify_value d st crossVerify) st crossVerify (headerByte AND 0x1f) (unat (drop_bit 5 headerByte)) (data + 1) })"

definition verifyEncodedValue :: "check_state \<Rightarrow> bool \<Rightarrow> nat \<Rightarrow> verdict" where
  "verifyEncodedValue st crossVerify data = verify_value (length (vs_bytes st) + 1) st crossVerify data"

definition intraVerifyEncodedArrayItem :: "check_state \<Rightarrow> nat \<Rightarrow> verdict" where
  "intraVerifyEncodedArrayItem st ptr = verifyEncodedArray (verifyEncodedValue st False) st ptr"

definition intraVerifyAnnotationItem :: "check_state \<Rightarrow> nat \<Rightarrow> verdict" where
  "intraVerifyAnnotationItem st ptr =
     require (checkPtrRange st ptr (ptr + 1))
       (do { visibility \<leftarrow> byte_at st ptr;
         require (visibility \<in> {0, 1, 2}) (verifyEncodedAnnotation (verifyEncodedValue st False) st False (ptr + 1)) })"

definition crossVerifyAnnotationItem :: "check_state \<Rightarrow> nat \<Rightarrow> verdict" where
  "crossVerifyAnnotationItem st ptr = verifyEncodedAnnotation (verifyEncodedValue st True) st True (ptr + 1)"

subsection \<open>The depth\<close>

lemma read_le_forward: "readUnsignedLittleEndian st p n = Some (w, q) \<Longrightarrow> p \<le> q"
  by (auto simp: readUnsignedLittleEndian_def split: if_splits)

lemma verify_items_forward:
  "(\<And>p q. value p = Some (Some q) \<Longrightarrow> p < q) \<Longrightarrow> verify_items value n p = Some (Some q) \<Longrightarrow> p \<le> q"
  by (induction n arbitrary: p) (fastforce simp: and_then_Some)+

lemma verify_elements_forward:
  "(\<And>p q. value p = Some (Some q) \<Longrightarrow> p < q) \<Longrightarrow> verify_elements value st c n l p = Some (Some q) \<Longrightarrow> p \<le> q"
proof (induction n arbitrary: p l)
  case (Suc n)
  from Suc.prems(2) obtain idx p1 p2 where "checked_uleb st p = Some (Some (idx, p1))" "value p1 = Some (Some p2)"
    "verify_elements value st c n (Some idx) p2 = Some (Some q)"
    by (auto simp: and_then_Some require_Some split: Option.bind_splits if_splits)
  with Suc.IH [OF Suc.prems(1) this(3)] Suc.prems(1) [OF this(2)] checked_uleb_forward show ?case by fastforce
qed simp

lemma verifyEncodedArray_forward:
  "(\<And>p q. value p = Some (Some q) \<Longrightarrow> p < q) \<Longrightarrow> verifyEncodedArray value st p = Some (Some q) \<Longrightarrow> p < q"
  by (auto simp: verifyEncodedArray_def and_then_Some dest!: checked_uleb_forward verify_items_forward [rotated])

lemma verifyEncodedAnnotation_forward:
  "(\<And>p q. value p = Some (Some q) \<Longrightarrow> p < q) \<Longrightarrow> verifyEncodedAnnotation value st c p = Some (Some q) \<Longrightarrow> p < q"
  by (auto simp: verifyEncodedAnnotation_def and_then_Some require_Some split: Option.bind_splits if_splits
      dest!: checked_uleb_forward verify_elements_forward [rotated])

lemma verify_index_forward: "verify_index st l n p = Some (Some q) \<Longrightarrow> p \<le> q"
  by (auto simp: verify_index_def require_Some split: Option.bind_splits dest!: read_le_forward)

lemma verify_by_type_forward:
  assumes "\<And>p q. value p = Some (Some q) \<Longrightarrow> p < q" "verify_by_type value st c t n p = Some (Some q)"
  shows "p \<le> q"
  using assms(2) verify_index_forward [of st _ n p q] verifyEncodedArray_forward [of "value" st p q, OF assms(1)]
    verifyEncodedAnnotation_forward [of "value" st c p q, OF assms(1)]
  unfolding verify_by_type_def by (auto simp: require_Some split: if_splits)

lemma verify_value_forward: "verify_value d st c p = Some (Some q) \<Longrightarrow> p < q"
proof (induction d arbitrary: p q)
  case (Suc d)
  then obtain b where "verify_by_type (verify_value d st c) st c (b AND 0x1f) (unat (drop_bit 5 b)) (p + 1) = Some (Some q)"
    by (auto simp: require_Some split: Option.bind_splits)
  from verify_by_type_forward [OF Suc.IH this] show ?case by simp
qed simp

text \<open>A depth of as many levels as there are bytes left is never reached.\<close>

lemma verify_items_cong:
  assumes "\<And>q. p \<le> q \<Longrightarrow> value q = value' q" "\<And>p q. value p = Some (Some q) \<Longrightarrow> p < q"
  shows "verify_items value n p = verify_items value' n p"
  using assms(1)
proof (induction n arbitrary: p)
  case (Suc n)
  have "verify_items value n q = verify_items value' n q" if "value p = Some (Some q)" for q
    using assms(2) [OF that] Suc.prems by (intro Suc.IH) simp
  with Suc.prems [of p] show ?case by (auto simp: and_then_def split: option.splits)
qed simp

lemma verify_elements_cong:
  assumes "\<And>q. p \<le> q \<Longrightarrow> value q = value' q" "\<And>p q. value p = Some (Some q) \<Longrightarrow> p < q"
  shows "verify_elements value st c n l p = verify_elements value' st c n l p"
  using assms(1)
proof (induction n arbitrary: p l)
  case (Suc n)
  have "and_then (value q) (verify_elements value st c n (Some i)) = and_then (value' q) (verify_elements value' st c n (Some i))"
    if "checked_uleb st p = Some (Some (i, q))" for i q
  proof -
    have "p \<le> q" using checked_uleb_forward [OF that] by simp
    moreover from this have "verify_elements value st c n (Some i) r = verify_elements value' st c n (Some i) r" if "value q = Some (Some r)" for r
      using assms(2) [OF that] Suc.prems by (intro Suc.IH) simp
    ultimately show ?thesis using Suc.prems [of q] by (auto simp: and_then_def split: option.splits)
  qed
  then show ?case by (auto simp: and_then_def [of "checked_uleb st p"] split: option.splits)
qed simp

lemma verify_by_type_cong:
  assumes "\<And>q. p \<le> q \<Longrightarrow> value q = value' q" "\<And>p q. value p = Some (Some q) \<Longrightarrow> p < q"
  shows "verify_by_type value st c t n p = verify_by_type value' st c t n p"
proof -
  have "verifyEncodedArray value st p = verifyEncodedArray value' st p"
    using checked_uleb_forward [of st p] verify_items_cong [of _ "value" "value'", OF assms(1) assms(2)]
    by (fastforce simp: verifyEncodedArray_def and_then_def split: option.splits)
  moreover have "verifyEncodedAnnotation value st c p = verifyEncodedAnnotation value' st c p"
  proof -
    have "verify_elements value st c k l r = verify_elements value' st c k l r"
      if "checked_uleb st p = Some (Some (i, q))" "checked_uleb st q = Some (Some (j, r))" for i j k l q r
      using checked_uleb_forward [OF that(1)] checked_uleb_forward [OF that(2)] assms
      by (intro verify_elements_cong) auto
    then have "and_then (checked_uleb st q) (\<lambda>(k, r). verify_elements value st c (unat k) None r) =
        and_then (checked_uleb st q) (\<lambda>(k, r). verify_elements value' st c (unat k) None r)"
      if "checked_uleb st p = Some (Some (i, q))" for i q
      using that by (auto simp: and_then_def split: option.splits)
    then show ?thesis by (auto simp: verifyEncodedAnnotation_def and_then_def [of "checked_uleb st p"] split: option.splits)
  qed
  ultimately show ?thesis by (simp add: verify_by_type_def)
qed

lemma verify_value_depth:
  "length (vs_bytes st) < p + d \<Longrightarrow> length (vs_bytes st) < p + e \<Longrightarrow> 0 < d \<Longrightarrow> 0 < e \<Longrightarrow> verify_value d st c p = verify_value e st c p"
proof (induction d arbitrary: e p)
  case (Suc d)
  then obtain e' where e: "e = Suc e'" by (cases e) auto
  show ?case
  proof (cases "p < length (vs_bytes st)")
    case True
    then have "verify_value d st c q = verify_value e' st c q" if "p + 1 \<le> q" for q
      using Suc.prems e that by (intro Suc.IH) simp_all
    then have "verify_by_type (verify_value d st c) st c t n (p + 1) = verify_by_type (verify_value e' st c) st c t n (p + 1)" for t n
      by (rule verify_by_type_cong) (auto intro: verify_value_forward)
    then show ?thesis by (simp add: e)
  qed (simp add: e byte_at_def)
qed simp

section \<open>Strings\<close>

text \<open>The bytes from a pointer on.\<close>

lemma byte_at_drop: "drop p (vs_bytes st) = b # s \<Longrightarrow> byte_at st p = Some b \<and> drop (p + 1) (vs_bytes st) = s"
  using nth_via_drop [of p "vs_bytes st" b s] by (auto simp: byte_at_def drop_Suc drop_tl not_less split: if_splits)

lemma byte_at_Some: "byte_at st p = Some b \<Longrightarrow> drop p (vs_bytes st) = b # drop (p + 1) (vs_bytes st)"
  by (auto simp: byte_at_def Cons_nth_drop_Suc split: if_splits)

lemma drop_more: "drop p xs = ys @ zs \<Longrightarrow> drop (p + length ys) xs = zs"
  by (metis add.commute append_eq_conv_conj drop_drop)

lemma checked_uleb_written:
  assumes "drop p (vs_bytes st) = writeUnsignedLeb128 w @ s" "p + length (writeUnsignedLeb128 w) \<le> fileLen st"
  shows "checked_uleb st p = Some (Some (w, p + length (writeUnsignedLeb128 w)))"
proof -
  have b: "before_limit (Some (length (vs_bytes st) - fileLen st)) s" and len: "length (vs_bytes st) = p + length (writeUnsignedLeb128 w) + length s"
  proof -
    have "length (vs_bytes st) - p = length (writeUnsignedLeb128 w) + length s" using arg_cong [OF assms(1), of length] by simp
    moreover have "0 < length (writeUnsignedLeb128 w)" using uleb.enc_nonempty [of w] by simp
    ultimately show "length (vs_bytes st) = p + length (writeUnsignedLeb128 w) + length s" by linarith
    with assms(2) show "before_limit (Some (length (vs_bytes st) - fileLen st)) s" by (simp add: before_limit_def)
  qed
  obtain bs where bs: "writeUnsignedLeb128 w @ s = bs @ s" "clean bs w" using readUnsigned_consumes [OF read_write] by blast
  then have "bs = leb_bytes (unsignedLeb128Size w) w" by (simp add: write_leb_bytes)
  with bs(2) have "\<not> (length bs = 5 \<and> 0x0f < bs ! 4)" by (auto simp: clean_def)
  with bs len assms(2) show ?thesis
    by (auto simp: checked_leb_def readAndVerifyUnsignedLeb128_def verify_leb128_def Let_def assms(1) read_write nth_append)
qed

subsection \<open>Characters\<close>

lemma bit_nat: "bit (b :: u1) n \<longleftrightarrow> odd (unat b div 2 ^ n)"
proof -
  have "bit b n \<longleftrightarrow> bit (unat b) n" by (simp add: bit_unsigned_iff)
  then show ?thesis unfolding bit_iff_odd [of "unat b" n] .
qed

lemma byte_classes:
  fixes b :: u1
  shows "drop_bit 4 b \<le> 7 \<longleftrightarrow> \<not> bit b 7"
    and "drop_bit 4 b = 0 \<Longrightarrow> \<not> bit b 7"
    and "drop_bit 4 b = 0xe \<longleftrightarrow> bit b 7 \<and> bit b 6 \<and> bit b 5 \<and> \<not> bit b 4"
    and "bit b 7 \<Longrightarrow> drop_bit 4 b \<le> 0xb \<or> drop_bit 4 b = 0xf \<longleftrightarrow> \<not> bit b 6 \<or> bit b 5 \<and> bit b 4"
proof -
  define h where "h = unat (drop_bit 4 b)"
  have n: "unat b < 256" using unsigned_less [of b, where ?'a = nat] by simp
  have d: "h = unat b div 16" by (simp add: h_def drop_bit_eq_div unat_div)
  with n have h: "h < 16" by simp
  have "bit b (4 + k) \<longleftrightarrow> odd (h div 2 ^ k)" for k
    using bit_nat [of "drop_bit 4 b" k] by (simp add: bit_drop_bit_eq h_def)
  from this [of 0] this [of 1] this [of 2] this [of 3]
  have bits: "bit b 4 \<longleftrightarrow> odd h" "bit b 5 \<longleftrightarrow> odd (h div 2)" "bit b 6 \<longleftrightarrow> odd (h div 4)" "bit b 7 \<longleftrightarrow> odd (h div 8)" by simp_all
  have hi: "drop_bit 4 b \<le> w \<longleftrightarrow> h \<le> unat w" "drop_bit 4 b = w \<longleftrightarrow> h = unat w" for w
    by (simp_all add: h_def word_le_nat_alt word_unat_eq_iff)
  have "\<forall>h\<in>set [0..<16 :: nat]. (h \<le> 7 \<longleftrightarrow> even (h div 8)) \<and> (h = 14 \<longleftrightarrow> odd (h div 8) \<and> odd (h div 4) \<and> odd (h div 2) \<and> even h) \<and>
      (odd (h div 8) \<longrightarrow> (h \<le> 11 \<or> h = 15 \<longleftrightarrow> even (h div 4) \<or> odd (h div 2) \<and> odd h))"
    by code_simp
  then have all: "(h \<le> 7 \<longleftrightarrow> even (h div 8)) \<and> (h = 14 \<longleftrightarrow> odd (h div 8) \<and> odd (h div 4) \<and> odd (h div 2) \<and> even h) \<and>
      (odd (h div 8) \<longrightarrow> (h \<le> 11 \<or> h = 15 \<longleftrightarrow> even (h div 4) \<or> odd (h div 2) \<and> odd h))"
    using h by simp
  show "drop_bit 4 b \<le> 7 \<longleftrightarrow> \<not> bit b 7" using all unfolding hi bits by simp
  show "drop_bit 4 b = 0 \<Longrightarrow> \<not> bit b 7" using all unfolding hi bits by simp
  show "drop_bit 4 b = 0xe \<longleftrightarrow> bit b 7 \<and> bit b 6 \<and> bit b 5 \<and> \<not> bit b 4" using all unfolding hi bits by simp
  show "bit b 7 \<Longrightarrow> drop_bit 4 b \<le> 0xb \<or> drop_bit 4 b = 0xf \<longleftrightarrow> \<not> bit b 6 \<or> bit b 5 \<and> bit b 4"
    using all unfolding hi bits by simp
qed

lemma continuation: "(b :: u1) AND 0xc0 = 0x80 \<longleftrightarrow> bit b 7 \<and> \<not> bit b 6"
proof
  assume eq: "b AND 0xc0 = 0x80"
  have "bit (b AND 0xc0) 7 = bit (0x80 :: u1) 7" "bit (b AND 0xc0) 6 = bit (0x80 :: u1) 6" by (simp_all only: eq)
  then show "bit b 7 \<and> \<not> bit b 6" by (simp add: bit_simps utf_bits bit_80)
next
  assume "bit b 7 \<and> \<not> bit b 6"
  then show "b AND 0xc0 = 0x80" by (intro bit_word_eqI) (auto simp: bit_simps utf_bits bit_80)
qed

text \<open>The bytes of a character are those of the value that is computed from them.\<close>

lemma less_8: "n < 8 \<longleftrightarrow> n \<in> {0, 1, 2, 3, 4, 5, 6, 7 :: nat}"
  by auto

lemma small_u2: "(\<And>n. bit (u :: u2) n \<Longrightarrow> n < k) \<Longrightarrow> k < 16 \<Longrightarrow> unat u < 2 ^ k"
proof -
  assume "\<And>n. bit u n \<Longrightarrow> n < k" "k < 16"
  then have "take_bit k u = u" by (intro bit_word_eqI) (auto simp: bit_simps)
  then have "unat u = take_bit k (unat u)" by (metis unsigned_take_bit_eq)
  then show ?thesis by (metis take_bit_nat_less_exp)
qed

lemma char_bytes_1:
  assumes "b \<noteq> 0" "\<not> bit (b :: u1) 7"
  shows "utf8_bytes (ucast b) = [b]"
proof -
  let ?u = "ucast b :: u2"
  have "unat ?u < 2 ^ 7"
  proof (rule small_u2)
    show "n < 7" if "bit ?u n" for n
      using that assms(2) bit_imp_le_length [of b n] by (cases "n = 7") (auto simp: bit_simps)
  qed simp
  then have "\<not> 0x7f < ?u" by (simp add: word_less_nat_alt)
  moreover have "(ucast ?u :: u1) = b" by (rule bit_word_eqI) (simp add: bit_simps)
  moreover from this assms(1) have "?u \<noteq> 0" by auto
  ultimately show ?thesis by (simp add: utf8_bytes_def)
qed

lemma char_bytes_2:
  fixes a b :: u1
  defines "v \<equiv> push_bit 6 (ucast a AND 0x1f) OR (ucast b AND 0x3f) :: u2"
  assumes a: "bit a 7" "bit a 6" "\<not> bit a 5" and b: "bit b 7" "\<not> bit b 6" and v: "v = 0 \<or> \<not> v < 0x80"
  shows "utf8_bytes v = [a, b]"
proof -
  have m: "(x :: u2) AND 0x1f = take_bit 5 x" "(x :: u2) AND 0x3f = take_bit 6 x" for x
    by (simp_all add: take_bit_eq_mask mask_eq_exp_minus_1)
  have "unat v < 2 ^ 11"
    by (rule small_u2) (auto simp: v_def m bit_simps)
  then have "\<not> 0x7ff < v" by (simp add: word_less_nat_alt)
  moreover have "v = 0 \<or> 0x7f < v" using v by (auto simp: word_less_nat_alt)
  moreover have "(ucast (drop_bit 6 v OR 0xc0) :: u1) = a"
  proof (rule bit_word_eqI)
    fix n assume "n < LENGTH(8)"
    then have "n \<in> {0, 1, 2, 3, 4, 5, 6, 7}" by (simp add: less_8)
    then show "bit (ucast (drop_bit 6 v OR 0xc0) :: u1) n = bit a n"
      using a by (auto simp: v_def m bit_simps utf_bits)
  qed
  moreover have "(ucast ((v AND 0x3f) OR 0x80) :: u1) = b"
  proof (rule bit_word_eqI)
    fix n assume "n < LENGTH(8)"
    then have "n \<in> {0, 1, 2, 3, 4, 5, 6, 7}" by (simp add: less_8)
    then show "bit (ucast ((v AND 0x3f) OR 0x80) :: u1) n = bit b n"
      using b by (auto simp: v_def m bit_simps bit_80)
  qed
  ultimately show ?thesis by (auto simp: utf8_bytes_def)
qed

lemma char_bytes_3:
  fixes a b c :: u1
  defines "v \<equiv> push_bit 12 (ucast a AND 0x0f) OR push_bit 6 (ucast b AND 0x3f) OR (ucast c AND 0x3f) :: u2"
  assumes a: "bit a 7" "bit a 6" "bit a 5" "\<not> bit a 4" and b: "bit b 7" "\<not> bit b 6" and c: "bit c 7" "\<not> bit c 6" and v: "\<not> v < 0x800"
  shows "utf8_bytes v = [a, b, c]"
proof -
  have m: "(x :: u2) AND 0x0f = take_bit 4 x" "(x :: u2) AND 0x3f = take_bit 6 x" for x
    by (simp_all add: take_bit_eq_mask mask_eq_exp_minus_1)
  have v1: "0x7ff < v" using v by (simp add: word_less_nat_alt)
  have v2: "0x7f < v" using v by (simp add: word_less_nat_alt)
  have ea: "(ucast (drop_bit 12 v OR 0xe0) :: u1) = a"
  proof (rule bit_word_eqI)
    fix n assume "n < LENGTH(8)"
    then have "n \<in> {0, 1, 2, 3, 4, 5, 6, 7}" by (simp add: less_8)
    then show "bit (ucast (drop_bit 12 v OR 0xe0) :: u1) n = bit a n"
      using a by (auto simp: v_def m bit_simps utf_bits)
  qed
  have eb: "(ucast ((drop_bit 6 v AND 0x3f) OR 0x80) :: u1) = b"
  proof (rule bit_word_eqI)
    fix n assume "n < LENGTH(8)"
    then have "n \<in> {0, 1, 2, 3, 4, 5, 6, 7}" by (simp add: less_8)
    then show "bit (ucast ((drop_bit 6 v AND 0x3f) OR 0x80) :: u1) n = bit b n"
      using b by (auto simp: v_def m bit_simps bit_80)
  qed
  have ec: "(ucast ((v AND 0x3f) OR 0x80) :: u1) = c"
  proof (rule bit_word_eqI)
    fix n assume "n < LENGTH(8)"
    then have "n \<in> {0, 1, 2, 3, 4, 5, 6, 7}" by (simp add: less_8)
    then show "bit (ucast ((v AND 0x3f) OR 0x80) :: u1) n = bit c n"
      using c by (elim insertE emptyE) (simp_all add: v_def m bit_simps bit_80)
  qed
  show ?thesis by (simp only: utf8_bytes_def v1 v2 ea eb ec if_True simp_thms)
qed

lemma verify_char_sound:
  assumes "verify_char st p = Some (Some q)"
  shows "\<exists>u. drop p (vs_bytes st) = utf8_bytes u @ drop q (vs_bytes st) \<and> q = p + length (utf8_bytes u) \<and> p < fileLen st"
proof -
  obtain a where a: "byte_at st p = Some a" and p: "p < fileLen st"
    using assms by (auto simp: verify_char_def split: if_splits Option.bind_splits)
  note da = byte_at_Some [OF a]
  consider (1) "\<not> bit a 7" "a \<noteq> 0" "q = p + 1"
    | (2) b where "bit a 7" "bit a 6" "\<not> bit a 5" "byte_at st (p + 1) = Some b" "bit b 7" "\<not> bit b 6"
        "push_bit 6 (ucast a AND 0x1f) OR (ucast b AND 0x3f) = (0 :: u2) \<or> \<not> push_bit 6 (ucast a AND 0x1f) OR (ucast b AND 0x3f) < (0x80 :: u2)"
        "q = p + 2"
    | (3) b c where "bit a 7" "bit a 6" "bit a 5" "\<not> bit a 4" "byte_at st (p + 1) = Some b" "bit b 7" "\<not> bit b 6"
        "byte_at st (p + 2) = Some c" "bit c 7" "\<not> bit c 6"
        "\<not> push_bit 12 (ucast a AND 0x0f) OR push_bit 6 (ucast b AND 0x3f) OR (ucast c AND 0x3f) < (0x800 :: u2)" "q = p + 3"
  proof (cases "bit a 7")
    case False
    then have "drop_bit 4 a \<le> 7" by (simp add: byte_classes(1))
    with assms a p have "a \<noteq> 0 \<and> q = p + 1" by (auto simp: verify_char_def Let_def split: if_splits)
    with 1 False show thesis by blast
  next
    case True
    then have h: "\<not> drop_bit 4 a \<le> 7" "drop_bit 4 a \<noteq> 0" using byte_classes(1,2) by blast+
    have r: "bit a 6 \<and> \<not> (bit a 5 \<and> bit a 4)"
      using assms a p h byte_classes(4) [OF True] by (auto simp: verify_char_def Let_def split: if_splits)
    then have nr: "\<not> (drop_bit 4 a \<le> 0xb \<or> drop_bit 4 a = 0xf)" using byte_classes(4) [OF True] by blast
    show thesis
    proof (cases "bit a 5")
      case T5: True
      then have e: "drop_bit 4 a = 0xe" using True r byte_classes(3) by blast
      show thesis
        using assms a p e T5 True r 3 unfolding verify_char_def Let_def
        by (simp add: continuation split: Option.bind_splits if_splits)
    next
      case F5: False
      then have e: "drop_bit 4 a \<noteq> 0xe" using byte_classes(3) by blast
      show thesis
        using assms a p e nr h F5 True r 2 unfolding verify_char_def Let_def
        by (auto simp: continuation split: Option.bind_splits if_splits)
    qed
  qed
  then show ?thesis
  proof cases
    case 1
    with da p show ?thesis by (intro exI [of _ "ucast a"]) (simp add: char_bytes_1)
  next
    case (2 b)
    with da p byte_at_Some [OF 2(4)] char_bytes_2 [OF 2(1-3) 2(5-7)] show ?thesis
      by (intro exI [of _ "push_bit 6 (ucast a AND 0x1f) OR (ucast b AND 0x3f)"]) simp
  next
    case (3 b c)
    with da p byte_at_Some [OF 3(5)] byte_at_Some [OF 3(8)] char_bytes_3 [OF 3(1-4) 3(6,7) 3(9-11)] show ?thesis
      by (intro exI [of _ "push_bit 12 (ucast a AND 0x0f) OR push_bit 6 (ucast b AND 0x3f) OR (ucast c AND 0x3f)"])
        (simp add: numeral_3_eq_3)
  qed
qed

lemma char_bits:
  "n < 6 \<or> (\<exists>k. n = 6 + k \<and> k < 5) \<or> \<not> n < (11 :: nat)"
  "n < 16 \<Longrightarrow> n < 6 \<or> (\<exists>k. n = 6 + k \<and> k < 6) \<or> (\<exists>k. n = 12 + k \<and> k < (4 :: nat))"
  by presburger+

lemma verify_char_complete:
  assumes "drop p (vs_bytes st) = utf8_bytes u @ s" "p < fileLen st"
  shows "verify_char st p = Some (Some (p + length (utf8_bytes u)))"
proof -
  have m: "(x :: u2) AND 0x0f = take_bit 4 x" "(x :: u2) AND 0x1f = take_bit 5 x" "(x :: u2) AND 0x3f = take_bit 6 x" for x
    by (simp_all add: take_bit_eq_mask mask_eq_exp_minus_1)
  consider (1) "u \<noteq> 0" "\<not> 0x7f < u" | (2) "u = 0 \<or> 0x7f < u" "\<not> 0x7ff < u" | (3) "0x7ff < u" by blast
  then show ?thesis
  proof cases
    case 1
    let ?a = "ucast u :: u1"
    have b: "utf8_bytes u = [?a]" using 1 by (simp add: utf8_bytes_def)
    have a: "byte_at st p = Some ?a" using byte_at_drop [of p st ?a s] assms(1) b by simp
    have "\<not> bit ?a 7" using high_bits(1) [OF 1(2), of 7] by (auto simp: bit_simps)
    then have h: "drop_bit 4 ?a \<le> 7" by (simp add: byte_classes(1))
    have "?a \<noteq> 0" using utf8_bytes_nonzero [of u] b by simp
    with a h b assms(2) show ?thesis by (simp add: verify_char_def Let_def)
  next
    case 2
    let ?a = "ucast (drop_bit 6 u OR 0xc0) :: u1" and ?b = "ucast ((u AND 0x3f) OR 0x80) :: u1"
    have bs: "utf8_bytes u = [?a, ?b]" unfolding utf8_bytes_def using 2 by simp
    have d: "byte_at st p = Some ?a" "drop (p + 1) (vs_bytes st) = ?b # s"
      using byte_at_drop [of p st ?a "?b # s"] assms(1) bs by simp_all
    have d2: "byte_at st (p + 1) = Some ?b" using byte_at_drop [OF d(2)] by simp
    have ba: "bit ?a 7" "bit ?a 6" "\<not> bit ?a 5"
      using high_bits(2) [OF 2(2), of 11] by (auto simp: bit_simps utf_bits)
    then have h: "\<not> drop_bit 4 ?a \<le> 7" "drop_bit 4 ?a \<noteq> 0" "\<not> (drop_bit 4 ?a \<le> 0xb \<or> drop_bit 4 ?a = 0xf)" "drop_bit 4 ?a \<noteq> 0xe"
      using byte_classes [of ?a] by blast+
    have bb: "?b AND 0xc0 = 0x80" unfolding continuation by (simp add: m bit_simps bit_80)
    have v: "push_bit 6 (ucast ?a AND 0x1f) OR (ucast ?b AND 0x3f) = u"
    proof (rule bit_word_eqI)
      fix n assume "n < LENGTH(16)"
      consider "n < 6" | k where "n = 6 + k" "k < 5" | "\<not> n < 11" using char_bits(1) [of n] by blast
      then show "bit (push_bit 6 (ucast ?a AND 0x1f) OR (ucast ?b AND 0x3f) :: u2) n = bit u n"
        using high_bits(2) [OF 2(2), of n] by cases (auto simp: m bit_simps utf_bits bit_80)
    qed
    have "\<not> (u \<noteq> 0 \<and> u < 0x80)" using 2(1) by (auto simp: word_less_nat_alt)
    with d(1) d2 h bb v bs assms(2) show ?thesis by (simp add: verify_char_def Let_def)
  next
    case 3
    let ?a = "ucast (drop_bit 12 u OR 0xe0) :: u1" and ?b = "ucast ((drop_bit 6 u AND 0x3f) OR 0x80) :: u1"
      and ?c = "ucast ((u AND 0x3f) OR 0x80) :: u1"
    have v7: "0x7f < u" using 3 by (simp add: word_less_nat_alt)
    have bs: "utf8_bytes u = [?a, ?b, ?c]" unfolding utf8_bytes_def using 3 v7 by simp
    have d: "byte_at st p = Some ?a" "drop (p + 1) (vs_bytes st) = ?b # ?c # s"
      using byte_at_drop [of p st ?a "?b # ?c # s"] assms(1) bs by simp_all
    have d2: "byte_at st (p + 1) = Some ?b" "drop (p + 1 + 1) (vs_bytes st) = ?c # s" using byte_at_drop [OF d(2)] by blast+
    have d3: "byte_at st (p + 2) = Some ?c" using byte_at_drop [OF d2(2)] by simp
    have "bit ?a 7" "bit ?a 6" "bit ?a 5" "\<not> bit ?a 4"
      using bit_imp_le_length [of u 16] by (auto simp: bit_simps utf_bits)
    then have h: "\<not> drop_bit 4 ?a \<le> 7" "drop_bit 4 ?a \<noteq> 0" "\<not> (drop_bit 4 ?a \<le> 0xb \<or> drop_bit 4 ?a = 0xf)" "drop_bit 4 ?a = 0xe"
      using byte_classes [of ?a] by blast+
    have cc: "?b AND 0xc0 = 0x80" "?c AND 0xc0 = 0x80" unfolding continuation by (simp_all add: m bit_simps bit_80)
    have v: "push_bit 12 (ucast ?a AND 0x0f) OR push_bit 6 (ucast ?b AND 0x3f) OR (ucast ?c AND 0x3f) = u"
    proof (rule bit_word_eqI)
      fix n assume "n < LENGTH(16)"
      then consider "n < 6" | k where "n = 6 + k" "k < 6" | k where "n = 12 + k" "k < 4" using char_bits(2) [of n] by auto
      then show "bit (push_bit 12 (ucast ?a AND 0x0f) OR push_bit 6 (ucast ?b AND 0x3f) OR (ucast ?c AND 0x3f) :: u2) n = bit u n"
        by cases (auto simp: m bit_simps utf_bits bit_80)
    qed
    have "\<not> u < 0x800" using 3 by (auto simp: word_less_nat_alt)
    with d(1) d2(1) d3 h cc v bs assms(2) show ?thesis by (simp add: verify_char_def Let_def)
  qed
qed

lemma verify_chars_sound:
  "verify_chars st n p = Some (Some q) \<Longrightarrow>
     \<exists>us. length us = n \<and> drop p (vs_bytes st) = concat (map utf8_bytes us) @ drop q (vs_bytes st) \<and> q = p + length (concat (map utf8_bytes us))"
proof (induction n arbitrary: p)
  case (Suc n)
  then obtain r where r: "verify_char st p = Some (Some r)" "verify_chars st n r = Some (Some q)" by (auto simp: and_then_Some)
  from verify_char_sound [OF r(1)] obtain u where u: "drop p (vs_bytes st) = utf8_bytes u @ drop r (vs_bytes st)" "r = p + length (utf8_bytes u)" by blast
  from Suc.IH [OF r(2)] obtain us where "length us = n" "drop r (vs_bytes st) = concat (map utf8_bytes us) @ drop q (vs_bytes st)"
    "q = r + length (concat (map utf8_bytes us))" by blast
  with u show ?case by (intro exI [of _ "u # us"]) simp
qed simp

lemma verify_chars_complete:
  "drop p (vs_bytes st) = concat (map utf8_bytes us) @ s \<Longrightarrow> p + length (concat (map utf8_bytes us)) \<le> fileLen st \<Longrightarrow>
     verify_chars st (length us) p = Some (Some (p + length (concat (map utf8_bytes us))))"
proof (induction us arbitrary: p)
  case (Cons u us)
  have "0 < length (utf8_bytes u)" using utf8.enc_nonempty [of u] by simp
  moreover have "p + length (utf8_bytes u) \<le> fileLen st" using Cons.prems(2) by simp
  ultimately have "p < fileLen st" by linarith
  then have c: "verify_char st p = Some (Some (p + length (utf8_bytes u)))"
    using Cons.prems(1) by (intro verify_char_complete [where s = "concat (map utf8_bytes us) @ s"]) simp_all
  have "drop (p + length (utf8_bytes u)) (vs_bytes st) = concat (map utf8_bytes us) @ s"
    using Cons.prems(1) by (intro drop_more) simp
  with Cons.IH [OF this] Cons.prems(2) c show ?case by (simp add: and_then_def add.assoc)
qed simp

section \<open>Written items\<close>

lemma verifyFields_all: "verifyFields st b xs \<longleftrightarrow> list_all (field_flags_ok st b) xs"
  by (induction xs) simp_all

lemma verifyMethods_all: "verifyMethods st b xs \<longleftrightarrow> list_all (method_flags_ok st b) xs"
  by (induction xs) simp_all

text \<open>The operands of the debug operations.\<close>

definition idx_p1_ok :: "check_state \<Rightarrow> u4 \<Rightarrow> bool" where
  "idx_p1_ok st i \<longleftrightarrow> i = 0 \<or> i - 1 < hdr_stringIdsSize st"

fun op_verifies :: "check_state \<Rightarrow> dbg_op \<Rightarrow> bool" where
  "op_verifies st (Advance_Line n w) \<longleftrightarrow> 1 \<le> n \<and> n \<le> 5"
| "op_verifies st (Start_Local r i t) \<longleftrightarrow> r < 65536 \<and> idx_p1_ok st i \<and> idx_p1_ok st t"
| "op_verifies st (Start_Local_Extended r i t g) \<longleftrightarrow> r < 65536 \<and> idx_p1_ok st i \<and> idx_p1_ok st t \<and> idx_p1_ok st g"
| "op_verifies st (End_Local r) \<longleftrightarrow> r < 65536"
| "op_verifies st (Restart_Local r) \<longleftrightarrow> r < 65536"
| "op_verifies st (Special b) \<longleftrightarrow> DBG_FIRST_SPECIAL \<le> b"
| "op_verifies st _ \<longleftrightarrow> True"

text \<open>What lies at a pointer, inside the file.\<close>

definition lies_at :: "check_state \<Rightarrow> nat \<Rightarrow> u1 list \<Rightarrow> bool" where
  "lies_at st p bs \<longleftrightarrow> (\<exists>s. drop p (vs_bytes st) = bs @ s) \<and> p + length bs \<le> fileLen st"

lemma lies_at_append: "lies_at st p (bs @ cs) \<Longrightarrow> lies_at st p bs \<and> lies_at st (p + length bs) cs"
  by (auto simp: lies_at_def dest: drop_more)

lemma lies_at_byte: "lies_at st p (b # bs) \<Longrightarrow> byte_at st p = Some b \<and> lies_at st (p + 1) bs \<and> p < fileLen st"
  by (auto simp: lies_at_def dest: byte_at_drop)

lemma uleb_at: "lies_at st p (writeUnsignedLeb128 w) \<Longrightarrow> checked_uleb st p = Some (Some (w, p + length (writeUnsignedLeb128 w)))"
  by (auto simp: lies_at_def intro: checked_uleb_written)

lemma idx_at: "lies_at st p (writeUnsignedLeb128 i) \<Longrightarrow> idx_p1_ok st i \<Longrightarrow>
    checked_idx_p1 st (hdr_stringIdsSize st) p = Some (Some (p + length (writeUnsignedLeb128 i)))"
  by (simp add: checked_idx_p1_def uleb_at and_then_def require_def idx_p1_ok_def)

lemma reg_at: "lies_at st p (writeUnsignedLeb128 r) \<Longrightarrow> r < 65536 \<Longrightarrow> checked_reg st p = Some (Some (p + length (writeUnsignedLeb128 r)))"
  by (simp add: checked_reg_def uleb_at and_then_def require_def)

lemma sleb_at:
  assumes "lies_at st p (leb_bytes n w)" "1 \<le> n" "n \<le> 5"
  shows "\<exists>v. checked_sleb st p = Some (Some (v, p + n))"
proof -
  obtain s where s: "drop p (vs_bytes st) = leb_bytes n w @ s" "p + n \<le> fileLen st" using assms(1) by (auto simp: lies_at_def)
  have len: "length (vs_bytes st) = p + n + length s"
    using arg_cong [OF s(1), of length] assms(2) by simp
  have "\<not> 0x0f < leb_bytes 5 w ! 4"
  proof -
    have "leb_bytes 5 w ! 4 = final (drop_bit 28 w)" by (simp add: leb_bytes_5)
    moreover have "take_bit 4 (final (drop_bit 28 w)) = final (drop_bit 28 w)"
      by (rule bit_word_eqI) (auto simp: final_def and_7f bit_simps dest: bit_imp_le_length)
    ultimately show ?thesis using and_0f [of "final (drop_bit 28 w)"] by (simp add: not_less)
  qed
  then show ?thesis
    using readSigned_bytes [OF assms(2,3), of w s] s len
    by (auto simp: checked_leb_def readAndVerifySignedLeb128_def verify_leb128_def Let_def nth_append)
qed

lemma op_verified:
  assumes "lies_at st p (op_bytes op)" "op_verifies st op"
  shows "verify_debug_ops st p = verify_debug_ops st (p + length (op_bytes op))"
proof -
  obtain b bs where b: "op_bytes op = b # bs" by (cases op) auto
  with assms(1) have at: "byte_at st p = Some b" "lies_at st (p + 1) bs" using lies_at_byte by auto
  have "verify_operands st b (p + 1) = Some (Some (p + 1 + length bs)) \<and> b \<noteq> DBG_END_SEQUENCE"
  proof (cases op)
    case (Special c)
    then have "b = c" "bs = []" "DBG_FIRST_SPECIAL \<le> c" using b assms(2) by simp_all
    with special_opcode [of c] show ?thesis by (simp add: verify_operands_def)
  next
    case (Advance_Line n w)
    then show ?thesis using b assms(2) at(2) sleb_at [of st "p + 1" n w]
      by (auto simp: verify_operands_def and_then_def)
  next
    case (Start_Local r i t)
    with b have "b = DBG_START_LOCAL" "bs = writeUnsignedLeb128 r @ writeUnsignedLeb128 i @ writeUnsignedLeb128 t" by simp_all
    moreover from this at(2) have "lies_at st (p + 1) (writeUnsignedLeb128 r)" "lies_at st (p + 1 + length (writeUnsignedLeb128 r)) (writeUnsignedLeb128 i)"
      "lies_at st (p + 1 + length (writeUnsignedLeb128 r) + length (writeUnsignedLeb128 i)) (writeUnsignedLeb128 t)"
      by (auto dest!: lies_at_append)
    ultimately show ?thesis using assms(2) Start_Local by (simp add: verify_operands_def and_then_def reg_at idx_at)
  next
    case (Start_Local_Extended r i t g)
    with b have "b = DBG_START_LOCAL_EXTENDED"
      "bs = writeUnsignedLeb128 r @ writeUnsignedLeb128 i @ writeUnsignedLeb128 t @ writeUnsignedLeb128 g" by simp_all
    moreover from this at(2) have "lies_at st (p + 1) (writeUnsignedLeb128 r)" "lies_at st (p + 1 + length (writeUnsignedLeb128 r)) (writeUnsignedLeb128 i)"
      "lies_at st (p + 1 + length (writeUnsignedLeb128 r) + length (writeUnsignedLeb128 i)) (writeUnsignedLeb128 t)"
      "lies_at st (p + 1 + length (writeUnsignedLeb128 r) + length (writeUnsignedLeb128 i) + length (writeUnsignedLeb128 t)) (writeUnsignedLeb128 g)"
      by (auto dest!: lies_at_append)
    ultimately show ?thesis using assms(2) Start_Local_Extended by (simp add: verify_operands_def and_then_def reg_at idx_at)
  qed (use b assms(2) at(2) in \<open>auto simp: verify_operands_def and_then_def uleb_at reg_at\<close>)
  with at(1) b show ?thesis by (subst verify_debug_ops.simps) simp
qed

lemma ops_verified:
  "lies_at st p (ops_bytes ops) \<Longrightarrow> list_all (op_verifies st) ops \<Longrightarrow> verify_debug_ops st p = Some (Some (p + length (ops_bytes ops)))"
proof (induction ops arbitrary: p)
  case Nil
  then have "byte_at st p = Some DBG_END_SEQUENCE" using lies_at_byte by (simp add: ops_bytes_def)
  then show ?case by (subst verify_debug_ops.simps) (simp add: ops_bytes_def)
next
  case (Cons op ops)
  have b: "ops_bytes (op # ops) = op_bytes op @ ops_bytes ops" by (simp add: ops_bytes_def)
  with Cons.prems(1) have "lies_at st p (op_bytes op)" "lies_at st (p + length (op_bytes op)) (ops_bytes ops)"
    using lies_at_append by auto
  with Cons.IH [OF this(2)] Cons.prems(2) op_verified [OF this(1)] show ?case by (simp add: b)
qed

lemma names_verified:
  "lies_at st p (concat (map writeUnsignedLeb128 is)) \<Longrightarrow> list_all (idx_p1_ok st) is \<Longrightarrow>
     verify_names st (length is) p = Some (Some (p + length (concat (map writeUnsignedLeb128 is))))"
proof (induction "is" arbitrary: p)
  case (Cons i "is")
  then have "lies_at st p (writeUnsignedLeb128 i)" "lies_at st (p + length (writeUnsignedLeb128 i)) (concat (map writeUnsignedLeb128 is))"
    using lies_at_append by auto
  with Cons.IH [OF this(2)] Cons.prems(2) show ?case by (simp add: and_then_def idx_at add.assoc)
qed simp

subsection \<open>Values\<close>

text \<open>A value: a number, an index into one of the tables of the file, an array, an annotation, nothing, or a truth
  value. A number and an index are their header byte and their bytes.\<close>

datatype enc_value =
    Number u1 "u1 list"
  | Index u1 "u1 list"
  | Elements_Of "enc_value list"
  | Annotation_Of u4 "(u4 \<times> enc_value) list"
  | Null_Value
  | Truth bool

fun value_bytes :: "enc_value \<Rightarrow> u1 list" where
  "value_bytes (Number h bs) = h # bs"
| "value_bytes (Index h bs) = h # bs"
| "value_bytes (Elements_Of vs) = 0x1c # writeUnsignedLeb128 (of_nat (length vs)) @ concat (map value_bytes vs)"
| "value_bytes (Annotation_Of t es) =
     0x1d # writeUnsignedLeb128 t @ writeUnsignedLeb128 (of_nat (length es)) @
       concat (map (\<lambda>(n, v). writeUnsignedLeb128 n @ value_bytes v) es)"
| "value_bytes Null_Value = [0x1e]"
| "value_bytes (Truth b) = [if b then 0x3f else 0x1f]"

text \<open>The number of the low bytes, the first one lowest.\<close>

fun le_number :: "nat \<Rightarrow> u1 list \<Rightarrow> u4 \<Rightarrow> u4" where
  "le_number i [] result = result"
| "le_number i (b # bs) result = le_number (i + 1) bs (result OR push_bit (i * 8) (ucast b))"

definition number_ok :: "u1 \<Rightarrow> u1 list \<Rightarrow> bool" where
  "number_ok h bs \<longleftrightarrow>
     (let t = h AND 0x1f; n = length bs in
      n = unat (drop_bit 5 h) + 1 \<and>
      (t = 0 \<and> n = 1 \<or> (t = 2 \<or> t = 3) \<and> n \<le> 2 \<or> (t = 4 \<or> t = 0x10) \<and> n \<le> 4 \<or> t = 6 \<or> t = 0x11))"

definition index_limit :: "check_state \<Rightarrow> u1 \<Rightarrow> u4" where
  "index_limit st t =
     (if t = 0x17 then hdr_stringIdsSize st else if t = 0x18 then hdr_typeIdsSize st
      else if t = 0x1a then hdr_methodIdsSize st else hdr_fieldIdsSize st)"

definition index_ok :: "check_state \<Rightarrow> u1 \<Rightarrow> u1 list \<Rightarrow> bool" where
  "index_ok st h bs \<longleftrightarrow>
     (let t = h AND 0x1f in
      t \<in> {0x17, 0x18, 0x19, 0x1a, 0x1b} \<and> length bs = unat (drop_bit 5 h) + 1 \<and> length bs \<le> 4 \<and>
      le_number 0 bs 0 < index_limit st t)"

fun value_ok :: "check_state \<Rightarrow> enc_value \<Rightarrow> bool" where
  "value_ok st (Number h bs) \<longleftrightarrow> number_ok h bs"
| "value_ok st (Index h bs) \<longleftrightarrow> index_ok st h bs"
| "value_ok st (Elements_Of vs) \<longleftrightarrow> length vs < 2 ^ 32 \<and> (\<forall>v\<in>set vs. value_ok st v)"
| "value_ok st (Annotation_Of t es) \<longleftrightarrow>
     length es < 2 ^ 32 \<and> t < hdr_typeIdsSize st \<and> sorted_wrt (<) (map fst es) \<and> (\<forall>(n, v)\<in>set es. n < hdr_stringIdsSize st \<and> value_ok st v)"
| "value_ok st Null_Value \<longleftrightarrow> True"
| "value_ok st (Truth b) \<longleftrightarrow> True"

lemma read_le_at: "lies_at st p bs \<Longrightarrow> read_le st p (length bs) i r = Some (le_number i bs r)"
proof (induction bs arbitrary: p i r)
  case (Cons b bs)
  from lies_at_byte [OF Cons.prems] Cons.IH [of "p + 1"] show ?case by simp
qed simp

lemma index_verified:
  assumes "lies_at st p bs" "index_ok st h bs"
  shows "verify_by_type value st c (h AND 0x1f) (unat (drop_bit 5 h)) p = Some (Some (p + length bs))"
proof -
  have "checkPtrRange st p (p + length bs)" using assms(1) by (simp add: checkPtrRange_def lies_at_def)
  then have "readUnsignedLittleEndian st p (length bs) = Some (le_number 0 bs 0, p + length bs)"
    using read_le_at [OF assms(1)] by (simp add: readUnsignedLittleEndian_def)
  then have "verify_index st l (unat (drop_bit 5 h)) p = Some (Some (p + length bs))" if "le_number 0 bs 0 < l" for l
    using that assms(2) by (simp add: verify_index_def require_def index_ok_def Let_def)
  then show ?thesis
    using assms(2) by (auto simp: verify_by_type_def index_ok_def index_limit_def Let_def)
qed

lemma number_verified:
  assumes "number_ok h bs"
  shows "verify_by_type value st c (h AND 0x1f) (unat (drop_bit 5 h)) p = Some (Some (p + length bs))"
  using assms by (auto simp: verify_by_type_def number_ok_def Let_def require_def)

lemma items_verified:
  assumes "lies_at st p (concat (map value_bytes vs))"
    and "\<And>v q. v \<in> set vs \<Longrightarrow> p \<le> q \<Longrightarrow> lies_at st q (value_bytes v) \<Longrightarrow> value q = Some (Some (q + length (value_bytes v)))"
  shows "verify_items value (length vs) p = Some (Some (p + length (concat (map value_bytes vs))))"
  using assms
proof (induction vs arbitrary: p)
  case (Cons v vs)
  have at: "lies_at st p (value_bytes v)" "lies_at st (p + length (value_bytes v)) (concat (map value_bytes vs))"
    using Cons.prems(1) lies_at_append [of st p "value_bytes v"] by auto
  have "verify_items value (length vs) (p + length (value_bytes v)) =
      Some (Some (p + length (value_bytes v) + length (concat (map value_bytes vs))))"
    by (rule Cons.IH [OF at(2)]) (use Cons.prems(2) in simp)
  with Cons.prems(2) [of v p] at(1) show ?case by (simp add: and_then_def add.assoc)
qed simp

lemma elements_verified:
  assumes "lies_at st p (concat (map (\<lambda>(n, v). writeUnsignedLeb128 n @ value_bytes v) es))"
    and "sorted_wrt (<) (map fst es)" "\<And>l n. prev = Some l \<Longrightarrow> n \<in> fst ` set es \<Longrightarrow> l < n"
    and "\<And>n v. (n, v) \<in> set es \<Longrightarrow> n < hdr_stringIdsSize st"
    and "\<And>n v q. (n, v) \<in> set es \<Longrightarrow> p \<le> q \<Longrightarrow> lies_at st q (value_bytes v) \<Longrightarrow> value q = Some (Some (q + length (value_bytes v)))"
  shows "verify_elements value st False (length es) prev p =
    Some (Some (p + length (concat (map (\<lambda>(n, v). writeUnsignedLeb128 n @ value_bytes v) es))))"
  using assms
proof (induction es arbitrary: p prev)
  case (Cons e es)
  obtain n v where e: "e = (n, v)" by (cases e)
  let ?n = "writeUnsignedLeb128 n" and ?v = "value_bytes v"
  let ?rest = "concat (map (\<lambda>(n, v). writeUnsignedLeb128 n @ value_bytes v) es)"
  have "lies_at st p (?n @ ?v @ ?rest)" using Cons.prems(1) by (simp add: e)
  then have at: "lies_at st p ?n" "lies_at st (p + length ?n) ?v" "lies_at st (p + length ?n + length ?v) ?rest"
    by (auto dest!: lies_at_append)
  have IH: "verify_elements value st False (length es) (Some n) (p + length ?n + length ?v) =
      Some (Some (p + length ?n + length ?v + length ?rest))"
  proof (rule Cons.IH [OF at(3)])
    show "sorted_wrt (<) (map fst es)" using Cons.prems(2) by (simp add: e)
    show "l < m" if "Some n = Some l" "m \<in> fst ` set es" for l m using that Cons.prems(2) by (auto simp: e)
    show "m < hdr_stringIdsSize st" if "(m, w) \<in> set es" for m w using that Cons.prems(4) [of m w] by simp
    show "value q = Some (Some (q + length (value_bytes w)))"
      if "(m, w) \<in> set es" "p + length ?n + length ?v \<le> q" "lies_at st q (value_bytes w)" for m w q
      using that Cons.prems(5) [of m w q] by simp
  qed
  have "value (p + length ?n) = Some (Some (p + length ?n + length ?v))"
    using Cons.prems(5) [of n v "p + length ?n"] at(2) by (simp add: e)
  moreover have "case prev of None \<Rightarrow> True | Some l \<Rightarrow> \<not> l \<ge> n" using Cons.prems(3) [of _ n] by (cases prev) (auto simp: e not_le)
  ultimately show ?case
    using IH Cons.prems(4) [of n v] uleb_at [OF at(1)] by (simp add: e and_then_def require_def add.assoc)
qed simp

lemma value_verified:
  "value_ok st v \<Longrightarrow> lies_at st p (value_bytes v) \<Longrightarrow> length (vs_bytes st) < p + d \<Longrightarrow>
     verify_value d st False p = Some (Some (p + length (value_bytes v)))"
proof (induction v arbitrary: p d)
  have start: "\<exists>d'. d = Suc d' \<and> length (vs_bytes st) < p + 1 + d' \<and> lies_at st (p + 1) bs \<and>
      verify_value d st False p = verify_by_type (verify_value d' st False) st False (b AND 0x1f) (unat (drop_bit 5 b)) (p + 1)"
    if "lies_at st p (b # bs)" "length (vs_bytes st) < p + d" for b bs p d
  proof -
    have at: "byte_at st p = Some b" "lies_at st (p + 1) bs" "p < fileLen st" using lies_at_byte [OF that(1)] by simp_all
    then have "p < length (vs_bytes st)" by (simp add: byte_at_def split: if_splits)
    with that(2) obtain d' where "d = Suc d'" by (cases d) auto
    with at that(2) show ?thesis by (simp add: require_def checkPtrRange_def)
  qed
  {
    case (Number h bs)
    then show ?case using start [of p h bs d] number_verified [of h bs _ st False "p + 1"] by auto
  next
    case (Index h bs)
    then show ?case using start [of p h bs d] index_verified [of st "p + 1" bs h _ False] by auto
  next
    case (Elements_Of vs)
    let ?n = "writeUnsignedLeb128 (of_nat (length vs))" and ?vs = "concat (map value_bytes vs)"
    from Elements_Of.prems start [of p "0x1c" "?n @ ?vs" d] obtain d' where d: "length (vs_bytes st) < p + 1 + d'" "lies_at st (p + 1) (?n @ ?vs)"
      "verify_value d st False p = verifyEncodedArray (verify_value d' st False) st (p + 1)"
      by (auto simp: verify_by_type_def require_def)
    have at: "lies_at st (p + 1) ?n" "lies_at st (p + 1 + length ?n) ?vs" using lies_at_append [OF d(2)] by blast+
    have "unat (of_nat (length vs) :: u4) = length vs" using Elements_Of.prems(1) by (intro unat_of_nat_u4) simp
    moreover have "verify_items (verify_value d' st False) (length vs) (p + 1 + length ?n) = Some (Some (p + 1 + length ?n + length ?vs))"
      by (rule items_verified [OF at(2)]) (use Elements_Of.IH Elements_Of.prems(1) d(1) in auto)
    ultimately show ?case using uleb_at [OF at(1)] by (simp add: d(3) verifyEncodedArray_def and_then_def)
  next
    case (Annotation_Of t es)
    let ?t = "writeUnsignedLeb128 t" and ?n = "writeUnsignedLeb128 (of_nat (length es))"
      and ?es = "concat (map (\<lambda>(n, v). writeUnsignedLeb128 n @ value_bytes v) es)"
    from Annotation_Of.prems start [of p "0x1d" "?t @ ?n @ ?es" d] obtain d'
      where d: "length (vs_bytes st) < p + 1 + d'" "lies_at st (p + 1) (?t @ ?n @ ?es)"
      "verify_value d st False p = verifyEncodedAnnotation (verify_value d' st False) st False (p + 1)"
      by (auto simp: verify_by_type_def require_def)
    have at: "lies_at st (p + 1) ?t" "lies_at st (p + 1 + length ?t) ?n" "lies_at st (p + 1 + length ?t + length ?n) ?es"
      using d(2) by (auto dest!: lies_at_append)
    have "unat (of_nat (length es) :: u4) = length es" using Annotation_Of.prems(1) by (intro unat_of_nat_u4) simp
    moreover have "verify_elements (verify_value d' st False) st False (length es) None (p + 1 + length ?t + length ?n) =
        Some (Some (p + 1 + length ?t + length ?n + length ?es))"
      by (rule elements_verified [OF at(3)]) (use Annotation_Of.IH Annotation_Of.prems(1) d(1) in fastforce)+
    ultimately show ?case using uleb_at [OF at(1)] uleb_at [OF at(2)] Annotation_Of.prems(1)
      by (simp add: d(3) verifyEncodedAnnotation_def and_then_def require_def)
  next
    case Null_Value
    then show ?case using start [of p "0x1e" "[]" d] by (auto simp: verify_by_type_def require_def)
  next
    case (Truth b)
    then show ?case using start [of p "if b then 0x3f else 0x1f" "[]" d] by (cases b) (auto simp: verify_by_type_def require_def)
  }
qed

section \<open>Properties\<close>

text \<open>C22. Behind its size, a string item inside the file is accepted exactly when it is the terminated modified UTF-8
  of that many UTF-16 units, each in its one form, and the pointer returned is the one behind the terminator.\<close>

theorem verified_string_data:
  assumes "checked_uleb st p = Some (Some (n, q))" "e \<le> fileLen st"
  shows "intraVerifyStringDataItem st p = Some (Some e) \<longleftrightarrow>
    (\<exists>us s. length us = unat n \<and> drop q (vs_bytes st) = convertUtf16ToUtf8 us @ s \<and> e = q + length (convertUtf16ToUtf8 us))"
    (is "_ \<longleftrightarrow> ?written")
proof
  assume "intraVerifyStringDataItem st p = Some (Some e)"
  then obtain r where r: "verify_chars st (unat n) q = Some (Some r)" "byte_at st r = Some 0" "e = r + 1"
    using assms(1) by (auto simp: intraVerifyStringDataItem_def and_then_Some split: Option.bind_splits if_splits)
  with verify_chars_sound [OF r(1)] byte_at_Some [OF r(2)] show ?written by (auto simp: convert_append)
next
  assume ?written
  then obtain us s where us: "length us = unat n" "drop q (vs_bytes st) = concat (map utf8_bytes us) @ 0 # s"
    "e = q + length (concat (map utf8_bytes us)) + 1" by (auto simp: convert_append)
  from byte_at_drop [OF drop_more [OF us(2)]] verify_chars_complete [OF us(2)] us assms
  show "intraVerifyStringDataItem st p = Some (Some e)" by (simp add: intraVerifyStringDataItem_def and_then_def)
qed

text \<open>The memory of a file with some bytes and tables of 16 entries.\<close>

definition file_of :: "u1 list \<Rightarrow> check_state" where
  "file_of bs = \<lparr>vs_bytes = bs, fileLen = length bs, hdr_stringIdsSize = 16, hdr_typeIdsSize = 16,
     hdr_fieldIdsSize = 16, hdr_methodIdsSize = 16, vs_dexFile = one_class\<rparr>"

lemma file_of_sel [simp]:
  "vs_bytes (file_of bs) = bs" "fileLen (file_of bs) = length bs" "hdr_stringIdsSize (file_of bs) = 16"
  "hdr_typeIdsSize (file_of bs) = 16" "hdr_fieldIdsSize (file_of bs) = 16" "hdr_methodIdsSize (file_of bs) = 16"
  by (simp_all add: file_of_def)

lemma lies_at_start [simp]: "lies_at (file_of bs) 0 bs"
  by (simp add: lies_at_def)

theorem verified_string_data_witness:
  "intraVerifyStringDataItem (file_of [3, 0x41, 0xc3, 0xa9, 0xe2, 0x82, 0xac, 0]) 0 = Some (Some 8)"
proof -
  let ?st = "file_of [3, 0x41, 0xc3, 0xa9, 0xe2, 0x82, 0xac, 0]"
  have "writeUnsignedLeb128 3 = [3]" by code_simp
  then have "checked_uleb ?st 0 = Some (Some (3, 1))" using uleb_at [of ?st 0 3] by (simp add: lies_at_def)
  moreover have "utf8_bytes 0x41 = [0x41]" "utf8_bytes 0xe9 = [0xc3, 0xa9]" "utf8_bytes 0x20ac = [0xe2, 0x82, 0xac]" by code_simp+
  ultimately show ?thesis
    by (subst verified_string_data [where n = 3 and q = 1]) (auto simp: convert_append intro!: exI [of _ "[0x41, 0xe9, 0x20ac :: u2]"])
qed


definition good_class :: class_data where
  "good_class = \<lparr>cd_header = \<lparr>staticFieldsSize = 1, instanceFieldsSize = 0, directMethodsSize = 1, virtualMethodsSize = 0\<rparr>,
     staticFields = [\<lparr>fieldIdx = 3, field_accessFlags = 9\<rparr>], instanceFields = [],
     directMethods = [\<lparr>methodIdx = 7, method_accessFlags = 2, codeOff = 0x20\<rparr>], virtualMethods = []\<rparr>"


text \<open>Whatever the instance fields are: this class has one with a flag that no field has, and it is accepted.\<close>

lemma instance_fields_unchecked:
  "verifyClassDataItem0 st \<lparr>cd_header = h, staticFields = [], instanceFields = [\<lparr>fieldIdx = 0xffffffff, field_accessFlags = 0xffffffff\<rparr>],
     directMethods = [], virtualMethods = []\<rparr>"
  by (simp add: verifyClassDataItem0_def)

text \<open>The debug information of a method: the line, the names of the parameters and the operations.\<close>

definition debug_item_bytes :: "u4 \<Rightarrow> u4 list \<Rightarrow> dbg_op list \<Rightarrow> u1 list" where
  "debug_item_bytes line names ops =
     writeUnsignedLeb128 line @ writeUnsignedLeb128 (of_nat (length names)) @ concat (map writeUnsignedLeb128 names) @ ops_bytes ops"

lemma debug_item_verified:
  assumes "lies_at st p (debug_item_bytes line names ops)" "length names \<le> 65536"
    and "list_all (idx_p1_ok st) names" "list_all (op_verifies st) ops"
  shows "intraVerifyDebugInfoItem st p = Some (Some (p + length (debug_item_bytes line names ops)))"
proof -
  let ?l = "writeUnsignedLeb128 line" and ?n = "writeUnsignedLeb128 (of_nat (length names))"
    and ?ns = "concat (map writeUnsignedLeb128 names)"
  have at: "lies_at st p ?l" "lies_at st (p + length ?l) ?n" "lies_at st (p + length ?l + length ?n) ?ns"
    "lies_at st (p + length ?l + length ?n + length ?ns) (ops_bytes ops)"
    using assms(1) by (auto simp: debug_item_bytes_def dest!: lies_at_append)
  have n: "unat (of_nat (length names) :: u4) = length names" using assms(2) by (intro unat_of_nat_u4) simp
  then have "(of_nat (length names) :: u4) \<le> 65536" using assms(2) by (simp add: word_le_nat_alt)
  with n show ?thesis
    using uleb_at [OF at(1)] uleb_at [OF at(2)] names_verified [OF at(3) assms(3)] ops_verified [OF at(4) assms(4)]
    by (simp add: intraVerifyDebugInfoItem_def and_then_def require_def debug_item_bytes_def add.assoc)
qed

text \<open>The debug information of a method, written with parameter names and operations whose registers and indices are
  in range, is accepted up to its end.\<close>

theorem verified_debug_info:
  assumes "lies_at st p (debug_item_bytes line names ops)" "length names \<le> 65536"
    and "list_all (idx_p1_ok st) names" "list_all (op_verifies st) ops"
  shows "intraVerifyDebugInfoItem st p = Some (Some (p + length (debug_item_bytes line names ops)))"
  using assms by (rule debug_item_verified)

theorem verified_debug_info_witness:
  "intraVerifyDebugInfoItem (file_of [7, 2, 4, 0, 3, 1, 16, 1, 0x7f, 0]) 0 = Some (Some 10)"
proof -
  have b: "debug_item_bytes 7 [4, 0] [Start_Local 1 16 1, Special 0x7f] = [7, 2, 4, 0, 3, 1, 16, 1, 0x7f, 0]" by code_simp
  show ?thesis
    using verified_debug_info [of "file_of [7, 2, 4, 0, 3, 1, 16, 1, 0x7f, 0]" 0 7 "[4, 0]" "[Start_Local 1 16 1, Special 0x7f]"]
    by (simp add: b idx_p1_ok_def)
qed

text \<open>C24. An encoded value lying in the file is accepted up to its end, however deep its arrays and annotations nest,
  when its numbers have a length of their type, its indices refer into their tables and the names of an
  annotation are in strictly rising order.\<close>

theorem verified_encoded_value:
  assumes "value_ok st v" "lies_at st p (value_bytes v)"
  shows "verifyEncodedValue st False p = Some (Some (p + length (value_bytes v)))"
  unfolding verifyEncodedValue_def by (rule value_verified [OF assms]) simp

theorem verified_encoded_value_witness:
  "verifyEncodedValue (file_of [0x1c, 2, 0x1d, 3, 1, 5, 0x24, 1, 2, 0x17, 15]) False 0 = Some (Some 11)"
proof -
  let ?v = "Elements_Of [Annotation_Of 3 [(5, Number 0x24 [1, 2])], Index 0x17 [15]]"
  have b: "value_bytes ?v = [0x1c, 2, 0x1d, 3, 1, 5, 0x24, 1, 2, 0x17, 15]" by code_simp
  show ?thesis
    using verified_encoded_value [of "file_of (value_bytes ?v)" ?v 0] unfolding b
    by (simp add: number_ok_def index_ok_def index_limit_def Let_def)
qed

text \<open>The bytes of a number are not looked for: a file that ends behind the header of an eight-byte number has a
  verified value that ends eight bytes behind the file. An index whose bytes are missing is read as 0.\<close>

lemma truncated_number_accepted: "verifyEncodedValue (file_of [0xe6]) False 0 = Some (Some 9)"
  by (simp add: verifyEncodedValue_def require_def checkPtrRange_def byte_at_def verify_by_type_def)

lemma truncated_index_accepted: "verifyEncodedValue (file_of [0x77, 0xff]) False 0 = Some (Some 1)"
  by (simp add: verifyEncodedValue_def require_def checkPtrRange_def byte_at_def verify_by_type_def
      verify_index_def readUnsignedLittleEndian_def)

text \<open>The type of a local variable is checked against the number of strings: with sixteen strings and two types, an
  index of a sixteenth type is accepted.\<close>

lemma local_type_unchecked:
  "intraVerifyDebugInfoItem ((file_of [7, 0, 3, 1, 1, 16, 0]) \<lparr>hdr_typeIdsSize := 2\<rparr>) 0 = Some (Some 7)"
proof -
  let ?st = "(file_of [7, 0, 3, 1, 1, 16, 0]) \<lparr>hdr_typeIdsSize := 2\<rparr>"
  have b: "debug_item_bytes 7 [] [Start_Local 1 1 16] = [7, 0, 3, 1, 1, 16, 0]" by code_simp
  show ?thesis
    using debug_item_verified [of ?st 0 7 "[]" "[Start_Local 1 1 16]"] by (simp add: b lies_at_def idx_p1_ok_def)
qed

end
