(* ===== verification/DexItems.thy ===== *)
theory DexItems
  imports DexVerify DexCatch
begin

text \<open>
  The items of fixed layout in \<^verbatim>\<open>jni/dalvik/libdex/DexSwapVerify.cpp\<close>: entries of the id tables, class definitions, type
  lists, annotation sets and directories, and code with its try blocks and handlers. Memory and verdicts are those
  of \<open>DexVerify\<close>. The target is little-endian, where swapping a field changes nothing, and the file is mapped at
  an address that is a multiple of four. \<open>safe_mul\<close> is the macro of the safe-iop library.
\<close>

unbundle bit_operations_syntax

section \<open>Fields\<close>

definition u2_at :: "check_state \<Rightarrow> nat \<Rightarrow> u2 option" where
  "u2_at st p = (case drop p (vs_bytes st) of a # b # _ \<Rightarrow> Some (le2 a b) | _ \<Rightarrow> None)"

definition u4_at :: "check_state \<Rightarrow> nat \<Rightarrow> u4 option" where
  "u4_at st p = (case drop p (vs_bytes st) of a # b # c # d # _ \<Rightarrow> Some (le4 a b c d) | _ \<Rightarrow> None)"

definition check_list_size :: "(u4 \<Rightarrow> u4 \<Rightarrow> u4 option) \<Rightarrow> check_state \<Rightarrow> nat \<Rightarrow> u4 \<Rightarrow> u4 \<Rightarrow> bool" where
  "check_list_size safe_mul st p n elemSize \<longleftrightarrow>
     \<not> (safe_mul n elemSize = None \<or> \<not> checkPtrRange st p (p + unat (n * elemSize)))"

text \<open>Fields that hold an index.\<close>

definition index4 :: "check_state \<Rightarrow> nat \<Rightarrow> u4 \<Rightarrow> verdict \<Rightarrow> verdict" where
  "index4 st p limit r = do { idx \<leftarrow> u4_at st p; require (idx < limit) r }"

definition index2 :: "check_state \<Rightarrow> nat \<Rightarrow> u4 \<Rightarrow> verdict \<Rightarrow> verdict" where
  "index2 st p limit r = do { idx \<leftarrow> u2_at st p; require ((ucast idx :: u4) < limit) r }"

definition index4_or_none :: "check_state \<Rightarrow> nat \<Rightarrow> u4 \<Rightarrow> verdict \<Rightarrow> verdict" where
  "index4_or_none st p limit r = do { idx \<leftarrow> u4_at st p; require (\<not> (idx \<noteq> kDexNoIndex \<and> idx \<ge> limit)) r }"

section \<open>Tables\<close>

definition swapStringIdItem :: "check_state \<Rightarrow> nat \<Rightarrow> verdict" where
  "swapStringIdItem st p = require (checkPtrRange st p (p + 4)) (Some (Some (p + 4)))"

definition swapTypeIdItem :: "check_state \<Rightarrow> nat \<Rightarrow> verdict" where
  "swapTypeIdItem st p = require (checkPtrRange st p (p + 4)) (index4 st p (hdr_stringIdsSize st) (Some (Some (p + 4))))"

definition swapProtoIdItem :: "check_state \<Rightarrow> nat \<Rightarrow> verdict" where
  "swapProtoIdItem st p =
     require (checkPtrRange st p (p + 12))
       (index4 st p (hdr_stringIdsSize st) (index4 st (p + 4) (hdr_typeIdsSize st) (Some (Some (p + 12)))))"

definition swapFieldIdItem :: "check_state \<Rightarrow> nat \<Rightarrow> verdict" where
  "swapFieldIdItem st p =
     require (checkPtrRange st p (p + 8))
       (index2 st p (hdr_typeIdsSize st) (index2 st (p + 2) (hdr_typeIdsSize st)
         (index4 st (p + 4) (hdr_stringIdsSize st) (Some (Some (p + 8))))))"

definition swapMethodIdItem :: "u4 \<Rightarrow> check_state \<Rightarrow> nat \<Rightarrow> verdict" where
  "swapMethodIdItem protoIdsSize st p =
     require (checkPtrRange st p (p + 8))
       (index2 st p (hdr_typeIdsSize st) (index2 st (p + 2) protoIdsSize
         (index4 st (p + 4) (hdr_stringIdsSize st) (Some (Some (p + 8))))))"

definition ACC_CLASS_MASK :: u4 where "ACC_CLASS_MASK = 0x7611"

definition swapClassDefItem :: "check_state \<Rightarrow> nat \<Rightarrow> verdict" where
  "swapClassDefItem st p =
     require (checkPtrRange st p (p + 32))
       (index4 st p (hdr_typeIdsSize st)
         (index4_or_none st (p + 8) (hdr_typeIdsSize st)
           (index4_or_none st (p + 16) (hdr_stringIdsSize st)
             (do { accessFlags \<leftarrow> u4_at st (p + 4);
               require (accessFlags AND NOT ACC_CLASS_MASK = 0) (Some (Some (p + 32))) }))))"

section \<open>Lists\<close>

text \<open>\<open>sizeof(DexTypeList)\<close> is 8: one item and the padding behind it are part of it.\<close>

fun type_items :: "check_state \<Rightarrow> nat \<Rightarrow> nat \<Rightarrow> verdict" where
  "type_items st 0 p = Some (Some p)"
| "type_items st (Suc n) p = index2 st p (hdr_typeIdsSize st) (type_items st n (p + 2))"

definition swapTypeList :: "(u4 \<Rightarrow> u4 \<Rightarrow> u4 option) \<Rightarrow> check_state \<Rightarrow> nat \<Rightarrow> verdict" where
  "swapTypeList safe_mul st p =
     require (checkPtrRange st p (p + 8))
       (do { n \<leftarrow> u4_at st p;
         require (check_list_size safe_mul st (p + 4) n 2) (type_items st (unat n) (p + 4)) })"

definition swapAnnotationSetRefList :: "(u4 \<Rightarrow> u4 \<Rightarrow> u4 option) \<Rightarrow> check_state \<Rightarrow> nat \<Rightarrow> verdict" where
  "swapAnnotationSetRefList safe_mul st p =
     require (checkPtrRange st p (p + 8))
       (do { n \<leftarrow> u4_at st p;
         require (check_list_size safe_mul st (p + 4) n 4) (Some (Some (p + 4 + 4 * unat n))) })"

definition swapAnnotationSetItem :: "(u4 \<Rightarrow> u4 \<Rightarrow> u4 option) \<Rightarrow> check_state \<Rightarrow> nat \<Rightarrow> verdict" where
  "swapAnnotationSetItem safe_mul st p =
     require (checkPtrRange st p (p + 8))
       (do { n \<leftarrow> u4_at st p;
         require (check_list_size safe_mul st (p + 4) n 4) (Some (Some (p + 4 + 4 * unat n))) })"

text \<open>The three tables of an annotations directory have entries of the same layout, an index and an offset; they
  differ in the limit of the index.\<close>

fun annotation_entries :: "check_state \<Rightarrow> u4 \<Rightarrow> nat \<Rightarrow> u4 option \<Rightarrow> nat \<Rightarrow> verdict" where
  "annotation_entries st limit 0 lastIdx p = Some (Some p)"
| "annotation_entries st limit (Suc n) lastIdx p =
     do { idx \<leftarrow> u4_at st p;
       require (idx < limit)
         (require (case lastIdx of None \<Rightarrow> True | Some l \<Rightarrow> \<not> l \<ge> idx)
           (annotation_entries st limit n (Some idx) (p + 8))) }"

definition swapFieldAnnotations :: "(u4 \<Rightarrow> u4 \<Rightarrow> u4 option) \<Rightarrow> check_state \<Rightarrow> u4 \<Rightarrow> nat \<Rightarrow> verdict" where
  "swapFieldAnnotations safe_mul st n p =
     require (check_list_size safe_mul st p n 8) (annotation_entries st (hdr_fieldIdsSize st) (unat n) None p)"

definition swapMethodAnnotations :: "(u4 \<Rightarrow> u4 \<Rightarrow> u4 option) \<Rightarrow> check_state \<Rightarrow> u4 \<Rightarrow> nat \<Rightarrow> verdict" where
  "swapMethodAnnotations safe_mul st n p =
     require (check_list_size safe_mul st p n 8) (annotation_entries st (hdr_methodIdsSize st) (unat n) None p)"

definition swapParameterAnnotations :: "(u4 \<Rightarrow> u4 \<Rightarrow> u4 option) \<Rightarrow> check_state \<Rightarrow> u4 \<Rightarrow> nat \<Rightarrow> verdict" where
  "swapParameterAnnotations safe_mul st n p =
     require (check_list_size safe_mul st p n 8) (annotation_entries st (hdr_methodIdsSize st) (unat n) None p)"

definition swapAnnotationsDirectoryItem :: "(u4 \<Rightarrow> u4 \<Rightarrow> u4 option) \<Rightarrow> check_state \<Rightarrow> nat \<Rightarrow> verdict" where
  "swapAnnotationsDirectoryItem safe_mul st p =
     require (checkPtrRange st p (p + 16))
       (do { fieldsSize \<leftarrow> u4_at st (p + 4);
         methodsSize \<leftarrow> u4_at st (p + 8);
         parametersSize \<leftarrow> u4_at st (p + 12);
         and_then (if fieldsSize \<noteq> 0 then swapFieldAnnotations safe_mul st fieldsSize (p + 16) else Some (Some (p + 16))) (\<lambda>addr.
         and_then (if methodsSize \<noteq> 0 then swapMethodAnnotations safe_mul st methodsSize addr else Some (Some addr)) (\<lambda>addr.
         if parametersSize \<noteq> 0 then swapParameterAnnotations safe_mul st parametersSize addr else Some (Some addr))) })"

section \<open>Code\<close>

text \<open>The typed handlers of one list; \<open>p\<close> points to them.\<close>

fun typed_handlers :: "check_state \<Rightarrow> u4 \<Rightarrow> nat \<Rightarrow> nat \<Rightarrow> verdict" where
  "typed_handlers st insnsCount 0 p = Some (Some p)"
| "typed_handlers st insnsCount (Suc n) p =
     and_then (checked_uleb st p) (\<lambda>(typeIdx, p).
     require (typeIdx < hdr_typeIdsSize st)
       (and_then (checked_uleb st p) (\<lambda>(addr, p).
        require (\<not> addr \<ge> insnsCount) (typed_handlers st insnsCount n p))))"

definition catch_all_handler :: "check_state \<Rightarrow> u4 \<Rightarrow> bool \<Rightarrow> nat \<Rightarrow> verdict" where
  "catch_all_handler st insnsCount catchAll p =
     (if catchAll
      then and_then (checked_uleb st p) (\<lambda>(addr, p). require (\<not> addr \<ge> insnsCount) (Some (Some p)))
      else Some (Some p))"

text \<open>One list of handlers at an offset, and the offset behind it.\<close>

definition handler_list :: "check_state \<Rightarrow> u4 \<Rightarrow> nat \<Rightarrow> u4 \<Rightarrow> u4 option option" where
  "handler_list st insnsCount handlersBase offset =
     and_then (checked_sleb st (handlersBase + unat offset)) (\<lambda>(w, p).
       let size' = sint w in
       require (\<not> (size' < -65536 \<or> size' > 65536))
         (let catchAll = (size' \<le> 0); size' = (if size' \<le> 0 then - size' else size') in
          and_then (typed_handlers st insnsCount (nat size') p) (\<lambda>p.
          and_then (catch_all_handler st insnsCount catchAll p) (\<lambda>p. Some (Some (of_nat (p - handlersBase)))))))"

text \<open>The result is \<open>handlerOffs\<close> and the end offset; a result of 0 is a failure.\<close>

fun setHandlerOffsAndVerify :: "check_state \<Rightarrow> u4 \<Rightarrow> nat \<Rightarrow> u4 \<Rightarrow> nat \<Rightarrow> (u4 list \<times> u4) option option" where
  "setHandlerOffsAndVerify st insnsCount handlersBase offset 0 = Some (Some ([], offset))"
| "setHandlerOffsAndVerify st insnsCount handlersBase offset (Suc n) =
     and_then (handler_list st insnsCount handlersBase offset) (\<lambda>next.
     and_then (setHandlerOffsAndVerify st insnsCount handlersBase next n) (\<lambda>(offs, end').
       Some (Some (offset # offs, end'))))"

definition read_try :: "check_state \<Rightarrow> nat \<Rightarrow> dex_try option" where
  "read_try st p =
     do { start \<leftarrow> u4_at st p; n \<leftarrow> u2_at st (p + 4); off \<leftarrow> u2_at st (p + 6);
       Some \<lparr>startAddr = start, insnCount = n, handlerOff = off\<rparr> }"

fun verify_tries :: "check_state \<Rightarrow> u4 \<Rightarrow> u4 list \<Rightarrow> nat \<Rightarrow> u4 \<Rightarrow> nat \<Rightarrow> verdict" where
  "verify_tries st insnsCount handlerOffs 0 lastEnd p = Some (Some p)"
| "verify_tries st insnsCount handlerOffs (Suc n) lastEnd p =
     do { t \<leftarrow> read_try st p;
       require (\<not> startAddr t < lastEnd)
         (require (\<not> startAddr t \<ge> insnsCount)
           (require (ucast (handlerOff t) \<in> set handlerOffs)
             (let lastEnd = startAddr t + ucast (insnCount t) in
              require (\<not> lastEnd > insnsCount) (verify_tries st insnsCount handlerOffs n lastEnd (p + 8))))) }"

text \<open>\<open>dexGetTries\<close>: the try blocks follow the instructions, at the next multiple of four.\<close>

definition tries_at :: "nat \<Rightarrow> u4 \<Rightarrow> nat" where
  "tries_at code insnsCount = (let insnsEnd = code + 16 + 2 * unat insnsCount in if insnsEnd mod 4 \<noteq> 0 then insnsEnd + 2 else insnsEnd)"

definition swapTriesAndCatches :: "(u4 \<Rightarrow> u4 \<Rightarrow> u4 option) \<Rightarrow> check_state \<Rightarrow> nat \<Rightarrow> u4 \<Rightarrow> u2 \<Rightarrow> verdict" where
  "swapTriesAndCatches safe_mul st code insnsCount triesSize =
     (let pTries = tries_at code insnsCount; encodedHandlers = pTries + 8 * unat triesSize in
      and_then (checked_uleb st encodedHandlers) (\<lambda>(handlersSize, encodedPtr).
      require (\<not> (handlersSize = 0 \<or> handlersSize \<ge> 65536))
        (and_then (setHandlerOffsAndVerify st insnsCount encodedHandlers (of_nat (encodedPtr - encodedHandlers)) (unat handlersSize))
           (\<lambda>(handlerOffs, endOffset).
         require (endOffset \<noteq> 0)
           (require (check_list_size safe_mul st pTries (ucast triesSize) 8)
             (and_then (verify_tries st insnsCount handlerOffs (unat triesSize) 0 pTries) (\<lambda>_.
               Some (Some (encodedHandlers + unat endOffset)))))))))"

definition swapCodeItem :: "(u4 \<Rightarrow> u4 \<Rightarrow> u4 option) \<Rightarrow> check_state \<Rightarrow> nat \<Rightarrow> verdict" where
  "swapCodeItem safe_mul st p =
     require (checkPtrRange st p (p + 20))
       (do { regs \<leftarrow> u2_at st p;
         ins \<leftarrow> u2_at st (p + 2);
         outs \<leftarrow> u2_at st (p + 4);
         triesSize \<leftarrow> u2_at st (p + 6);
         insnsCount \<leftarrow> u4_at st (p + 12);
         require (\<not> ins > regs)
           (require (\<not> (outs > 5 \<and> outs > regs))
             (require (check_list_size safe_mul st (p + 16) insnsCount 2)
               (let insns = p + 16 + 2 * unat insnsCount in
                if triesSize = 0 then Some (Some insns)
                else
                  do { spacer \<leftarrow> if insns mod 4 \<noteq> 0 then u2_at st insns else Some 0;
                    require (spacer = 0) (swapTriesAndCatches safe_mul st p insnsCount triesSize) }))) })"

section \<open>Verified code\<close>

text \<open>The contract of \<open>safe_mul\<close>: a product that does not fit is refused.\<close>

definition mul_contract :: "(u4 \<Rightarrow> u4 \<Rightarrow> u4 option) \<Rightarrow> bool" where
  "mul_contract safe_mul \<longleftrightarrow> (\<forall>a b r. safe_mul a b = Some r \<longrightarrow> unat r = unat a * unat b)"

lemma mul_contractD: "mul_contract safe_mul \<Longrightarrow> safe_mul a b \<noteq> None \<Longrightarrow> unat a * unat b < 2 ^ 32"
  unfolding mul_contract_def using unat_u4_less by (metis option.exhaust)

subsection \<open>Checked and unchecked numbers\<close>

lemma suffix_drop: "drop p xs = u @ t \<Longrightarrow> drop (length xs - length t) xs = t"
proof -
  assume d: "drop p xs = u @ t"
  then have "t = drop (p + length u) xs" by (simp add: drop_more)
  then show ?thesis by (metis diff_diff_cancel diff_le_self drop_eq_Nil length_drop nle_le)
qed

lemma readSigned_shrinks: "readSignedLeb128 s = Some (w, t) \<Longrightarrow> \<exists>u. u \<noteq> [] \<and> s = u @ t"
  by (auto simp: readSignedLeb128_def Let_def elim!: next_byte.elims split: Option.bind_splits if_splits)

lemma checked_leb_read:
  assumes "checked_leb (verify_leb128 rd) st p = Some (Some (w, q))" "\<And>s w t. rd s = Some (w, t) \<Longrightarrow> \<exists>u. u \<noteq> [] \<and> s = u @ t"
  shows "rd (drop p (vs_bytes st)) = Some (w, drop q (vs_bytes st))"
proof -
  obtain rest where r: "rd (drop p (vs_bytes st)) = Some (w, rest)" "q = length (vs_bytes st) - length rest"
    using assms(1) by (auto simp: checked_leb_def verify_leb128_def Let_def split: Option.bind_splits if_splits)
  then show ?thesis using assms(2) [OF r(1)] suffix_drop by metis
qed

lemma checked_uleb_read: "checked_uleb st p = Some (Some (w, q)) \<Longrightarrow> readUnsignedLeb128 (drop p (vs_bytes st)) = Some (w, drop q (vs_bytes st))"
  unfolding readAndVerifyUnsignedLeb128_def by (rule checked_leb_read) (auto dest: readUnsigned_shrinks)

lemma checked_sleb_read: "checked_sleb st p = Some (Some (w, q)) \<Longrightarrow> readSignedLeb128 (drop p (vs_bytes st)) = Some (w, drop q (vs_bytes st))"
  unfolding readAndVerifySignedLeb128_def by (rule checked_leb_read) (auto dest: readSigned_shrinks)

subsection \<open>Handlers\<close>

text \<open>A handler is valid when its type is in the table, or it catches everything, and its address is in the method.\<close>

fun handler_ok :: "check_state \<Rightarrow> u4 \<Rightarrow> catch_handler \<Rightarrow> bool" where
  "handler_ok st insnsCount (typeIdx, addr) \<longleftrightarrow> (typeIdx = kDexNoIndex \<or> typeIdx < hdr_typeIdsSize st) \<and> addr < insnsCount"

lemma drain_end: "countRemaining it = 0 \<Longrightarrow> \<not> catchesAll it \<Longrightarrow> drain it = Some ([], it)"
  by (simp add: drain.simps [of it] dexCatchIteratorNext_def)

lemma drain_catch_all:
  assumes "catch_all_handler st k (catchesAll it) p = Some (Some q)" "countRemaining it = 0" "pEncodedData it = drop p (vs_bytes st)"
  shows "\<exists>hs it'. drain it = Some (hs, it') \<and> list_all (handler_ok st k) hs"
proof (cases "catchesAll it")
  case True
  with assms(1) obtain a where a: "checked_uleb st p = Some (Some (a, q))" "a < k"
    by (auto simp: catch_all_handler_def and_then_Some require_Some)
  have "dexCatchIteratorNext it = Some (Some (kDexNoIndex, a), it\<lparr>catchesAll := False, pEncodedData := drop q (vs_bytes st)\<rparr>)"
    using True assms(2,3) checked_uleb_read [OF a(1)] by (simp add: dexCatchIteratorNext_def)
  with a(2) show ?thesis by (subst drain.simps) (simp add: drain_end assms(2))
qed (simp add: drain_end assms(2))

lemma drain_typed_handlers:
  assumes "typed_handlers st k n p = Some (Some q)" "n < 2 ^ 32" "countRemaining it = of_nat n" "pEncodedData it = drop p (vs_bytes st)"
    and "drain (it\<lparr>countRemaining := 0, pEncodedData := drop q (vs_bytes st)\<rparr>) = Some (hs, it')" "list_all (handler_ok st k) hs"
  shows "\<exists>hs it'. drain it = Some (hs, it') \<and> list_all (handler_ok st k) hs"
  using assms
proof (induction n arbitrary: p it)
  case 0
  then have "it\<lparr>countRemaining := 0, pEncodedData := drop q (vs_bytes st)\<rparr> = it" by simp
  with 0 show ?case by auto
next
  case (Suc n)
  from Suc.prems(1) obtain ty p1 a p2 where r: "checked_uleb st p = Some (Some (ty, p1))" "ty < hdr_typeIdsSize st"
    "checked_uleb st p1 = Some (Some (a, p2))" "a < k" "typed_handlers st k n p2 = Some (Some q)"
    by (auto simp: and_then_Some require_Some)
  let ?it = "it\<lparr>countRemaining := of_nat n, pEncodedData := drop p2 (vs_bytes st)\<rparr>"
  have "of_nat (Suc n) \<noteq> (0 :: u4)" using Suc.prems(2) unat_of_nat_u4 [of "Suc n"] by (metis nat.distinct(1) unat_0)
  then have "dexCatchIteratorNext it = Some (Some (ty, a), ?it)"
    using Suc.prems(3,4) checked_uleb_read [OF r(1)] checked_uleb_read [OF r(3)] by (simp add: dexCatchIteratorNext_def)
  moreover obtain hs' it'' where "drain ?it = Some (hs', it'')" "list_all (handler_ok st k) hs'"
    using Suc.IH [OF r(5), of ?it] Suc.prems(2,5,6) by auto
  ultimately show ?case using r(2,4) by (subst drain.simps) simp
qed

lemma handler_list_drains:
  assumes "handler_list st k base offset = Some (Some next)"
  shows "\<exists>it hs it'. dexCatchIteratorInitToPointer (drop (base + unat offset) (vs_bytes st)) = Some it \<and>
    drain it = Some (hs, it') \<and> list_all (handler_ok st k) hs"
proof -
  let ?n = "\<lambda>w :: u4. nat (if sint w \<le> 0 then - sint w else sint w)"
  from assms obtain w p q r where h: "checked_sleb st (base + unat offset) = Some (Some (w, p))" "- 65536 \<le> sint w" "sint w \<le> 65536"
    "typed_handlers st k (?n w) p = Some (Some q)" "catch_all_handler st k (sint w \<le> 0) q = Some (Some r)"
    by (auto simp: handler_list_def and_then_Some require_Some Let_def)
  have w: "of_nat (nat (- sint w)) = - w" if "sint w \<le> 0" using that by (simp add: of_nat_nat)
  let ?it = "\<lparr>pEncodedData = drop p (vs_bytes st), catchesAll = (sint w \<le> 0), countRemaining = if sint w \<le> 0 then - w else w\<rparr>"
  have i: "dexCatchIteratorInitToPointer (drop (base + unat offset) (vs_bytes st)) = Some ?it"
    using checked_sleb_read [OF h(1)] by (simp add: dexCatchIteratorInitToPointer_def)
  obtain hs it' where d: "drain (?it\<lparr>countRemaining := 0, pEncodedData := drop q (vs_bytes st)\<rparr>) = Some (hs, it')" "list_all (handler_ok st k) hs"
    using drain_catch_all [of st k "?it\<lparr>countRemaining := 0, pEncodedData := drop q (vs_bytes st)\<rparr>" q r] h(5) by auto
  have "\<exists>hs it'. drain ?it = Some (hs, it') \<and> list_all (handler_ok st k) hs"
    by (rule drain_typed_handlers [OF h(4) _ _ _ d]) (use h(2,3) w in \<open>auto simp: of_nat_nat\<close>)
  with i show ?thesis by blast
qed

lemma offsets_verified:
  "setHandlerOffsAndVerify st k base off n = Some (Some (offs, e)) \<Longrightarrow> o' \<in> set offs \<Longrightarrow> \<exists>nx. handler_list st k base o' = Some (Some nx)"
  by (induction n arbitrary: off offs) (auto simp: and_then_Some)

subsection \<open>Try blocks\<close>

fun read_tries :: "check_state \<Rightarrow> nat \<Rightarrow> nat \<Rightarrow> dex_try list option" where
  "read_tries st 0 p = Some []"
| "read_tries st (Suc n) p = do { t \<leftarrow> read_try st p; ts \<leftarrow> read_tries st n (p + 8); Some (t # ts) }"

lemma read_tries_length: "read_tries st n p = Some ts \<Longrightarrow> length ts = n"
  by (induction n arbitrary: p ts) (auto split: Option.bind_splits)

lemma tries_verified:
  assumes "verify_tries st k offs n lastEnd p = Some (Some q)" "unat k < 2 ^ 31"
  shows "\<exists>ts. read_tries st n p = Some ts \<and> tries_ok ts \<and>
    (\<forall>t\<in>set ts. unat lastEnd \<le> unat (startAddr t) \<and> try_end t \<le> unat k \<and> ucast (handlerOff t) \<in> set offs)"
  using assms(1)
proof (induction n arbitrary: lastEnd p)
  case (Suc n)
  then obtain t where t: "read_try st p = Some t" "lastEnd \<le> startAddr t" "startAddr t < k" "ucast (handlerOff t) \<in> set offs"
    "startAddr t + ucast (insnCount t) \<le> k" "verify_tries st k offs n (startAddr t + ucast (insnCount t)) (p + 8) = Some (Some q)"
    by (auto simp: require_Some Let_def not_less split: Option.bind_splits)
  have "unat (insnCount t) < 2 ^ 16" using unsigned_less [of "insnCount t", where ?'a = nat] by simp
  then have "try_end t < 2 ^ 32" using t(3) assms(2) by (simp add: try_end_def word_less_nat_alt)
  note e = end_word [OF this] this
  from Suc.IH [OF t(6)] obtain ts where ts: "read_tries st n (p + 8) = Some ts" "tries_ok ts"
    "\<forall>u\<in>set ts. try_end t \<le> unat (startAddr u) \<and> try_end u \<le> unat k \<and> ucast (handlerOff u) \<in> set offs"
    unfolding e(1) by blast
  have le: "unat lastEnd \<le> unat (startAddr t)" "try_end t \<le> unat k" using t(2,5) e(1) by (simp_all add: word_le_nat_alt)
  have "unat (startAddr t) \<le> try_end t" by (simp add: try_end_def)
  with ts le t(1,4) e(2) show ?case by (fastforce simp: tries_ok_def)
qed (simp add: tries_ok_def)

text \<open>The code of a method as the search for handlers sees it.\<close>

definition read_code :: "check_state \<Rightarrow> nat \<Rightarrow> dex_code option" where
  "read_code st p =
     do { triesSize \<leftarrow> u2_at st (p + 6); insnsCount \<leftarrow> u4_at st (p + 12);
       ts \<leftarrow> read_tries st (unat triesSize) (tries_at p insnsCount);
       Some \<lparr>tries = ts, handler_data = drop (tries_at p insnsCount + 8 * unat triesSize) (vs_bytes st)\<rparr> }"

lemma code_verified:
  assumes "swapCodeItem safe_mul st p = Some (Some e)" "mul_contract safe_mul"
  shows "\<exists>c k. read_code st p = Some c \<and> u4_at st (p + 12) = Some k \<and> tries_ok (tries c) \<and>
    (\<forall>t\<in>set (tries c). try_end t \<le> unat k \<and> (\<exists>nx. handler_list st k (tries_at p k + 8 * length (tries c)) (ucast (handlerOff t)) = Some (Some nx)))"
proof -
  from assms(1) obtain n k where c: "u2_at st (p + 6) = Some n" "u4_at st (p + 12) = Some k" "check_list_size safe_mul st (p + 16) k 2"
    "n = 0 \<or> swapTriesAndCatches safe_mul st p k n = Some (Some e)"
    by (auto simp: swapCodeItem_def require_Some Let_def split: Option.bind_splits if_splits)
  have k: "unat k < 2 ^ 31" using c(3) mul_contractD [OF assms(2), of k 2] by (auto simp: check_list_size_def)
  show ?thesis
  proof (cases "n = 0")
    case True
    with c(1,2) show ?thesis by (simp add: read_code_def tries_ok_def)
  next
    case False
    let ?p = "tries_at p k" and ?h = "tries_at p k + 8 * unat n"
    from False c(4) obtain off m offs eo q where t: "setHandlerOffsAndVerify st k ?h off m = Some (Some (offs, eo))"
      "verify_tries st k offs (unat n) 0 ?p = Some (Some q)"
      by (auto simp: swapTriesAndCatches_def and_then_Some require_Some Let_def)
    from tries_verified [OF t(2) k] obtain ts where ts: "read_tries st (unat n) ?p = Some ts" "tries_ok ts"
      "\<forall>t\<in>set ts. try_end t \<le> unat k \<and> ucast (handlerOff t) \<in> set offs" by blast
    have "length ts = unat n" using ts(1) by (rule read_tries_length)
    with ts c(1,2) offsets_verified [OF t(1)] show ?thesis by (simp add: read_code_def)
  qed
qed

subsection \<open>Items are not empty\<close>

lemma checkPtrRange_le: "checkPtrRange st p q \<Longrightarrow> p \<le> q \<and> q \<le> fileLen st"
  by (simp add: checkPtrRange_def)

lemma index_Some:
  "index4 st p l r = Some (Some q) \<Longrightarrow> r = Some (Some q)" "index2 st p l r = Some (Some q) \<Longrightarrow> r = Some (Some q)"
  "index4_or_none st p l r = Some (Some q) \<Longrightarrow> r = Some (Some q)"
  by (auto simp: index4_def index2_def index4_or_none_def require_Some split: Option.bind_splits)

lemma table_items_forward:
  "swapStringIdItem st p = Some (Some q) \<Longrightarrow> p < q" "swapTypeIdItem st p = Some (Some q) \<Longrightarrow> p < q"
  "swapProtoIdItem st p = Some (Some q) \<Longrightarrow> p < q" "swapFieldIdItem st p = Some (Some q) \<Longrightarrow> p < q"
  "swapMethodIdItem n st p = Some (Some q) \<Longrightarrow> p < q" "swapClassDefItem st p = Some (Some q) \<Longrightarrow> p < q"
  by (auto simp: swapStringIdItem_def swapTypeIdItem_def swapProtoIdItem_def swapFieldIdItem_def swapMethodIdItem_def
      swapClassDefItem_def require_Some dest!: index_Some split: Option.bind_splits)

lemma type_items_forward: "type_items st n p = Some (Some q) \<Longrightarrow> p \<le> q"
proof (induction n arbitrary: p)
  case (Suc n)
  then have "type_items st n (p + 2) = Some (Some q)" by (auto dest: index_Some)
  from Suc.IH [OF this] show ?case by simp
qed simp

lemma annotation_entries_forward: "annotation_entries st l n prev p = Some (Some q) \<Longrightarrow> p \<le> q"
proof (induction n arbitrary: p prev)
  case (Suc n)
  then obtain i where "annotation_entries st l n (Some i) (p + 8) = Some (Some q)"
    by (auto simp: require_Some split: Option.bind_splits)
  from Suc.IH [OF this] show ?case by simp
qed simp

lemma directory_tables_forward:
  "swapFieldAnnotations m st n p = Some (Some q) \<Longrightarrow> p \<le> q" "swapMethodAnnotations m st n p = Some (Some q) \<Longrightarrow> p \<le> q"
  "swapParameterAnnotations m st n p = Some (Some q) \<Longrightarrow> p \<le> q"
  by (auto simp: swapFieldAnnotations_def swapMethodAnnotations_def swapParameterAnnotations_def require_Some
      dest: annotation_entries_forward)

lemma swapTypeList_forward: "swapTypeList m st p = Some (Some q) \<Longrightarrow> p < q"
  by (auto simp: swapTypeList_def require_Some dest!: type_items_forward split: Option.bind_splits)

lemma set_items_forward:
  "swapAnnotationSetRefList m st p = Some (Some q) \<Longrightarrow> p < q" "swapAnnotationSetItem m st p = Some (Some q) \<Longrightarrow> p < q"
  by (auto simp: swapAnnotationSetRefList_def swapAnnotationSetItem_def require_Some split: Option.bind_splits)

lemma swapAnnotationsDirectoryItem_forward:
  assumes "swapAnnotationsDirectoryItem m st p = Some (Some q)"
  shows "p < q"
proof -
  from assms obtain f n k a b where r: "(if f \<noteq> 0 then swapFieldAnnotations m st f (p + 16) else Some (Some (p + 16))) = Some (Some a)"
    "(if n \<noteq> 0 then swapMethodAnnotations m st n a else Some (Some a)) = Some (Some b)"
    "(if k \<noteq> 0 then swapParameterAnnotations m st k b else Some (Some b)) = Some (Some q)"
    by (auto simp: swapAnnotationsDirectoryItem_def require_Some and_then_Some split: Option.bind_splits)
  have "p + 16 \<le> a" "a \<le> b" "b \<le> q" using r directory_tables_forward by (auto split: if_splits)
  then show ?thesis by simp
qed

lemma swapCodeItem_forward: "swapCodeItem m st p = Some (Some q) \<Longrightarrow> p < q"
  by (auto simp: swapCodeItem_def swapTriesAndCatches_def tries_at_def and_then_Some require_Some Let_def
      split: Option.bind_splits if_splits)

lemma verify_names_forward: "verify_names st n p = Some (Some q) \<Longrightarrow> p \<le> q"
  by (induction n arbitrary: p) (fastforce simp: and_then_Some dest: checked_idx_forward)+

lemma verify_debug_ops_forward: "verify_debug_ops st p = Some (Some q) \<Longrightarrow> p < q"
proof (induction st p rule: verify_debug_ops.induct)
  case (1 st p)
  show ?case
  proof (cases "byte_at st p = Some DBG_END_SEQUENCE")
    case True
    with 1(2) show ?thesis by (simp add: verify_debug_ops.simps [of st p])
  next
    case False
    with 1(2) obtain b p' where "byte_at st p = Some b" "b \<noteq> DBG_END_SEQUENCE" "verify_operands st b (p + 1) = Some (Some p')"
      "verify_debug_ops st p' = Some (Some q)"
      by (auto simp: verify_debug_ops.simps [of st p] split: option.splits if_splits)
    with 1(1) [of b "Some p'" p'] verify_operands_forward [of st b "p + 1" p'] show ?thesis by fastforce
  qed
qed

lemma string_data_forward: "intraVerifyStringDataItem st p = Some (Some q) \<Longrightarrow> p < q"
  by (auto simp: intraVerifyStringDataItem_def and_then_Some dest!: checked_uleb_forward verify_chars_sound
      split: Option.bind_splits if_splits)

lemma debug_info_forward: "intraVerifyDebugInfoItem st p = Some (Some q) \<Longrightarrow> p < q"
  by (auto simp: intraVerifyDebugInfoItem_def and_then_Some require_Some
      dest!: checked_uleb_forward verify_names_forward verify_debug_ops_forward)

lemma encoded_value_forward: "verifyEncodedValue st c p = Some (Some q) \<Longrightarrow> p < q"
  unfolding verifyEncodedValue_def by (rule verify_value_forward)

lemma encoded_array_forward: "intraVerifyEncodedArrayItem st p = Some (Some q) \<Longrightarrow> p < q"
  unfolding intraVerifyEncodedArrayItem_def by (rule verifyEncodedArray_forward [OF encoded_value_forward])

lemma annotation_forward:
  assumes "intraVerifyAnnotationItem st p = Some (Some q)"
  shows "p < q"
proof -
  have "verifyEncodedAnnotation (verifyEncodedValue st False) st False (p + 1) = Some (Some q)"
    using assms by (auto simp: intraVerifyAnnotationItem_def require_Some split: Option.bind_splits)
  then have "p + 1 < q" by (rule verifyEncodedAnnotation_forward [rotated]) (rule encoded_value_forward)
  then show ?thesis by simp
qed

lemma verified_read_shrinks:
  assumes "verified_read n rd limit s = Some (r, t)" "\<And>x t. rd s = Some (x, t) \<Longrightarrow> length t < length s"
  shows "length t \<le> length s \<and> (r \<noteq> None \<longrightarrow> length t < length s)"
  using assms by (fastforce simp: verified_read_def split: Option.bind_splits if_splits)

lemma read_items_shrinks:
  assumes "\<And>l s r t. rd l s = Some (r, t) \<Longrightarrow> length t \<le> length (s :: u1 list)" "read_items b z rd n p l s = Some (r, t)"
  shows "length t \<le> length s"
  using assms(2)
proof (induction n arbitrary: p l s r)
  case (Suc n)
  from Suc.prems obtain x s1 where x: "rd l s = Some (x, s1)"
    "t = s1 \<or> (\<exists>p l r. read_items b z rd n p l s1 = Some (r, t))"
    by (fastforce split: Option.bind_splits option.splits if_splits)
  then have "length t \<le> length s1" using Suc.IH by auto
  with assms(1) [OF x(1)] show ?case by simp
qed simp

lemma class_readers_shrink:
  "dexReadAndVerifyClassDataHeader limit s = Some (Some h, t) \<Longrightarrow> length t < length s"
  "dexReadAndVerifyClassDataField limit l s = Some (f, t) \<Longrightarrow> length t \<le> length s"
  "dexReadAndVerifyClassDataMethod limit l s = Some (m, t) \<Longrightarrow> length t \<le> length s"
proof -
  have "length u < length v" if "dexReadClassDataHeader v = Some (x, u)" for x u v
    using that by (auto simp: dexReadClassDataHeader_def dest!: readUnsigned_less split: Option.bind_splits)
  then show "length t < length s" if "dexReadAndVerifyClassDataHeader limit s = Some (Some h, t)"
    using verified_read_shrinks [of 4 dexReadClassDataHeader limit s "Some h" t] that by (simp add: dexReadAndVerifyClassDataHeader_def)
  have "length u < length v" if "dexReadClassDataField l v = Some (x, u)" for l x u v
    using that by (auto simp: dexReadClassDataField_def Let_def dest!: readUnsigned_less split: Option.bind_splits)
  then show "length t \<le> length s" if "dexReadAndVerifyClassDataField limit l s = Some (f, t)"
    using verified_read_shrinks [of 2 "dexReadClassDataField l" limit s f t] that by (simp add: dexReadAndVerifyClassDataField_def)
  have "length u < length v" if "dexReadClassDataMethod l v = Some (x, u)" for l x u v
    using that by (auto simp: dexReadClassDataMethod_def Let_def dest!: readUnsigned_less split: Option.bind_splits)
  then show "length t \<le> length s" if "dexReadAndVerifyClassDataMethod limit l s = Some (m, t)"
    using verified_read_shrinks [of 3 "dexReadClassDataMethod l" limit s m t] that by (simp add: dexReadAndVerifyClassDataMethod_def)
qed

lemma class_data_shrinks:
  assumes "dexReadAndVerifyClassData alloc limit (Some s) = Some (Some cd, Some t)"
  shows "length t < length s"
proof -
  let ?f = "dexReadAndVerifyClassDataField limit" and ?m = "dexReadAndVerifyClassDataMethod limit"
  from assms obtain h s0 b n1 p1 r1 s1 n2 p2 r2 s2 n3 p3 r3 s3 n4 p4 r4
    where r: "dexReadAndVerifyClassDataHeader limit s = Some (Some h, s0)" "read_items b 8 ?f n1 p1 0 s0 = Some (r1, s1)"
      "read_items b 8 ?f n2 p2 0 s1 = Some (r2, s2)" "read_items b 12 ?m n3 p3 0 s2 = Some (r3, s3)"
      "read_items b 12 ?m n4 p4 0 s3 = Some (r4, t)"
    unfolding dexReadAndVerifyClassData_def Let_def
    by (auto split: Option.bind_splits option.splits if_splits)
  have f: "length u \<le> length v" if "read_items b z ?f n p l v = Some (r, u)" for b z n p l v r u
    using that by (rule read_items_shrinks [rotated]) (rule class_readers_shrink(2))
  have m: "length u \<le> length v" if "read_items b z ?m n p l v = Some (r, u)" for b z n p l v r u
    using that by (rule read_items_shrinks [rotated]) (rule class_readers_shrink(3))
  show ?thesis using class_readers_shrink(1) [OF r(1)] f [OF r(2)] f [OF r(3)] m [OF r(4)] m [OF r(5)] by simp
qed

lemma class_data_forward:
  assumes "intraVerifyClassDataItem alloc st p = Some (Some q)"
  shows "p < q"
proof -
  from assms obtain cd t where "dexReadAndVerifyClassData alloc (Some (length (vs_bytes st) - fileLen st)) (Some (drop p (vs_bytes st))) =
      Some (Some cd, Some t)" "q = length (vs_bytes st) - length t"
    by (auto simp: intraVerifyClassDataItem_def split: Option.bind_splits option.splits if_splits)
  with class_data_shrinks [OF this(1)] show ?thesis by simp
qed

subsection \<open>Items end in memory\<close>

text \<open>The memory holds the file, and its end is not near the end of the address space.\<close>

definition small_file :: "check_state \<Rightarrow> bool" where
  "small_file st \<longleftrightarrow> fileLen st \<le> length (vs_bytes st) \<and> length (vs_bytes st) + 8 < 2 ^ 32"

lemma list_inside:
  assumes "check_list_size safe_mul st p n k" "mul_contract safe_mul"
  shows "p + unat n * unat k \<le> fileLen st"
proof -
  have "unat (n * k) = unat n * unat k"
    using assms mul_contractD [of safe_mul n k] by (simp add: check_list_size_def unat_word_ariths)
  with assms(1) show ?thesis by (simp add: check_list_size_def checkPtrRange_def)
qed

lemma type_items_end: "type_items st n p = Some (Some q) \<Longrightarrow> q = p + 2 * n"
  by (induction n arbitrary: p) (fastforce dest!: index_Some)+

lemma annotation_entries_end: "annotation_entries st l n prev p = Some (Some q) \<Longrightarrow> q = p + 8 * n"
  by (induction n arbitrary: p prev) (fastforce simp: require_Some split: Option.bind_splits)+

lemma lists_end:
  assumes "mul_contract m"
  shows "swapTypeList m st p = Some (Some q) \<Longrightarrow> q \<le> fileLen st"
    and "swapAnnotationSetRefList m st p = Some (Some q) \<Longrightarrow> q \<le> fileLen st"
    and "swapAnnotationSetItem m st p = Some (Some q) \<Longrightarrow> q \<le> fileLen st"
    and "swapFieldAnnotations m st n p = Some (Some q) \<Longrightarrow> q \<le> fileLen st"
    and "swapMethodAnnotations m st n p = Some (Some q) \<Longrightarrow> q \<le> fileLen st"
    and "swapParameterAnnotations m st n p = Some (Some q) \<Longrightarrow> q \<le> fileLen st"
  using list_inside [OF _ assms, of st]
  by (fastforce simp: swapTypeList_def swapAnnotationSetRefList_def swapAnnotationSetItem_def swapFieldAnnotations_def
      swapMethodAnnotations_def swapParameterAnnotations_def require_Some mult.commute
      dest!: type_items_end annotation_entries_end split: Option.bind_splits)+

lemma directory_end:
  assumes "mul_contract m" "swapAnnotationsDirectoryItem m st p = Some (Some q)"
  shows "q \<le> fileLen st"
  using assms(2) lists_end(4-6) [OF assms(1)]
  by (fastforce simp: swapAnnotationsDirectoryItem_def require_Some and_then_Some dest!: checkPtrRange_le split: Option.bind_splits if_splits)

lemma typed_handlers_end: "typed_handlers st k n p = Some (Some q) \<Longrightarrow> p \<le> q \<and> (0 < n \<longrightarrow> q \<le> fileLen st)"
proof (induction n arbitrary: p)
  case (Suc n)
  then obtain t a p1 p2 where r: "checked_uleb st p = Some (Some (t, p1))" "checked_uleb st p1 = Some (Some (a, p2))"
    "typed_handlers st k n p2 = Some (Some q)" by (auto simp: and_then_Some require_Some)
  from Suc.IH [OF r(3)] r(3) checked_uleb_forward [OF r(1)] checked_uleb_forward [OF r(2)] show ?case by (cases n) auto
qed simp

lemma handler_list_end:
  assumes "handler_list st k base off = Some (Some nx)" "small_file st"
  shows "base + unat nx \<le> fileLen st"
proof -
  let ?n = "\<lambda>w :: u4. nat (if sint w \<le> 0 then - sint w else sint w)"
  from assms(1) obtain w p q r where h: "checked_sleb st (base + unat off) = Some (Some (w, p))"
    "typed_handlers st k (?n w) p = Some (Some q)" "catch_all_handler st k (sint w \<le> 0) q = Some (Some r)" "nx = of_nat (r - base)"
    by (auto simp: handler_list_def and_then_Some require_Some Let_def)
  have pq: "base \<le> q" "0 < ?n w \<longrightarrow> q \<le> fileLen st"
    using checked_sleb_forward [OF h(1)] typed_handlers_end [OF h(2)] by simp_all
  have "q \<le> r \<and> r \<le> fileLen st"
  proof (cases "sint w \<le> 0")
    case True
    with h(3) show ?thesis by (auto simp: catch_all_handler_def and_then_Some require_Some dest!: checked_uleb_forward)
  next
    case False
    with h(3) pq(2) show ?thesis by (simp add: catch_all_handler_def)
  qed
  moreover from this assms(2) have "r - base < 2 ^ 32" unfolding small_file_def by linarith
  then have "unat (of_nat (r - base) :: u4) = r - base" by (rule unat_of_nat_u4)
  ultimately show ?thesis using h(4) pq(1) by simp
qed

lemma handlers_end:
  "setHandlerOffsAndVerify st k base off (Suc n) = Some (Some (offs, e)) \<Longrightarrow> small_file st \<Longrightarrow> base + unat e \<le> fileLen st"
proof (induction n arbitrary: off offs)
  case 0
  then show ?case by (auto simp: and_then_Some dest: handler_list_end)
next
  case (Suc n)
  then obtain nx offs' where "setHandlerOffsAndVerify st k base nx (Suc n) = Some (Some (offs', e))"
    by (auto simp: and_then_Some simp del: setHandlerOffsAndVerify.simps(2) simp: setHandlerOffsAndVerify.simps(2) [of st k base off])
  with Suc show ?case by blast
qed

lemma code_end:
  assumes "mul_contract m" "small_file st" "swapCodeItem m st p = Some (Some q)"
  shows "q \<le> fileLen st"
proof -
  from assms(3) obtain k n where c: "check_list_size m st (p + 16) k 2"
    "q = p + 16 + 2 * unat k \<or> swapTriesAndCatches m st p k n = Some (Some q)"
    by (auto simp: swapCodeItem_def require_Some Let_def split: Option.bind_splits if_splits)
  show ?thesis
  proof (cases "q = p + 16 + 2 * unat k")
    case True
    with list_inside [OF c(1) assms(1)] show ?thesis by (simp add: mult.commute)
  next
    case False
    let ?h = "tries_at p k + 8 * unat n"
    from False c(2) obtain off offs e and m' :: u4 where t: "setHandlerOffsAndVerify st k ?h off (unat m') = Some (Some (offs, e))" "m' \<noteq> 0" "q = ?h + unat e"
      by (auto simp: swapTriesAndCatches_def Let_def and_then_Some require_Some)
    then obtain j where "unat m' = Suc j" by (metis not0_implies_Suc unat_eq_zero)
    with t handlers_end [of st k ?h off j offs e] assms(2) show ?thesis by simp
  qed
qed

text \<open>The bytes of a number may be missing; it has at most eight.\<close>

lemma verify_items_end:
  "(\<And>p q. value p = Some (Some q) \<Longrightarrow> q \<le> e) \<Longrightarrow> verify_items value n p = Some (Some q) \<Longrightarrow> p \<le> e \<Longrightarrow> q \<le> e"
  by (induction n arbitrary: p) (auto simp: and_then_Some)

lemma verify_elements_end:
  "(\<And>p q. value p = Some (Some q) \<Longrightarrow> q \<le> e) \<Longrightarrow> verify_elements value st c n l p = Some (Some q) \<Longrightarrow> p \<le> e \<Longrightarrow> q \<le> e"
proof (induction n arbitrary: p l)
  case (Suc n)
  from Suc.prems(2) obtain i p1 p2 where "value p1 = Some (Some p2)" "verify_elements value st c n (Some i) p2 = Some (Some q)"
    by (auto simp: and_then_Some require_Some split: Option.bind_splits if_splits)
  from this(2) Suc.prems(1) [OF this(1)] show ?case by (rule Suc.IH [OF Suc.prems(1), rotated])
qed simp

lemma verifyEncodedArray_end:
  assumes "\<And>p q. value p = Some (Some q) \<Longrightarrow> q \<le> fileLen st + 8" "verifyEncodedArray value st p = Some (Some q)"
  shows "q \<le> fileLen st + 8"
proof -
  from assms(2) obtain n p1 where r: "checked_uleb st p = Some (Some (n, p1))" "verify_items value (unat n) p1 = Some (Some q)"
    by (auto simp: verifyEncodedArray_def and_then_Some)
  show ?thesis by (rule verify_items_end [OF assms(1) r(2)]) (use checked_uleb_forward [OF r(1)] in simp_all)
qed

lemma verifyEncodedAnnotation_end:
  assumes "\<And>p q. value p = Some (Some q) \<Longrightarrow> q \<le> fileLen st + 8" "verifyEncodedAnnotation value st c p = Some (Some q)"
  shows "q \<le> fileLen st + 8"
proof -
  from assms(2) obtain i p1 n p2 where r: "checked_uleb st p1 = Some (Some (n, p2))" "verify_elements value st c (unat n) i p2 = Some (Some q)"
    by (auto simp: verifyEncodedAnnotation_def and_then_Some require_Some split: Option.bind_splits if_splits)
  show ?thesis by (rule verify_elements_end [OF assms(1) r(2)]) (use checked_uleb_forward [OF r(1)] in simp_all)
qed

lemma verify_index_end: "verify_index st l n p = Some (Some q) \<Longrightarrow> p \<le> fileLen st \<Longrightarrow> q \<le> fileLen st"
  by (auto simp: verify_index_def readUnsignedLittleEndian_def require_Some checkPtrRange_def split: Option.bind_splits if_splits)

lemma verify_by_type_end:
  assumes "\<And>p q. value p = Some (Some q) \<Longrightarrow> q \<le> fileLen st + 8" "verify_by_type value st c t n p = Some (Some q)"
    and "p \<le> fileLen st" "n < 8"
  shows "q \<le> fileLen st + 8"
proof -
  have index: "q \<le> fileLen st + 8" if "verify_index st l n p = Some (Some q)" for l
    using verify_index_end [OF that assms(3)] by simp
  have array: "q \<le> fileLen st + 8" if "verifyEncodedArray value st p = Some (Some q)"
    using that by (rule verifyEncodedArray_end [rotated]) (rule assms(1))
  have annotation: "q \<le> fileLen st + 8" if "verifyEncodedAnnotation value st c p = Some (Some q)"
    using that by (rule verifyEncodedAnnotation_end [rotated]) (rule assms(1))
  show ?thesis
    using assms(2-4) unfolding verify_by_type_def
    by (auto simp: require_Some split: if_splits dest!: index array annotation)
qed

lemma verify_value_end: "verify_value d st c p = Some (Some q) \<Longrightarrow> q \<le> fileLen st + 8"
proof (induction d arbitrary: p q)
  case (Suc d)
  then obtain b :: u1 where b: "verify_by_type (verify_value d st c) st c (b AND 0x1f) (unat (drop_bit 5 b)) (p + 1) = Some (Some q)"
    "p + 1 \<le> fileLen st"
    by (auto simp: require_Some checkPtrRange_def split: Option.bind_splits)
  have "unat b < 256" using unsigned_less [of b, where ?'a = nat] by simp
  then have "unat (drop_bit 5 b) < 8" by (simp add: drop_bit_eq_div unat_div)
  with b(1,2) show ?case by (rule verify_by_type_end [rotated]) (rule Suc.IH, assumption)
qed simp

lemma encoded_items_end:
  "intraVerifyEncodedArrayItem st p = Some (Some q) \<Longrightarrow> q \<le> fileLen st + 8"
  "intraVerifyAnnotationItem st p = Some (Some q) \<Longrightarrow> q \<le> fileLen st + 8"
proof -
  have v: "r \<le> fileLen st + 8" if "verifyEncodedValue st False p = Some (Some r)" for p r
    using that unfolding verifyEncodedValue_def by (rule verify_value_end)
  show "q \<le> fileLen st + 8" if "intraVerifyEncodedArrayItem st p = Some (Some q)"
    using that verifyEncodedArray_end [OF v] by (simp add: intraVerifyEncodedArrayItem_def)
  show "q \<le> fileLen st + 8" if "intraVerifyAnnotationItem st p = Some (Some q)"
    using that verifyEncodedAnnotation_end [OF v]
    by (auto simp: intraVerifyAnnotationItem_def require_Some split: Option.bind_splits)
qed

lemma byte_at_inside: "byte_at st p = Some b \<Longrightarrow> p < length (vs_bytes st)"
  by (simp add: byte_at_def split: if_splits)

lemma string_data_end: "intraVerifyStringDataItem st p = Some (Some q) \<Longrightarrow> q \<le> length (vs_bytes st)"
  by (auto simp: intraVerifyStringDataItem_def and_then_Some dest!: byte_at_inside split: Option.bind_splits if_splits)

lemma debug_ops_end: "verify_debug_ops st p = Some (Some q) \<Longrightarrow> q \<le> length (vs_bytes st)"
proof (induction st p rule: verify_debug_ops.induct)
  case (1 st p)
  then obtain b where b: "byte_at st p = Some b" by (cases "byte_at st p") (simp_all add: verify_debug_ops.simps [of st p])
  show ?case
  proof (cases "b = DBG_END_SEQUENCE")
    case True
    with 1(2) b byte_at_inside [OF b] show ?thesis by (simp add: verify_debug_ops.simps [of st p])
  next
    case False
    with 1(2) b obtain p' where "verify_operands st b (p + 1) = Some (Some p')" "verify_debug_ops st p' = Some (Some q)"
      by (auto simp: verify_debug_ops.simps [of st p] split: option.splits)
    with 1(1) [OF b False this(1) refl] show ?thesis by blast
  qed
qed

lemma debug_info_end: "intraVerifyDebugInfoItem st p = Some (Some q) \<Longrightarrow> q \<le> length (vs_bytes st)"
  by (auto simp: intraVerifyDebugInfoItem_def and_then_Some require_Some dest: debug_ops_end)

lemma class_data_end: "intraVerifyClassDataItem alloc st p = Some (Some q) \<Longrightarrow> q \<le> length (vs_bytes st)"
  by (auto simp: intraVerifyClassDataItem_def split: Option.bind_splits option.splits if_splits)

section \<open>Properties\<close>

text \<open>C25. After a code item was accepted, looking up the handlers of any address is safe: the search finds the try block
  that covers the address if there is one, iterating over its handlers stays in memory and ends, and every
  handler has a type of the table, or catches everything, and an address inside the method.\<close>

theorem verified_code_handlers:
  assumes "swapCodeItem safe_mul st p = Some (Some e)" "mul_contract safe_mul"
  shows "\<exists>c k found it hs it'. read_code st p = Some c \<and> u4_at st (p + 12) = Some k \<and>
    dexFindCatchHandler c address = Some (found, it) \<and> (found \<longleftrightarrow> (\<exists>t\<in>set (tries c). covers address t)) \<and>
    drain it = Some (hs, it') \<and> list_all (handler_ok st k) hs"
proof -
  from code_verified [OF assms] obtain c k where c: "read_code st p = Some c" "u4_at st (p + 12) = Some k" "tries_ok (tries c)"
    and t: "\<And>t. t \<in> set (tries c) \<Longrightarrow> \<exists>nx. handler_list st k (tries_at p k + 8 * length (tries c)) (ucast (handlerOff t)) = Some (Some nx)"
    by blast
  have d: "handler_data c = drop (tries_at p k + 8 * length (tries c)) (vs_bytes st)"
    using c(1,2) read_tries_length by (fastforce simp: read_code_def split: Option.bind_splits)
  note found = find_in_tries [OF c(3), of address]
  show ?thesis
  proof (cases "find (covers address) (tries c)")
    case None
    then have "\<not> (\<exists>t\<in>set (tries c). covers address t)" by (simp add: find_None_iff)
    with None found c show ?thesis by (auto simp: drain_end dexCatchIteratorClear_def)
  next
    case (Some t)
    then have in_set: "t \<in> set (tries c)" "covers address t" by (auto simp: find_Some_iff)
    from t [OF in_set(1)] obtain nx where "handler_list st k (tries_at p k + 8 * length (tries c)) (ucast (handlerOff t)) = Some (Some nx)" by blast
    from handler_list_drains [OF this] obtain it hs it' where
      "dexCatchIteratorInit c (ucast (handlerOff t)) = Some it" "drain it = Some (hs, it')" "list_all (handler_ok st k) hs"
      by (auto simp: dexCatchIteratorInit_def d drop_drop add.commute)
    with Some found c in_set show ?thesis by auto
  qed
qed

definition try_code :: "u1 list" where
  "try_code = [1, 0, 0, 0, 0, 0, 1, 0, 0, 0, 0, 0, 2, 0, 0, 0, 0, 0, 0, 0, 0, 0, 0, 0, 2, 0, 1, 0, 1, 1, 3, 1]"

text \<open>A multiplication that refuses large factors.\<close>

definition short_mul :: "u4 \<Rightarrow> u4 \<Rightarrow> u4 option" where
  "short_mul a b = (if a < 65536 \<and> b < 65536 then Some (a * b) else None)"

lemma short_mul_ok: "mul_contract short_mul"
proof -
  have "unat a * unat b < 2 ^ 32" if "a < 65536" "b < 65536" for a b :: u4
    using that mult_strict_mono [of "unat a" 65536 "unat b" 65536] by (simp add: word_less_nat_alt)
  then show ?thesis by (auto simp: mul_contract_def short_mul_def unat_word_ariths split: if_splits)
qed

theorem verified_code_handlers_witness:
  "\<exists>c k found it hs it'. read_code (file_of try_code) 0 = Some c \<and> u4_at (file_of try_code) 12 = Some k \<and>
    dexFindCatchHandler c 1 = Some (found, it) \<and> (found \<longleftrightarrow> (\<exists>t\<in>set (tries c). covers 1 t)) \<and>
    drain it = Some (hs, it') \<and> list_all (handler_ok (file_of try_code) k) hs"
proof -
  have "swapCodeItem short_mul (file_of try_code) 0 = Some (Some 32)" by code_simp
  from verified_code_handlers [OF this short_mul_ok, of 1] show ?thesis by simp
qed

text \<open>A structure with a flexible array is checked as if it had one element and its padding: the list of one type
  needs six bytes, and at the end of a file it is refused.\<close>

lemma last_type_list_refused: "swapTypeList safe_mul (file_of [1, 0, 0, 0, 3, 0]) 0 = Some None"
  by (simp add: swapTypeList_def require_def checkPtrRange_def)

end
