(* ===== verification/DexParse.thy ===== *)
theory DexParse
  imports DexImage
begin

text \<open>
  Opening a dex file: \<^verbatim>\<open>dexFileParse\<close> of \<^verbatim>\<open>jni/dalvik/libdex/DexFile.cpp\<close>, the tables that the optimizer appends
  (\<^verbatim>\<open>DexOptData.cpp\<close>) and the magic number (\<^verbatim>\<open>DexSwapVerify.cpp\<close>). \<open>None\<close> is a read outside the mapped file or a
  loop that does not end; \<open>Some None\<close> is the result \<open>NULL\<close>. zlib's \<open>adler32\<close> is an argument (\<open>adler0\<close> its initial
  value). The check of the SHA-1 digest is compiled out (\<open>kVerifySignature\<close> is false).
\<close>

unbundle bit_operations_syntax

section \<open>Magic numbers and checksums\<close>

definition DEX_MAGIC :: "u1 list" where "DEX_MAGIC = [0x64, 0x65, 0x78, 0x0a]"
definition DEX_MAGIC_VERS :: "u1 list" where "DEX_MAGIC_VERS = [0x30, 0x33, 0x36, 0]"
definition DEX_MAGIC_VERS_API_13 :: "u1 list" where "DEX_MAGIC_VERS_API_13 = [0x30, 0x33, 0x35, 0]"
definition DEX_OPT_MAGIC :: "u1 list" where "DEX_OPT_MAGIC = [0x64, 0x65, 0x79, 0x0a]"
definition DEX_OPT_MAGIC_VERS :: "u1 list" where "DEX_OPT_MAGIC_VERS = [0x30, 0x33, 0x36, 0]"

definition bytes_at :: "image \<Rightarrow> u4 \<Rightarrow> nat \<Rightarrow> u1 list option" where
  "bytes_at m p n = (if n \<le> length (mem_at m p) then Some (take n (mem_at m p)) else None)"

definition dexHasValidMagic :: "image \<Rightarrow> u4 \<Rightarrow> bool option" where
  "dexHasValidMagic m p =
     do { magic \<leftarrow> bytes_at m p 4;
       if magic \<noteq> DEX_MAGIC then Some False
       else do { version \<leftarrow> bytes_at m (p + 4) 4;
         Some (version = DEX_MAGIC_VERS \<or> version = DEX_MAGIC_VERS_API_13) } }"

definition dexComputeChecksum :: "u4 \<Rightarrow> (u4 \<Rightarrow> u1 list \<Rightarrow> u4) \<Rightarrow> image \<Rightarrow> u4 \<Rightarrow> u4 option" where
  "dexComputeChecksum adler0 adler32 m p =
     do { fileSize \<leftarrow> rd4 m (p + field_off FileSize);
       bs \<leftarrow> bytes_at m (p + 12) (unat (fileSize - 12));
       Some (adler32 adler0 bs) }"

datatype opt_field = DexOffset | DexLength | DepsOffset | OptOffset | OptLength | OptChecksum

text \<open>Where the fields are in \<open>DexOptHeader\<close>.\<close>

fun opt_off :: "opt_field \<Rightarrow> u4" where
  "opt_off DexOffset = 8" | "opt_off DexLength = 12" | "opt_off DepsOffset = 16"
| "opt_off OptOffset = 24" | "opt_off OptLength = 28" | "opt_off OptChecksum = 36"

definition opt_header :: "image \<Rightarrow> u4 \<Rightarrow> opt_field \<Rightarrow> u4 option" where
  "opt_header m p fld = rd4 m (p + opt_off fld)"

definition dexComputeOptChecksum :: "u4 \<Rightarrow> (u4 \<Rightarrow> u1 list \<Rightarrow> u4) \<Rightarrow> image \<Rightarrow> u4 \<Rightarrow> u4 option" where
  "dexComputeOptChecksum adler0 adler32 m p =
     do { depsOffset \<leftarrow> opt_header m p DepsOffset;
       optOffset \<leftarrow> opt_header m p OptOffset;
       optLength \<leftarrow> opt_header m p OptLength;
       let start = p + depsOffset;
       let end' = p + optOffset + optLength;
       bs \<leftarrow> bytes_at m start (unat (end' - start));
       Some (adler32 adler0 bs) }"

section \<open>Optimizer data\<close>

definition kDexChunkClassLookup :: u4 where "kDexChunkClassLookup = 0x434c4b50"
definition kDexChunkRegisterMaps :: u4 where "kDexChunkRegisterMaps = 0x524d4150"
definition kDexChunkEnd :: u4 where "kDexChunkEnd = 0x41454e44"

definition isValidPointer :: "u4 \<Rightarrow> u4 \<Rightarrow> u4 \<Rightarrow> bool" where
  "isValidPointer ptr start end' \<longleftrightarrow> ptr \<ge> start \<and> ptr < end' \<and> ptr AND 7 = 0"

definition rounded_size :: "u4 \<Rightarrow> u4" where
  "rounded_size sz = (sz + 8 + 7) AND NOT 7"

definition take_chunk :: "u4 \<Rightarrow> u4 \<Rightarrow> dex_file \<Rightarrow> dex_file" where
  "take_chunk type pOptData f =
     (if type = kDexChunkClassLookup then f\<lparr>pClassLookup := pOptData\<rparr>
      else if type = kDexChunkRegisterMaps then f\<lparr>pRegisterMapPool := pOptData\<rparr> else f)"

partial_function (option) opt_loop :: "u4 \<Rightarrow> u4 \<Rightarrow> u4 \<Rightarrow> dex_file \<Rightarrow> (bool \<times> dex_file) option" where
  "opt_loop pOptStart pOptEnd pOpt f =
     (case rd4 (mem f) pOpt of None \<Rightarrow> None | Some type \<Rightarrow>
        if type = kDexChunkEnd then Some (True, f)
        else if \<not> isValidPointer (pOpt + 8) pOptStart pOptEnd then Some (False, f)
        else
          (case rd4 (mem f) (pOpt + 4) of None \<Rightarrow> None | Some sz \<Rightarrow>
             let pNextOpt = pOpt + rounded_size sz in
             if \<not> isValidPointer pNextOpt pOptStart pOptEnd then Some (False, f)
             else opt_loop pOptStart pOptEnd pNextOpt (take_chunk type (pOpt + 8) f)))"

definition dexParseOptData :: "u4 \<Rightarrow> u4 \<Rightarrow> dex_file \<Rightarrow> (bool \<times> dex_file) option" where
  "dexParseOptData data length' f =
     do { optOffset \<leftarrow> opt_header (mem f) (pOptHeader f) OptOffset;
       let pOptStart = data + optOffset;
       let pOptEnd = data + length';
       let optLength = pOptEnd - pOptStart;
       if \<not> isValidPointer pOptStart pOptStart pOptEnd then Some (False, f)
       else if optLength AND 3 \<noteq> 0 then Some (False, f)
       else if optLength < 8 then Some (False, f)
       else opt_loop pOptStart pOptEnd pOptStart f }"

section \<open>Parsing\<close>

definition kDexParseVerifyChecksum :: u4 where "kDexParseVerifyChecksum = 1"
definition kDexParseContinueOnError :: u4 where "kDexParseContinueOnError = 2"

definition new_dex_file :: "image \<Rightarrow> dex_file" where
  "new_dex_file m = \<lparr>mem = m, pOptHeader = 0, pHeader = 0, pStringIds = 0, pTypeIds = 0, pFieldIds = 0, pMethodIds = 0,
     pProtoIds = 0, pClassDefs = 0, pLinkData = 0, pClassLookup = 0, pRegisterMapPool = 0, baseAddr = 0\<rparr>"

definition dexFileSetupBasicPointers :: "dex_file \<Rightarrow> u4 \<Rightarrow> dex_file option" where
  "dexFileSetupBasicPointers f data =
     (let f = f\<lparr>baseAddr := data, pHeader := data\<rparr> in
      do { stringIdsOff \<leftarrow> header f StringIdsOff;
        typeIdsOff \<leftarrow> header f TypeIdsOff;
        fieldIdsOff \<leftarrow> header f FieldIdsOff;
        methodIdsOff \<leftarrow> header f MethodIdsOff;
        protoIdsOff \<leftarrow> header f ProtoIdsOff;
        classDefsOff \<leftarrow> header f ClassDefsOff;
        linkOff \<leftarrow> header f LinkOff;
        Some (f\<lparr>pStringIds := data + stringIdsOff, pTypeIds := data + typeIdsOff, pFieldIds := data + fieldIdsOff,
          pMethodIds := data + methodIdsOff, pProtoIds := data + protoIdsOff, pClassDefs := data + classDefsOff,
          pLinkData := data + linkOff\<rparr>) })"

text \<open>Peeling off the optimized header: \<open>Inl\<close> is a failure, otherwise the file, where the dex data starts
  and its length.\<close>

definition peel_opt_header :: "dex_file \<Rightarrow> u4 \<Rightarrow> u4 \<Rightarrow> (unit + dex_file \<times> u4 \<times> u4) option" where
  "peel_opt_header f data length' =
     do { magic \<leftarrow> bytes_at (mem f) data 4;
       if magic \<noteq> DEX_OPT_MAGIC then Some (Inr (f, data, length'))
       else do { version \<leftarrow> bytes_at (mem f) (data + 4) 4;
         if version \<noteq> DEX_OPT_MAGIC_VERS then Some (Inl ())
         else do { (okay, f) \<leftarrow> dexParseOptData data length' (f\<lparr>pOptHeader := data\<rparr>);
           if \<not> okay then Some (Inl ())
           else do { dexOffset \<leftarrow> opt_header (mem f) (pOptHeader f) DexOffset;
             dexLength \<leftarrow> opt_header (mem f) (pOptHeader f) DexLength;
             if dexLength > length' - dexOffset then Some (Inl ())
             else Some (Inr (f, data + dexOffset, dexLength)) } } } }"

text \<open>The checksums, when the flags ask for them: may parsing go on?\<close>

definition verify_checksums :: "u4 \<Rightarrow> (u4 \<Rightarrow> u1 list \<Rightarrow> u4) \<Rightarrow> u4 \<Rightarrow> dex_file \<Rightarrow> bool option" where
  "verify_checksums adler0 adler32 flags f =
     (if flags AND kDexParseVerifyChecksum = 0 then Some True
      else do { adler \<leftarrow> dexComputeChecksum adler0 adler32 (mem f) (pHeader f);
        checksum \<leftarrow> header f Checksum;
        if adler \<noteq> checksum \<and> flags AND kDexParseContinueOnError = 0 then Some False
        else if pOptHeader f = 0 then Some True
        else do { adler \<leftarrow> dexComputeOptChecksum adler0 adler32 (mem f) (pOptHeader f);
          checksum \<leftarrow> opt_header (mem f) (pOptHeader f) OptChecksum;
          Some (adler = checksum \<or> flags AND kDexParseContinueOnError \<noteq> 0) } })"

definition dexFileParse ::
  "u4 \<Rightarrow> (u4 \<Rightarrow> u1 list \<Rightarrow> u4) \<Rightarrow> image \<Rightarrow> u4 \<Rightarrow> u4 \<Rightarrow> u4 \<Rightarrow> dex_file option option" where
  "dexFileParse adler0 adler32 m data length' flags =
     (if length' < sizeof_DexHeader then Some None
      else do { peeled \<leftarrow> peel_opt_header (new_dex_file m) data length';
        (case peeled of
           Inl _ \<Rightarrow> Some None
         | Inr (f, data, length') \<Rightarrow>
             do { f \<leftarrow> dexFileSetupBasicPointers f data;
               magic_ok \<leftarrow> dexHasValidMagic (mem f) (pHeader f);
               if \<not> magic_ok then Some None
               else do { sums_ok \<leftarrow> verify_checksums adler0 adler32 flags f;
                 if \<not> sums_ok then Some None
                 else do { fileSize \<leftarrow> header f FileSize;
                   if fileSize \<noteq> length' \<and> flags AND kDexParseContinueOnError = 0 then Some None
                   else do { classDefsSize \<leftarrow> header f ClassDefsSize;
                     if classDefsSize = 0 then Some None else Some (Some f) } } } }) })"

section \<open>Chunks\<close>

lemma take_chunk_simps [simp]:
  "mem (take_chunk type p f) = mem f" "pOptHeader (take_chunk type p f) = pOptHeader f"
  by (auto simp: take_chunk_def)

text \<open>A chunk whose size makes the rounded size wrap to 0 is its own successor.\<close>

definition own_successor :: "u4 \<Rightarrow> u4 \<Rightarrow> u4 \<Rightarrow> dex_file \<Rightarrow> bool" where
  "own_successor pOptStart pOptEnd pOpt f \<longleftrightarrow>
     (\<exists>type sz. rd4 (mem f) pOpt = Some type \<and> type \<noteq> kDexChunkEnd \<and> rd4 (mem f) (pOpt + 4) = Some sz \<and>
        rounded_size sz = 0) \<and>
     isValidPointer pOpt pOptStart pOptEnd \<and> isValidPointer (pOpt + 8) pOptStart pOptEnd"

lemma opt_loop_ends:
  assumes "opt_loop pOptStart pOptEnd pOpt f = Some y"
  shows "\<not> own_successor pOptStart pOptEnd pOpt f"
  using assms
proof (rule opt_loop.raw_induct [where P = "\<lambda>a b c f y. \<not> own_successor a b c f", rotated], goal_cases)
  case (1 loop pOptStart pOptEnd pOpt f y)
  show ?case
  proof
    assume own: "own_successor pOptStart pOptEnd pOpt f"
    then obtain type sz where c: "rd4 (mem f) pOpt = Some type" "type \<noteq> kDexChunkEnd" "rd4 (mem f) (pOpt + 4) = Some sz"
      "rounded_size sz = 0" by (auto simp: own_successor_def)
    with own 1(2) have "loop pOptStart pOptEnd pOpt (take_chunk type (pOpt + 8) f) = Some y"
      by (simp add: own_successor_def)
    then have "\<not> own_successor pOptStart pOptEnd pOpt (take_chunk type (pOpt + 8) f)" by (rule 1(1))
    with own show False by (simp add: own_successor_def)
  qed
qed

lemma and_not_7: "(t :: u4) AND NOT 7 = 8 * (t div 8)"
proof -
  have "t AND NOT 7 = t AND NOT (mask 3)" by (simp add: mask_eq_exp_minus_1)
  also have "\<dots> = push_bit 3 (drop_bit 3 t)" by (rule bit_eqI) (auto simp: bit_simps)
  also have "\<dots> = 8 * (t div 8)" by (simp add: push_bit_eq_mult drop_bit_eq_div mult.commute)
  finally show ?thesis .
qed

lemma aligned_iff: "(p :: u4) AND 7 = 0 \<longleftrightarrow> unat p mod 8 = 0"
proof -
  have "p AND 7 = take_bit 3 p" using take_bit_eq_mask [of 3 p] by (simp add: mask_eq_exp_minus_1)
  moreover have "unat (take_bit 3 p) = unat p mod 8" by (simp only: unsigned_take_bit_eq) (simp add: take_bit_eq_mod)
  ultimately show ?thesis by (metis unat_eq_zero)
qed

lemma rounded_size_eq: "rounded_size sz = 8 * ((sz + 15) div 8)"
  unfolding rounded_size_def and_not_7 by (simp add: add.commute)

lemma rounded_size_wraps: "0xfffffff1 \<le> sz \<Longrightarrow> sz \<le> 0xfffffff8 \<Longrightarrow> rounded_size sz = 0"
proof -
  assume "0xfffffff1 \<le> sz" "sz \<le> 0xfffffff8"
  then have sz: "4294967281 \<le> unat sz" "unat sz \<le> 4294967288" by (simp_all add: word_le_nat_alt)
  have "unat (sz + 15) = (unat sz + 15) mod 2 ^ 32" by (simp add: unat_word_ariths)
  also have "\<dots> = unat sz + 15 - 2 ^ 32" using sz by (simp add: mod_if)
  finally have "unat (sz + 15) < 8" using sz by simp
  then have "(sz + 15) div 8 = 0" by (simp add: word_arith_nat_div)
  then show ?thesis by (simp add: rounded_size_eq)
qed

lemma rounded_size_small:
  assumes "n < 2 ^ 31"
  shows "rounded_size (of_nat n) = of_nat (8 * ((n + 15) div 8))"
proof -
  have "unat (of_nat n + 15 :: u4) = n + 15" using assms unat_of_nat_u4 [of "n + 15"] by simp
  then have "(of_nat n + 15 :: u4) div 8 = of_nat ((n + 15) div 8)" by (simp add: word_arith_nat_div)
  then show ?thesis by (simp add: rounded_size_eq)
qed

text \<open>Chunks as the optimizer writes them, padded to eight bytes, and where they end up.\<close>

definition chunk_bytes :: "u4 \<times> u1 list \<Rightarrow> u1 list" where
  "chunk_bytes c = le_bytes (fst c) @ le_bytes (of_nat (length (snd c))) @ snd c @
     replicate (8 * ((length (snd c) + 15) div 8) - 8 - length (snd c)) 0"

lemma length_chunk_bytes: "length (chunk_bytes c) = 8 * ((length (snd c) + 15) div 8)"
  by (simp add: chunk_bytes_def)

fun place_chunks :: "u4 \<Rightarrow> (u4 \<times> u1 list) list \<Rightarrow> dex_file \<Rightarrow> dex_file" where
  "place_chunks p [] f = f"
| "place_chunks p (c # cs) f = place_chunks (p + of_nat (length (chunk_bytes c))) cs (take_chunk (fst c) (p + 8) f)"

lemma opt_loop_chunks:
  assumes "fits (mem f)" "mem_at (mem f) p = concat (map chunk_bytes cs) @ le_bytes kDexChunkEnd @ rest"
    "\<forall>c \<in> set cs. fst c \<noteq> kDexChunkEnd" "pOptStart \<le> p" "p AND 7 = 0"
    "unat p + length (mem_at (mem f) p) = unat pOptEnd" "unat pOptEnd < 2 ^ 31"
  shows "opt_loop pOptStart pOptEnd p f = Some (True, place_chunks p cs f)"
  using assms
proof (induction cs arbitrary: p f)
  case Nil
  then have "rd4 (mem f) p = Some kDexChunkEnd" by (intro rd4_bytes) auto
  then show ?case by (subst opt_loop.simps) simp
next
  case (Cons c cs)
  let ?L = "length (chunk_bytes c)" and ?d = "snd c"
  have L: "8 \<le> ?L" "length ?d \<le> ?L" "?L mod 8 = 0" by (simp_all add: length_chunk_bytes)
  have mem: "mem_at (mem f) p = chunk_bytes c @ concat (map chunk_bytes cs) @ le_bytes kDexChunkEnd @ rest"
    using Cons.prems(2) by simp
  have next_mem: "mem_at (mem f) (p + of_nat ?L) = concat (map chunk_bytes cs) @ le_bytes kDexChunkEnd @ rest"
    by (rule rest_at [OF Cons.prems(1) mem])
  have bound: "unat p + ?L + 4 \<le> unat pOptEnd" using Cons.prems(6) arg_cong [OF mem, of length] by simp
  have add: "unat (p + of_nat n) = unat p + n" if "n \<le> ?L" for n
    using unat_of_nat_u4 [of "unat p + n"] that bound Cons.prems(7) by simp
  have "rd4 (mem f) p = Some (fst c)" using mem by (intro rd4_bytes) (auto simp: chunk_bytes_def)
  moreover have "mem_at (mem f) (p + 4) = le_bytes (of_nat (length ?d)) @ drop 8 (chunk_bytes c) @ concat (map chunk_bytes cs) @
      le_bytes kDexChunkEnd @ rest"
    using rest_at [OF Cons.prems(1), of p "le_bytes (fst c)"] mem by (auto simp: chunk_bytes_def)
  then have "rd4 (mem f) (p + 4) = Some (of_nat (length ?d))" by (rule rd4_bytes)
  moreover have "rounded_size (of_nat (length ?d)) = of_nat ?L"
    using rounded_size_small [of "length ?d"] L(2) bound Cons.prems(7) by (simp add: length_chunk_bytes)
  moreover have valid: "isValidPointer (p + of_nat n) pOptStart pOptEnd" if "n \<le> ?L" "n mod 8 = 0" for n
    using add [OF that(1)] bound Cons.prems(4,5) that
    by (auto simp: isValidPointer_def aligned_iff word_le_nat_alt word_less_nat_alt mod_add_eq [symmetric])
  moreover have "isValidPointer (p + 8) pOptStart pOptEnd" using valid [of 8] L(1) by simp
  moreover have "fst c \<noteq> kDexChunkEnd" using Cons.prems(3) by simp
  ultimately have "opt_loop pOptStart pOptEnd p f = opt_loop pOptStart pOptEnd (p + of_nat ?L) (take_chunk (fst c) (p + 8) f)"
    using L(3) by (subst opt_loop.simps) (simp add: Let_def)
  also have "\<dots> = Some (True, place_chunks (p + of_nat ?L) cs (take_chunk (fst c) (p + 8) f))"
  proof (rule Cons.IH)
    show "pOptStart \<le> p + of_nat ?L" "(p + of_nat ?L) AND 7 = 0" using valid [of ?L] L(3) by (auto simp: isValidPointer_def)
    show "unat (p + of_nat ?L) + length (mem_at (mem (take_chunk (fst c) (p + 8) f)) (p + of_nat ?L)) = unat pOptEnd"
      using add [of ?L] next_mem mem Cons.prems(6) by simp
  qed (use Cons.prems next_mem in auto)
  finally show ?case by simp
qed

section \<open>Properties\<close>

text \<open>The start of the optimizer's data as \<open>dexParseOptData\<close> finds it in a file of a given length.\<close>

definition opt_area :: "u4 \<Rightarrow> u4 \<Rightarrow> dex_file \<Rightarrow> u4 \<Rightarrow> bool" where
  "opt_area data length' f start \<longleftrightarrow>
     (\<exists>off. opt_header (mem f) (pOptHeader f) OptOffset = Some off \<and> start = data + off) \<and>
     isValidPointer start start (data + length') \<and> (data + length' - start) AND 3 = 0 \<and> 8 \<le> data + length' - start"


text \<open>A file of 112 bytes with an optimized header and a class index of 56 bytes.\<close>

definition opt_image :: "u4 \<Rightarrow> u4 \<Rightarrow> image" where
  "opt_image dexOffset sz = \<lparr>img_base = 0x1000, img_bytes =
     DEX_OPT_MAGIC @ DEX_OPT_MAGIC_VERS @ le_bytes dexOffset @ le_bytes 16 @ replicate 8 0 @ le_bytes 40 @ le_bytes 72 @ replicate 8 0 @
     le_bytes kDexChunkClassLookup @ le_bytes sz @ replicate 56 0 @ le_bytes kDexChunkEnd @ replicate 4 0\<rparr>"

definition opt_file :: "u4 \<Rightarrow> u4 \<Rightarrow> dex_file" where
  "opt_file dexOffset sz = (new_dex_file (opt_image dexOffset sz))\<lparr>pOptHeader := 0x1000\<rparr>"

lemmas opt_defs = opt_image_def opt_file_def new_dex_file_def DEX_OPT_MAGIC_def DEX_OPT_MAGIC_VERS_def mem_at_def bytes_at_def

lemma opt_file_area: "opt_area 0x1000 112 (opt_file off sz) 0x1028"
proof -
  have "mem_at (opt_image off sz) 0x1018 = le_bytes 40 @ drop 28 (img_bytes (opt_image off sz))"
    by (simp add: opt_defs)
  then have "opt_header (mem (opt_file off sz)) 0x1000 OptOffset = Some 40"
    by (simp add: opt_header_def opt_file_def new_dex_file_def rd4_bytes)
  then show ?thesis by (simp add: opt_area_def opt_file_def isValidPointer_def)
qed


text \<open>C20. A first chunk with a size from 0xfffffff1 to 0xfffffff8 is its own successor, since its rounded size
  wraps to 0: \<open>dexFileParse\<close> never returns for such a file.\<close>

theorem wrapped_chunk_never_ends:
  assumes "sizeof_DexHeader \<le> length'" "bytes_at m data 4 = Some DEX_OPT_MAGIC" "bytes_at m (data + 4) 4 = Some DEX_OPT_MAGIC_VERS"
    "opt_area data length' ((new_dex_file m)\<lparr>pOptHeader := data\<rparr>) start" "isValidPointer (start + 8) start (data + length')"
    "rd4 m start = Some type" "type \<noteq> kDexChunkEnd" "rd4 m (start + 4) = Some sz" "0xfffffff1 \<le> sz" "sz \<le> 0xfffffff8"
  shows "dexFileParse adler0 adler32 m data length' flags = None"
proof -
  let ?f = "(new_dex_file m)\<lparr>pOptHeader := data\<rparr>"
  have mem: "mem ?f = m" by (simp add: new_dex_file_def)
  have "own_successor start (data + length') start ?f"
    using assms(4-8) rounded_size_wraps [OF assms(9,10)] by (simp add: own_successor_def opt_area_def mem)
  then have "opt_loop start (data + length') start ?f = None" using opt_loop_ends by (metis not_Some_eq)
  then have "dexParseOptData data length' ?f = None" using assms(4) by (auto simp: dexParseOptData_def opt_area_def Let_def)
  with assms(1-3) show ?thesis by (simp add: dexFileParse_def peel_opt_header_def new_dex_file_def not_less)
qed

theorem wrapped_chunk_never_ends_witness:
  "dexFileParse 1 (\<lambda>a bs. a) (opt_image 40 0xfffffff1) 0x1000 112 0 = None"
proof -
  have "mem_at (opt_image 40 0xfffffff1) 0x1028 = le_bytes kDexChunkClassLookup @ drop 44 (img_bytes (opt_image 40 0xfffffff1))"
    "mem_at (opt_image 40 0xfffffff1) 0x102c = le_bytes 0xfffffff1 @ drop 48 (img_bytes (opt_image 40 0xfffffff1))"
    by (simp_all add: opt_defs)
  then have rd: "rd4 (opt_image 40 0xfffffff1) 0x1028 = Some kDexChunkClassLookup" "rd4 (opt_image 40 0xfffffff1) 0x102c = Some 0xfffffff1"
    by (auto intro: rd4_bytes)
  show ?thesis
    by (rule wrapped_chunk_never_ends [where start = "0x1028" and type = kDexChunkClassLookup and sz = "0xfffffff1"])
      (use rd opt_file_area [of 40 "0xfffffff1"] in
        \<open>simp_all add: opt_defs sizeof_DexHeader_def isValidPointer_def kDexChunkClassLookup_def kDexChunkEnd_def\<close>)
qed

text \<open>What \<open>dexParseOptData\<close> leaves alone.\<close>

lemma opt_loop_frame:
  assumes "opt_loop pOptStart pOptEnd pOpt f = Some y"
  shows "mem (snd y) = mem f \<and> pOptHeader (snd y) = pOptHeader f"
  using assms
proof (rule opt_loop.raw_induct [where P = "\<lambda>a b c f y. mem (snd y) = mem f \<and> pOptHeader (snd y) = pOptHeader f", rotated], goal_cases)
  case (1 loop pOptStart pOptEnd pOpt f y)
  show ?case
    using 1(2) by (auto simp: Let_def split: option.splits if_splits dest: 1(1))
qed

lemma parse_opt_frame: "dexParseOptData data length' f = Some (b, f') \<Longrightarrow> mem f' = mem f \<and> pOptHeader f' = pOptHeader f"
  by (auto simp: dexParseOptData_def Let_def split: Option.bind_splits if_splits dest: opt_loop_frame)

lemma peel_frame:
  assumes "peel_opt_header f data length' = Some (Inr (f', data', length''))" "pOptHeader f = 0"
  shows "mem f' = mem f \<and> (if pOptHeader f' = 0 then data' = data \<and> length'' = length' \<or> data = 0
    else pOptHeader f' = data \<and> opt_header (mem f) data DexOffset = Some (data' - data) \<and>
      opt_header (mem f) data DexLength = Some length'' \<and> length'' \<le> length' - (data' - data))"
  using assms by (auto simp: peel_opt_header_def not_less split: Option.bind_splits if_splits dest!: parse_opt_frame)

lemma setup_pointers:
  assumes "dexFileSetupBasicPointers f data = Some f'"
  shows "mem f' = mem f \<and> pOptHeader f' = pOptHeader f \<and> pHeader f' = data \<and> baseAddr f' = data \<and>
    pClassLookup f' = pClassLookup f \<and> header f' StringIdsOff = Some (pStringIds f' - data) \<and>
    header f' TypeIdsOff = Some (pTypeIds f' - data) \<and> header f' ProtoIdsOff = Some (pProtoIds f' - data) \<and>
    header f' ClassDefsOff = Some (pClassDefs f' - data)"
  using assms by (auto simp: dexFileSetupBasicPointers_def Let_def header_def split: Option.bind_splits)


definition plain_image :: image where
  "plain_image = \<lparr>img_base = 0x1000, img_bytes = DEX_MAGIC @ DEX_MAGIC_VERS @ le_bytes 1 @ replicate 20 0 @ le_bytes 112 @
     replicate 60 0 @ le_bytes 1 @ replicate 12 0\<rparr>"


text \<open>The length of the rest of an optimized file is computed without a check that the dex data starts
  inside the file: with an offset beyond the end it wraps, the check for truncation passes, and the header
  is read outside of the file.\<close>

theorem opt_offset_outside_file:
  assumes "sizeof_DexHeader \<le> length'" "bytes_at m data 4 = Some DEX_OPT_MAGIC" "bytes_at m (data + 4) 4 = Some DEX_OPT_MAGIC_VERS"
    "dexParseOptData data length' ((new_dex_file m)\<lparr>pOptHeader := data\<rparr>) = Some (True, f)"
    "opt_header m data DexOffset = Some dexOffset" "opt_header m data DexLength = Some dexLength"
    "length' < dexOffset" "dexLength \<le> 2 ^ 31" "dexOffset \<le> 2 ^ 31" "length (mem_at m (data + dexOffset + field_off StringIdsOff)) < 4"
  shows "dexFileParse adler0 adler32 m data length' flags = None"
proof -
  have f: "mem f = m" "pOptHeader f = data" using parse_opt_frame [OF assms(4)] by (auto simp: new_dex_file_def)
  have "unat (length' - dexOffset) = 2 ^ 32 + unat length' - unat dexOffset"
    using assms(7) unat_u4_less [of dexOffset] by (simp add: unat_sub_if' word_less_nat_alt)
  moreover have "unat dexOffset \<le> 2 ^ 31" "unat dexLength \<le> 2 ^ 31" using assms(8,9) by (simp_all add: word_le_nat_alt)
  ultimately have "\<not> dexLength > length' - dexOffset" by (simp add: word_less_nat_alt)
  then have "peel_opt_header (new_dex_file m) data length' = Some (Inr (f, data + dexOffset, dexLength))"
    using assms(2-6) f by (simp add: peel_opt_header_def new_dex_file_def)
  moreover have "rd4 m (data + dexOffset + field_off StringIdsOff) = None"
    using assms(10) by (auto simp: rd4_def split: list.splits)
  then have "dexFileSetupBasicPointers f (data + dexOffset) = None" by (simp add: dexFileSetupBasicPointers_def header_def f)
  ultimately show ?thesis using assms(1) by (simp add: dexFileParse_def not_less)
qed

theorem opt_offset_outside_file_witness:
  "dexFileParse 1 (\<lambda>a bs. a) (opt_image 0x2000 56) 0x1000 112 0 = None"
proof (rule opt_offset_outside_file)
  have "mem_at (mem (opt_file 0x2000 56)) 0x1028 =
    concat (map chunk_bytes [(kDexChunkClassLookup, replicate 56 0)]) @ le_bytes kDexChunkEnd @ replicate 4 0"
    by (simp add: opt_defs chunk_bytes_def)
  with opt_loop_chunks [OF _ this, of "0x1028" "0x1070"] opt_file_area [of "0x2000" 56]
  show "dexParseOptData 0x1000 112 ((new_dex_file (opt_image 0x2000 56))\<lparr>pOptHeader := 0x1000\<rparr>) =
    Some (True, place_chunks 0x1028 [(kDexChunkClassLookup, replicate 56 0)] (opt_file 0x2000 56))"
    by (auto simp: dexParseOptData_def opt_area_def opt_file_def new_dex_file_def opt_image_def fits_def mem_at_def
        kDexChunkClassLookup_def kDexChunkEnd_def DEX_OPT_MAGIC_def DEX_OPT_MAGIC_VERS_def)
  have "mem_at (opt_image 0x2000 56) 0x1008 = le_bytes 0x2000 @ drop 12 (img_bytes (opt_image 0x2000 56))"
    "mem_at (opt_image 0x2000 56) 0x100c = le_bytes 16 @ drop 16 (img_bytes (opt_image 0x2000 56))" by (simp_all add: opt_defs)
  then show "opt_header (opt_image 0x2000 56) 0x1000 DexOffset = Some 0x2000" "opt_header (opt_image 0x2000 56) 0x1000 DexLength = Some 16"
    by (auto simp: opt_header_def intro: rd4_bytes)
qed (simp_all add: opt_defs sizeof_DexHeader_def)

end
