(* ===== verification/DexSections.thy ===== *)
theory DexSections
  imports DexItems DataMap DexParse
begin

text \<open>
  The map of a dex file and the walk over its sections in \<^verbatim>\<open>jni/dalvik/libdex/DexSwapVerify.cpp\<close>: the header, the map, and
  the first pass, which checks every item by itself and enters the items of the data section into the data map
  of \<open>DataMap\<close>. \<open>None\<close> stands for a read outside the memory and for a failed assertion, \<open>Some None\<close> for a
  rejected file. The pointer differences are those of a 32-bit target.
\<close>

unbundle bit_operations_syntax

section \<open>Header\<close>

record dex_header =
  hd_fileSize :: u4
  hd_headerSize :: u4
  hd_endianTag :: u4
  hd_linkSize :: u4
  hd_linkOff :: u4
  hd_mapOff :: u4
  hd_stringIdsSize :: u4
  hd_stringIdsOff :: u4
  hd_typeIdsSize :: u4
  hd_typeIdsOff :: u4
  hd_protoIdsSize :: u4
  hd_protoIdsOff :: u4
  hd_fieldIdsSize :: u4
  hd_fieldIdsOff :: u4
  hd_methodIdsSize :: u4
  hd_methodIdsOff :: u4
  hd_classDefsSize :: u4
  hd_classDefsOff :: u4
  hd_dataSize :: u4
  hd_dataOff :: u4

definition read_header :: "check_state \<Rightarrow> dex_header option" where
  "read_header st =
     do { fileSize \<leftarrow> u4_at st 32; headerSize \<leftarrow> u4_at st 36; endianTag \<leftarrow> u4_at st 40;
       linkSize \<leftarrow> u4_at st 44; linkOff \<leftarrow> u4_at st 48; mapOff \<leftarrow> u4_at st 52;
       stringIdsSize \<leftarrow> u4_at st 56; stringIdsOff \<leftarrow> u4_at st 60;
       typeIdsSize \<leftarrow> u4_at st 64; typeIdsOff \<leftarrow> u4_at st 68;
       protoIdsSize \<leftarrow> u4_at st 72; protoIdsOff \<leftarrow> u4_at st 76;
       fieldIdsSize \<leftarrow> u4_at st 80; fieldIdsOff \<leftarrow> u4_at st 84;
       methodIdsSize \<leftarrow> u4_at st 88; methodIdsOff \<leftarrow> u4_at st 92;
       classDefsSize \<leftarrow> u4_at st 96; classDefsOff \<leftarrow> u4_at st 100;
       dataSize \<leftarrow> u4_at st 104; dataOff \<leftarrow> u4_at st 108;
       Some \<lparr>hd_fileSize = fileSize, hd_headerSize = headerSize, hd_endianTag = endianTag, hd_linkSize = linkSize,
         hd_linkOff = linkOff, hd_mapOff = mapOff, hd_stringIdsSize = stringIdsSize, hd_stringIdsOff = stringIdsOff,
         hd_typeIdsSize = typeIdsSize, hd_typeIdsOff = typeIdsOff, hd_protoIdsSize = protoIdsSize,
         hd_protoIdsOff = protoIdsOff, hd_fieldIdsSize = fieldIdsSize, hd_fieldIdsOff = fieldIdsOff,
         hd_methodIdsSize = methodIdsSize, hd_methodIdsOff = methodIdsOff, hd_classDefsSize = classDefsSize,
         hd_classDefsOff = classDefsOff, hd_dataSize = dataSize, hd_dataOff = dataOff\<rparr> }"

definition kDexEndianConstant :: u4 where "kDexEndianConstant = 0x12345678"

definition swapDexHeader :: "check_state \<Rightarrow> dex_header \<Rightarrow> bool" where
  "swapDexHeader st h =
     (if \<not> checkPtrRange st 0 112 then False
      else if hd_endianTag h \<noteq> kDexEndianConstant then False
      else
        let linkOff = hd_linkOff h; linkEnd = linkOff + hd_linkSize h;
            dataOff = hd_dataOff h; dataEnd = dataOff + hd_dataSize h
        in if \<not> checkPtrRange st (unat linkOff) (unat linkEnd) then False
           else if \<not> checkPtrRange st (unat dataOff) (unat dataEnd) then False
           else True)"

text \<open>The result is the offset behind the section.\<close>

definition checkHeaderSection :: "dex_header \<Rightarrow> u4 \<Rightarrow> u4 \<Rightarrow> u4 option" where
  "checkHeaderSection h sectionOffset sectionCount =
     (if sectionCount \<noteq> 1 then None else if sectionOffset \<noteq> 0 then None else Some (hd_headerSize h))"

section \<open>Map\<close>

abbreviation (input) "kDexTypeHeaderItem \<equiv> 0x0000 :: u2"
abbreviation (input) "kDexTypeStringIdItem \<equiv> 0x0001 :: u2"
abbreviation (input) "kDexTypeTypeIdItem \<equiv> 0x0002 :: u2"
abbreviation (input) "kDexTypeProtoIdItem \<equiv> 0x0003 :: u2"
abbreviation (input) "kDexTypeFieldIdItem \<equiv> 0x0004 :: u2"
abbreviation (input) "kDexTypeMethodIdItem \<equiv> 0x0005 :: u2"
abbreviation (input) "kDexTypeClassDefItem \<equiv> 0x0006 :: u2"
abbreviation (input) "kDexTypeMapList \<equiv> 0x1000 :: u2"
abbreviation (input) "kDexTypeTypeList \<equiv> 0x1001 :: u2"
abbreviation (input) "kDexTypeAnnotationSetRefList \<equiv> 0x1002 :: u2"
abbreviation (input) "kDexTypeAnnotationSetItem \<equiv> 0x1003 :: u2"
abbreviation (input) "kDexTypeClassDataItem \<equiv> 0x2000 :: u2"
abbreviation (input) "kDexTypeCodeItem \<equiv> 0x2001 :: u2"
abbreviation (input) "kDexTypeStringDataItem \<equiv> 0x2002 :: u2"
abbreviation (input) "kDexTypeDebugInfoItem \<equiv> 0x2003 :: u2"
abbreviation (input) "kDexTypeAnnotationItem \<equiv> 0x2004 :: u2"
abbreviation (input) "kDexTypeEncodedArrayItem \<equiv> 0x2005 :: u2"
abbreviation (input) "kDexTypeAnnotationsDirectoryItem \<equiv> 0x2006 :: u2"

text \<open>The types in the order of their bits.\<close>

definition map_types :: "u2 list" where
  "map_types = [kDexTypeHeaderItem, kDexTypeStringIdItem, kDexTypeTypeIdItem, kDexTypeProtoIdItem, kDexTypeFieldIdItem,
     kDexTypeMethodIdItem, kDexTypeClassDefItem, kDexTypeMapList, kDexTypeTypeList, kDexTypeAnnotationSetRefList,
     kDexTypeAnnotationSetItem, kDexTypeClassDataItem, kDexTypeCodeItem, kDexTypeStringDataItem, kDexTypeDebugInfoItem,
     kDexTypeAnnotationItem, kDexTypeEncodedArrayItem, kDexTypeAnnotationsDirectoryItem]"

definition mapTypeToBitMask :: "u2 \<Rightarrow> u4" where
  "mapTypeToBitMask mapType =
     (if mapType = kDexTypeHeaderItem then push_bit 0 1
      else if mapType = kDexTypeStringIdItem then push_bit 1 1
      else if mapType = kDexTypeTypeIdItem then push_bit 2 1
      else if mapType = kDexTypeProtoIdItem then push_bit 3 1
      else if mapType = kDexTypeFieldIdItem then push_bit 4 1
      else if mapType = kDexTypeMethodIdItem then push_bit 5 1
      else if mapType = kDexTypeClassDefItem then push_bit 6 1
      else if mapType = kDexTypeMapList then push_bit 7 1
      else if mapType = kDexTypeTypeList then push_bit 8 1
      else if mapType = kDexTypeAnnotationSetRefList then push_bit 9 1
      else if mapType = kDexTypeAnnotationSetItem then push_bit 10 1
      else if mapType = kDexTypeClassDataItem then push_bit 11 1
      else if mapType = kDexTypeCodeItem then push_bit 12 1
      else if mapType = kDexTypeStringDataItem then push_bit 13 1
      else if mapType = kDexTypeDebugInfoItem then push_bit 14 1
      else if mapType = kDexTypeAnnotationItem then push_bit 15 1
      else if mapType = kDexTypeEncodedArrayItem then push_bit 16 1
      else if mapType = kDexTypeAnnotationsDirectoryItem then push_bit 17 1
      else 0)"

definition isDataSectionType :: "u2 \<Rightarrow> bool" where
  "isDataSectionType mapType =
     (if mapType = kDexTypeHeaderItem \<or> mapType = kDexTypeStringIdItem \<or> mapType = kDexTypeTypeIdItem \<or>
         mapType = kDexTypeProtoIdItem \<or> mapType = kDexTypeFieldIdItem \<or> mapType = kDexTypeMethodIdItem \<or>
         mapType = kDexTypeClassDefItem
      then False else True)"

record map_item =
  mi_type :: u2
  mi_size :: u4
  mi_offset :: u4

definition read_map_item :: "check_state \<Rightarrow> nat \<Rightarrow> map_item option" where
  "read_map_item st p =
     do { t \<leftarrow> u2_at st p; n \<leftarrow> u4_at st (p + 4); off \<leftarrow> u4_at st (p + 8);
       Some \<lparr>mi_type = t, mi_size = n, mi_offset = off\<rparr> }"

text \<open>The loop gives \<open>dataItemCount\<close> and \<open>usedBits\<close>.\<close>

fun map_loop :: "check_state \<Rightarrow> dex_header \<Rightarrow> nat \<Rightarrow> nat \<Rightarrow> u4 option \<Rightarrow> u4 \<Rightarrow> u4 \<Rightarrow> u4 \<Rightarrow> (u4 \<times> u4) option option" where
  "map_loop st h 0 p lastOffset dataItemsLeft dataItemCount usedBits = Some (Some (dataItemCount, usedBits))"
| "map_loop st h (Suc n) p lastOffset dataItemsLeft dataItemCount usedBits =
     do { item \<leftarrow> read_map_item st p;
       require (case lastOffset of None \<Rightarrow> True | Some l \<Rightarrow> \<not> l \<ge> mi_offset item)
         (require (\<not> mi_offset item \<ge> hd_fileSize h)
           (let isData = isDataSectionType (mi_type item); icount = mi_size item in
            require (\<not> (isData \<and> icount > dataItemsLeft))
              (let bit = mapTypeToBitMask (mi_type item) in
               require (bit \<noteq> 0)
                 (require (usedBits AND bit = 0)
                   (map_loop st h n (p + 12) (Some (mi_offset item))
                     (if isData then dataItemsLeft - icount else dataItemsLeft)
                     (if isData then dataItemCount + icount else dataItemCount) (usedBits OR bit)))))) }"

text \<open>A table the header knows of must be in the map.\<close>

definition table_listed :: "u4 \<Rightarrow> u2 \<Rightarrow> u4 \<Rightarrow> u4 \<Rightarrow> bool" where
  "table_listed usedBits t off n \<longleftrightarrow> \<not> (usedBits AND mapTypeToBitMask t = 0 \<and> (off \<noteq> 0 \<or> n \<noteq> 0))"

definition swapMap ::
  "(u4 \<Rightarrow> u4 \<Rightarrow> u4 option) \<Rightarrow> (u4 \<Rightarrow> u4 \<Rightarrow> u4 option) \<Rightarrow> (u4 \<Rightarrow> bool) \<Rightarrow> check_state \<Rightarrow> dex_header \<Rightarrow> nat \<Rightarrow> data_map option option" where
  "swapMap safe_mul safe_add malloc st h pMap =
     do { n \<leftarrow> u4_at st pMap;
       require (check_list_size safe_mul st (pMap + 4) n 12)
         (and_then (map_loop st h (unat n) (pMap + 4) None (hd_dataSize h) 0 0) (\<lambda>(dataItemCount, usedBits).
            require (usedBits AND mapTypeToBitMask kDexTypeHeaderItem \<noteq> 0)
              (require (usedBits AND mapTypeToBitMask kDexTypeMapList \<noteq> 0)
                (require (table_listed usedBits kDexTypeStringIdItem (hd_stringIdsOff h) (hd_stringIdsSize h))
                  (require (table_listed usedBits kDexTypeTypeIdItem (hd_typeIdsOff h) (hd_typeIdsSize h))
                    (require (table_listed usedBits kDexTypeProtoIdItem (hd_protoIdsOff h) (hd_protoIdsSize h))
                      (require (table_listed usedBits kDexTypeFieldIdItem (hd_fieldIdsOff h) (hd_fieldIdsSize h))
                        (require (table_listed usedBits kDexTypeMethodIdItem (hd_methodIdsOff h) (hd_methodIdsSize h))
                          (require (table_listed usedBits kDexTypeClassDefItem (hd_classDefsOff h) (hd_classDefsSize h))
                            (Some (dexDataMapAlloc safe_mul safe_add malloc dataItemCount))))))))))) }"

definition checkMapSection :: "check_state \<Rightarrow> dex_header \<Rightarrow> u4 \<Rightarrow> u4 \<Rightarrow> u4 option option" where
  "checkMapSection st h sectionOffset sectionCount =
     (if sectionCount \<noteq> 1 then Some None
      else if sectionOffset \<noteq> hd_mapOff h then Some None
      else do { n \<leftarrow> u4_at st (unat sectionOffset); Some (Some (sectionOffset + 4 + n * 12)) })"

section \<open>Sections\<close>

text \<open>An item visitor sees the item before in its section, and may change a state of its own.\<close>

type_synonym 's visitor = "'s \<Rightarrow> nat option \<Rightarrow> nat \<Rightarrow> (nat \<times> 's) option option"

fun zero_bytes :: "check_state \<Rightarrow> nat \<Rightarrow> nat \<Rightarrow> bool option" where
  "zero_bytes st 0 p = Some True"
| "zero_bytes st (Suc n) p = do { b \<leftarrow> byte_at st p; if b \<noteq> 0 then Some False else zero_bytes st n (p + 1) }"

text \<open>The loop; \<open>mapType\<close> is \<open>None\<close> when the data map is not updated.\<close>

fun iterate_items :: "'s visitor \<Rightarrow> check_state \<Rightarrow> u4 \<Rightarrow> u2 option \<Rightarrow> nat \<Rightarrow> nat option \<Rightarrow> u4 \<Rightarrow> data_map \<Rightarrow> 's \<Rightarrow>
    (u4 \<times> data_map \<times> 's) option option" where
  "iterate_items func st alignmentMask mapType 0 previousItem offset dm s = Some (Some (offset, dm, s))"
| "iterate_items func st alignmentMask mapType (Suc n) previousItem offset dm s =
     (let newOffset = (offset + alignmentMask) AND NOT alignmentMask; padded = (offset < newOffset) in
      require (padded \<longrightarrow> checkPtrRange st (unat offset) (unat newOffset))
        (do { zero \<leftarrow> if padded then zero_bytes st (unat newOffset - unat offset) (unat offset) else Some True;
          require zero
            (let offset = (if padded then newOffset else offset); ptr = unat newOffset in
             and_then (func s previousItem ptr) (\<lambda>(newPtr, s).
               let newOffset = of_nat newPtr in
               require (\<not> unat newOffset > fileLen st)
                 (do { dm \<leftarrow> (case mapType of None \<Rightarrow> Some dm | Some t \<Rightarrow> dexDataMapAdd dm offset t);
                   iterate_items func st alignmentMask mapType n (Some ptr) newOffset dm s }))) }))"

definition iterateSectionWithOptionalUpdate :: "'s visitor \<Rightarrow> check_state \<Rightarrow> u4 \<Rightarrow> u2 option \<Rightarrow> u4 \<Rightarrow> u4 \<Rightarrow> data_map \<Rightarrow> 's \<Rightarrow>
    (u4 \<times> data_map \<times> 's) option option" where
  "iterateSectionWithOptionalUpdate func st alignment mapType offset n dm s =
     iterate_items func st (alignment - 1) mapType (unat n) None offset dm s"

definition iterateSection :: "'s visitor \<Rightarrow> check_state \<Rightarrow> u4 \<Rightarrow> u4 \<Rightarrow> u4 \<Rightarrow> data_map \<Rightarrow> 's \<Rightarrow> (u4 \<times> data_map \<times> 's) option option" where
  "iterateSection func st alignment offset n dm s = iterateSectionWithOptionalUpdate func st alignment None offset n dm s"

text \<open>In the first pass the visitors look at the item only.\<close>

definition by_itself :: "(nat \<Rightarrow> verdict) \<Rightarrow> unit visitor" where
  "by_itself f s previousItem p = map_option (map_option (\<lambda>q. (q, ()))) (f p)"

definition checkBoundsAndIterateSection :: "(nat \<Rightarrow> verdict) \<Rightarrow> check_state \<Rightarrow> u4 \<Rightarrow> u4 \<Rightarrow> u4 \<Rightarrow> u4 \<Rightarrow> u4 \<Rightarrow> data_map \<Rightarrow>
    (u4 \<times> data_map) option option" where
  "checkBoundsAndIterateSection f st alignment offset n expectedOffset expectedCount dm =
     require (offset = expectedOffset)
       (require (n = expectedCount)
         (and_then (iterateSection (by_itself f) st alignment offset n dm ()) (\<lambda>(next, dm, _). Some (Some (next, dm)))))"

definition iterateDataSection :: "(nat \<Rightarrow> verdict) \<Rightarrow> check_state \<Rightarrow> dex_header \<Rightarrow> u4 \<Rightarrow> u4 \<Rightarrow> u4 \<Rightarrow> u2 \<Rightarrow> data_map \<Rightarrow>
    (u4 \<times> data_map) option option" where
  "iterateDataSection f st h alignment offset n mapType dm =
     (let dataStart = hd_dataOff h; dataEnd = dataStart + hd_dataSize h in
      require (\<not> (offset < dataStart \<or> offset \<ge> dataEnd))
        (and_then (iterateSectionWithOptionalUpdate (by_itself f) st alignment (Some mapType) offset n dm ()) (\<lambda>(next, dm, _).
           require (\<not> next > dataEnd) (Some (Some (next, dm))))))"

text \<open>The verification of one item of the data section, and its alignment.\<close>

definition data_item :: "(u4 \<Rightarrow> u4 \<Rightarrow> u4 option) \<Rightarrow> (u4 \<Rightarrow> bool) \<Rightarrow> check_state \<Rightarrow> u2 \<Rightarrow> (u4 \<times> (nat \<Rightarrow> verdict)) option" where
  "data_item safe_mul alloc st t =
     (if t = kDexTypeTypeList then Some (4, swapTypeList safe_mul st)
      else if t = kDexTypeAnnotationSetRefList then Some (4, swapAnnotationSetRefList safe_mul st)
      else if t = kDexTypeAnnotationSetItem then Some (4, swapAnnotationSetItem safe_mul st)
      else if t = kDexTypeClassDataItem then Some (1, intraVerifyClassDataItem alloc st)
      else if t = kDexTypeCodeItem then Some (4, swapCodeItem safe_mul st)
      else if t = kDexTypeStringDataItem then Some (1, intraVerifyStringDataItem st)
      else if t = kDexTypeDebugInfoItem then Some (1, intraVerifyDebugInfoItem st)
      else if t = kDexTypeAnnotationItem then Some (1, intraVerifyAnnotationItem st)
      else if t = kDexTypeEncodedArrayItem then Some (1, intraVerifyEncodedArrayItem st)
      else if t = kDexTypeAnnotationsDirectoryItem then Some (4, swapAnnotationsDirectoryItem safe_mul st)
      else None)"

definition swap_section :: "(u4 \<Rightarrow> u4 \<Rightarrow> u4 option) \<Rightarrow> (u4 \<Rightarrow> bool) \<Rightarrow> check_state \<Rightarrow> dex_header \<Rightarrow> map_item \<Rightarrow> data_map \<Rightarrow>
    (u4 \<times> data_map) option option" where
  "swap_section safe_mul alloc st h item dm =
     (let off = mi_offset item; n = mi_size item; t = mi_type item;
          table = (\<lambda>f expectedOffset expectedCount. checkBoundsAndIterateSection f st 4 off n expectedOffset expectedCount dm)
      in if t = kDexTypeHeaderItem then Some (map_option (\<lambda>e. (e, dm)) (checkHeaderSection h off n))
         else if t = kDexTypeStringIdItem then table (swapStringIdItem st) (hd_stringIdsOff h) (hd_stringIdsSize h)
         else if t = kDexTypeTypeIdItem then table (swapTypeIdItem st) (hd_typeIdsOff h) (hd_typeIdsSize h)
         else if t = kDexTypeProtoIdItem then table (swapProtoIdItem st) (hd_protoIdsOff h) (hd_protoIdsSize h)
         else if t = kDexTypeFieldIdItem then table (swapFieldIdItem st) (hd_fieldIdsOff h) (hd_fieldIdsSize h)
         else if t = kDexTypeMethodIdItem then table (swapMethodIdItem (hd_protoIdsSize h) st) (hd_methodIdsOff h) (hd_methodIdsSize h)
         else if t = kDexTypeClassDefItem then table (swapClassDefItem st) (hd_classDefsOff h) (hd_classDefsSize h)
         else if t = kDexTypeMapList then map_option (map_option (\<lambda>e. (e, dm))) (checkMapSection st h off n)
         else case data_item safe_mul alloc st t of
             None \<Rightarrow> Some None
           | Some (alignment, f) \<Rightarrow> iterateDataSection f st h alignment off n t dm)"

fun swap_sections :: "(u4 \<Rightarrow> u4 \<Rightarrow> u4 option) \<Rightarrow> (u4 \<Rightarrow> bool) \<Rightarrow> check_state \<Rightarrow> dex_header \<Rightarrow> nat \<Rightarrow> nat \<Rightarrow> u4 \<Rightarrow> data_map \<Rightarrow>
    data_map option option" where
  "swap_sections safe_mul alloc st h 0 p lastOffset dm = Some (Some dm)"
| "swap_sections safe_mul alloc st h (Suc n) p lastOffset dm =
     do { item \<leftarrow> read_map_item st p;
       let sectionOffset = mi_offset item;
       require (lastOffset < sectionOffset \<longrightarrow> checkPtrRange st (unat lastOffset) (unat sectionOffset))
         (do { zero \<leftarrow> if lastOffset < sectionOffset then zero_bytes st (unat sectionOffset - unat lastOffset) (unat lastOffset)
               else Some (\<not> lastOffset > sectionOffset);
           require zero
             (and_then (swap_section safe_mul alloc st h item dm) (\<lambda>(lastOffset, dm).
                swap_sections safe_mul alloc st h n (p + 12) lastOffset dm)) }) }"

definition swapEverythingButHeaderAndMap :: "(u4 \<Rightarrow> u4 \<Rightarrow> u4 option) \<Rightarrow> (u4 \<Rightarrow> bool) \<Rightarrow> check_state \<Rightarrow> dex_header \<Rightarrow> nat \<Rightarrow> data_map \<Rightarrow>
    data_map option option" where
  "swapEverythingButHeaderAndMap safe_mul alloc st h pMap dm =
     do { n \<leftarrow> u4_at st pMap; swap_sections safe_mul alloc st h (unat n) (pMap + 4) 0 dm }"

section \<open>The map\<close>

fun read_map :: "check_state \<Rightarrow> nat \<Rightarrow> nat \<Rightarrow> map_item list option" where
  "read_map st 0 p = Some []"
| "read_map st (Suc n) p = do { m \<leftarrow> read_map_item st p; ms \<leftarrow> read_map st n (p + 12); Some (m # ms) }"

text \<open>The items of the data section a map promises, the map itself among them.\<close>

definition data_items :: "map_item list \<Rightarrow> nat" where
  "data_items ms = (\<Sum>m\<leftarrow>ms. if isDataSectionType (mi_type m) then unat (mi_size m) else 0)"

lemma data_items_simps [simp]:
  "data_items [] = 0"
  "data_items (m # ms) = (if isDataSectionType (mi_type m) then unat (mi_size m) else 0) + data_items ms"
  by (simp_all add: data_items_def)

lemma known_type: "mapTypeToBitMask t \<noteq> 0 \<Longrightarrow> t \<in> set map_types"
  by (auto simp: mapTypeToBitMask_def map_types_def split: if_splits)

lemma masks_disjoint_all:
  "list_all (\<lambda>t. list_all (\<lambda>t'. (mapTypeToBitMask t' AND mapTypeToBitMask t = 0) = (t' \<noteq> t)) map_types) map_types"
  by (simp add: map_types_def mapTypeToBitMask_def)

lemma masks_disjoint:
  "t \<in> set map_types \<Longrightarrow> t' \<in> set map_types \<Longrightarrow> mapTypeToBitMask t' AND mapTypeToBitMask t = 0 \<longleftrightarrow> t' \<noteq> t"
  using masks_disjoint_all by (auto simp: list_all_iff)

lemma used_or:
  assumes "t \<in> set map_types" "t' \<in> set map_types"
  shows "(u OR mapTypeToBitMask t') AND mapTypeToBitMask t = 0 \<longleftrightarrow> u AND mapTypeToBitMask t = 0 \<and> t' \<noteq> t"
proof -
  have "(u OR mapTypeToBitMask t') AND mapTypeToBitMask t = (u AND mapTypeToBitMask t) OR (mapTypeToBitMask t' AND mapTypeToBitMask t)"
    by (simp add: bit.conj_disj_distrib2)
  then show ?thesis using masks_disjoint [OF assms] by (simp add: or_eq_0_iff)
qed

text \<open>What the loop establishes of the items it read.\<close>

definition map_ok :: "dex_header \<Rightarrow> map_item list \<Rightarrow> bool" where
  "map_ok h ms \<longleftrightarrow> sorted_wrt (<) (map mi_offset ms) \<and> distinct (map mi_type ms) \<and>
     (\<forall>m\<in>set ms. mi_offset m < hd_fileSize h \<and> mi_type m \<in> set map_types)"

lemma map_loop_sound:
  assumes "map_loop st h n p prev left count used = Some (Some (c, u))" "unat count + unat left < 2 ^ 32"
  shows "\<exists>ms. read_map st n p = Some ms \<and> map_ok h ms \<and>
    (\<forall>m\<in>set ms. used AND mapTypeToBitMask (mi_type m) = 0 \<and> (\<forall>l. prev = Some l \<longrightarrow> l < mi_offset m)) \<and>
    (\<forall>t\<in>set map_types. u AND mapTypeToBitMask t = 0 \<longleftrightarrow> used AND mapTypeToBitMask t = 0 \<and> t \<notin> mi_type ` set ms) \<and>
    unat c = unat count + data_items ms \<and> data_items ms \<le> unat left"
  using assms
proof (induction n arbitrary: p prev left count used)
  case 0
  then show ?case by (simp add: map_ok_def)
next
  case (Suc n)
  let ?left = "\<lambda>m. if isDataSectionType (mi_type m) then left - mi_size m else left"
  let ?count = "\<lambda>m. if isDataSectionType (mi_type m) then count + mi_size m else count"
  from Suc.prems(1) obtain m where m: "read_map_item st p = Some m" "\<forall>l. prev = Some l \<longrightarrow> l < mi_offset m"
    "mi_offset m < hd_fileSize h" "isDataSectionType (mi_type m) \<longrightarrow> mi_size m \<le> left"
    "mi_type m \<in> set map_types" "used AND mapTypeToBitMask (mi_type m) = 0"
    "map_loop st h n (p + 12) (Some (mi_offset m)) (?left m) (?count m) (used OR mapTypeToBitMask (mi_type m)) = Some (Some (c, u))"
    by (auto simp: require_Some Let_def not_le known_type split: Option.bind_splits option.splits if_splits)
  have left: "unat (?left m) = unat left - (if isDataSectionType (mi_type m) then unat (mi_size m) else 0)"
    and count: "unat (?count m) = unat count + (if isDataSectionType (mi_type m) then unat (mi_size m) else 0)"
    and le: "isDataSectionType (mi_type m) \<longrightarrow> unat (mi_size m) \<le> unat left"
    using m(4) Suc.prems(2) by (auto simp: unat_sub word_le_nat_alt unat_word_ariths)
  then have "unat (?count m) + unat (?left m) < 2 ^ 32" using Suc.prems(2) by auto
  from Suc.IH [OF m(7) this] obtain ms where ms: "read_map st n (p + 12) = Some ms" "map_ok h ms"
    "\<And>x. x \<in> set ms \<Longrightarrow> (used OR mapTypeToBitMask (mi_type m)) AND mapTypeToBitMask (mi_type x) = 0 \<and> mi_offset m < mi_offset x"
    "\<And>t. t \<in> set map_types \<Longrightarrow> u AND mapTypeToBitMask t = 0 \<longleftrightarrow>
      (used OR mapTypeToBitMask (mi_type m)) AND mapTypeToBitMask t = 0 \<and> t \<notin> mi_type ` set ms"
    "unat c = unat (?count m) + data_items ms" "data_items ms \<le> unat (?left m)" by blast
  have other: "used AND mapTypeToBitMask (mi_type x) = 0 \<and> mi_type x \<noteq> mi_type m" if "x \<in> set ms" for x
    using ms(2) ms(3) [OF that] that used_or [of "mi_type x" "mi_type m" used] m(5) by (auto simp: map_ok_def)
  have "map_ok h (m # ms)" using ms(2,3) m(3,5) other by (force simp: map_ok_def)
  moreover have "u AND mapTypeToBitMask t = 0 \<longleftrightarrow> used AND mapTypeToBitMask t = 0 \<and> t \<notin> mi_type ` set (m # ms)"
    if "t \<in> set map_types" for t using ms(4) [OF that] used_or [OF that m(5), of used] by auto
  moreover have "unat c = unat count + data_items (m # ms)" "data_items (m # ms) \<le> unat left"
    using ms(5,6) left count le by (auto split: if_splits)
  moreover have "\<forall>l. prev = Some l \<longrightarrow> l < mi_offset x" if "x \<in> set ms" for x
    using m(2) ms(3) [OF that] by force
  ultimately show ?case using m(1,2,6) ms(1) other by (intro exI [of _ "m # ms"]) auto
qed

definition header_tables :: "dex_header \<Rightarrow> (u2 \<times> u4 \<times> u4) list" where
  "header_tables h =
     [(kDexTypeStringIdItem, hd_stringIdsOff h, hd_stringIdsSize h), (kDexTypeTypeIdItem, hd_typeIdsOff h, hd_typeIdsSize h),
      (kDexTypeProtoIdItem, hd_protoIdsOff h, hd_protoIdsSize h), (kDexTypeFieldIdItem, hd_fieldIdsOff h, hd_fieldIdsSize h),
      (kDexTypeMethodIdItem, hd_methodIdsOff h, hd_methodIdsSize h), (kDexTypeClassDefItem, hd_classDefsOff h, hd_classDefsSize h)]"

lemma map_accepted:
  assumes "swapMap safe_mul safe_add malloc st h pMap = Some (Some dm)"
  shows "\<exists>n ms. u4_at st pMap = Some n \<and> read_map st (unat n) (pMap + 4) = Some ms \<and> map_ok h ms \<and>
    {kDexTypeHeaderItem, kDexTypeMapList} \<subseteq> mi_type ` set ms \<and>
    (\<forall>(t, off, n)\<in>set (header_tables h). off \<noteq> 0 \<or> n \<noteq> 0 \<longrightarrow> t \<in> mi_type ` set ms) \<and>
    dm = \<lparr>dm_max = data_items ms, dm_offsets = [], dm_types = []\<rparr> \<and> data_items ms \<le> unat (hd_dataSize h)"
proof -
  from assms obtain n c u where m: "u4_at st pMap = Some n" "map_loop st h (unat n) (pMap + 4) None (hd_dataSize h) 0 0 = Some (Some (c, u))"
    "u AND mapTypeToBitMask kDexTypeHeaderItem \<noteq> 0" "u AND mapTypeToBitMask kDexTypeMapList \<noteq> 0"
    "\<forall>(t, off, n)\<in>set (header_tables h). table_listed u t off n"
    "dexDataMapAlloc safe_mul safe_add malloc c = Some dm"
    by (auto simp: swapMap_def require_Some and_then_Some header_tables_def split: Option.bind_splits)
  have "unat (0 :: u4) + unat (hd_dataSize h) < 2 ^ 32" using unat_u4_less by simp
  from map_loop_sound [OF m(2) this] obtain ms where ms: "read_map st (unat n) (pMap + 4) = Some ms" "map_ok h ms"
    "\<And>t. t \<in> set map_types \<Longrightarrow> u AND mapTypeToBitMask t = 0 \<longleftrightarrow> t \<notin> mi_type ` set ms"
    "unat c = data_items ms" "data_items ms \<le> unat (hd_dataSize h)" by auto
  have types: "kDexTypeHeaderItem \<in> set map_types" "kDexTypeMapList \<in> set map_types" "\<forall>(t, off, n)\<in>set (header_tables h). t \<in> set map_types"
    by (simp_all add: map_types_def header_tables_def)
  have "dm = \<lparr>dm_max = unat c, dm_offsets = [], dm_types = []\<rparr>"
    using m(6) by (auto simp: dexDataMapAlloc_def split: option.splits if_splits)
  moreover have "\<forall>(t, off, n)\<in>set (header_tables h). off \<noteq> 0 \<or> n \<noteq> 0 \<longrightarrow> t \<in> mi_type ` set ms"
    using m(5) types(3) ms(3) by (fastforce simp: table_listed_def)
  ultimately show ?thesis using m(1,3,4) ms types(1,2) by auto
qed

section \<open>The items\<close>

lemma unat_and_not_3: "unat ((x :: u4) AND NOT 3) = unat x - unat x mod 4"
proof -
  have three: "(3 :: u4) = mask 2" by (simp add: mask_eq_exp_minus_1)
  have "Suc (Suc (n - 2)) = n" if "2 \<le> n" for n :: nat using that by simp
  then have "x AND NOT 3 = push_bit 2 (drop_bit 2 x)"
    unfolding three by (intro bit_word_eqI) (auto simp: bit_simps)
  then have "x AND NOT 3 = x - take_bit 2 x" using bits_ident [of 2 x] by (simp add: eq_diff_eq)
  moreover have "unat (take_bit 2 x) = unat x mod 4" by (simp add: take_bit_eq_mod unat_mod)
  ultimately show ?thesis by (simp add: unat_sub word_le_nat_alt)
qed

lemma round_up:
  assumes "a = 1 \<or> a = 4" "unat (x :: u4) + 3 < 2 ^ 32"
  shows "unat x \<le> unat ((x + (a - 1)) AND NOT (a - 1))" "unat a dvd unat ((x + (a - 1)) AND NOT (a - 1))"
proof -
  have "unat (x + 3) = unat x + 3" using assms(2) by (simp add: unat_word_ariths)
  then show "unat x \<le> unat ((x + (a - 1)) AND NOT (a - 1))" "unat a dvd unat ((x + (a - 1)) AND NOT (a - 1))"
    using assms(1) unat_and_not_3 [of "x + 3"] by (auto intro: dvd_minus_mod)
qed

lemma add_beyond:
  "dexDataMapAdd dm off t = Some dm' \<Longrightarrow> \<forall>x\<in>set (dm_offsets dm). x < off \<Longrightarrow>
    dm' = dm\<lparr>dm_offsets := dm_offsets dm @ [off], dm_types := dm_types dm @ [t]\<rparr>"
  using last_nth [of dm] last_in_set [of "dm_offsets dm"]
  by (auto simp: dexDataMapAdd_def dm_count_def not_less [symmetric] split: if_splits)

text \<open>An item of the data section: its offset, its type, and where it ends. The next item is behind it.\<close>

type_synonym item = "u4 \<times> u2 \<times> nat"

definition placed :: "item list \<Rightarrow> bool" where
  "placed items \<longleftrightarrow> sorted_wrt (\<lambda>(off, t, q) (off', t', q'). q \<le> unat off') items"

text \<open>The data map after items were entered behind those it has.\<close>

definition entered :: "data_map \<Rightarrow> item list \<Rightarrow> data_map" where
  "entered dm items = dm\<lparr>dm_offsets := dm_offsets dm @ map fst items, dm_types := dm_types dm @ map (fst \<circ> snd) items\<rparr>"

lemma entered_simps [simp]: "entered dm [] = dm" "entered (entered dm xs) ys = entered dm (xs @ ys)"
  "dm_offsets (entered dm xs) = dm_offsets dm @ map fst xs"
  by (simp_all add: entered_def)

lemma by_itself_Some: "by_itself f s prev p = Some (Some (q, u)) \<longleftrightarrow> f p = Some (Some q)"
  by (auto simp: by_itself_def)

lemma items_iterated:
  assumes "iterate_items (by_itself f) st (a - 1) (Some t) n prev off dm () = Some (Some (next, dm', u))" "a = 1 \<or> a = 4"
    and f: "\<forall>p q. f p = Some (Some q) \<longrightarrow> p < q \<and> q < 2 ^ 32" and small: "fileLen st + 3 < 2 ^ 32"
    and "unat off \<le> fileLen st" "\<forall>x\<in>set (dm_offsets dm). x < off"
  shows "\<exists>items. length items = n \<and> dm' = entered dm items \<and> placed items \<and> off \<le> next \<and>
    (\<forall>(p, t', q)\<in>set items. t' = t \<and> unat a dvd unat p \<and> f (unat p) = Some (Some q) \<and> off \<le> p \<and> unat p < q \<and> q \<le> unat next)"
  using assms(1,5,6)
proof (induction n arbitrary: prev off dm)
  case 0
  then show ?case by (simp add: placed_def)
next
  case (Suc n)
  let ?w = "(off + (a - 1)) AND NOT (a - 1)"
  have w: "off \<le> ?w" "unat a dvd unat ?w" using round_up [OF assms(2), of off] Suc.prems(2) small by (simp_all add: word_le_nat_alt)
  have at: "(if off < ?w then ?w else off) = ?w" using w(1) by auto
  from Suc.prems(1) obtain q dm1 where q: "f (unat ?w) = Some (Some q)" "unat (of_nat q :: u4) \<le> fileLen st"
    "dexDataMapAdd dm ?w t = Some dm1"
    "iterate_items (by_itself f) st (a - 1) (Some t) n (Some (unat ?w)) (of_nat q) dm1 () = Some (Some (next, dm', u))"
    by (auto simp: Let_def require_Some and_then_Some at by_itself_Some not_less split: Option.bind_splits)
  have uq: "unat (of_nat q :: u4) = q" "unat ?w < q" using f q(1) unat_of_nat_u4 by auto
  have dm1: "dm1 = entered dm [(?w, t, q)]"
    using add_beyond [OF q(3)] Suc.prems(3) less_le_trans [OF _ w(1)] by (simp add: entered_def)
  have "\<forall>x\<in>set (dm_offsets dm1). x < of_nat q"
    using Suc.prems(3) w(1) uq unfolding dm1 by (auto simp: word_less_nat_alt word_le_nat_alt)
  from Suc.IH [OF q(4,2) this] obtain items where items: "length items = n" "dm' = entered dm1 items" "placed items" "of_nat q \<le> next"
    "\<forall>(p, t', r)\<in>set items.
      t' = t \<and> unat a dvd unat p \<and> f (unat p) = Some (Some r) \<and> of_nat q \<le> p \<and> unat p < r \<and> r \<le> unat next"
    by (elim exE conjE)
  have item: "t' = t \<and> unat a dvd unat p \<and> f (unat p) = Some (Some r) \<and> of_nat q \<le> p \<and> unat p < r \<and> r \<le> unat next"
    if "(p, t', r) \<in> set items" for p t' r using bspec [OF items(5) that] by simp
  have "off \<le> of_nat q" using w(1) uq by (simp add: word_le_nat_alt)
  moreover have "placed ((?w, t, q) # items)" using items(3) uq(1) by (auto simp: placed_def word_le_nat_alt dest!: item)
  moreover have "\<forall>(p, t', r)\<in>set ((?w, t, q) # items).
      t' = t \<and> unat a dvd unat p \<and> f (unat p) = Some (Some r) \<and> off \<le> p \<and> unat p < r \<and> r \<le> unat next"
    using items(4) w uq q(1) order.trans [OF \<open>off \<le> of_nat q\<close>] by (auto simp: word_le_nat_alt dest!: item)
  ultimately show ?case using items(1,2,4) dm1 by (intro exI [of _ "(?w, t, q) # items"]) auto
qed

text \<open>An item of a type of the data section is in order: it is aligned, its verifier accepts it, and it is inside
  the data section.\<close>

fun item_ok :: "(u4 \<Rightarrow> u4 \<Rightarrow> u4 option) \<Rightarrow> (u4 \<Rightarrow> bool) \<Rightarrow> check_state \<Rightarrow> dex_header \<Rightarrow> item \<Rightarrow> bool" where
  "item_ok safe_mul alloc st h (off, t, q) \<longleftrightarrow>
     (\<exists>a f. data_item safe_mul alloc st t = Some (a, f) \<and> unat a dvd unat off \<and> f (unat off) = Some (Some q)) \<and>
     hd_dataOff h \<le> off \<and> unat off < q \<and> q \<le> unat (hd_dataOff h + hd_dataSize h)"

lemma data_item_alignment: "data_item m alloc st t = Some (a, f) \<Longrightarrow> a = 1 \<or> a = 4"
  by (auto simp: data_item_def split: if_splits)

lemma data_item_ends:
  assumes "data_item m alloc st t = Some (a, f)" "f p = Some (Some q)" "mul_contract m" "small_file st"
  shows "p < q \<and> q < 2 ^ 32"
proof
  show "p < q" using assms(1,2)
    by (auto simp: data_item_def dest: swapTypeList_forward set_items_forward swapAnnotationsDirectoryItem_forward swapCodeItem_forward
        string_data_forward debug_info_forward encoded_array_forward annotation_forward class_data_forward split: if_splits)
  have "q \<le> fileLen st + 8 \<or> q \<le> length (vs_bytes st)" using assms(1,2)
    by (auto simp: data_item_def dest: lists_end [OF assms(3)] directory_end [OF assms(3)] code_end [OF assms(3,4)]
        encoded_items_end string_data_end debug_info_end class_data_end split: if_splits)
  then show "q < 2 ^ 32" using assms(4) unfolding small_file_def by linarith
qed

lemma data_section:
  assumes "iterateDataSection f st h a off n t dm = Some (Some (next, dm'))" "data_item m alloc st t = Some (a, f)"
    and "mul_contract m" "small_file st" "swapDexHeader st h" "\<forall>x\<in>set (dm_offsets dm). x < off"
  shows "\<exists>items. length items = unat n \<and> dm' = entered dm items \<and> placed items \<and> off \<le> next \<and>
    (\<forall>(p, t', q)\<in>set items. item_ok m alloc st h (p, t', q) \<and> off \<le> p \<and> q \<le> unat next)"
proof -
  let ?stop = "hd_dataOff h + hd_dataSize h"
  from assms(1) obtain u where r: "iterate_items (by_itself f) st (a - 1) (Some t) (unat n) None off dm () = Some (Some (next, dm', u))"
    "hd_dataOff h \<le> off" "off < ?stop" "next \<le> ?stop"
    by (auto simp: iterateDataSection_def iterateSectionWithOptionalUpdate_def require_Some and_then_Some Let_def not_le not_less)
  have "unat ?stop \<le> fileLen st" using assms(5) by (simp add: swapDexHeader_def checkPtrRange_def Let_def split: if_splits)
  with r(3) have off: "unat off \<le> fileLen st" by (simp add: word_less_nat_alt)
  have small: "fileLen st + 3 < 2 ^ 32" using assms(4) by (simp add: small_file_def)
  have "\<forall>p q. f p = Some (Some q) \<longrightarrow> p < q \<and> q < 2 ^ 32" using data_item_ends [OF assms(2) _ assms(3,4)] by blast
  from items_iterated [OF r(1) data_item_alignment [OF assms(2)] this small off assms(6)] obtain items where
    "length items = unat n" "dm' = entered dm items" "placed items" "off \<le> next"
    "\<forall>(p, t', q)\<in>set items.
      t' = t \<and> unat a dvd unat p \<and> f (unat p) = Some (Some q) \<and> off \<le> p \<and> unat p < q \<and> q \<le> unat next" by (elim exE conjE)
  moreover from this(5) have "\<forall>(p, t', q)\<in>set items. item_ok m alloc st h (p, t', q) \<and> off \<le> p \<and> q \<le> unat next"
    using assms(2) order.trans [OF r(2)] order.trans [OF _ r(4) [unfolded word_le_nat_alt]] by auto
  ultimately show ?thesis by blast
qed

lemma iterate_keeps_map: "iterate_items func st a None n prev off dm s = Some (Some (next, dm', s')) \<Longrightarrow> dm' = dm"
  by (induction n arbitrary: prev off s) (auto simp: Let_def require_Some and_then_Some split: Option.bind_splits)

text \<open>The items that are entered into the data map.\<close>

definition entered_type :: "u2 \<Rightarrow> bool" where
  "entered_type t \<longleftrightarrow> isDataSectionType t \<and> t \<noteq> kDexTypeMapList"

lemma swap_section_cases:
  assumes "swap_section m alloc st h s dm = Some (Some (next, dm'))"
  shows "\<not> entered_type (mi_type s) \<and> dm' = dm \<or>
    entered_type (mi_type s) \<and> (\<exists>a f. data_item m alloc st (mi_type s) = Some (a, f) \<and>
      iterateDataSection f st h a (mi_offset s) (mi_size s) (mi_type s) dm = Some (Some (next, dm')))"
proof (cases "entered_type (mi_type s)")
  case True
  with assms show ?thesis by (auto simp: swap_section_def entered_type_def isDataSectionType_def Let_def split: option.splits if_splits)
next
  case False
  with assms show ?thesis
    by (auto simp: swap_section_def entered_type_def isDataSectionType_def Let_def checkBoundsAndIterateSection_def iterateSection_def
        iterateSectionWithOptionalUpdate_def require_Some and_then_Some dest!: iterate_keeps_map split: if_splits)
qed

definition entered_items :: "map_item list \<Rightarrow> nat" where
  "entered_items ms = (\<Sum>m\<leftarrow>ms. if entered_type (mi_type m) then unat (mi_size m) else 0)"

lemma placed_append:
  "placed xs \<Longrightarrow> placed ys \<Longrightarrow> \<forall>(p, t, q)\<in>set xs. q \<le> k \<Longrightarrow> \<forall>(p, t, q)\<in>set ys. k \<le> unat p \<Longrightarrow> placed (xs @ ys)"
  by (fastforce simp: placed_def sorted_wrt_append)

lemma sections_entered:
  assumes "swap_sections m alloc st h n p prev dm = Some (Some dm')" "read_map st n p = Some ms" "sorted_wrt (<) (map mi_offset ms)"
    and c: "mul_contract m" "small_file st" "swapDexHeader st h"
    and "\<forall>s\<in>set ms. prev \<le> mi_offset s \<longrightarrow> k \<le> unat (mi_offset s)" "\<forall>x\<in>set (dm_offsets dm). unat x < k"
  shows "\<exists>items. length items = entered_items ms \<and> dm' = entered dm items \<and> placed items \<and>
    (\<forall>(p, t, q)\<in>set items. item_ok m alloc st h (p, t, q) \<and> k \<le> unat p)"
  using assms(1-3,7,8)
proof (induction n arbitrary: p prev dm ms k)
  case 0
  then show ?case by (simp add: entered_items_def placed_def)
next
  case (Suc n)
  from Suc.prems(2) obtain s ms' where s: "read_map_item st p = Some s" "read_map st n (p + 12) = Some ms'" "ms = s # ms'"
    by (auto split: Option.bind_splits)
  from Suc.prems(1) s(1) obtain next' dm1 where r: "prev \<le> mi_offset s" "swap_section m alloc st h s dm = Some (Some (next', dm1))"
    "swap_sections m alloc st h n (p + 12) next' dm1 = Some (Some dm')"
    by (auto simp: Let_def require_Some and_then_Some not_less split: Option.bind_splits if_splits)
  have sorted: "sorted_wrt (<) (map mi_offset ms')" "\<forall>s'\<in>set ms'. mi_offset s < mi_offset s'"
    using Suc.prems(3) s(3) by simp_all
  have k: "k \<le> unat (mi_offset s)" using Suc.prems(4) r(1) s(3) by simp
  from swap_section_cases [OF r(2)] show ?case
  proof (elim disjE conjE exE)
    assume no: "\<not> entered_type (mi_type s)" "dm1 = dm"
    have "\<forall>s'\<in>set ms'. next' \<le> mi_offset s' \<longrightarrow> k \<le> unat (mi_offset s')"
      using sorted(2) k by (auto simp: word_less_nat_alt)
    from Suc.IH [OF r(3) s(2) sorted(1) this] Suc.prems(5) no show ?thesis by (simp add: s(3) entered_items_def)
  next
    fix a f
    assume yes: "entered_type (mi_type s)" "data_item m alloc st (mi_type s) = Some (a, f)"
      "iterateDataSection f st h a (mi_offset s) (mi_size s) (mi_type s) dm = Some (Some (next', dm1))"
    have "\<forall>x\<in>set (dm_offsets dm). x < mi_offset s" using Suc.prems(5) k by (auto simp: word_less_nat_alt)
    from data_section [OF yes(3,2) c this] obtain xs where xs: "length xs = unat (mi_size s)" "dm1 = entered dm xs" "placed xs"
      "mi_offset s \<le> next'" "\<forall>(p, t, q)\<in>set xs. item_ok m alloc st h (p, t, q) \<and> mi_offset s \<le> p \<and> q \<le> unat next'"
      by (elim exE conjE)
    have item: "item_ok m alloc st h (p, t, q) \<and> mi_offset s \<le> p \<and> q \<le> unat next'" if "(p, t, q) \<in> set xs" for p t q
      using bspec [OF xs(5) that] by simp
    have "\<forall>x\<in>set (dm_offsets dm1). unat x < unat next'"
      using Suc.prems(5) k xs(4) by (auto simp: xs(2) word_le_nat_alt dest!: item)
    from Suc.IH [OF r(3) s(2) sorted(1) _ this] obtain ys where ys: "length ys = entered_items ms'" "dm' = entered dm1 ys" "placed ys"
      "\<forall>(p, t, q)\<in>set ys. item_ok m alloc st h (p, t, q) \<and> unat next' \<le> unat p" by (auto simp: word_le_nat_alt)
    have "placed (xs @ ys)" using xs(3,5) ys(3,4) by (intro placed_append [of xs ys "unat next'"]) auto
    moreover have "\<forall>(p, t, q)\<in>set (xs @ ys). item_ok m alloc st h (p, t, q) \<and> k \<le> unat p"
      using xs(4,5) ys(4) k by (auto simp: word_le_nat_alt)
    ultimately show ?thesis using xs(1,2) ys(1,2) yes(1) by (intro exI [of _ "xs @ ys"]) (simp add: s(3) entered_items_def)
  qed
qed

lemma placed_sorted:
  "placed items \<Longrightarrow> \<forall>(p, t, q)\<in>set items. unat p < q \<Longrightarrow> sorted_wrt (<) (map fst items)"
  by (induction items) (fastforce simp: placed_def word_less_nat_alt)+

lemma verified_items:
  assumes "placed items" "\<forall>(p, t, q)\<in>set items. unat p < q" "length items \<le> n"
    and "dm = entered \<lparr>dm_max = n, dm_offsets = [], dm_types = []\<rparr> items"
  shows "dexDataMapVerify dm off t = Some (\<exists>q. (off, t, q) \<in> set items)"
proof -
  have sorted: "sorted_wrt (<) (map fst items)" using assms(1,2) by (rule placed_sorted)
  then have "dm_inv dm" using assms(3) by (simp add: dm_inv_def dm_count_def assms(4) entered_def)
  moreover have "dm_abs dm = map_of (map (\<lambda>x. (fst x, fst (snd x))) items)"
    unfolding dm_abs_def assms(4) entered_def by (simp add: zip_map_map zip_same_conv_map comp_def)
  moreover have "distinct (map fst (map (\<lambda>x. (fst x, fst (snd x))) items))"
    using sorted by (simp add: strict_sorted_iff comp_def)
  ultimately show ?thesis
    by (force simp: dexDataMapVerify_def get_map item_type_eq image_iff)
qed

lemma entered_le: "entered_items ms \<le> data_items ms"
  unfolding entered_items_def data_items_def by (rule sum_list_mono) (simp add: entered_type_def)

lemma data_map_items:
  assumes "swapDexHeader st h" "swapMap safe_mul safe_add malloc st h pMap = Some (Some dm0)"
    and "swapEverythingButHeaderAndMap safe_mul alloc st h pMap dm0 = Some (Some dm)"
    and "mul_contract safe_mul" "small_file st"
  shows "\<exists>items. sorted_wrt (\<lambda>(off, t, q) (off', t', q'). q \<le> unat off') items \<and>
    (\<forall>item\<in>set items. item_ok safe_mul alloc st h item) \<and> length items \<le> dm_max dm0 \<and>
    (\<forall>off t. dexDataMapVerify dm off t = Some (\<exists>q. (off, t, q) \<in> set items))"
proof -
  from map_accepted [OF assms(2)] obtain n ms where m: "u4_at st pMap = Some n" "read_map st (unat n) (pMap + 4) = Some ms"
    "map_ok h ms" "dm0 = \<lparr>dm_max = data_items ms, dm_offsets = [], dm_types = []\<rparr>" by blast
  have s: "swap_sections safe_mul alloc st h (unat n) (pMap + 4) 0 dm0 = Some (Some dm)" "sorted_wrt (<) (map mi_offset ms)"
    using assms(3) m(1,3) by (simp_all add: swapEverythingButHeaderAndMap_def map_ok_def)
  have "\<forall>s\<in>set ms. 0 \<le> mi_offset s \<longrightarrow> 0 \<le> unat (mi_offset s)" "\<forall>x\<in>set (dm_offsets dm0). unat x < 0" by (simp_all add: m(4))
  from sections_entered [OF s(1) m(2) s(2) assms(4,5,1) this] obtain items where i: "length items = entered_items ms"
    "dm = entered dm0 items" "placed items" "\<forall>(p, t, q)\<in>set items. item_ok safe_mul alloc st h (p, t, q) \<and> 0 \<le> unat p"
    by (elim exE conjE)
  have len: "length items \<le> data_items ms" using i(1) entered_le by simp
  have "\<forall>(p, t, q)\<in>set items. unat p < q" using i(4) by auto
  from verified_items [OF i(3) this len i(2) [unfolded m(4)]] i(3,4) len show ?thesis
    by (intro exI [of _ items]) (auto simp: placed_def m(4))
qed

section \<open>Properties\<close>

text \<open>A map that was accepted lists sections at increasing offsets inside the file, each of a known type and no
  type twice; the header, the map itself and every table the header knows of are among them; and the data map
  was allocated, empty, for exactly the items the data sections promise, which are no more than the data
  section has bytes.\<close>

theorem accepted_map:
  assumes "swapMap safe_mul safe_add malloc st h pMap = Some (Some dm)"
  shows "\<exists>n ms. u4_at st pMap = Some n \<and> read_map st (unat n) (pMap + 4) = Some ms \<and>
    sorted_wrt (<) (map mi_offset ms) \<and> distinct (map mi_type ms) \<and>
    (\<forall>m\<in>set ms. mi_offset m < hd_fileSize h \<and> mi_type m \<in> set map_types) \<and>
    {kDexTypeHeaderItem, kDexTypeMapList} \<subseteq> mi_type ` set ms \<and>
    (\<forall>(t, off, n)\<in>set (header_tables h). off \<noteq> 0 \<or> n \<noteq> 0 \<longrightarrow> t \<in> mi_type ` set ms) \<and>
    dm = \<lparr>dm_max = data_items ms, dm_offsets = [], dm_types = []\<rparr> \<and> data_items ms \<le> unat (hd_dataSize h)"
  using map_accepted [OF assms] unfolding map_ok_def by blast

text \<open>A file with a header, its map, and one empty string.\<close>

definition tiny_dex :: check_state where
  "tiny_dex = file_of (replicate 112 0 @ [3, 0, 0, 0, 0, 0, 0, 0, 1, 0, 0, 0, 0, 0, 0, 0, 0, 0x10, 0, 0, 1, 0, 0, 0, 112, 0, 0, 0,
     2, 0x20, 0, 0, 1, 0, 0, 0, 152, 0, 0, 0, 0, 0])"

definition tiny_header :: dex_header where
  "tiny_header = \<lparr>hd_fileSize = 154, hd_headerSize = 112, hd_endianTag = 0x12345678, hd_linkSize = 0, hd_linkOff = 0, hd_mapOff = 112,
     hd_stringIdsSize = 0, hd_stringIdsOff = 0, hd_typeIdsSize = 0, hd_typeIdsOff = 0, hd_protoIdsSize = 0, hd_protoIdsOff = 0,
     hd_fieldIdsSize = 0, hd_fieldIdsOff = 0, hd_methodIdsSize = 0, hd_methodIdsOff = 0, hd_classDefsSize = 0, hd_classDefsOff = 0,
     hd_dataSize = 42, hd_dataOff = 112\<rparr>"

lemma tiny_map: "swapMap short_mul short_mul (\<lambda>_. True) tiny_dex tiny_header 112 = Some (Some \<lparr>dm_max = 2, dm_offsets = [], dm_types = []\<rparr>)"
  by code_simp

theorem accepted_map_witness:
  "\<exists>n ms. u4_at tiny_dex 112 = Some n \<and> read_map tiny_dex (unat n) 116 = Some ms \<and> distinct (map mi_type ms) \<and>
    {kDexTypeHeaderItem, kDexTypeMapList} \<subseteq> mi_type ` set ms \<and> data_items ms = 2"
  using accepted_map [OF tiny_map] by fastforce


lemma tiny_first_pass:
  "swapEverythingButHeaderAndMap short_mul (\<lambda>_. True) tiny_dex tiny_header 112 \<lparr>dm_max = 2, dm_offsets = [], dm_types = []\<rparr> =
    Some (Some \<lparr>dm_max = 2, dm_offsets = [152], dm_types = [0x2002]\<rparr>)"
  by code_simp


text \<open>The place of the map comes from the header, and the number of its entries is read before any check of that place.\<close>

lemma map_offset_unchecked:
  assumes "length (vs_bytes st) < pMap + 4"
  shows "swapMap safe_mul safe_add malloc st h pMap = None"
proof -
  have "length (drop pMap (vs_bytes st)) < 4" using assms by simp
  then have "u4_at st pMap = None" by (auto simp: u4_at_def simp del: length_drop split: list.splits)
  then show ?thesis by (simp add: swapMap_def)
qed

end
