(* ===== verification/DexCross.thy ===== *)
theory DexCross
  imports DexSections DexProto
begin

text \<open>
  The second pass of \<^verbatim>\<open>jni/dalvik/libdex/DexSwapVerify.cpp\<close>, which checks the items of a dex file against each other, and
  \<open>dexSwapAndVerify\<close>, which runs both passes. The fields of the item in hand are read at its offset, other
  items through \<open>pDexFile\<close>. \<open>None\<close> stands for a read outside the memory or through \<open>NULL\<close>.
\<close>

unbundle bit_operations_syntax

section \<open>Strings and types\<close>

text \<open>A check that may read, and that returns \<open>NULL\<close> when it fails.\<close>

definition require_read :: "bool option \<Rightarrow> 'b option option \<Rightarrow> 'b option option" where
  "require_read b r = do { ok \<leftarrow> b; require ok r }"

text \<open>The address of an offset, and the bytes at an address.\<close>

definition address :: "check_state \<Rightarrow> nat \<Rightarrow> u4" where
  "address st p = baseAddr (vs_dexFile st) + of_nat p"

definition chars_at :: "check_state \<Rightarrow> u4 \<Rightarrow> u1 list" where
  "chars_at st ptr = mem_at (mem (vs_dexFile st)) ptr"

definition string_is :: "(u1 list \<Rightarrow> bool option) \<Rightarrow> check_state \<Rightarrow> u4 \<Rightarrow> bool option" where
  "string_is valid st idx = do { s \<leftarrow> dexStringById (vs_dexFile st) idx; valid (chars_at st s) }"

definition type_is :: "(u1 list \<Rightarrow> bool option) \<Rightarrow> check_state \<Rightarrow> u4 \<Rightarrow> bool option" where
  "type_is valid st idx = do { s \<leftarrow> dexStringByTypeIdx (vs_dexFile st) idx; valid (chars_at st s) }"

definition strings_in_order :: "check_state \<Rightarrow> nat \<Rightarrow> nat \<Rightarrow> bool option" where
  "strings_in_order st item0 item =
     do { s0 \<leftarrow> dexGetStringData (vs_dexFile st) (address st item0);
       s1 \<leftarrow> dexGetStringData (vs_dexFile st) (address st item);
       c \<leftarrow> dexUtf8Cmp (chars_at st s0) (chars_at st s1);
       Some (\<not> c \<ge> 0) }"

text \<open>The check against \<open>previousItem\<close>, if there is one.\<close>

definition after :: "nat option \<Rightarrow> (nat \<Rightarrow> bool option) \<Rightarrow> bool option" where
  "after previousItem ordered = (case previousItem of None \<Rightarrow> Some True | Some item0 \<Rightarrow> ordered item0)"

definition crossVerifyStringIdItem :: "data_map \<Rightarrow> check_state \<Rightarrow> nat option \<Rightarrow> nat \<Rightarrow> verdict" where
  "crossVerifyStringIdItem dm st previousItem p =
     do { stringDataOff \<leftarrow> u4_at st p;
       require_read (dexDataMapVerify dm stringDataOff kDexTypeStringDataItem)
         (require_read (after previousItem (\<lambda>item0. strings_in_order st item0 p)) (Some (Some (p + 4)))) }"

definition crossVerifyTypeIdItem :: "check_state \<Rightarrow> nat option \<Rightarrow> nat \<Rightarrow> verdict" where
  "crossVerifyTypeIdItem st previousItem p =
     do { descriptorIdx \<leftarrow> u4_at st p;
       require_read (string_is dexIsValidTypeDescriptor st descriptorIdx)
         (require_read (after previousItem (\<lambda>item0. do { idx0 \<leftarrow> u4_at st item0; Some (\<not> idx0 \<ge> descriptorIdx) }))
           (Some (Some (p + 4)))) }"

section \<open>Prototypes\<close>

definition next_char :: "u1 list \<Rightarrow> (u1 \<times> u1 list) option" where
  "next_char s = (case s of [] \<Rightarrow> None | c # rest \<Rightarrow> Some (c, rest))"

definition shortyDescMatch :: "u1 \<Rightarrow> u1 list \<Rightarrow> bool \<Rightarrow> bool option" where
  "shortyDescMatch shorty descriptor isReturnType =
     (if shorty = of_char CHR ''V'' \<and> \<not> isReturnType then Some False
      else if shorty \<in> set (map of_char ''VBCDFIJSZ'') then
        do { (d0, rest) \<leftarrow> next_char descriptor;
          if d0 \<noteq> shorty then Some False else do { (d1, _) \<leftarrow> next_char rest; Some (d1 = 0) } }
      else if shorty = of_char CHR ''L'' then
        do { (d0, _) \<leftarrow> next_char descriptor; Some (\<not> (d0 \<noteq> of_char CHR ''L'' \<and> d0 \<noteq> of_char CHR ''['')) }
      else Some False)"

text \<open>The loop over the parameters, which ends with \<open>NULL\<close> behind the last; the result is what is left of the shorty.\<close>

function shorty_params :: "check_state \<Rightarrow> param_iterator \<Rightarrow> u1 list \<Rightarrow> u1 list option option" where
  "shorty_params st iterator shorty =
     (case dexParameterIteratorNextDescriptor iterator of
        None \<Rightarrow> None
      | Some (desc, iterator') \<Rightarrow>
          if desc = 0 \<or> cursor iterator \<ge> parameterCount iterator then Some (Some shorty)
          else do { (c, rest) \<leftarrow> next_char shorty;
            if c = 0 then Some None
            else require_read (shortyDescMatch c (chars_at st desc) False) (shorty_params st iterator' rest) })"
  by pat_completeness auto
termination
  by (relation "measure (\<lambda>(st, it, s). nat (parameterCount it - cursor it))")
    (auto simp: dexParameterIteratorNextDescriptor_def dexParameterIteratorNextIndex_def split: Option.bind_splits if_splits)

text \<open>The loop that compares the parameters of two prototypes: \<open>badOrder\<close>.\<close>

function bad_order :: "param_iterator \<Rightarrow> param_iterator \<Rightarrow> bool option" where
  "bad_order iterator0 iterator =
     (case (dexParameterIteratorNextIndex iterator0, dexParameterIteratorNextIndex iterator) of
        (Some (idx0, iterator0'), Some (idx1, iterator')) \<Rightarrow>
          if idx1 = kDexNoIndex \<or> cursor iterator \<ge> parameterCount iterator then Some True
          else if idx0 = kDexNoIndex then Some False
          else if idx0 < idx1 then Some False
          else if idx0 > idx1 then Some True
          else bad_order iterator0' iterator'
      | _ \<Rightarrow> None)"
  by pat_completeness auto
termination
  by (relation "measure (\<lambda>(it0, it). nat (parameterCount it - cursor it))")
    (auto simp: dexParameterIteratorNextIndex_def dest!: sym [of "Some _"] split: if_splits)

declare shorty_params.simps [simp del] bad_order.simps [simp del]

definition protos_in_order :: "check_state \<Rightarrow> u4 \<Rightarrow> nat \<Rightarrow> nat \<Rightarrow> bool option" where
  "protos_in_order st protoIdx' item0 item =
     do { ret0 \<leftarrow> u4_at st (item0 + 4);
       ret \<leftarrow> u4_at st (item + 4);
       if ret0 > ret then Some False
       else if ret0 = ret then
         do { iterator \<leftarrow> dexParameterIteratorInit \<lparr>dexFile = vs_dexFile st, protoIdx = protoIdx'\<rparr>;
           iterator0 \<leftarrow> dexParameterIteratorInit \<lparr>dexFile = vs_dexFile st, protoIdx = protoIdx' - 1\<rparr>;
           bad \<leftarrow> bad_order iterator0 iterator;
           Some (\<not> bad) }
       else Some True }"

definition crossVerifyProtoIdItem :: "data_map \<Rightarrow> check_state \<Rightarrow> nat option \<Rightarrow> nat \<Rightarrow> verdict" where
  "crossVerifyProtoIdItem dm st previousItem p =
     do { shortyIdx \<leftarrow> u4_at st p;
       shorty \<leftarrow> dexStringById (vs_dexFile st) shortyIdx;
       parametersOff \<leftarrow> u4_at st (p + 8);
       require_read (dexDataMapVerify0Ok dm parametersOff kDexTypeTypeList)
         (do { (c, rest) \<leftarrow> next_char (chars_at st shorty);
           returnIdx \<leftarrow> u4_at st (p + 4);
           require_read (type_is (\<lambda>d. shortyDescMatch c d True) st returnIdx)
             (do { let protoIdx' = (address st p - pProtoIds (vs_dexFile st)) div 12;
               iterator \<leftarrow> dexParameterIteratorInit \<lparr>dexFile = vs_dexFile st, protoIdx = protoIdx'\<rparr>;
               and_then (shorty_params st iterator rest) (\<lambda>rest.
                 do { (c, _) \<leftarrow> next_char rest;
                   require (\<not> c \<noteq> 0)
                     (require_read (after previousItem (\<lambda>item0. protos_in_order st protoIdx' item0 p)) (Some (Some (p + 12)))) }) }) }) }"

section \<open>Fields and methods\<close>

text \<open>\<open>bogus\<close>, for a class, a name and a type or prototype.\<close>

definition ids_bogus :: "u2 \<times> u4 \<times> u2 \<Rightarrow> u2 \<times> u4 \<times> u2 \<Rightarrow> bool" where
  "ids_bogus item0 item =
     (case (item0, item) of ((class0, name0, last0), (class1, name1, last1)) \<Rightarrow>
        if class0 > class1 then True else if class0 < class1 then False
        else if name0 > name1 then True else if name0 < name1 then False
        else last0 \<ge> last1)"

definition read_ids :: "check_state \<Rightarrow> nat \<Rightarrow> (u2 \<times> u4 \<times> u2) option" where
  "read_ids st p = do { classIdx \<leftarrow> u2_at st p; lastIdx \<leftarrow> u2_at st (p + 2); nameIdx \<leftarrow> u4_at st (p + 4); Some (classIdx, nameIdx, lastIdx) }"

definition ids_in_order :: "check_state \<Rightarrow> nat \<Rightarrow> nat \<Rightarrow> bool option" where
  "ids_in_order st item0 item = do { ids0 \<leftarrow> read_ids st item0; ids \<leftarrow> read_ids st item; Some (\<not> ids_bogus ids0 ids) }"

definition crossVerifyFieldIdItem :: "check_state \<Rightarrow> nat option \<Rightarrow> nat \<Rightarrow> verdict" where
  "crossVerifyFieldIdItem st previousItem p =
     do { (classIdx, nameIdx, typeIdx) \<leftarrow> read_ids st p;
       require_read (type_is dexIsClassDescriptor st (ucast classIdx))
         (require_read (type_is dexIsFieldDescriptor st (ucast typeIdx))
           (require_read (string_is dexIsValidMemberName st nameIdx)
             (require_read (after previousItem (\<lambda>item0. ids_in_order st item0 p)) (Some (Some (p + 8)))))) }"

definition crossVerifyMethodIdItem :: "check_state \<Rightarrow> nat option \<Rightarrow> nat \<Rightarrow> verdict" where
  "crossVerifyMethodIdItem st previousItem p =
     do { (classIdx, nameIdx, protoIdx') \<leftarrow> read_ids st p;
       require_read (type_is dexIsReferenceDescriptor st (ucast classIdx))
         (require_read (string_is dexIsValidMemberName st nameIdx)
           (require_read (after previousItem (\<lambda>item0. ids_in_order st item0 p)) (Some (Some (p + 8))))) }"

section \<open>Classes\<close>

definition calcDefinedClassBitsSize :: "check_state \<Rightarrow> nat" where
  "calcDefinedClassBitsSize st = unat (drop_bit 5 (hdr_typeIdsSize st + 0x1f))"

text \<open>The former value of the bit, and the bits.\<close>

definition setDefinedClassBit :: "u4 list \<Rightarrow> u4 \<Rightarrow> (bool \<times> u4 list) option" where
  "setDefinedClassBit bits typeIdx =
     (let arrayIdx = unat (drop_bit 5 typeIdx); bit' = push_bit (unat (typeIdx AND 0x1f)) 1 in
      if arrayIdx < length bits
      then Some (bits ! arrayIdx AND bit' \<noteq> 0, bits[arrayIdx := bits ! arrayIdx OR bit'])
      else None)"

text \<open>The class that defines a field or a method.\<close>

definition field_class :: "check_state \<Rightarrow> u4 \<Rightarrow> u4 option" where
  "field_class st idx = map_option ucast (rd2 (mem (vs_dexFile st)) (dexGetFieldId (vs_dexFile st) idx))"

definition method_class :: "check_state \<Rightarrow> u4 \<Rightarrow> u4 option" where
  "method_class st idx = map_option ucast (rd2 (mem (vs_dexFile st)) (dexGetMethodId (vs_dexFile st) idx))"

definition verifyFieldDefiner :: "check_state \<Rightarrow> u4 \<Rightarrow> u4 \<Rightarrow> bool option" where
  "verifyFieldDefiner st definingClass idx = map_option (\<lambda>c. c = definingClass) (field_class st idx)"

definition verifyMethodDefiner :: "check_state \<Rightarrow> u4 \<Rightarrow> u4 \<Rightarrow> bool option" where
  "verifyMethodDefiner st definingClass idx = map_option (\<lambda>c. c = definingClass) (method_class st idx)"

definition first_of :: "'a list \<Rightarrow> 'a option" where
  "first_of xs = (case xs of [] \<Rightarrow> None | x # _ \<Rightarrow> Some x)"

definition findFirstClassDataDefiner :: "check_state \<Rightarrow> class_data \<Rightarrow> u4 option" where
  "findFirstClassDataDefiner st classData =
     (let h = cd_header classData in
      if staticFieldsSize h \<noteq> 0 then do { f \<leftarrow> first_of (staticFields classData); field_class st (fieldIdx f) }
      else if instanceFieldsSize h \<noteq> 0 then do { f \<leftarrow> first_of (instanceFields classData); field_class st (fieldIdx f) }
      else if directMethodsSize h \<noteq> 0 then do { m \<leftarrow> first_of (directMethods classData); method_class st (methodIdx m) }
      else if virtualMethodsSize h \<noteq> 0 then do { m \<leftarrow> first_of (virtualMethods classData); method_class st (methodIdx m) }
      else Some kDexNoIndex)"

definition verifyClassDataIsForDef :: "(u4 \<Rightarrow> bool) \<Rightarrow> check_state \<Rightarrow> u4 \<Rightarrow> u4 \<Rightarrow> bool option" where
  "verifyClassDataIsForDef alloc st offset definerIdx =
     (if offset = 0 then Some True
      else do { (classData, _) \<leftarrow> dexReadAndVerifyClassData alloc None (Some (drop (unat offset) (vs_bytes st)));
        case classData of
          None \<Rightarrow> Some False
        | Some cd \<Rightarrow> do { dataDefiner \<leftarrow> findFirstClassDataDefiner st cd;
            Some (dataDefiner = definerIdx \<or> dataDefiner = kDexNoIndex) } })"

subsection \<open>Annotations of a class\<close>

record anno_dir =
  ad_classAnnotationsOff :: u4
  ad_fieldsSize :: u4
  ad_methodsSize :: u4
  ad_parametersSize :: u4

definition read_dir :: "check_state \<Rightarrow> nat \<Rightarrow> anno_dir option" where
  "read_dir st p =
     do { off \<leftarrow> u4_at st p; nf \<leftarrow> u4_at st (p + 4); nm \<leftarrow> u4_at st (p + 8); np \<leftarrow> u4_at st (p + 12);
       Some \<lparr>ad_classAnnotationsOff = off, ad_fieldsSize = nf, ad_methodsSize = nm, ad_parametersSize = np\<rparr> }"

text \<open>The lists of a directory; \<open>None\<close> is \<open>NULL\<close>.\<close>

definition dexGetFieldAnnotations :: "nat \<Rightarrow> anno_dir \<Rightarrow> nat option" where
  "dexGetFieldAnnotations p dir = (if ad_fieldsSize dir = 0 then None else Some (p + 16))"

definition dexGetMethodAnnotations :: "nat \<Rightarrow> anno_dir \<Rightarrow> nat option" where
  "dexGetMethodAnnotations p dir = (if ad_methodsSize dir = 0 then None else Some (p + 16 + unat (ad_fieldsSize dir * 8)))"

definition dexGetParameterAnnotations :: "nat \<Rightarrow> anno_dir \<Rightarrow> nat option" where
  "dexGetParameterAnnotations p dir =
     (if ad_parametersSize dir = 0 then None
      else Some (p + 16 + unat (ad_fieldsSize dir * 8) + unat (ad_methodsSize dir * 8)))"

definition findFirstAnnotationsDirectoryDefiner :: "check_state \<Rightarrow> nat \<Rightarrow> anno_dir \<Rightarrow> u4 option" where
  "findFirstAnnotationsDirectoryDefiner st p dir =
     (if ad_fieldsSize dir \<noteq> 0 then do { fields \<leftarrow> dexGetFieldAnnotations p dir; idx \<leftarrow> u4_at st fields; field_class st idx }
      else if ad_methodsSize dir \<noteq> 0 then do { methods \<leftarrow> dexGetMethodAnnotations p dir; idx \<leftarrow> u4_at st methods; method_class st idx }
      else if ad_parametersSize dir \<noteq> 0 then
        do { params \<leftarrow> dexGetParameterAnnotations p dir; idx \<leftarrow> u4_at st params; method_class st idx }
      else Some kDexNoIndex)"

definition verifyAnnotationsDirectoryIsForDef :: "check_state \<Rightarrow> u4 \<Rightarrow> u4 \<Rightarrow> bool option" where
  "verifyAnnotationsDirectoryIsForDef st offset definerIdx =
     (if offset = 0 then Some True
      else do { dir \<leftarrow> read_dir st (unat offset);
        annoDefiner \<leftarrow> findFirstAnnotationsDirectoryDefiner st (unat offset) dir;
        Some (annoDefiner = definerIdx \<or> annoDefiner = kDexNoIndex) })"

text \<open>The entries of one list of a directory.\<close>

fun cross_entries :: "(u4 \<Rightarrow> bool option) \<Rightarrow> data_map \<Rightarrow> u2 \<Rightarrow> check_state \<Rightarrow> nat \<Rightarrow> nat \<Rightarrow> verdict" where
  "cross_entries definer dm mapType st 0 p = Some (Some p)"
| "cross_entries definer dm mapType st (Suc n) p =
     do { idx \<leftarrow> u4_at st p;
       require_read (definer idx)
         (do { annotationsOff \<leftarrow> u4_at st (p + 4);
           require_read (dexDataMapVerify dm annotationsOff mapType) (cross_entries definer dm mapType st n (p + 8)) }) }"

definition crossVerifyFieldAnnotations :: "data_map \<Rightarrow> check_state \<Rightarrow> u4 \<Rightarrow> nat \<Rightarrow> u4 \<Rightarrow> verdict" where
  "crossVerifyFieldAnnotations dm st n p definingClass =
     cross_entries (verifyFieldDefiner st definingClass) dm kDexTypeAnnotationSetItem st (unat n) p"

definition crossVerifyMethodAnnotations :: "data_map \<Rightarrow> check_state \<Rightarrow> u4 \<Rightarrow> nat \<Rightarrow> u4 \<Rightarrow> verdict" where
  "crossVerifyMethodAnnotations dm st n p definingClass =
     cross_entries (verifyMethodDefiner st definingClass) dm kDexTypeAnnotationSetItem st (unat n) p"

definition crossVerifyParameterAnnotations :: "data_map \<Rightarrow> check_state \<Rightarrow> u4 \<Rightarrow> nat \<Rightarrow> u4 \<Rightarrow> verdict" where
  "crossVerifyParameterAnnotations dm st n p definingClass =
     cross_entries (verifyMethodDefiner st definingClass) dm kDexTypeAnnotationSetRefList st (unat n) p"

definition crossVerifyAnnotationsDirectoryItem :: "data_map \<Rightarrow> check_state \<Rightarrow> nat \<Rightarrow> verdict" where
  "crossVerifyAnnotationsDirectoryItem dm st p =
     do { dir \<leftarrow> read_dir st p;
       definingClass \<leftarrow> findFirstAnnotationsDirectoryDefiner st p dir;
       require_read (dexDataMapVerify0Ok dm (ad_classAnnotationsOff dir) kDexTypeAnnotationSetItem)
         (and_then (if ad_fieldsSize dir \<noteq> 0 then crossVerifyFieldAnnotations dm st (ad_fieldsSize dir) (p + 16) definingClass
             else Some (Some (p + 16))) (\<lambda>addr.
          and_then (if ad_methodsSize dir \<noteq> 0 then crossVerifyMethodAnnotations dm st (ad_methodsSize dir) addr definingClass
             else Some (Some addr)) (\<lambda>addr.
          if ad_parametersSize dir \<noteq> 0 then crossVerifyParameterAnnotations dm st (ad_parametersSize dir) addr definingClass
          else Some (Some addr)))) }"

subsection \<open>Definitions and data\<close>

fun interface_idxs :: "check_state \<Rightarrow> u4 \<Rightarrow> nat list \<Rightarrow> u4 list option option" where
  "interface_idxs st interfaces [] = Some (Some [])"
| "interface_idxs st interfaces (i # is) =
     do { idx \<leftarrow> dexTypeListGetIdx (vs_dexFile st) interfaces (of_nat i);
       require_read (type_is dexIsClassDescriptor st idx)
         (and_then (interface_idxs st interfaces is) (\<lambda>idxs. Some (Some (idx # idxs)))) }"

text \<open>All interfaces are classes, and no class is there twice.\<close>

definition verify_interfaces :: "check_state \<Rightarrow> u4 \<Rightarrow> bool option" where
  "verify_interfaces st interfaces =
     (if interfaces = 0 then Some True
      else do { n \<leftarrow> rd4 (mem (vs_dexFile st)) interfaces;
        idxs \<leftarrow> interface_idxs st interfaces [0..<unat n];
        Some (case idxs of
            None \<Rightarrow> False
          | Some idxs \<Rightarrow> \<not> list_ex (\<lambda>i. list_ex (\<lambda>j. idxs ! i = idxs ! j) [0..<i]) [1..<unat n]) })"

definition crossVerifyClassDefItem :: "(u4 \<Rightarrow> bool) \<Rightarrow> data_map \<Rightarrow> check_state \<Rightarrow> u4 list visitor" where
  "crossVerifyClassDefItem alloc dm st bits previousItem p =
     do { classIdx \<leftarrow> u4_at st p;
       require_read (type_is dexIsClassDescriptor st classIdx)
         (do { (duplicate, bits) \<leftarrow> setDefinedClassBit bits classIdx;
           require (\<not> duplicate)
             (do { interfacesOff \<leftarrow> u4_at st (p + 12);
               annotationsOff \<leftarrow> u4_at st (p + 20);
               classDataOff \<leftarrow> u4_at st (p + 24);
               staticValuesOff \<leftarrow> u4_at st (p + 28);
               require_read (dexDataMapVerify0Ok dm interfacesOff kDexTypeTypeList)
                 (require_read (dexDataMapVerify0Ok dm annotationsOff kDexTypeAnnotationsDirectoryItem)
                   (require_read (dexDataMapVerify0Ok dm classDataOff kDexTypeClassDataItem)
                     (require_read (dexDataMapVerify0Ok dm staticValuesOff kDexTypeEncodedArrayItem)
                       (do { superclassIdx \<leftarrow> u4_at st (p + 8);
                         require_read (if superclassIdx \<noteq> kDexNoIndex then type_is dexIsClassDescriptor st superclassIdx else Some True)
                           (do { interfaces \<leftarrow> dexGetInterfacesList (vs_dexFile st) (address st p);
                             require_read (verify_interfaces st interfaces)
                               (require_read (verifyClassDataIsForDef alloc st classDataOff classIdx)
                                 (require_read (verifyAnnotationsDirectoryIsForDef st annotationsOff classIdx)
                                   (Some (Some (p + 32, bits))))) }) })))) }) }) }"

text \<open>The loops over a list run from its end.\<close>

fun all_read :: "('a \<Rightarrow> bool option) \<Rightarrow> 'a list \<Rightarrow> bool option" where
  "all_read ok [] = Some True"
| "all_read ok (x # xs) = do { b \<leftarrow> ok x; if b then all_read ok xs else Some False }"

definition cross_method :: "data_map \<Rightarrow> check_state \<Rightarrow> u4 \<Rightarrow> dex_method \<Rightarrow> bool option" where
  "cross_method dm st definingClass m =
     do { code \<leftarrow> dexDataMapVerify0Ok dm (codeOff m) kDexTypeCodeItem;
       if code then verifyMethodDefiner st definingClass (methodIdx m) else Some False }"

definition crossVerifyClassDataItem :: "(u4 \<Rightarrow> bool) \<Rightarrow> data_map \<Rightarrow> check_state \<Rightarrow> nat \<Rightarrow> verdict" where
  "crossVerifyClassDataItem alloc dm st p =
     do { (classData, data) \<leftarrow>
         dexReadAndVerifyClassData alloc (Some (length (vs_bytes st) - fileLen st)) (Some (drop p (vs_bytes st)));
       cd \<leftarrow> classData;
       definingClass \<leftarrow> findFirstClassDataDefiner st cd;
       require_read (all_read (\<lambda>f. verifyFieldDefiner st definingClass (fieldIdx f)) (rev (staticFields cd)))
         (require_read (all_read (\<lambda>f. verifyFieldDefiner st definingClass (fieldIdx f)) (rev (instanceFields cd)))
           (require_read (all_read (cross_method dm st definingClass) (rev (directMethods cd)))
             (require_read (all_read (cross_method dm st definingClass) (rev (virtualMethods cd)))
               (Some (map_option (\<lambda>rest. length (vs_bytes st) - length rest) data))))) }"

section \<open>Annotation sets\<close>

fun set_refs :: "data_map \<Rightarrow> check_state \<Rightarrow> nat \<Rightarrow> nat \<Rightarrow> verdict" where
  "set_refs dm st 0 p = Some (Some p)"
| "set_refs dm st (Suc n) p =
     do { annotationsOff \<leftarrow> u4_at st p;
       require_read (dexDataMapVerify0Ok dm annotationsOff kDexTypeAnnotationSetItem) (set_refs dm st n (p + 4)) }"

definition crossVerifyAnnotationSetRefList :: "data_map \<Rightarrow> check_state \<Rightarrow> nat \<Rightarrow> verdict" where
  "crossVerifyAnnotationSetRefList dm st p = do { n \<leftarrow> u4_at st p; set_refs dm st (unat n) (p + 4) }"

text \<open>Entry 0 passes the check of the offset, and is \<open>NULL\<close>.\<close>

definition annotationItemTypeIdx :: "check_state \<Rightarrow> u4 \<Rightarrow> u4 option" where
  "annotationItemTypeIdx st offset =
     (if offset = 0 then None
      else map_option fst (readUnsignedLeb128 (chars_at st (baseAddr (vs_dexFile st) + offset + 1))))"

fun set_entries :: "data_map \<Rightarrow> check_state \<Rightarrow> u4 option \<Rightarrow> nat \<Rightarrow> nat \<Rightarrow> verdict" where
  "set_entries dm st lastIdx 0 p = Some (Some p)"
| "set_entries dm st lastIdx (Suc n) p =
     do { offset \<leftarrow> u4_at st p;
       require_read (dexDataMapVerify0Ok dm offset kDexTypeAnnotationItem)
         (do { idx \<leftarrow> annotationItemTypeIdx st offset;
           require (case lastIdx of None \<Rightarrow> True | Some l \<Rightarrow> \<not> l \<ge> idx) (set_entries dm st (Some idx) n (p + 4)) }) }"

definition crossVerifyAnnotationSetItem :: "data_map \<Rightarrow> check_state \<Rightarrow> nat \<Rightarrow> verdict" where
  "crossVerifyAnnotationSetItem dm st p =
     do { n \<leftarrow> u4_at st p;
       and_then (set_entries dm st None (nat (sint n)) (p + 4)) (\<lambda>_. Some (Some (nat (int p + 4 + 4 * sint n)))) }"

section \<open>The second pass\<close>

text \<open>Visitors that change no state, and those that do not look at the item before.\<close>

definition with_previous :: "(nat option \<Rightarrow> nat \<Rightarrow> verdict) \<Rightarrow> unit visitor" where
  "with_previous f s previousItem p = map_option (map_option (\<lambda>q. (q, ()))) (f previousItem p)"

definition section_ok :: "'s visitor \<Rightarrow> check_state \<Rightarrow> u4 \<Rightarrow> map_item \<Rightarrow> data_map \<Rightarrow> 's \<Rightarrow> bool option" where
  "section_ok func st alignment item dm s =
     map_option (\<lambda>r. r \<noteq> None) (iterateSection func st alignment (mi_offset item) (mi_size item) dm s)"

definition cross_section :: "(u4 \<Rightarrow> bool) \<Rightarrow> data_map \<Rightarrow> check_state \<Rightarrow> map_item \<Rightarrow> bool option" where
  "cross_section alloc dm st item =
     (let t = mi_type item in
      if t = kDexTypeHeaderItem \<or> t = kDexTypeMapList \<or> t = kDexTypeTypeList \<or> t = kDexTypeCodeItem \<or> t = kDexTypeStringDataItem \<or>
        t = kDexTypeDebugInfoItem \<or> t = kDexTypeAnnotationItem \<or> t = kDexTypeEncodedArrayItem
      then Some True
      else if t = kDexTypeStringIdItem then section_ok (with_previous (crossVerifyStringIdItem dm st)) st 4 item dm ()
      else if t = kDexTypeTypeIdItem then section_ok (with_previous (crossVerifyTypeIdItem st)) st 4 item dm ()
      else if t = kDexTypeProtoIdItem then section_ok (with_previous (crossVerifyProtoIdItem dm st)) st 4 item dm ()
      else if t = kDexTypeFieldIdItem then section_ok (with_previous (crossVerifyFieldIdItem st)) st 4 item dm ()
      else if t = kDexTypeMethodIdItem then section_ok (with_previous (crossVerifyMethodIdItem st)) st 4 item dm ()
      else if t = kDexTypeClassDefItem then
        section_ok (crossVerifyClassDefItem alloc dm st) st 4 item dm (replicate (calcDefinedClassBitsSize st) 0)
      else if t = kDexTypeAnnotationSetRefList then section_ok (by_itself (crossVerifyAnnotationSetRefList dm st)) st 4 item dm ()
      else if t = kDexTypeAnnotationSetItem then section_ok (by_itself (crossVerifyAnnotationSetItem dm st)) st 4 item dm ()
      else if t = kDexTypeClassDataItem then section_ok (by_itself (crossVerifyClassDataItem alloc dm st)) st 1 item dm ()
      else if t = kDexTypeAnnotationsDirectoryItem then
        section_ok (by_itself (crossVerifyAnnotationsDirectoryItem dm st)) st 4 item dm ()
      else Some False)"

fun cross_sections :: "(u4 \<Rightarrow> bool) \<Rightarrow> data_map \<Rightarrow> check_state \<Rightarrow> nat \<Rightarrow> nat \<Rightarrow> bool option" where
  "cross_sections alloc dm st 0 p = Some True"
| "cross_sections alloc dm st (Suc n) p =
     do { item \<leftarrow> read_map_item st p;
       okay \<leftarrow> cross_section alloc dm st item;
       if okay then cross_sections alloc dm st n (p + 12) else Some False }"

definition crossVerifyEverything :: "(u4 \<Rightarrow> bool) \<Rightarrow> data_map \<Rightarrow> check_state \<Rightarrow> nat \<Rightarrow> bool option" where
  "crossVerifyEverything alloc dm st pMap = do { n \<leftarrow> u4_at st pMap; cross_sections alloc dm st (unat n) (pMap + 4) }"

section \<open>Both passes\<close>

text \<open>The state before and after the header is known.\<close>

definition first_state :: "u1 list \<Rightarrow> nat \<Rightarrow> dex_file \<Rightarrow> check_state" where
  "first_state bytes len f = \<lparr>vs_bytes = bytes, fileLen = len, hdr_stringIdsSize = 0, hdr_typeIdsSize = 0, hdr_fieldIdsSize = 0,
     hdr_methodIdsSize = 0, vs_dexFile = f\<rparr>"

definition with_header :: "dex_header \<Rightarrow> check_state \<Rightarrow> check_state" where
  "with_header h st = st\<lparr>hdr_stringIdsSize := hd_stringIdsSize h, hdr_typeIdsSize := hd_typeIdsSize h,
     hdr_fieldIdsSize := hd_fieldIdsSize h, hdr_methodIdsSize := hd_methodIdsSize h\<rparr>"

text \<open>The part under the map: both passes and the set-up of \<open>dexFile\<close> between them, which is done in any case.\<close>

definition verify_map :: "(u4 \<Rightarrow> u4 \<Rightarrow> u4 option) \<Rightarrow> (u4 \<Rightarrow> u4 \<Rightarrow> u4 option) \<Rightarrow> (u4 \<Rightarrow> bool) \<Rightarrow> image \<Rightarrow> check_state \<Rightarrow> dex_header \<Rightarrow> bool option" where
  "verify_map safe_mul safe_add malloc m st h =
     do { let pMap = unat (hd_mapOff h);
       swapped \<leftarrow> and_then (swapMap safe_mul safe_add malloc st h pMap) (\<lambda>dm. swapEverythingButHeaderAndMap safe_mul malloc st h pMap dm);
       f \<leftarrow> dexFileSetupBasicPointers (new_dex_file m) (img_base m);
       case swapped of None \<Rightarrow> Some False | Some dm \<Rightarrow> crossVerifyEverything malloc dm (st\<lparr>vs_dexFile := f\<rparr>) pMap }"

text \<open>The bytes are the memory from \<open>addr\<close> on, and \<open>len\<close> is the size of the file, which is not negative. The result
  is true for success.\<close>

definition dexSwapAndVerify :: "u4 \<Rightarrow> (u4 \<Rightarrow> u1 list \<Rightarrow> u4) \<Rightarrow> (u4 \<Rightarrow> u4 \<Rightarrow> u4 option) \<Rightarrow> (u4 \<Rightarrow> u4 \<Rightarrow> u4 option) \<Rightarrow> (u4 \<Rightarrow> bool) \<Rightarrow>
    u4 \<Rightarrow> u1 list \<Rightarrow> int \<Rightarrow> bool option" where
  "dexSwapAndVerify adler0 adler32 safe_mul safe_add malloc addr bytes len =
     do { let m = \<lparr>img_base = addr, img_bytes = bytes\<rparr>;
       magic_ok \<leftarrow> dexHasValidMagic m addr;
       if \<not> magic_ok then Some False
       else do { fileSize \<leftarrow> rd4 m (addr + field_off FileSize);
         if len < sint fileSize then Some False
         else do { adler \<leftarrow> dexComputeChecksum adler0 adler32 m addr;
           expectedChecksum \<leftarrow> rd4 m (addr + field_off Checksum);
           if adler \<noteq> expectedChecksum then Some False
           else do { let st = first_state bytes (nat len) (new_dex_file m);
             h \<leftarrow> read_header st;
             if \<not> swapDexHeader st h then Some False
             else if hd_headerSize h < sizeof_DexHeader then Some False
             else if hd_mapOff h = 0 then Some False
             else verify_map safe_mul safe_add malloc m (with_header h st) h } } } }"

text \<open>\<open>dexSwapAndVerifyIfNecessary\<close>: an optimized file is not looked at.\<close>

definition dexSwapAndVerifyIfNecessary :: "u4 \<Rightarrow> (u4 \<Rightarrow> u1 list \<Rightarrow> u4) \<Rightarrow> (u4 \<Rightarrow> u4 \<Rightarrow> u4 option) \<Rightarrow> (u4 \<Rightarrow> u4 \<Rightarrow> u4 option) \<Rightarrow> (u4 \<Rightarrow> bool) \<Rightarrow>
    u4 \<Rightarrow> u1 list \<Rightarrow> int \<Rightarrow> bool option" where
  "dexSwapAndVerifyIfNecessary adler0 adler32 safe_mul safe_add malloc addr bytes len =
     do { magic \<leftarrow> bytes_at \<lparr>img_base = addr, img_bytes = bytes\<rparr> addr 4;
       if magic = DEX_OPT_MAGIC then Some True
       else if magic = DEX_MAGIC then dexSwapAndVerify adler0 adler32 safe_mul safe_add malloc addr bytes len
       else Some False }"

section \<open>Walks\<close>

text \<open>A visitor that is called for \<open>n\<close> items of one size, one behind the other.\<close>

fun visits :: "'s visitor \<Rightarrow> nat \<Rightarrow> nat \<Rightarrow> 's \<Rightarrow> nat option \<Rightarrow> nat \<Rightarrow> 's \<Rightarrow> bool" where
  "visits func sz 0 s previousItem p s' \<longleftrightarrow> s' = s"
| "visits func sz (Suc n) s previousItem p s' \<longleftrightarrow>
     (\<exists>s1. func s previousItem p = Some (Some (p + sz, s1)) \<and> visits func sz n s1 (Some p) (p + sz) s')"

lemma aligned_stays: "4 dvd unat (off :: u4) \<Longrightarrow> unat off + 3 < 2 ^ 32 \<Longrightarrow> (off + 3) AND NOT 3 = off"
proof -
  assume a: "4 dvd unat off" "unat off + 3 < 2 ^ 32"
  have "unat (off + 3) = unat off + 3" using a(2) by (simp add: unat_word_ariths)
  moreover have "(unat off + 3) mod 4 = 3" using a(1) by presburger
  ultimately have "unat ((off + 3) AND NOT 3) = unat off" using unat_and_not_3 [of "off + 3"] by simp
  then show ?thesis by (simp add: word_unat_eq_iff)
qed

lemma iterate_visits:
  assumes "iterate_items func st 3 None n previousItem off dm s = Some (Some r)"
    and sz: "\<forall>s previousItem p q s'. func s previousItem p = Some (Some (q, s')) \<longrightarrow> q = p + sz \<and> p < length (vs_bytes st)" "4 dvd sz"
    and small: "length (vs_bytes st) + sz < 2 ^ 32" and "4 dvd unat off"
  shows "\<exists>s'. visits func sz n s previousItem (unat off) s'"
  using assms(1,5)
proof (induction n arbitrary: previousItem off s)
  case 0
  show ?case by (intro exI [of _ s]) simp
next
  case (Suc n)
  obtain k where "unat off = 4 * k" using Suc.prems(2) by blast
  then have "unat off + 3 < 2 ^ 32" using unat_u4_less [of off] by simp
  then have "(off + 3) AND NOT 3 = off" using Suc.prems(2) by (intro aligned_stays) auto
  then have at: "(off + 3) AND - 4 = off" by simp
  from Suc.prems(1) obtain q s1 where q: "func s previousItem (unat off) = Some (Some (q, s1))"
    "iterate_items func st 3 None n (Some (unat off)) (of_nat q) dm s1 = Some (Some r)"
    by (auto simp: at Let_def require_Some and_then_Some not_less)
  have "q = unat off + sz" "unat off < length (vs_bytes st)" using sz(1) q(1) by blast+
  moreover from this have "unat (of_nat q :: u4) = q" using small by (intro unat_of_nat_u4) linarith
  moreover have "4 dvd unat off + sz" using Suc.prems(2) sz(2) by simp
  ultimately show ?case using Suc.IH [OF q(2)] q(1) by auto
qed

text \<open>What a visitor that changes no state accepted.\<close>

lemma visits_each:
  assumes "visits (with_previous f) sz n s previousItem p s'" "i < n"
  shows "f (if i = 0 then previousItem else Some (p + sz * (i - 1))) (p + sz * i) = Some (Some (p + sz * i + sz))"
  using assms
proof (induction n arbitrary: i previousItem p s)
  case (Suc n)
  show ?case
  proof (cases i)
    case 0
    with Suc.prems(1) show ?thesis by (auto simp: with_previous_def)
  next
    case (Suc j)
    from Suc.prems(1) obtain s1 where "visits (with_previous f) sz n s1 (Some p) (p + sz) s'" by auto
    from Suc.IH [OF this, of j] Suc.prems(2) Suc show ?thesis by (cases j) (simp_all add: algebra_simps)
  qed
qed simp

lemma section_visits:
  assumes "section_ok func st 4 item dm s = Some True"
    and "\<forall>s previousItem p q s'. func s previousItem p = Some (Some (q, s')) \<longrightarrow> q = p + sz \<and> p < length (vs_bytes st)" "4 dvd sz"
    and "length (vs_bytes st) + sz < 2 ^ 32" "4 dvd unat (mi_offset item)"
  shows "\<exists>s'. visits func sz (unat (mi_size item)) s None (unat (mi_offset item)) s'"
proof -
  from assms(1) obtain r where "iterate_items func st 3 None (unat (mi_size item)) None (mi_offset item) dm s = Some (Some r)"
    by (auto simp: section_ok_def iterateSection_def iterateSectionWithOptionalUpdate_def)
  then show ?thesis by (rule iterate_visits [OF _ assms(2-5)])
qed

text \<open>An order between neighbours is an order of the list.\<close>

lemma chain_sorted:
  assumes "transp R" "\<And>i. Suc i < n \<Longrightarrow> R (x i) (x (Suc i))"
  shows "sorted_wrt R (map x [0..<n])"
  using assms by (simp add: sorted_wrt_iff_nth_Suc_transp)

lemma require_read_Some: "require_read b r = Some (Some y) \<longleftrightarrow> b = Some True \<and> r = Some (Some y)"
  by (auto simp: require_read_def require_Some split: Option.bind_splits)

section \<open>Tables in order\<close>

lemma types_sorted:
  assumes "visits (with_previous (crossVerifyTypeIdItem st)) 4 n () None p u"
  shows "\<exists>idxs. length idxs = n \<and> sorted_wrt (<) idxs \<and>
    (\<forall>i<n. u4_at st (p + 4 * i) = Some (idxs ! i) \<and> string_is dexIsValidTypeDescriptor st (idxs ! i) = Some True)"
proof -
  let ?idx = "\<lambda>i. the (u4_at st (p + 4 * i))"
  have item: "u4_at st (p + 4 * i) = Some (?idx i) \<and> string_is dexIsValidTypeDescriptor st (?idx i) = Some True" if "i < n" for i
    using visits_each [OF assms that] by (auto simp: crossVerifyTypeIdItem_def require_read_Some split: Option.bind_splits)
  have "?idx i < ?idx (Suc i)" if "Suc i < n" for i
    using visits_each [OF assms that] item [of i] item [of "Suc i"] that
    by (auto simp: crossVerifyTypeIdItem_def require_read_Some after_def not_le split: Option.bind_splits)
  then have "sorted_wrt (<) (map ?idx [0..<n])" by (intro chain_sorted) simp_all
  with item show ?thesis by (intro exI [of _ "map ?idx [0..<n]"]) simp
qed

text \<open>Fields and methods are ordered by class, name, and type or prototype.\<close>

definition ids_less :: "u2 \<times> u4 \<times> u2 \<Rightarrow> u2 \<times> u4 \<times> u2 \<Rightarrow> bool" where
  "ids_less a b \<longleftrightarrow> (case (a, b) of ((c0, n0, t0), (c1, n1, t1)) \<Rightarrow> c0 < c1 \<or> c0 = c1 \<and> (n0 < n1 \<or> n0 = n1 \<and> t0 < t1))"

lemma not_bogus: "\<not> ids_bogus a b \<longleftrightarrow> ids_less a b"
  by (auto simp: ids_bogus_def ids_less_def split: prod.splits)

lemma transp_ids_less: "transp ids_less"
  by (rule transpI) (auto simp: ids_less_def split: prod.splits)

lemma ids_sorted:
  assumes "\<And>i. i < n \<Longrightarrow> read_ids st (p + 8 * i) \<noteq> None"
    and "\<And>i. Suc i < n \<Longrightarrow> ids_in_order st (p + 8 * i) (p + 8 * Suc i) = Some True"
  shows "\<exists>ids. length ids = n \<and> sorted_wrt ids_less ids \<and> (\<forall>i<n. read_ids st (p + 8 * i) = Some (ids ! i))"
proof -
  let ?ids = "\<lambda>i. the (read_ids st (p + 8 * i))"
  have "ids_less (?ids i) (?ids (Suc i))" if "Suc i < n" for i
    using assms(2) [OF that] by (auto simp: ids_in_order_def not_bogus split: Option.bind_splits)
  then have "sorted_wrt ids_less (map ?ids [0..<n])" by (intro chain_sorted transp_ids_less)
  with assms(1) show ?thesis by (intro exI [of _ "map ?ids [0..<n]"]) auto
qed

lemma fields_sorted:
  assumes "visits (with_previous (crossVerifyFieldIdItem st)) 8 n () None p u"
  shows "\<exists>ids. length ids = n \<and> sorted_wrt ids_less ids \<and> (\<forall>i<n. read_ids st (p + 8 * i) = Some (ids ! i))"
proof (rule ids_sorted)
  show "read_ids st (p + 8 * i) \<noteq> None" if "i < n" for i
    using visits_each [OF assms that] by (auto simp: crossVerifyFieldIdItem_def split: Option.bind_splits)
  show "ids_in_order st (p + 8 * i) (p + 8 * Suc i) = Some True" if "Suc i < n" for i
    using visits_each [OF assms that] by (auto simp: crossVerifyFieldIdItem_def require_read_Some after_def split: Option.bind_splits)
qed

lemma methods_sorted:
  assumes "visits (with_previous (crossVerifyMethodIdItem st)) 8 n () None p u"
  shows "\<exists>ids. length ids = n \<and> sorted_wrt ids_less ids \<and> (\<forall>i<n. read_ids st (p + 8 * i) = Some (ids ! i))"
proof (rule ids_sorted)
  show "read_ids st (p + 8 * i) \<noteq> None" if "i < n" for i
    using visits_each [OF assms that] by (auto simp: crossVerifyMethodIdItem_def split: Option.bind_splits)
  show "ids_in_order st (p + 8 * i) (p + 8 * Suc i) = Some True" if "Suc i < n" for i
    using visits_each [OF assms that] by (auto simp: crossVerifyMethodIdItem_def require_read_Some after_def split: Option.bind_splits)
qed

section \<open>Classes defined once\<close>

definition class_seen :: "u4 list \<Rightarrow> u4 \<Rightarrow> bool" where
  "class_seen bits i \<longleftrightarrow> unat (drop_bit 5 i) < length bits \<and> bit (bits ! unat (drop_bit 5 i)) (unat (i AND 0x1f))"

lemma and_1f: "unat ((i :: u4) AND 0x1f) = unat i mod 32"
proof -
  have "(0x1f :: u4) = mask 5" by (simp add: mask_eq_exp_minus_1)
  then have "i AND 0x1f = take_bit 5 i" by (simp add: take_bit_eq_mask)
  then show ?thesis by (simp add: take_bit_eq_mod unat_mod)
qed

lemma same_bit: "unat (drop_bit 5 (i :: u4)) = unat (drop_bit 5 j) \<and> unat (i AND 0x1f) = unat (j AND 0x1f) \<longleftrightarrow> i = j"
proof -
  have "unat (drop_bit 5 k) = unat k div 32" for k :: u4 by (simp add: drop_bit_eq_div unat_div)
  moreover have "unat i = unat j" if "unat i div 32 = unat j div 32" "unat i mod 32 = unat j mod 32"
    using that by (metis div_mult_mod_eq)
  ultimately show ?thesis by (auto simp: and_1f word_unat_eq_iff)
qed

lemma setDefinedClassBit_seen:
  assumes "setDefinedClassBit bits i = Some (dup, bits')"
  shows "dup \<longleftrightarrow> class_seen bits i" "class_seen bits' j \<longleftrightarrow> class_seen bits j \<or> j = i"
proof -
  let ?k = "unat (drop_bit 5 i)" and ?b = "unat (i AND 0x1f)"
  have s: "?k < length bits" "dup \<longleftrightarrow> bits ! ?k AND push_bit ?b 1 \<noteq> 0" "bits' = bits[?k := bits ! ?k OR push_bit ?b 1]"
    using assms by (auto simp: setDefinedClassBit_def Let_def split: if_splits)
  have b: "?b < 32" by (simp add: and_1f)
  have "bits ! ?k AND push_bit ?b 1 \<noteq> 0 \<longleftrightarrow> bit (bits ! ?k) ?b"
    by (simp add: push_bit_eq_mult and_exp_eq_0_iff_not_bit)
  with s show "dup \<longleftrightarrow> class_seen bits i" by (simp add: class_seen_def)
  have "bit (bits ! ?k OR push_bit ?b 1) n \<longleftrightarrow> bit (bits ! ?k) n \<or> n = ?b" for n
    using b by (auto simp: bit_simps)
  with s(1) same_bit [of i j] show "class_seen bits' j \<longleftrightarrow> class_seen bits j \<or> j = i"
    unfolding s(3) class_seen_def by (cases "unat (drop_bit 5 j) = ?k") (auto simp: nth_list_update)
qed

lemma classes_distinct:
  assumes "visits (crossVerifyClassDefItem alloc dm st) 32 n bits previousItem p bits'"
  shows "\<exists>classes. length classes = n \<and> distinct classes \<and> (\<forall>c\<in>set classes. \<not> class_seen bits c) \<and>
    (\<forall>i<n. u4_at st (p + 32 * i) = Some (classes ! i) \<and> type_is dexIsClassDescriptor st (classes ! i) = Some True)"
  using assms
proof (induction n arbitrary: bits previousItem p)
  case (Suc n)
  from Suc.prems obtain bits1 where v: "crossVerifyClassDefItem alloc dm st bits previousItem p = Some (Some (p + 32, bits1))"
    "visits (crossVerifyClassDefItem alloc dm st) 32 n bits1 (Some p) (p + 32) bits'" by auto
  from v(1) obtain c where c: "u4_at st p = Some c" "type_is dexIsClassDescriptor st c = Some True"
    "setDefinedClassBit bits c = Some (False, bits1)"
    by (auto simp: crossVerifyClassDefItem_def require_read_Some require_Some split: Option.bind_splits)
  from Suc.IH [OF v(2)] obtain cs where cs: "length cs = n" "distinct cs" "\<forall>c\<in>set cs. \<not> class_seen bits1 c"
    "\<forall>i<n. u4_at st (p + 32 + 32 * i) = Some (cs ! i) \<and> type_is dexIsClassDescriptor st (cs ! i) = Some True" by blast
  have "u4_at st (p + 32 * i) = Some ((c # cs) ! i) \<and> type_is dexIsClassDescriptor st ((c # cs) ! i) = Some True" if "i < Suc n" for i
    using that c(1,2) cs(4) by (cases i) (auto simp: algebra_simps)
  with cs(1,2,3) setDefinedClassBit_seen [OF c(3)] show ?case by (intro exI [of _ "c # cs"]) auto
qed simp

section \<open>Strings in order\<close>

text \<open>A file that is mapped at an address, and a pass that reads it through \<open>pDexFile\<close>.\<close>

definition mapped :: "check_state \<Rightarrow> u4 \<Rightarrow> bool" where
  "mapped st addr \<longleftrightarrow> mem (vs_dexFile st) = \<lparr>img_base = addr, img_bytes = vs_bytes st\<rparr> \<and> baseAddr (vs_dexFile st) = addr \<and>
     length (vs_bytes st) < 2 ^ 32"

lemma chars_at_offset: "mapped st addr \<Longrightarrow> chars_at st (addr + off) = drop (unat off) (vs_bytes st)"
  by (simp add: mapped_def chars_at_def mem_at_def)

lemma rd4_offset: "mapped st addr \<Longrightarrow> rd4 (mem (vs_dexFile st)) (addr + off) = u4_at st (unat off)"
  by (simp add: mapped_def rd4_def u4_at_def mem_at_def)

lemma rd4_address: "mapped st addr \<Longrightarrow> p < 2 ^ 32 \<Longrightarrow> rd4 (mem (vs_dexFile st)) (address st p) = u4_at st p"
  using rd4_offset [of st addr "of_nat p"] unat_of_nat_u4 [of p] by (simp add: address_def mapped_def)

text \<open>The length of a string item that was accepted is skipped as it was read.\<close>

lemma checked_skip:
  assumes "checked_uleb st p = Some (Some (w, q))"
  shows "skip_uleb (drop p (vs_bytes st)) = Some (drop q (vs_bytes st))"
proof -
  let ?s = "drop p (vs_bytes st)" and ?t = "drop q (vs_bytes st)"
  note r = checked_uleb_read [OF assms]
  define n where "n = length ?s - length ?t"
  have "0 < n" using readUnsigned_less [OF r] by (simp add: n_def)
  have "take n ?s = leb_bytes n w"
    using assms verified_uleb128 [OF r n_def, of "Some (fileLen st - p)" True]
    by (auto simp: checked_leb_def split: Option.bind_splits if_splits)
  moreover obtain u where "?s = u @ ?t" using readUnsigned_shrinks [OF r] by blast
  moreover from this have "n = length u" unfolding n_def by (metis add_diff_cancel_right' length_append)
  ultimately show ?thesis using skip_uleb_bytes [OF \<open>0 < n\<close>, of w ?t] by (metis append_eq_conv_conj)
qed

lemma string_at:
  assumes "mapped st addr" "u4_at st p = Some off" "p < 2 ^ 32" "intraVerifyStringDataItem st (unat off) = Some (Some e)"
  shows "\<exists>s us rest. dexGetStringData (vs_dexFile st) (address st p) = Some s \<and> chars_at st s = convertUtf16ToUtf8 us @ rest"
proof -
  from assms(4) obtain n q r where q: "checked_uleb st (unat off) = Some (Some (n, q))" "verify_chars st (unat n) q = Some (Some r)"
    "byte_at st r = Some 0" by (auto simp: intraVerifyStringDataItem_def and_then_Some split: Option.bind_splits if_splits)
  from verify_chars_sound [OF q(2)] byte_at_Some [OF q(3)] obtain us where
    us: "drop q (vs_bytes st) = convertUtf16ToUtf8 us @ drop (r + 1) (vs_bytes st)" by (auto simp: convert_append)
  have bytes: "mem_at (mem (vs_dexFile st)) (addr + off) = drop (unat off) (vs_bytes st)"
    using chars_at_offset [OF assms(1)] by (simp add: chars_at_def)
  let ?s = "ptr_to_rest (mem (vs_dexFile st)) (addr + off) (drop q (vs_bytes st))"
  have "dexGetStringData (vs_dexFile st) (address st p) = Some ?s"
    using assms(1) rd4_address [OF assms(1,3)] assms(2) checked_skip [OF q(1)] bytes
    by (simp add: dexGetStringData_def mapped_def Let_def)
  moreover obtain front where "drop (unat off) (vs_bytes st) = front @ drop q (vs_bytes st)"
    using skip_uleb_splits [OF checked_skip [OF q(1)]] by blast
  then have "chars_at st ?s = drop q (vs_bytes st)"
    using assms(1) bytes unfolding chars_at_def by (intro ptr_to_rest_at) (simp_all add: fits_def mapped_def)
  ultimately show ?thesis using us by auto
qed

lemma strings_sorted:
  assumes "visits (with_previous (crossVerifyStringIdItem dm st)) 4 n () None p u" "mapped st addr" "p + 4 * n < 2 ^ 32"
    and items: "\<And>off. dexDataMapVerify dm off kDexTypeStringDataItem = Some True \<Longrightarrow> \<exists>e. intraVerifyStringDataItem st (unat off) = Some (Some e)"
  shows "\<exists>strings. length strings = n \<and> sorted_wrt (<) strings \<and>
    (\<forall>i<n. \<exists>s rest. dexGetStringData (vs_dexFile st) (address st (p + 4 * i)) = Some s \<and>
      chars_at st s = convertUtf16ToUtf8 (strings ! i) @ rest)"
proof -
  let ?is = "\<lambda>i us. \<exists>s rest. dexGetStringData (vs_dexFile st) (address st (p + 4 * i)) = Some s \<and> chars_at st s = convertUtf16ToUtf8 us @ rest"
  have "\<exists>us. ?is i us" if "i < n" for i
  proof -
    from visits_each [OF assms(1) that] obtain off where off: "u4_at st (p + 4 * i) = Some off"
      "dexDataMapVerify dm off kDexTypeStringDataItem = Some True"
      by (auto simp: crossVerifyStringIdItem_def require_read_Some split: Option.bind_splits)
    have "p + 4 * i < 2 ^ 32" using assms(3) that by linarith
    with items [OF off(2)] string_at [OF assms(2) off(1)] show ?thesis by blast
  qed
  then obtain us where us: "\<And>i. i < n \<Longrightarrow> ?is i (us i)" by metis
  have "us i < us (Suc i)" if "Suc i < n" for i
  proof -
    from us [of i] us [of "Suc i"] that obtain s r s' r' where
      s: "dexGetStringData (vs_dexFile st) (address st (p + 4 * i)) = Some s" "chars_at st s = convertUtf16ToUtf8 (us i) @ r"
        "dexGetStringData (vs_dexFile st) (address st (p + 4 * Suc i)) = Some s'" "chars_at st s' = convertUtf16ToUtf8 (us (Suc i)) @ r'"
      by (meson Suc_lessD)
    have "strings_in_order st (p + 4 * i) (p + 4 * Suc i) = Some True"
      using visits_each [OF assms(1) that] by (auto simp: crossVerifyStringIdItem_def require_read_Some after_def split: Option.bind_splits)
    with s have "units_cmp (us i) (us (Suc i)) < 0" by (simp add: strings_in_order_def cmp_convert)
    then show ?thesis by (simp add: units_cmp_order)
  qed
  then have "sorted_wrt (<) (map us [0..<n])" by (intro chain_sorted) simp_all
  with us show ?thesis by (intro exI [of _ "map us [0..<n]"]) simp
qed

section \<open>Accepted files\<close>

lemma u4_at_inside: "u4_at st p = Some w \<Longrightarrow> p < length (vs_bytes st)"
  by (auto simp: u4_at_def not_le [symmetric] split: list.splits)

lemma u2_at_inside: "u2_at st p = Some w \<Longrightarrow> p < length (vs_bytes st)"
  by (auto simp: u2_at_def not_le [symmetric] split: list.splits)

lemma table_visitors:
  "\<forall>s previousItem p q s'. with_previous (crossVerifyStringIdItem dm st) s previousItem p = Some (Some (q, s')) \<longrightarrow>
    q = p + 4 \<and> p < length (vs_bytes st)"
  "\<forall>s previousItem p q s'. with_previous (crossVerifyTypeIdItem st) s previousItem p = Some (Some (q, s')) \<longrightarrow>
    q = p + 4 \<and> p < length (vs_bytes st)"
  "\<forall>s previousItem p q s'. with_previous (crossVerifyFieldIdItem st) s previousItem p = Some (Some (q, s')) \<longrightarrow>
    q = p + 8 \<and> p < length (vs_bytes st)"
  "\<forall>s previousItem p q s'. with_previous (crossVerifyMethodIdItem st) s previousItem p = Some (Some (q, s')) \<longrightarrow>
    q = p + 8 \<and> p < length (vs_bytes st)"
  "\<forall>s previousItem p q s'. crossVerifyClassDefItem alloc dm st s previousItem p = Some (Some (q, s')) \<longrightarrow>
    q = p + 32 \<and> p < length (vs_bytes st)"
  by (auto simp: with_previous_def crossVerifyStringIdItem_def crossVerifyTypeIdItem_def crossVerifyFieldIdItem_def
      crossVerifyMethodIdItem_def crossVerifyClassDefItem_def read_ids_def require_read_Some require_Some
      dest!: u4_at_inside u2_at_inside split: Option.bind_splits)

lemma with_file_simps [simp]:
  "vs_bytes (st\<lparr>vs_dexFile := f\<rparr>) = vs_bytes st" "u4_at (st\<lparr>vs_dexFile := f\<rparr>) = u4_at st" "u2_at (st\<lparr>vs_dexFile := f\<rparr>) = u2_at st"
  by (simp_all add: fun_eq_iff u4_at_def u2_at_def)

lemma read_map_with_file [simp]: "read_map (st\<lparr>vs_dexFile := f\<rparr>) n p = read_map st n p"
  by (induction n arbitrary: p) (simp_all add: read_map_item_def)

lemma sections_swapped:
  "swap_sections m alloc st h n p prev dm = Some (Some dm') \<Longrightarrow> read_map st n p = Some ms \<Longrightarrow> s \<in> set ms \<Longrightarrow>
    \<exists>dm1 r. swap_section m alloc st h s dm1 = Some (Some r)"
  by (induction n arbitrary: p prev dm ms) (fastforce simp: Let_def require_Some and_then_Some split: Option.bind_splits if_splits)+

lemma sections_crossed:
  "cross_sections alloc dm st n p = Some True \<Longrightarrow> read_map st n p = Some ms \<Longrightarrow> s \<in> set ms \<Longrightarrow> cross_section alloc dm st s = Some True"
  by (induction n arbitrary: p ms) (auto split: Option.bind_splits if_splits)

lemma table_section:
  "swap_section m alloc st h s dm = Some (Some r) \<Longrightarrow> (mi_type s, off, n) \<in> set (header_tables h) \<Longrightarrow> mi_offset s = off \<and> mi_size s = n"
  by (auto simp: header_tables_def swap_section_def Let_def checkBoundsAndIterateSection_def require_Some split: if_splits)

text \<open>What both passes leave behind: the header, the data map, and the state of the second pass.\<close>

definition passed :: "(u4 \<Rightarrow> u4 \<Rightarrow> u4 option) \<Rightarrow> (u4 \<Rightarrow> bool) \<Rightarrow> u4 \<Rightarrow> u1 list \<Rightarrow> dex_file \<Rightarrow> dex_header \<Rightarrow> data_map \<Rightarrow> check_state \<Rightarrow> bool" where
  "passed safe_mul malloc addr bytes f h dm st \<longleftrightarrow>
     vs_bytes st = bytes \<and> vs_dexFile st = f \<and> mapped st addr \<and> read_header st = Some h \<and>
     dexFileSetupBasicPointers (new_dex_file \<lparr>img_base = addr, img_bytes = bytes\<rparr>) addr = Some f \<and>
     (\<forall>off. dexDataMapVerify dm off kDexTypeStringDataItem = Some True \<longrightarrow> (\<exists>e. intraVerifyStringDataItem st (unat off) = Some (Some e))) \<and>
     (\<forall>(t, off, n)\<in>set (header_tables h). n \<noteq> 0 \<longrightarrow>
       (\<exists>s. mi_type s = t \<and> mi_offset s = off \<and> mi_size s = n \<and> cross_section malloc dm st s = Some True))"

lemma strings_with_file: "intraVerifyStringDataItem (st\<lparr>vs_dexFile := f\<rparr>) p = intraVerifyStringDataItem st p"
proof -
  have byte: "byte_at (st\<lparr>vs_dexFile := f\<rparr>) = byte_at st" by (simp add: fun_eq_iff byte_at_def)
  have char: "verify_char (st\<lparr>vs_dexFile := f\<rparr>) = verify_char st" unfolding fun_eq_iff verify_char_def byte by simp
  have "verify_chars (st\<lparr>vs_dexFile := f\<rparr>) n = verify_chars st n" for n
  proof (induction n)
    case (Suc n)
    show ?case by (rule ext) (simp add: char Suc)
  qed (simp add: fun_eq_iff)
  moreover have "checked_leb rd (st\<lparr>vs_dexFile := f\<rparr>) p = checked_leb rd st p" for rd
    unfolding checked_leb_def with_file_simps by simp
  ultimately show ?thesis unfolding intraVerifyStringDataItem_def byte by simp
qed

lemma accepted_passed:
  assumes "dexSwapAndVerify adler0 adler32 safe_mul safe_add malloc addr bytes len = Some True" "mul_contract safe_mul"
    and "nat len \<le> length bytes" "length bytes + 8 < 2 ^ 32"
    and "dexFileSetupBasicPointers (new_dex_file \<lparr>img_base = addr, img_bytes = bytes\<rparr>) addr = Some f"
  shows "\<exists>h dm st. passed safe_mul malloc addr bytes f h dm st"
proof -
  let ?st0 = "first_state bytes (nat len) (new_dex_file \<lparr>img_base = addr, img_bytes = bytes\<rparr>)"
  from assms(1) obtain h where h: "read_header ?st0 = Some h" "swapDexHeader ?st0 h"
    "verify_map safe_mul safe_add malloc \<lparr>img_base = addr, img_bytes = bytes\<rparr> (with_header h ?st0) h = Some True"
    by (auto simp: dexSwapAndVerify_def Let_def split: Option.bind_splits if_splits)
  define st where "st = with_header h ?st0"
  let ?p = "unat (hd_mapOff h)"
  from h(3) assms(5) obtain dm0 dm where m: "swapMap safe_mul safe_add malloc st h ?p = Some (Some dm0)"
    "swapEverythingButHeaderAndMap safe_mul malloc st h ?p dm0 = Some (Some dm)"
    "crossVerifyEverything malloc dm (st\<lparr>vs_dexFile := f\<rparr>) ?p = Some True"
    by (auto simp: verify_map_def st_def Let_def and_then_def split: Option.bind_splits option.splits)
  have bytes: "vs_bytes st = bytes" "fileLen st = nat len" by (simp_all add: st_def with_header_def first_state_def)
  have small: "small_file st" using assms(3,4) by (simp add: small_file_def bytes)
  have "checkPtrRange st a b = checkPtrRange ?st0 a b" for a b
    by (simp add: checkPtrRange_def st_def with_header_def first_state_def)
  then have range: "checkPtrRange st = checkPtrRange ?st0" by (simp add: fun_eq_iff)
  have hdr: "swapDexHeader st h" using h(2) unfolding swapDexHeader_def range .
  from data_map_items [OF hdr m(1,2) assms(2) small] obtain items where items:
    "\<forall>item\<in>set items. item_ok safe_mul malloc st h item"
    "\<forall>off t. dexDataMapVerify dm off t = Some (\<exists>q. (off, t, q) \<in> set items)" by blast
  have strings: "\<exists>e. intraVerifyStringDataItem st (unat off) = Some (Some e)"
    if yes: "dexDataMapVerify dm off kDexTypeStringDataItem = Some True" for off
  proof -
    from yes items(2) obtain q where "(off, kDexTypeStringDataItem, q) \<in> set items" by auto
    with items(1) have "item_ok safe_mul malloc st h (off, kDexTypeStringDataItem, q)" by blast
    then show ?thesis by (auto simp: data_item_def)
  qed
  from map_accepted [OF m(1)] obtain n ms where ms: "u4_at st ?p = Some n" "read_map st (unat n) (?p + 4) = Some ms"
    "\<forall>(t, off, n)\<in>set (header_tables h). off \<noteq> 0 \<or> n \<noteq> 0 \<longrightarrow> t \<in> mi_type ` set ms" by blast
  have tables: "\<exists>s. mi_type s = t \<and> mi_offset s = off \<and> mi_size s = k \<and> cross_section malloc dm (st\<lparr>vs_dexFile := f\<rparr>) s = Some True"
    if tab: "(t, off, k) \<in> set (header_tables h)" and k: "k \<noteq> 0" for t off k
  proof -
    from ms(3) tab k obtain s where s: "s \<in> set ms" "mi_type s = t" by auto
    from m(2) ms(1) have "swap_sections safe_mul malloc st h (unat n) (?p + 4) 0 dm0 = Some (Some dm)"
      by (simp add: swapEverythingButHeaderAndMap_def)
    from sections_swapped [OF this ms(2) s(1)] table_section s(2) tab have "mi_offset s = off \<and> mi_size s = k" by blast
    moreover from m(3) ms(1) have "cross_sections malloc dm (st\<lparr>vs_dexFile := f\<rparr>) (unat n) (?p + 4) = Some True"
      by (simp add: crossVerifyEverything_def)
    from sections_crossed [OF this _ s(1)] ms(2) have "cross_section malloc dm (st\<lparr>vs_dexFile := f\<rparr>) s = Some True" by simp
    ultimately show ?thesis using s(2) by blast
  qed
  have f: "mem f = \<lparr>img_base = addr, img_bytes = bytes\<rparr>" "baseAddr f = addr"
    using assms(5) by (auto simp: dexFileSetupBasicPointers_def new_dex_file_def Let_def split: Option.bind_splits)
  have rh: "read_header (st\<lparr>vs_dexFile := f\<rparr>) = Some h"
    using h(1) by (simp add: read_header_def u4_at_def st_def with_header_def first_state_def)
  show ?thesis
    by (intro exI [of _ h] exI [of _ dm] exI [of _ "st\<lparr>vs_dexFile := f\<rparr>"])
      (use assms(4,5) strings tables f rh bytes in \<open>auto simp: passed_def mapped_def strings_with_file\<close>)
qed

text \<open>The tables of the file \<open>pDexFile\<close> are those of the header.\<close>

lemma passed_pointers:
  assumes "passed safe_mul malloc addr bytes f h dm st"
  shows "pStringIds f = addr + hd_stringIdsOff h" "pTypeIds f = addr + hd_typeIdsOff h" "pFieldIds f = addr + hd_fieldIdsOff h"
    "pMethodIds f = addr + hd_methodIdsOff h" "pClassDefs f = addr + hd_classDefsOff h"
    "header f StringIdsSize = Some (hd_stringIdsSize h)" "header f TypeIdsSize = Some (hd_typeIdsSize h)"
    "header f FieldIdsSize = Some (hd_fieldIdsSize h)" "header f MethodIdsSize = Some (hd_methodIdsSize h)"
    "header f ClassDefsSize = Some (hd_classDefsSize h)"
proof -
  let ?f = "new_dex_file \<lparr>img_base = addr, img_bytes = bytes\<rparr>\<lparr>baseAddr := addr, pHeader := addr\<rparr>"
  from assms have st: "mapped st addr" "vs_dexFile st = f" "read_header st = Some h"
    "dexFileSetupBasicPointers (new_dex_file \<lparr>img_base = addr, img_bytes = bytes\<rparr>) addr = Some f" "vs_bytes st = bytes"
    by (simp_all add: passed_def)
  have mem: "mem f = \<lparr>img_base = addr, img_bytes = bytes\<rparr>" using st(1,2,5) by (simp add: mapped_def)
  have start: "pHeader f = addr" using st(4) by (auto simp: dexFileSetupBasicPointers_def Let_def split: Option.bind_splits)
  have hdr: "header ?f fld = u4_at st (unat (field_off fld))" "header f fld = u4_at st (unat (field_off fld))" for fld
    using rd4_offset [OF st(1), of "field_off fld"] st(2) mem start by (simp_all add: header_def new_dex_file_def)
  note fields = st(3) [unfolded read_header_def]
  show "pStringIds f = addr + hd_stringIdsOff h" "pTypeIds f = addr + hd_typeIdsOff h" "pFieldIds f = addr + hd_fieldIdsOff h"
    "pMethodIds f = addr + hd_methodIdsOff h" "pClassDefs f = addr + hd_classDefsOff h"
    using st(4) fields by (auto simp: dexFileSetupBasicPointers_def Let_def hdr split: Option.bind_splits)
  show "header f StringIdsSize = Some (hd_stringIdsSize h)" "header f TypeIdsSize = Some (hd_typeIdsSize h)"
    "header f FieldIdsSize = Some (hd_fieldIdsSize h)" "header f MethodIdsSize = Some (hd_methodIdsSize h)"
    "header f ClassDefsSize = Some (hd_classDefsSize h)"
    using fields by (auto simp: hdr split: Option.bind_splits)
qed

text \<open>The walk of the second pass over a table with entries.\<close>

lemma table_visits:
  assumes "passed safe_mul malloc addr bytes f h dm st" "length bytes + 32 < 2 ^ 32" "4 dvd unat off"
    and "(t, off, n) \<in> set (header_tables h)" "n \<noteq> 0"
    and "\<And>s. mi_type s = t \<Longrightarrow> cross_section malloc dm st s = section_ok func st 4 s dm s0"
    and "\<forall>s previousItem p q s'. func s previousItem p = Some (Some (q, s')) \<longrightarrow> q = p + sz \<and> p < length (vs_bytes st)"
    and "4 dvd sz" "sz \<le> 32"
  shows "\<exists>s'. visits func sz (unat n) s0 None (unat off) s'"
proof -
  from assms(1,4,5) obtain s where s: "mi_type s = t" "mi_offset s = off" "mi_size s = n" "cross_section malloc dm st s = Some True"
    unfolding passed_def by blast
  have "section_ok func st 4 s dm s0 = Some True" using assms(6) [OF s(1)] s(4) by simp
  moreover have "length (vs_bytes st) + sz < 2 ^ 32" using assms(1,2,9) by (simp add: passed_def)
  ultimately show ?thesis using section_visits [OF _ assms(7,8)] assms(3) s(2,3) by blast
qed

text \<open>Where an entry of a table is.\<close>

lemma entry_address:
  assumes "passed safe_mul malloc addr bytes f h dm st"
  shows "address st (unat off + k * i) = addr + off + of_nat k * of_nat i"
  using assms by (auto simp: passed_def mapped_def address_def)

lemma entry_rd4:
  assumes "passed safe_mul malloc addr bytes f h dm st" "u4_at st (unat off + k * i) = Some w"
  shows "rd4 (mem f) (addr + off + of_nat k * of_nat i) = Some w"
proof -
  from assms(1) have st: "mapped st addr" "vs_dexFile st = f" by (simp_all add: passed_def)
  then have "unat off + k * i < 2 ^ 32" using u4_at_inside [OF assms(2)] by (simp add: mapped_def)
  with rd4_address [OF st(1)] assms(2) st(2) entry_address [OF assms(1)] show ?thesis by metis
qed

lemma passed_strings:
  assumes "passed safe_mul malloc addr bytes f h dm st" "length bytes + 32 < 2 ^ 32" "4 dvd unat (hd_stringIdsOff h)"
  shows "\<exists>strings. length strings = unat (hd_stringIdsSize h) \<and> sorted_wrt (<) strings \<and>
    (\<forall>i<length strings. \<exists>s rest. dexStringById f (of_nat i) = Some s \<and> mem_at (mem f) s = convertUtf16ToUtf8 (strings ! i) @ rest)"
proof (cases "hd_stringIdsSize h = 0")
  case False
  let ?n = "unat (hd_stringIdsSize h)" and ?p = "unat (hd_stringIdsOff h)"
  from assms(1) have st: "mapped st addr" "vs_dexFile st = f" "vs_bytes st = bytes"
    "\<And>off. dexDataMapVerify dm off kDexTypeStringDataItem = Some True \<Longrightarrow> \<exists>e. intraVerifyStringDataItem st (unat off) = Some (Some e)"
    by (simp_all add: passed_def)
  obtain u where v: "visits (with_previous (crossVerifyStringIdItem dm st)) 4 ?n () None ?p u"
    using table_visits [OF assms _ False _ table_visitors(1) [of dm st], where t = kDexTypeStringIdItem] by (auto simp: header_tables_def cross_section_def)
  have "u4_at st (?p + 4 * (?n - 1)) \<noteq> None"
    using visits_each [OF v, of "?n - 1"] False by (auto simp: crossVerifyStringIdItem_def unat_gt_0 split: Option.bind_splits)
  then have "?p + 4 * (?n - 1) < length bytes" using u4_at_inside st(3) by fastforce
  then have "?p + 4 * ?n < 2 ^ 32" using assms(2) by linarith
  from strings_sorted [OF v st(1) this st(4)] obtain strings where strings: "length strings = ?n" "sorted_wrt (<) strings"
    "\<forall>i<?n. \<exists>s rest. dexGetStringData f (address st (?p + 4 * i)) = Some s \<and> chars_at st s = convertUtf16ToUtf8 (strings ! i) @ rest"
    using st(2) by blast
  have "dexStringById f (of_nat i) = dexGetStringData f (address st (?p + 4 * i))" for i
    using passed_pointers(1) [OF assms(1)] entry_address [OF assms(1), of "hd_stringIdsOff h" 4 i]
    by (simp add: dexStringById_def dexGetStringId_def)
  with strings st(2) show ?thesis by (intro exI [of _ strings]) (simp add: chars_at_def)
qed simp

lemma passed_types:
  assumes "passed safe_mul malloc addr bytes f h dm st" "length bytes + 32 < 2 ^ 32" "4 dvd unat (hd_typeIdsOff h)"
  shows "\<exists>idxs. length idxs = unat (hd_typeIdsSize h) \<and> sorted_wrt (<) idxs \<and>
    (\<forall>i<length idxs. rd4 (mem f) (dexGetTypeId f (of_nat i)) = Some (idxs ! i))"
proof (cases "hd_typeIdsSize h = 0")
  case False
  obtain u where v: "visits (with_previous (crossVerifyTypeIdItem st)) 4 (unat (hd_typeIdsSize h)) () None (unat (hd_typeIdsOff h)) u"
    using table_visits [OF assms _ False _ table_visitors(2), where t = kDexTypeTypeIdItem] by (auto simp: header_tables_def cross_section_def)
  from types_sorted [OF v] obtain idxs where idxs: "length idxs = unat (hd_typeIdsSize h)" "sorted_wrt (<) idxs"
    "\<forall>i<length idxs. u4_at st (unat (hd_typeIdsOff h) + 4 * i) = Some (idxs ! i)" by auto
  then show ?thesis
    using entry_rd4 [OF assms(1), of "hd_typeIdsOff h" 4] passed_pointers(2) [OF assms(1)]
    by (intro exI [of _ idxs]) (simp add: dexGetTypeId_def)
qed simp

lemma passed_classes:
  assumes "passed safe_mul malloc addr bytes f h dm st" "length bytes + 32 < 2 ^ 32" "4 dvd unat (hd_classDefsOff h)"
  shows "\<exists>classes. length classes = unat (hd_classDefsSize h) \<and> distinct classes \<and>
    (\<forall>i<length classes. rd4 (mem f) (dexGetClassDef f (of_nat i)) = Some (classes ! i) \<and>
      type_is dexIsClassDescriptor st (classes ! i) = Some True)"
proof (cases "hd_classDefsSize h = 0")
  case False
  let ?bits = "replicate (calcDefinedClassBitsSize st) 0"
  obtain b where v: "visits (crossVerifyClassDefItem malloc dm st) 32 (unat (hd_classDefsSize h)) ?bits None (unat (hd_classDefsOff h)) b"
    using table_visits [OF assms _ False _ table_visitors(5) [of malloc dm st], where t = kDexTypeClassDefItem and ?s0.0 = ?bits]
    by (auto simp: header_tables_def cross_section_def)
  from classes_distinct [OF v] obtain classes where classes: "length classes = unat (hd_classDefsSize h)" "distinct classes"
    "\<forall>i<length classes. u4_at st (unat (hd_classDefsOff h) + 32 * i) = Some (classes ! i) \<and>
      type_is dexIsClassDescriptor st (classes ! i) = Some True" by auto
  then show ?thesis
    using entry_rd4 [OF assms(1), of "hd_classDefsOff h" 32] passed_pointers(5) [OF assms(1)]
    by (intro exI [of _ classes]) (simp add: dexGetClassDef_def)
qed simp

text \<open>The class, the name, and the type or prototype of a field or method.\<close>

definition ids_at :: "dex_file \<Rightarrow> u4 \<Rightarrow> (u2 \<times> u4 \<times> u2) option" where
  "ids_at f ptr = do { c \<leftarrow> rd2 (mem f) ptr; t \<leftarrow> rd2 (mem f) (ptr + 2); n \<leftarrow> rd4 (mem f) (ptr + 4); Some (c, n, t) }"

lemma rd2_offset: "mapped st addr \<Longrightarrow> rd2 (mem (vs_dexFile st)) (addr + off) = u2_at st (unat off)"
  by (simp add: mapped_def rd2_def u2_at_def mem_at_def)

lemma entry_ids:
  assumes "passed safe_mul malloc addr bytes f h dm st" "length bytes + 32 < 2 ^ 32" "read_ids st (unat off + 8 * i) = Some w"
  shows "ids_at f (addr + off + 8 * of_nat i) = Some w"
proof -
  let ?p = "unat off + 8 * i"
  from assms(1) have st: "mapped st addr" "vs_dexFile st = f" "vs_bytes st = bytes" by (simp_all add: passed_def)
  have "?p < length bytes" using assms(3) u2_at_inside st(3) by (auto simp: read_ids_def split: Option.bind_splits)
  then have p: "unat (of_nat (?p + d) :: u4) = ?p + d" if "d \<le> 4" for d
    using assms(2) that by (intro unat_of_nat_u4) linarith
  have rd: "rd2 (mem f) (addr + of_nat (?p + d)) = u2_at st (?p + d)" "rd4 (mem f) (addr + of_nat (?p + d)) = u4_at st (?p + d)"
    if "d \<le> 4" for d
    using rd2_offset [OF st(1), of "of_nat (?p + d)"] rd4_offset [OF st(1), of "of_nat (?p + d)"] unfolding p [OF that] st(2) .
  have at: "addr + off + 8 * of_nat i = addr + of_nat (?p + 0)" "addr + of_nat (?p + 0) + 2 = addr + of_nat (?p + 2)"
    "addr + of_nat (?p + 0) + 4 = addr + of_nat (?p + 4)" by simp_all
  have le: "(2 :: nat) \<le> 4" "(4 :: nat) \<le> 4" by simp_all
  have "ids_at f (addr + off + 8 * of_nat i) = read_ids st ?p"
    unfolding ids_at_def at rd(1) [OF le0] rd(1) [OF le(1)] rd(2) [OF le(2)] read_ids_def by simp
  with assms(3) show ?thesis by simp
qed

lemma passed_fields:
  assumes "passed safe_mul malloc addr bytes f h dm st" "length bytes + 32 < 2 ^ 32" "4 dvd unat (hd_fieldIdsOff h)"
  shows "\<exists>ids. length ids = unat (hd_fieldIdsSize h) \<and> sorted_wrt ids_less ids \<and>
    (\<forall>i<length ids. ids_at f (dexGetFieldId f (of_nat i)) = Some (ids ! i))"
proof (cases "hd_fieldIdsSize h = 0")
  case False
  obtain u where v: "visits (with_previous (crossVerifyFieldIdItem st)) 8 (unat (hd_fieldIdsSize h)) () None (unat (hd_fieldIdsOff h)) u"
    using table_visits [OF assms _ False _ table_visitors(3), where t = kDexTypeFieldIdItem] by (auto simp: header_tables_def cross_section_def)
  from fields_sorted [OF v] obtain ids where "length ids = unat (hd_fieldIdsSize h)" "sorted_wrt ids_less ids"
    "\<forall>i<length ids. read_ids st (unat (hd_fieldIdsOff h) + 8 * i) = Some (ids ! i)" by metis
  then show ?thesis
    using entry_ids [OF assms(1,2), of "hd_fieldIdsOff h"] passed_pointers(3) [OF assms(1)]
    by (intro exI [of _ ids]) (simp add: dexGetFieldId_def)
qed simp

lemma passed_methods:
  assumes "passed safe_mul malloc addr bytes f h dm st" "length bytes + 32 < 2 ^ 32" "4 dvd unat (hd_methodIdsOff h)"
  shows "\<exists>ids. length ids = unat (hd_methodIdsSize h) \<and> sorted_wrt ids_less ids \<and>
    (\<forall>i<length ids. ids_at f (dexGetMethodId f (of_nat i)) = Some (ids ! i))"
proof (cases "hd_methodIdsSize h = 0")
  case False
  obtain u where v: "visits (with_previous (crossVerifyMethodIdItem st)) 8 (unat (hd_methodIdsSize h)) () None (unat (hd_methodIdsOff h)) u"
    using table_visits [OF assms _ False _ table_visitors(4), where t = kDexTypeMethodIdItem] by (auto simp: header_tables_def cross_section_def)
  from methods_sorted [OF v] obtain ids where "length ids = unat (hd_methodIdsSize h)" "sorted_wrt ids_less ids"
    "\<forall>i<length ids. read_ids st (unat (hd_methodIdsOff h) + 8 * i) = Some (ids ! i)" by metis
  then show ?thesis
    using entry_ids [OF assms(1,2), of "hd_methodIdsOff h"] passed_pointers(4) [OF assms(1)]
    by (intro exI [of _ ids]) (simp add: dexGetMethodId_def)
qed simp

section \<open>Properties\<close>




text \<open>A file with the class \<open>LA;\<close> and a field \<open>x\<close> of that type.\<close>

definition class_dex :: "u1 list" where
  "class_dex =
    [100, 101, 120, 10, 48, 51, 53, 0, 0, 0, 0, 0, 0, 0, 0, 0, 0, 0, 0, 0, 0, 0, 0, 0, 0, 0,
     0, 0, 0, 0, 0, 0, 4, 1, 0, 0, 112, 0, 0, 0, 120, 86, 52, 18, 0, 0, 0, 0, 0, 0, 0, 0,
     172, 0, 0, 0, 2, 0, 0, 0, 112, 0, 0, 0, 1, 0, 0, 0, 120, 0, 0, 0, 0, 0, 0, 0, 0, 0,
     0, 0, 1, 0, 0, 0, 124, 0, 0, 0, 0, 0, 0, 0, 0, 0, 0, 0, 1, 0, 0, 0, 132, 0, 0, 0,
     96, 0, 0, 0, 164, 0, 0, 0, 164, 0, 0, 0, 169, 0, 0, 0, 0, 0, 0, 0, 0, 0, 0, 0, 1, 0,
     0, 0, 0, 0, 0, 0, 1, 0, 0, 0, 255, 255, 255, 255, 0, 0, 0, 0, 255, 255, 255, 255, 0, 0, 0, 0,
     0, 0, 0, 0, 0, 0, 0, 0, 3, 76, 65, 59, 0, 1, 120, 0, 7, 0, 0, 0, 0, 0, 0, 0, 1, 0,
     0, 0, 0, 0, 0, 0, 1, 0, 0, 0, 2, 0, 0, 0, 112, 0, 0, 0, 2, 0, 0, 0, 1, 0, 0, 0,
     120, 0, 0, 0, 4, 0, 0, 0, 1, 0, 0, 0, 124, 0, 0, 0, 6, 0, 0, 0, 1, 0, 0, 0, 132, 0,
     0, 0, 2, 32, 0, 0, 2, 0, 0, 0, 164, 0, 0, 0, 0, 16, 0, 0, 1, 0, 0, 0, 172, 0, 0, 0]"

definition class_file :: dex_file where
  "class_file = \<lparr>mem = \<lparr>img_base = 4096, img_bytes = class_dex\<rparr>, pOptHeader = 0, pHeader = 4096, pStringIds = 4208, pTypeIds = 4216,
     pFieldIds = 4220, pMethodIds = 4096, pProtoIds = 4096, pClassDefs = 4228, pLinkData = 4096, pClassLookup = 0,
     pRegisterMapPool = 0, baseAddr = 4096\<rparr>"

lemma class_dex_accepted: "dexSwapAndVerify 0 (\<lambda>a bs. a) short_mul short_mul (\<lambda>_. True) 4096 class_dex 260 = Some True"
  by code_simp

lemma class_dex_set_up: "dexFileSetupBasicPointers (new_dex_file \<lparr>img_base = 4096, img_bytes = class_dex\<rparr>) 4096 = Some class_file"
  by code_simp

lemma class_dex_fits: "nat 260 \<le> length class_dex" "length class_dex + 32 < 2 ^ 32"
  by (simp_all add: class_dex_def)




section \<open>Flaws\<close>

text \<open>The items of a table are verified at the next multiple of four, but the table is used where the header says: a table
  at an offset that is no multiple of four passes, and other bytes than its entries were looked at.\<close>

lemma unaligned_table_accepted:
  "checkBoundsAndIterateSection (swapStringIdItem (file_of (replicate 120 0))) (file_of (replicate 120 0)) 4 113 1 113 1
     \<lparr>dm_max = 0, dm_offsets = [], dm_types = []\<rparr> = Some (Some (120, \<lparr>dm_max = 0, dm_offsets = [], dm_types = []\<rparr>))"
  by code_simp

text \<open>An entry 0 in a set of annotations passes the check of the offsets and is then read through \<open>NULL\<close>.\<close>

lemma null_annotation_read: "u4_at st p = Some 0 \<Longrightarrow> set_entries dm st lastIdx (Suc n) p = None"
  by (simp add: dexDataMapVerify0Ok_def require_read_def require_def annotationItemTypeIdx_def)

text \<open>When the memory for class data is refused in the second pass, it is read through \<open>NULL\<close>.\<close>

lemma refused_class_data_read:
  assumes "dexReadAndVerifyClassDataHeader (Some (length (vs_bytes st) - fileLen st)) (drop p (vs_bytes st)) = Some (Some h, rest)"
    and "\<not> alloc (class_data_size h)"
  shows "crossVerifyClassDataItem alloc dm st p = None"
  using assms by (simp add: crossVerifyClassDataItem_def dexReadAndVerifyClassData_def Let_def)

text \<open>Sections of annotations are not looked at in the second pass.\<close>

lemma annotations_not_crossed: "mi_type item = kDexTypeAnnotationItem \<Longrightarrow> cross_section alloc dm st item = Some True"
  by (simp add: cross_section_def)

text \<open>An optimized file is accepted unseen.\<close>

lemma optimized_file_unseen:
  "take 4 bytes = DEX_OPT_MAGIC \<Longrightarrow> dexSwapAndVerifyIfNecessary adler0 adler32 safe_mul safe_add malloc addr bytes len = Some True"
  by (auto simp: dexSwapAndVerifyIfNecessary_def bytes_at_def mem_at_def DEX_OPT_MAGIC_def dest: arg_cong [where f = length])

end
