(* ===== verification/ReferenceTable.thy ===== *)
theory ReferenceTable
  imports Prelude "HOL-Library.Multiset" "HOL-Library.Monad_Syntax"
begin

text \<open>
  \<^verbatim>\<open>jni/dalvik/vm/ReferenceTable.h\<close> and \<^verbatim>\<open>ReferenceTable.cpp\<close>: a growing array of object references, which is
  a stack except that an entry may be removed from the middle. Pointers are 32-bit addresses, 0 is \<open>NULL\<close>, and \<open>rt_slots\<close> holds
  the words of the block at \<open>rt_table\<close>. \<open>malloc\<close> and \<open>realloc\<close> are parameters: given a size in bytes (and
  what the block holds) they return the address and the words of a block. \<open>None\<close> is an access outside of the
  block.
\<close>

section \<open>Interface\<close>

text \<open>A list without the last occurrence of an element.\<close>

definition del_last :: "'a \<Rightarrow> 'a list \<Rightarrow> 'a list" where
  "del_last x xs = rev (remove1 x (rev xs))"

lemma mset_del_last: "x \<in> set xs \<Longrightarrow> add_mset x (mset (del_last x xs)) = mset xs"
  by (simp add: del_last_def)

text \<open>What a frame does to a table of references: it adds at the end, and it removes among the entries from its
  own bottom on, the most recent one first. The result of every call is kept.\<close>

datatype 'a frame_op = Push 'a | Drop 'a

fun run_frame :: "('s \<Rightarrow> 'a \<Rightarrow> (bool \<times> 's) option) \<Rightarrow> ('s \<Rightarrow> nat \<Rightarrow> 'a \<Rightarrow> (bool \<times> 's) option) \<Rightarrow> nat \<Rightarrow>
    'a frame_op list \<Rightarrow> 's \<Rightarrow> (bool list \<times> 's) option" where
  "run_frame push del b [] s = Some ([], s)"
| "run_frame push del b (Push x # ops) s =
     do { (ok, s) \<leftarrow> push s x; (oks, s) \<leftarrow> run_frame push del b ops s; Some (ok # oks, s) }"
| "run_frame push del b (Drop x # ops) s =
     do { (ok, s) \<leftarrow> del s b x; (oks, s) \<leftarrow> run_frame push del b ops s; Some (ok # oks, s) }"

fun pushed :: "'a frame_op list \<Rightarrow> 'a multiset" where
  "pushed [] = {#}" | "pushed (Push x # ops) = add_mset x (pushed ops)" | "pushed (Drop x # ops) = pushed ops"

fun dropped :: "'a frame_op list \<Rightarrow> 'a multiset" where
  "dropped [] = {#}" | "dropped (Push x # ops) = dropped ops" | "dropped (Drop x # ops) = add_mset x (dropped ops)"

locale frame_stack =
  fixes abs :: "'s \<Rightarrow> 'a list" and inv :: "'s \<Rightarrow> bool"
    and push :: "'s \<Rightarrow> 'a \<Rightarrow> (bool \<times> 's) option" and del :: "'s \<Rightarrow> nat \<Rightarrow> 'a \<Rightarrow> (bool \<times> 's) option"
  assumes push_abs: "inv s \<Longrightarrow> \<exists>ok s'. push s x = Some (ok, s') \<and> inv s' \<and> abs s' = (if ok then abs s @ [x] else abs s)"
    and del_abs: "inv s \<Longrightarrow> b \<le> length (abs s) \<Longrightarrow> \<exists>s'. del s b x = Some (x \<in> set (drop b (abs s)), s') \<and> inv s' \<and>
      abs s' = take b (abs s) @ del_last x (drop b (abs s))"
begin

lemma run_frame_total:
  "inv s \<Longrightarrow> b \<le> length (abs s) \<Longrightarrow> \<exists>oks s'. run_frame push del b ops s = Some (oks, s') \<and> inv s' \<and>
     b \<le> length (abs s') \<and> take b (abs s') = take b (abs s) \<and>
     (False \<notin> set oks \<longrightarrow> mset (drop b (abs s')) + dropped ops = mset (drop b (abs s)) + pushed ops)"
proof (induction ops arbitrary: s)
  case (Cons op ops)
  show ?case
  proof (cases op)
    case (Push x)
    obtain ok s1 where s1: "push s x = Some (ok, s1)" "inv s1" "abs s1 = (if ok then abs s @ [x] else abs s)"
      using push_abs [OF Cons.prems(1)] by blast
    with Cons.prems have b: "b \<le> length (abs s1)" "take b (abs s1) = take b (abs s)"
      "ok \<Longrightarrow> mset (drop b (abs s1)) = add_mset x (mset (drop b (abs s)))" by simp_all
    from Cons.IH [OF s1(2) b(1)] obtain oks s2 where "run_frame push del b ops s1 = Some (oks, s2)" "inv s2"
      "b \<le> length (abs s2)" "take b (abs s2) = take b (abs s)"
      "False \<notin> set oks \<longrightarrow> mset (drop b (abs s2)) + dropped ops = mset (drop b (abs s1)) + pushed ops"
      using b(2) by auto
    with s1(1) b(3) show ?thesis by (cases ok) (simp_all add: Push)
  next
    case (Drop x)
    obtain s1 where s1: "del s b x = Some (x \<in> set (drop b (abs s)), s1)" "inv s1"
      "abs s1 = take b (abs s) @ del_last x (drop b (abs s))"
      using del_abs [OF Cons.prems] by blast
    with Cons.prems mset_del_last [of x "drop b (abs s)"] have b: "b \<le> length (abs s1)" "take b (abs s1) = take b (abs s)"
      "x \<in> set (drop b (abs s)) \<Longrightarrow> mset (drop b (abs s)) = add_mset x (mset (drop b (abs s1)))" by simp_all
    from Cons.IH [OF s1(2) b(1)] obtain oks s2 where "run_frame push del b ops s1 = Some (oks, s2)" "inv s2"
      "b \<le> length (abs s2)" "take b (abs s2) = take b (abs s)"
      "False \<notin> set oks \<longrightarrow> mset (drop b (abs s2)) + dropped ops = mset (drop b (abs s1)) + pushed ops"
      using b(2) by auto
    with s1(1) b(3) show ?thesis by (cases "x \<in> set (drop b (abs s))") (simp_all add: Drop)
  qed
qed simp

text \<open>A frame that has removed what it added, in whatever order, leaves the table as it found it.\<close>

lemma frame_balanced:
  assumes "inv s"
  shows "\<exists>oks s'. run_frame push del (length (abs s)) ops s = Some (oks, s') \<and> inv s' \<and> take (length (abs s)) (abs s') = abs s \<and>
    (False \<notin> set oks \<and> pushed ops = dropped ops \<longrightarrow> abs s' = abs s)"
proof -
  let ?b = "length (abs s)"
  from run_frame_total [OF assms, of ?b ops] obtain oks s' where r: "run_frame push del ?b ops s = Some (oks, s')" "inv s'"
    "take ?b (abs s') = abs s" "False \<notin> set oks \<longrightarrow> mset (drop ?b (abs s')) + dropped ops = pushed ops" by auto
  moreover have "abs s' = abs s" if "False \<notin> set oks" "pushed ops = dropped ops"
  proof -
    have "drop ?b (abs s') = []" using r(4) that by simp
    with r(3) show ?thesis by (metis append_Nil2 append_take_drop_id)
  qed
  ultimately show ?thesis by blast
qed

end

section \<open>Table\<close>

record reference_table =
  rt_next :: u4
  rt_table :: u4
  allocEntries :: int
  maxEntries :: int
  rt_slots :: "u4 list"

definition dvmInitReferenceTable ::
    "(u4 \<Rightarrow> (u4 \<times> u4 list) option) \<Rightarrow> int \<Rightarrow> int \<Rightarrow> reference_table \<Rightarrow> bool \<times> reference_table" where
  "dvmInitReferenceTable malloc initialCount maxCount t =
     (case malloc (word_of_int initialCount * 4) of
        None \<Rightarrow> (False, t\<lparr>rt_table := 0, rt_slots := []\<rparr>)
      | Some (a, ws) \<Rightarrow>
          (True, \<lparr>rt_next = a, rt_table = a, allocEntries = initialCount, maxEntries = maxCount, rt_slots = ws\<rparr>))"

definition dvmClearReferenceTable :: "reference_table \<Rightarrow> reference_table" where
  "dvmClearReferenceTable t = \<lparr>rt_next = 0, rt_table = 0, allocEntries = - 1, maxEntries = - 1, rt_slots = []\<rparr>"

definition dvmReferenceTableEntries :: "reference_table \<Rightarrow> u4" where
  "dvmReferenceTableEntries t = word_of_int (sint (rt_next t - rt_table t) sdiv 4)"

definition dvmIsReferenceTableFull :: "reference_table \<Rightarrow> bool" where
  "dvmIsReferenceTableFull t \<longleftrightarrow> dvmReferenceTableEntries t = word_of_int (allocEntries t)"

text \<open>The slot at an address, which must be one of the block.\<close>

definition slot_no :: "reference_table \<Rightarrow> u4 \<Rightarrow> nat" where
  "slot_no t p = unat (p - rt_table t) div 4"

definition slot_ok :: "reference_table \<Rightarrow> u4 \<Rightarrow> bool" where
  "slot_ok t p \<longleftrightarrow> rt_table t \<le> p \<and> p < p + 4 \<and> unat (p - rt_table t) mod 4 = 0 \<and> slot_no t p < length (rt_slots t)"

text \<open>\<open>None\<close>: the table has reached its maximum, or cannot be made larger.\<close>

definition rt_grow :: "(u4 list \<Rightarrow> u4 \<Rightarrow> (u4 \<times> u4 list) option) \<Rightarrow> reference_table \<Rightarrow> reference_table option" where
  "rt_grow realloc t =
     (if rt_next t = rt_table t + word_of_int (allocEntries t) * 4 then
        if rt_next t = rt_table t + word_of_int (maxEntries t) * 4 then None
        else
          let newSize = s32 (allocEntries t * 2);
              newSize = (if newSize > maxEntries t then maxEntries t else newSize)
          in case realloc (rt_slots t) (word_of_int newSize * 4) of
               None \<Rightarrow> None
             | Some (newTable, ws) \<Rightarrow>
                 Some (t\<lparr>rt_next := newTable + (rt_next t - rt_table t), rt_table := newTable, allocEntries := newSize,
                   rt_slots := ws\<rparr>)
      else Some t)"

definition dvmAddToReferenceTable ::
    "(u4 list \<Rightarrow> u4 \<Rightarrow> (u4 \<times> u4 list) option) \<Rightarrow> reference_table \<Rightarrow> u4 \<Rightarrow> (bool \<times> reference_table) option" where
  "dvmAddToReferenceTable realloc t obj =
     (case rt_grow realloc t of
        None \<Rightarrow> Some (False, t)
      | Some t \<Rightarrow>
          if slot_ok t (rt_next t)
          then Some (True, t\<lparr>rt_slots := (rt_slots t)[slot_no t (rt_next t) := obj], rt_next := rt_next t + 4\<rparr>)
          else None)"

lemma word_step_less: "(p - 4 :: u4) < p - 4 + 4 \<Longrightarrow> unat (p - 4) < unat p"
  by (simp add: word_less_nat_alt)

function find_loop :: "reference_table \<Rightarrow> u4 \<Rightarrow> u4 \<Rightarrow> u4 \<Rightarrow> u4 option" where
  "find_loop t ptr bottom obj =
     (let p = ptr - 4 in
      if \<not> p \<ge> bottom then Some 0
      else if \<not> slot_ok t p then None
      else if rt_slots t ! slot_no t p = obj then Some p
      else find_loop t p bottom obj)"
  by pat_completeness auto

termination
  by (relation "measure (\<lambda>(t, ptr, bottom, obj). unat ptr)") (auto simp: slot_ok_def intro: word_step_less)

declare find_loop.simps [simp del]

definition dvmFindInReferenceTable :: "reference_table \<Rightarrow> u4 \<Rightarrow> u4 \<Rightarrow> u4 option" where
  "dvmFindInReferenceTable t bottom obj = find_loop t (rt_next t) bottom obj"

definition dvmRemoveFromReferenceTable :: "reference_table \<Rightarrow> u4 \<Rightarrow> u4 \<Rightarrow> (bool \<times> reference_table) option" where
  "dvmRemoveFromReferenceTable t bottom obj =
     do { ptr \<leftarrow> dvmFindInReferenceTable t bottom obj;
       if ptr = 0 then Some (False, t)
       else
         let t = t\<lparr>rt_next := rt_next t - 4\<rparr>;
             moveCount = sint (rt_next t - ptr) sdiv 4;
             i = slot_no t ptr; m = nat moveCount
         in if moveCount \<noteq> 0
            then Some (True, t\<lparr>rt_slots := take i (rt_slots t) @ take m (drop (i + 1) (rt_slots t)) @ drop (i + m) (rt_slots t)\<rparr>)
            else Some (True, t) }"

section \<open>The table as a list\<close>

text \<open>The address of an entry, the entries, and the invariant. The maximum keeps sizes in bytes positive as
  an \<open>int\<close>.\<close>

definition rt_addr :: "reference_table \<Rightarrow> nat \<Rightarrow> u4" where
  "rt_addr t i = rt_table t + of_nat (4 * i)"

definition rt_count :: "reference_table \<Rightarrow> nat" where
  "rt_count t = unat (rt_next t - rt_table t) div 4"

definition rt_refs :: "reference_table \<Rightarrow> u4 list" where
  "rt_refs t = take (rt_count t) (rt_slots t)"

definition rt_inv :: "reference_table \<Rightarrow> bool" where
  "rt_inv t \<longleftrightarrow> 0 < allocEntries t \<and> allocEntries t \<le> maxEntries t \<and> maxEntries t < 2 ^ 29 \<and>
     length (rt_slots t) = nat (allocEntries t) \<and> 4 \<le> rt_table t \<and> unat (rt_table t) + 4 * length (rt_slots t) < 2 ^ 32 \<and>
     rt_count t \<le> length (rt_slots t) \<and> rt_next t = rt_addr t (rt_count t)"

lemma rt_addr_facts:
  assumes "unat (rt_table t) + 4 * i < 2 ^ 32"
  shows "unat (rt_addr t i) = unat (rt_table t) + 4 * i" and "unat (rt_addr t i - rt_table t) = 4 * i"
proof -
  have i: "unat (of_nat (4 * i) :: u4) = 4 * i" using assms by (intro unat_of_nat_u4) simp
  show "unat (rt_addr t i - rt_table t) = 4 * i" using i by (simp add: rt_addr_def)
  show "unat (rt_addr t i) = unat (rt_table t) + 4 * i"
    unfolding rt_addr_def using assms i by (subst unat_add_lem [THEN iffD1]) simp_all
qed

lemma rt_addr_slot:
  assumes "unat (rt_table t) + 4 * length (rt_slots t) < 2 ^ 32" "i < length (rt_slots t)"
  shows "slot_ok t (rt_addr t i)" and "slot_no t (rt_addr t i) = i"
proof -
  have b: "unat (rt_table t) + 4 * i < 2 ^ 32" "unat (rt_table t) + 4 * Suc i < 2 ^ 32" using assms by simp_all
  have "rt_addr t i + 4 = rt_addr t (Suc i)" by (simp add: rt_addr_def)
  then have "rt_addr t i < rt_addr t i + 4"
    using rt_addr_facts(1) [OF b(1)] rt_addr_facts(1) [OF b(2)] by (simp add: word_less_nat_alt)
  moreover have "rt_table t \<le> rt_addr t i" using rt_addr_facts(1) [OF b(1)] by (simp add: word_le_nat_alt)
  ultimately show "slot_ok t (rt_addr t i)" "slot_no t (rt_addr t i) = i"
    using rt_addr_facts(2) [OF b(1)] assms(2) by (simp_all add: slot_ok_def slot_no_def)
qed

lemma rt_count_addr:
  "unat (rt_table t) + 4 * i < 2 ^ 32 \<Longrightarrow> rt_next t = rt_addr t i \<Longrightarrow> rt_count t = i"
  using rt_addr_facts(2) [of t i] by (simp add: rt_count_def)

lemma length_refs [simp]: "rt_inv t \<Longrightarrow> length (rt_refs t) = rt_count t"
  by (simp add: rt_refs_def rt_inv_def)

subsection \<open>The last occurrence\<close>

fun last_index :: "'a \<Rightarrow> 'a list \<Rightarrow> nat option" where
  "last_index x [] = None"
| "last_index x (y # ys) =
     (case last_index x ys of Some i \<Rightarrow> Some (Suc i) | None \<Rightarrow> if x = y then Some 0 else None)"

lemma last_index_snoc: "last_index x (xs @ [y]) = (if x = y then Some (length xs) else last_index x xs)"
  by (induction xs) (auto split: option.splits)

lemma last_index_bound: "last_index x xs = Some i \<Longrightarrow> i < length xs"
  by (induction xs arbitrary: i) (auto split: option.splits if_splits)

lemma last_index_None: "last_index x xs = None \<longleftrightarrow> x \<notin> set xs"
  by (induction xs) (auto split: option.splits if_splits)

lemma del_last_index:
  "last_index x xs = Some i \<Longrightarrow> del_last x xs = take i xs @ drop (Suc i) xs"
proof (induction xs arbitrary: i rule: rev_induct)
  case (snoc y ys)
  show ?case
  proof (cases "x = y")
    case False
    then have i: "last_index x ys = Some i" using snoc.prems by (simp add: last_index_snoc)
    with snoc.IH [OF i] False last_index_bound [OF i] show ?thesis by (simp add: del_last_def)
  qed (use snoc.prems in \<open>simp add: last_index_snoc del_last_def\<close>)
qed simp

lemma del_last_snoc [simp]: "del_last x (xs @ [x]) = xs"
  by (simp add: del_last_def)

lemma del_last_notin: "x \<notin> set xs \<Longrightarrow> del_last x xs = xs"
  by (simp add: del_last_def remove1_idem)

lemma find_loop_last:
  assumes "rt_inv t" "b \<le> n" "n \<le> length (rt_slots t)"
  shows "find_loop t (rt_addr t n) (rt_addr t b) obj =
    Some (case last_index obj (drop b (take n (rt_slots t))) of None \<Rightarrow> 0 | Some i \<Rightarrow> rt_addr t (b + i))"
  using assms(2,3)
proof (induction n rule: dec_induct)
  case base
  have "unat (rt_table t) + 4 * b < 2 ^ 32" "4 \<le> unat (rt_table t)"
    using assms base by (auto simp: rt_inv_def word_le_nat_alt)
  moreover from this rt_addr_facts(1) [of t b] have "4 \<le> rt_addr t b" by (simp add: word_le_nat_alt)
  then have "unat (rt_addr t b - 4) = unat (rt_addr t b) - 4" by (simp add: unat_sub)
  ultimately have "\<not> rt_addr t b \<le> rt_addr t b - 4"
    using rt_addr_facts(1) [of t b] by (simp add: word_le_nat_alt)
  then show ?case by (simp add: find_loop.simps Let_def)
next
  case (step n)
  have p: "rt_addr t (Suc n) - 4 = rt_addr t n" by (simp add: rt_addr_def)
  have n: "n < length (rt_slots t)" "unat (rt_table t) + 4 * length (rt_slots t) < 2 ^ 32"
    using step.prems assms(1) by (simp_all add: rt_inv_def)
  then have "unat (rt_addr t b) \<le> unat (rt_addr t n)"
    using step.hyps rt_addr_facts(1) [of t b] rt_addr_facts(1) [of t n] by simp
  then have le: "rt_addr t b \<le> rt_addr t n" by (simp add: word_le_nat_alt)
  have "drop b (take (Suc n) (rt_slots t)) = drop b (take n (rt_slots t)) @ [rt_slots t ! n]"
    using n step.hyps by (simp add: take_Suc_conv_app_nth)
  with step n le rt_addr_slot [OF n(2) n(1)] show ?case
    by (subst find_loop.simps) (simp add: p last_index_snoc Let_def)
qed

lemma find_last:
  assumes "rt_inv t" "b \<le> rt_count t"
  shows "dvmFindInReferenceTable t (rt_addr t b) obj =
    Some (case last_index obj (drop b (rt_refs t)) of None \<Rightarrow> 0 | Some i \<Rightarrow> rt_addr t (b + i))"
  using find_loop_last [OF assms] assms by (simp add: dvmFindInReferenceTable_def rt_refs_def rt_inv_def)

subsection \<open>Adding\<close>

text \<open>What \<open>realloc\<close> is documented to do: a block of the size, at a place of its own, that begins with what
  the old one held.\<close>

definition realloc_ok :: "(u4 list \<Rightarrow> u4 \<Rightarrow> (u4 \<times> u4 list) option) \<Rightarrow> bool" where
  "realloc_ok realloc \<longleftrightarrow> (\<forall>old n a new. realloc old n = Some (a, new) \<longrightarrow>
     4 \<le> a \<and> unat a + unat n < 2 ^ 32 \<and> length new = unat n div 4 \<and> take (length old) new = take (length new) old)"

lemma unat_bytes: "0 \<le> n \<Longrightarrow> n < 2 ^ 29 \<Longrightarrow> unat (word_of_int n * 4 :: u4) = 4 * nat n"
proof -
  assume n: "0 \<le> n" "n < 2 ^ 29"
  then have "(word_of_int n * 4 :: u4) = of_nat (4 * nat n)" by (simp add: of_nat_nat)
  then show "unat (word_of_int n * 4 :: u4) = 4 * nat n" using n unat_of_nat_u4 [of "4 * nat n"]
    by (simp add: mult.commute)
qed

lemma next_is_end:
  assumes "rt_inv t" "0 \<le> n" "n < 2 ^ 29"
  shows "rt_next t = rt_table t + word_of_int n * 4 \<longleftrightarrow> rt_count t = nat n"
proof -
  have "rt_next t = rt_table t + word_of_int n * 4 \<longleftrightarrow> unat (rt_next t - rt_table t) = unat (word_of_int n * 4 :: u4)"
    by (metis add_diff_cancel_left' diff_add_cancel add.commute unsigned_word_eqI)
  moreover have "unat (rt_next t - rt_table t) = 4 * rt_count t"
    using assms(1) rt_addr_facts(2) [of t "rt_count t"] by (simp add: rt_inv_def)
  ultimately show ?thesis using unat_bytes [OF assms(2,3)] by simp
qed

lemma grow_full:
  assumes "rt_inv t" "realloc_ok realloc" "rt_grow realloc t = Some t'"
  shows "rt_inv t'" "rt_refs t' = rt_refs t" "rt_count t' = rt_count t" "rt_count t < length (rt_slots t')" "maxEntries t' = maxEntries t"
proof -
  note inv = assms(1) [unfolded rt_inv_def]
  have ends: "rt_next t = rt_table t + word_of_int (allocEntries t) * 4 \<longleftrightarrow> rt_count t = nat (allocEntries t)"
    "rt_next t = rt_table t + word_of_int (maxEntries t) * 4 \<longleftrightarrow> rt_count t = nat (maxEntries t)"
    using inv by (intro next_is_end [OF assms(1)]; simp)+
  have "rt_inv t' \<and> rt_refs t' = rt_refs t \<and> rt_count t' = rt_count t \<and> rt_count t < length (rt_slots t') \<and> maxEntries t' = maxEntries t"
  proof (cases "rt_count t = nat (allocEntries t)")
    case False
    with assms(1,3) inv ends show ?thesis by (auto simp: rt_grow_def)
  next
    case True
    let ?n = "if s32 (allocEntries t * 2) > maxEntries t then maxEntries t else s32 (allocEntries t * 2)"
    have more: "s32 (allocEntries t * 2) = allocEntries t * 2" using inv by (intro wrap_s_id) simp_all
    from True assms(3) ends obtain a ws where r: "realloc (rt_slots t) (word_of_int ?n * 4) = Some (a, ws)"
      and t': "t' = t\<lparr>rt_next := a + (rt_next t - rt_table t), rt_table := a, allocEntries := ?n, rt_slots := ws\<rparr>"
      and max: "rt_count t \<noteq> nat (maxEntries t)"
      by (auto simp: rt_grow_def Let_def split: if_splits option.splits)
    have n: "allocEntries t < ?n" "?n \<le> maxEntries t" using True max inv more by auto
    then have bytes: "unat (word_of_int ?n * 4 :: u4) = 4 * nat ?n" using inv by (intro unat_bytes) simp_all
    have b: "4 \<le> a" "unat a + 4 * nat ?n < 2 ^ 32" "length ws = nat ?n" "take (length (rt_slots t)) ws = take (length ws) (rt_slots t)"
      using assms(2) r bytes unfolding realloc_ok_def by fastforce+
    have "rt_next t - rt_table t = of_nat (4 * rt_count t)" using inv by (simp add: rt_addr_def)
    then have nx: "rt_next t' = rt_addr t' (rt_count t)" by (simp add: t' rt_addr_def)
    have c: "rt_count t' = rt_count t"
      using b(2) n(1) True by (intro rt_count_addr [OF _ nx]) (simp add: t')
    have "rt_refs t' = take (rt_count t) (take (length (rt_slots t)) ws)" using True inv c by (simp add: rt_refs_def t')
    also have "\<dots> = rt_refs t" using b True n(1) inv by (simp add: rt_refs_def min_def)
    finally show ?thesis using b n True inv c nx by (auto simp: rt_inv_def t')
  qed
  then show "rt_inv t'" "rt_refs t' = rt_refs t" "rt_count t' = rt_count t" "rt_count t < length (rt_slots t')" "maxEntries t' = maxEntries t"
    by simp_all
qed

lemma grow_refused:
  assumes "rt_inv t" "rt_grow realloc t = None"
  shows "rt_count t = nat (allocEntries t) \<and> (rt_count t = nat (maxEntries t) \<or> (\<exists>n. realloc (rt_slots t) n = None))"
proof -
  have "rt_next t = rt_table t + word_of_int (allocEntries t) * 4 \<longleftrightarrow> rt_count t = nat (allocEntries t)"
    "rt_next t = rt_table t + word_of_int (maxEntries t) * 4 \<longleftrightarrow> rt_count t = nat (maxEntries t)"
    using assms(1) unfolding rt_inv_def by (intro next_is_end [OF assms(1)]; simp)+
  with assms(2) show ?thesis by (auto simp: rt_grow_def Let_def split: if_splits option.splits)
qed

lemma add_snoc:
  assumes "rt_inv t" "realloc_ok realloc" "rt_grow realloc t = Some t1"
  shows "\<exists>t'. dvmAddToReferenceTable realloc t obj = Some (True, t') \<and> rt_inv t' \<and> rt_refs t' = rt_refs t @ [obj] \<and>
    maxEntries t' = maxEntries t"
proof -
  note g = grow_full [OF assms]
  note inv = g(1) [unfolded rt_inv_def]
  let ?n = "rt_count t"
  have nx: "rt_next t1 = rt_addr t1 ?n" using inv g(3) by simp
  have slot: "slot_ok t1 (rt_next t1)" "slot_no t1 (rt_next t1) = ?n"
    using rt_addr_slot [OF _ g(4)] inv nx by simp_all
  let ?t = "t1\<lparr>rt_slots := (rt_slots t1)[?n := obj], rt_next := rt_next t1 + 4\<rparr>"
  have add: "dvmAddToReferenceTable realloc t obj = Some (True, ?t)"
    using slot by (simp add: dvmAddToReferenceTable_def assms(3))
  have nx': "rt_next ?t = rt_addr ?t (Suc ?n)" by (simp add: nx rt_addr_def)
  have c: "rt_count ?t = Suc ?n" using inv g(4) by (intro rt_count_addr [OF _ nx']) simp
  have "rt_refs ?t = rt_refs t1 @ [obj]" using g(3,4) c by (simp add: rt_refs_def take_Suc_conv_app_nth)
  moreover have "rt_inv ?t" using inv g(4) c nx' by (simp add: rt_inv_def)
  ultimately show ?thesis using add g(2,5) by auto
qed

subsection \<open>Removing\<close>

lemma take_removed:
  assumes "i < n" "n \<le> length xs"
  shows "length (take i xs @ take (n - 1 - i) (drop (i + 1) xs) @ drop (i + (n - 1 - i)) xs) = length xs"
    and "take (n - 1) (take i xs @ take (n - 1 - i) (drop (i + 1) xs) @ drop (i + (n - 1 - i)) xs) =
      take i (take n xs) @ drop (Suc i) (take n xs)"
proof -
  have "Suc (n - 1 - i) + i = n" using assms by simp
  then have "drop (Suc i) (take n xs) = take (n - 1 - i) (drop (i + 1) xs)" by (simp add: drop_take)
  with assms show "length (take i xs @ take (n - 1 - i) (drop (i + 1) xs) @ drop (i + (n - 1 - i)) xs) = length xs"
    "take (n - 1) (take i xs @ take (n - 1 - i) (drop (i + 1) xs) @ drop (i + (n - 1 - i)) xs) =
      take i (take n xs) @ drop (Suc i) (take n xs)" by simp_all
qed

lemma sint_of_nat_u4: "n < 2 ^ 31 \<Longrightarrow> sint (of_nat n :: u4) = int n"
  by (simp add: signed_of_nat signed_take_bit_int_eq_self)

lemma rt_inv_shrink:
  assumes "rt_inv t" "rt_table r = rt_table t" "allocEntries r = allocEntries t" "maxEntries r = maxEntries t"
    and "length (rt_slots r) = length (rt_slots t)" "rt_count r \<le> rt_count t" "rt_next r = rt_addr r (rt_count r)"
  shows "rt_inv r"
  using assms by (simp add: rt_inv_def)

lemma remove_last:
  assumes "rt_inv t" "b \<le> rt_count t"
  shows "\<exists>t'. dvmRemoveFromReferenceTable t (rt_addr t b) obj = Some (obj \<in> set (drop b (rt_refs t)), t') \<and> rt_inv t' \<and>
    rt_refs t' = take b (rt_refs t) @ del_last obj (drop b (rt_refs t)) \<and> maxEntries t' = maxEntries t"
proof (cases "last_index obj (drop b (rt_refs t))")
  case None
  then have "obj \<notin> set (drop b (rt_refs t))" by (simp add: last_index_None)
  with None find_last [OF assms, of obj] assms(1) show ?thesis
    by (simp add: dvmRemoveFromReferenceTable_def del_last_notin)
next
  case (Some i)
  note inv = assms(1) [unfolded rt_inv_def]
  let ?n = "rt_count t" and ?i = "b + i" and ?xs = "rt_slots t"
  have i: "?i < ?n" "?n \<le> length ?xs" "obj \<in> set (drop b (rt_refs t))"
    using last_index_bound [OF Some] last_index_None [of obj "drop b (rt_refs t)"] Some assms inv by auto
  then have small: "unat (rt_table t) + 4 * ?n < 2 ^ 32" "unat (rt_table t) + 4 * ?i < 2 ^ 32" "?n < 2 ^ 29" using inv by auto
  let ?t = "t\<lparr>rt_next := rt_next t - 4\<rparr>"
  have "unat (rt_addr t ?i) \<noteq> 0" using rt_addr_facts(1) [OF small(2)] inv by (auto simp: word_le_nat_alt)
  then have nz: "rt_addr t ?i \<noteq> 0" by auto
  have nx: "rt_next ?t = rt_addr ?t (?n - 1)" using inv i by (simp add: rt_addr_def of_nat_diff)
  define m where "m = ?n - 1 - ?i"
  have "rt_next ?t - rt_addr t ?i = of_nat (4 * (?n - 1 - ?i))"
    using i(1) unfolding nx by (simp add: rt_addr_def of_nat_diff algebra_simps)
  moreover have "sint (of_nat (4 * (?n - 1 - ?i)) :: u4) = int (4 * (?n - 1 - ?i))"
    using small(3) by (intro sint_of_nat_u4) simp
  ultimately have mc: "sint (rt_next ?t - rt_addr t ?i) sdiv 4 = int m" by (simp add: sdiv_nonneg m_def)
  have no: "slot_no ?t (rt_addr t ?i) = ?i"
    using rt_addr_facts(2) [OF small(2)] by (simp add: slot_no_def)
  let ?ys = "take ?i ?xs @ take m (drop (?i + 1) ?xs) @ drop (?i + m) ?xs"
  let ?r = "if m \<noteq> 0 then ?t\<lparr>rt_slots := ?ys\<rparr> else ?t"
  have rm: "dvmRemoveFromReferenceTable t (rt_addr t b) obj = Some (True, ?r)"
    using find_last [OF assms, of obj] Some nz mc no by (simp add: dvmRemoveFromReferenceTable_def Let_def)
  have nx': "rt_next ?r = rt_addr ?r (?n - 1)" using nx by (simp add: rt_addr_def)
  have c: "rt_count ?r = ?n - 1" using small(1) by (intro rt_count_addr [OF _ nx']) (auto split: if_splits)
  have len: "length (rt_slots ?r) = length ?xs" using take_removed(1) [OF i(1,2), folded m_def] by simp
  have "rt_refs ?r = take ?i (rt_refs t) @ drop (Suc ?i) (rt_refs t)"
  proof (cases "m = 0")
    case True
    then have "?n = Suc ?i" using i(1) by (simp add: m_def)
    with True c show ?thesis by (simp add: rt_refs_def)
  next
    case False
    with c take_removed(2) [OF i(1,2), folded m_def] show ?thesis by (simp add: rt_refs_def)
  qed
  also have "\<dots> = take b (rt_refs t) @ del_last obj (drop b (rt_refs t))"
    by (simp add: del_last_index [OF Some] take_add add.commute)
  finally have "rt_refs ?r = take b (rt_refs t) @ del_last obj (drop b (rt_refs t))" .
  moreover have "rt_table ?r = rt_table t" "allocEntries ?r = allocEntries t" "maxEntries ?r = maxEntries t" by simp_all
  then have "rt_inv ?r" by (rule rt_inv_shrink [OF assms(1)]) (use len c nx' in \<open>simp_all only: diff_le_self\<close>)
  ultimately show ?thesis using rm i(3) by auto
qed

section \<open>Properties\<close>

interpretation rt: frame_stack rt_refs "\<lambda>t. rt_inv t \<and> realloc_ok realloc" "dvmAddToReferenceTable realloc"
    "\<lambda>t b. dvmRemoveFromReferenceTable t (rt_addr t b)" for realloc
proof unfold_locales
  show "\<exists>ok s'. dvmAddToReferenceTable realloc s x = Some (ok, s') \<and> (rt_inv s' \<and> realloc_ok realloc) \<and>
      rt_refs s' = (if ok then rt_refs s @ [x] else rt_refs s)" if "rt_inv s \<and> realloc_ok realloc" for s x
  proof (cases "rt_grow realloc s")
    case None
    with that show ?thesis by (auto simp: dvmAddToReferenceTable_def)
  next
    case (Some t1)
    with add_snoc [OF _ _ Some, of x] that show ?thesis by auto
  qed
  show "\<exists>s'. dvmRemoveFromReferenceTable s (rt_addr s b) x = Some (x \<in> set (drop b (rt_refs s)), s') \<and>
      (rt_inv s' \<and> realloc_ok realloc) \<and> rt_refs s' = take b (rt_refs s) @ del_last x (drop b (rt_refs s))"
    if "rt_inv s \<and> realloc_ok realloc" "b \<le> length (rt_refs s)" for s b x
    using remove_last [of s b x] that by auto
qed

lemma entries_count:
  assumes "rt_inv t"
  shows "dvmReferenceTableEntries t = of_nat (rt_count t)"
proof -
  have d: "rt_next t - rt_table t = of_nat (4 * rt_count t)" and "4 * rt_count t < 2 ^ 31"
    using assms by (auto simp: rt_inv_def rt_addr_def)
  then have "sint (rt_next t - rt_table t) = int (4 * rt_count t)" using sint_of_nat_u4 by metis
  then show ?thesis by (simp add: dvmReferenceTableEntries_def sdiv_nonneg)
qed

text \<open>A new table is empty.\<close>

lemma init_empty:
  assumes "0 < initialCount" "initialCount \<le> maxCount" "maxCount < 2 ^ 29"
    and "malloc (word_of_int initialCount * 4) = Some (a, ws)" "length ws = nat initialCount" "4 \<le> a" "unat a + 4 * length ws < 2 ^ 32"
  shows "\<exists>t'. dvmInitReferenceTable malloc initialCount maxCount t = (True, t') \<and> rt_inv t' \<and> rt_refs t' = []"
  using assms by (simp add: dvmInitReferenceTable_def rt_inv_def rt_count_def rt_addr_def rt_refs_def)

text \<open>Adding an object appends it, also when the table is moved to a larger block, and keeps the invariant. It is
  refused only when the table is full and either has its maximum or cannot be enlarged, and then nothing
  changes.\<close>

theorem reference_table_adds:
  assumes "rt_inv t" "realloc_ok realloc"
  shows "\<exists>ok t'. dvmAddToReferenceTable realloc t obj = Some (ok, t') \<and> rt_inv t' \<and> maxEntries t' = maxEntries t \<and>
    rt_refs t' = (if ok then rt_refs t @ [obj] else rt_refs t) \<and>
    (ok \<or> dvmIsReferenceTableFull t \<and> (length (rt_refs t) = nat (maxEntries t) \<or> (\<exists>n. realloc (rt_slots t) n = None)))"
proof (cases "rt_grow realloc t")
  case None
  note inv = assms(1) [unfolded rt_inv_def]
  have g: "rt_count t = nat (allocEntries t)" "rt_count t = nat (maxEntries t) \<or> (\<exists>n. realloc (rt_slots t) n = None)"
    using grow_refused [OF assms(1) None] by blast+
  have "dvmReferenceTableEntries t = of_nat (rt_count t)" by (rule entries_count [OF assms(1)])
  then have "dvmIsReferenceTableFull t" using g(1) inv by (simp add: dvmIsReferenceTableFull_def of_nat_nat)
  with None g(2) assms(1) show ?thesis by (auto simp: dvmAddToReferenceTable_def)
next
  case (Some t1)
  from add_snoc [OF assms Some, of obj] show ?thesis by auto
qed

text \<open>Blocks of up to four words, at a fixed place.\<close>

definition four_words :: "u4 list \<Rightarrow> u4 \<Rightarrow> (u4 \<times> u4 list) option" where
  "four_words old n = (if n \<le> 16 then Some (0x2000, take (unat n div 4) (old @ replicate 4 0)) else None)"

lemma four_words_ok: "realloc_ok four_words"
  by (auto simp: realloc_ok_def four_words_def word_le_nat_alt min_def split: if_splits)

definition small_table :: reference_table where
  "small_table = \<lparr>rt_next = 0x1004, rt_table = 0x1000, allocEntries = 1, maxEntries = 3, rt_slots = [7]\<rparr>"

lemma small_table_inv: "rt_inv small_table" "rt_refs small_table = [7]"
  by (simp_all add: rt_inv_def small_table_def rt_count_def rt_addr_def rt_refs_def)

theorem reference_table_adds_witness:
  "\<exists>ok t'. dvmAddToReferenceTable four_words small_table 9 = Some (ok, t') \<and> rt_refs t' = (if ok then [7, 9] else [7])"
  using reference_table_adds [OF small_table_inv(1) four_words_ok, of 9] small_table_inv(2) by auto

text \<open>Removing an object takes away its last entry among those from the frame's bottom on and closes the gap; the
  result says whether there was one. The entries below the bottom stay as they are.\<close>

theorem reference_table_removes:
  assumes "rt_inv t" "b \<le> length (rt_refs t)"
  shows "\<exists>t'. dvmRemoveFromReferenceTable t (rt_addr t b) obj = Some (obj \<in> set (drop b (rt_refs t)), t') \<and> rt_inv t' \<and>
    rt_refs t' = take b (rt_refs t) @ del_last obj (drop b (rt_refs t))"
  using remove_last [OF assms(1), of b obj] assms by auto

theorem reference_table_removes_witness:
  "\<exists>t'. dvmRemoveFromReferenceTable small_table 0x1000 7 = Some (True, t') \<and> rt_refs t' = []"
  using reference_table_removes [OF small_table_inv(1), of 0 7] small_table_inv(2)
  by (auto simp: rt_addr_def small_table_def del_last_def)

text \<open>C13. Whatever a frame adds and removes, every call returns, the invariant is kept and the entries below the frame stay
  as they are. When its calls succeed and it has removed what it added, in any order, the table has the
  references it had when the frame began.\<close>

theorem frame_restores_table:
  assumes "rt_inv t" "realloc_ok realloc"
  shows "\<exists>oks t'. run_frame (dvmAddToReferenceTable realloc) (\<lambda>t b. dvmRemoveFromReferenceTable t (rt_addr t b)) (length (rt_refs t)) ops t =
      Some (oks, t') \<and> rt_inv t' \<and> take (length (rt_refs t)) (rt_refs t') = rt_refs t \<and>
      (False \<notin> set oks \<and> pushed ops = dropped ops \<longrightarrow> rt_refs t' = rt_refs t)"
  using rt.frame_balanced [of t realloc ops] assms by simp

theorem frame_restores_table_witness:
  "rt_refs (snd (the (run_frame (dvmAddToReferenceTable four_words) (\<lambda>t b. dvmRemoveFromReferenceTable t (rt_addr t b)) 1
     [Push 8, Push 7, Drop 8, Drop 7] small_table))) = [7]"
proof -
  let ?run = "run_frame (dvmAddToReferenceTable four_words) (\<lambda>t b. dvmRemoveFromReferenceTable t (rt_addr t b)) 1
     [Push 8, Push 7, Drop 8, Drop 7] small_table"
  have "?run = Some (replicate 4 True, \<lparr>rt_next = 0x2004, rt_table = 0x2000, allocEntries = 3, maxEntries = 3, rt_slots = [7, 7, 7]\<rparr>)"
    by code_simp
  then show ?thesis
    using frame_restores_table [OF small_table_inv(1) four_words_ok, of "[Push 8, Push 7, Drop 8, Drop 7]"] small_table_inv(2) by simp
qed

end
