(* ===== verification/ReferenceDump.thy ===== *)
theory ReferenceDump
  imports ReferenceTable IndirectRefs "HOL-Library.Product_Lexorder"
begin

text \<open>
  The log of a table of references (\<open>dvmDumpReferenceTableContents\<close> of \<^verbatim>\<open>jni/dalvik/vm/ReferenceTable.cpp\<close>): its last ten
  entries, and a summary with a line for every class and array length. Objects are addresses; what they hold
  is a parameter, as are \<open>malloc\<close>'s answer, \<open>qsort\<close> and the text of a class name. A line of the log is what its format string
  is given.
\<close>

section \<open>Model\<close>

record object_heap =
  clazz :: "u4 \<Rightarrow> u4"
  is_array :: "u4 \<Rightarrow> bool"                      \<comment> \<open>\<open>dvmIsArray\<close>: the class descriptor begins with \<open>[\<close>\<close>
  arr_length :: "u4 \<Rightarrow> u4"
  cstr_chars :: "u4 \<Rightarrow> string"                 \<comment> \<open>\<open>dvmCreateCstrFromString\<close>\<close>
  cstr_length :: "u4 \<Rightarrow> u4"
  type_name :: "u4 \<Rightarrow> string"                    \<comment> \<open>\<open>dvmHumanReadableType\<close>\<close>
  heap_size :: "u4 \<Rightarrow> u4"                       \<comment> \<open>\<open>dvmObjectSizeInHeap\<close>\<close>
  classJavaLangClass :: u4
  classJavaLangString :: u4

datatype extras = No_Extras | Elements u4 | Whole_String string | String_Start string u4

datatype log_line =
    Title
  | Empty
  | Last_Entries nat nat
  | Cleared_Weak nat
  | Raw nat u4 u4
  | Entry nat u4 string extras
  | No_Copy nat
  | Summary_Title
  | Null_Count nat
  | Cleared_Count nat
  | Summary nat string "u4 option" "nat option"   \<comment> \<open>how many, of what, elements, unique instances\<close>

definition getElementCount :: "object_heap \<Rightarrow> u4 \<Rightarrow> u4" where
  "getElementCount h obj =
     (if obj = 0 \<or> obj = kClearedJniWeakGlobal \<or> clazz h obj = 0 \<or> \<not> is_array h obj then 0 else arr_length h obj)"

definition compareObject :: "object_heap \<Rightarrow> u4 \<Rightarrow> u4 \<Rightarrow> int" where
  "compareObject h obj1 obj2 =
     (if obj1 = 0 then (if obj2 = 0 then 0 else 1)
      else if obj2 = 0 then - 1
      else if obj1 = kClearedJniWeakGlobal then (if obj2 = kClearedJniWeakGlobal then 0 else 1)
      else if obj2 = kClearedJniWeakGlobal then - 1
      else if clazz h obj1 \<noteq> clazz h obj2 then sint (clazz h obj1 - clazz h obj2)
      else
        let count1 = getElementCount h obj1; count2 = getElementCount h obj2 in
        if count1 \<noteq> count2 then sint (count1 - count2) else sint (obj1 - obj2))"

definition logSummaryLine :: "object_heap \<Rightarrow> u4 \<Rightarrow> u4 \<Rightarrow> nat \<Rightarrow> nat \<Rightarrow> log_line" where
  "logSummaryLine h obj elems identical equivs =
     (if obj = 0 then Null_Count equivs
      else if obj = kClearedJniWeakGlobal then Cleared_Count equivs
      else
        let className = (if clazz h obj = classJavaLangClass h then ''java.lang.Class'' else type_name h obj) in
        Summary (identical + equivs + 1) className (if elems \<noteq> 0 then Some elems else None)
          (if identical + equivs \<noteq> 0 then Some (equivs + 1) else None))"

text \<open>The first 16 characters of a string.\<close>

definition string_extras :: "object_heap \<Rightarrow> u4 \<Rightarrow> extras" where
  "string_extras h ref =
     (let s = cstr_chars h ref in
      if length s \<le> 16 then Whole_String s else String_Start (take 16 s) (cstr_length h ref))"

definition entry_line :: "object_heap \<Rightarrow> nat \<Rightarrow> u4 \<Rightarrow> log_line option" where
  "entry_line h idx ref =
     (if ref = 0 then None
      else if ref = kClearedJniWeakGlobal then Some (Cleared_Weak idx)
      else if clazz h ref = 0 then Some (Raw idx ref (heap_size h ref))
      else
        let elems = getElementCount h ref in
        Some (Entry idx ref (type_name h ref)
          (if elems \<noteq> 0 then Elements elems
           else if clazz h ref = classJavaLangString h then string_extras h ref
           else No_Extras)))"

text \<open>\<open>for (int idx = count - 1; idx >= first; --idx)\<close>\<close>

fun entry_lines :: "object_heap \<Rightarrow> u4 list \<Rightarrow> nat \<Rightarrow> nat \<Rightarrow> log_line list" where
  "entry_lines h refs first 0 = []"
| "entry_lines h refs first (Suc idx) =
     (if first \<le> idx
      then (case entry_line h idx (refs ! idx) of None \<Rightarrow> [] | Some l \<Rightarrow> [l]) @ entry_lines h refs first idx
      else [])"

text \<open>\<open>while (count > 0 && refs[count-1] == x) --count;\<close>\<close>

fun trim :: "u4 \<Rightarrow> u4 list \<Rightarrow> nat \<Rightarrow> nat" where
  "trim x refs 0 = 0"
| "trim x refs (Suc n) = (if refs ! n = x then trim x refs n else Suc n)"

text \<open>The loop of the summary and the line after it.\<close>

function summary_loop :: "object_heap \<Rightarrow> u4 list \<Rightarrow> nat \<Rightarrow> nat \<Rightarrow> nat \<Rightarrow> nat \<Rightarrow> log_line list" where
  "summary_loop h refs n idx identical equivs =
     (let elems = getElementCount h (refs ! (idx - 1)) in
      if idx < n then
        if refs ! idx = refs ! (idx - 1) then summary_loop h refs n (idx + 1) (identical + 1) equivs
        else if clazz h (refs ! idx) = clazz h (refs ! (idx - 1)) \<and> getElementCount h (refs ! idx) = elems
        then summary_loop h refs n (idx + 1) identical (equivs + 1)
        else logSummaryLine h (refs ! (idx - 1)) elems identical equivs # summary_loop h refs n (idx + 1) 0 0
      else [logSummaryLine h (refs ! (n - 1)) elems identical equivs])"
  by pat_completeness auto

termination
  by (relation "measure (\<lambda>(h, refs, n, idx, identical, equivs). n - idx)") auto

declare summary_loop.simps [simp del]

definition dvmDumpReferenceTableContents ::
    "object_heap \<Rightarrow> (nat \<Rightarrow> bool) \<Rightarrow> ((u4 \<Rightarrow> u4 \<Rightarrow> int) \<Rightarrow> u4 list \<Rightarrow> u4 list) \<Rightarrow> u4 list \<Rightarrow> log_line list" where
  "dvmDumpReferenceTableContents h malloc qsort refs =
     (let n = length refs in
      if n = 0 then [Title, Empty]
      else
        let first = n - 10 in
        Title # Last_Entries (n - first) n # entry_lines h refs first n @
        (if \<not> malloc (4 * n) then [No_Copy n]
         else
           let refs = qsort (compareObject h) refs;
               n = trim kClearedJniWeakGlobal refs (trim 0 refs n)
           in if n = 0 then [] else Summary_Title # summary_loop h refs n 1 0 0))"

definition dvmDumpReferenceTable ::
    "object_heap \<Rightarrow> (nat \<Rightarrow> bool) \<Rightarrow> ((u4 \<Rightarrow> u4 \<Rightarrow> int) \<Rightarrow> u4 list \<Rightarrow> u4 list) \<Rightarrow> reference_table \<Rightarrow> log_line list" where
  "dvmDumpReferenceTable h malloc qsort t =
     dvmDumpReferenceTableContents h malloc qsort (take (unat (dvmReferenceTableEntries t)) (rt_slots t))"

section \<open>The order of the sorted table\<close>

text \<open>The groups of the summary: by class, then by length.\<close>

definition group_key :: "object_heap \<Rightarrow> u4 \<Rightarrow> int \<times> int" where
  "group_key h r = (uint (clazz h r), uint (getElementCount h r))"

definition live_ref :: "u4 \<Rightarrow> bool" where
  "live_ref r \<longleftrightarrow> r \<noteq> 0 \<and> r \<noteq> kClearedJniWeakGlobal"

definition ref_rank :: "object_heap \<Rightarrow> u4 \<Rightarrow> nat \<times> (int \<times> int) \<times> int" where
  "ref_rank h r = (if r = 0 then (2, (0, 0), 0) else if r = kClearedJniWeakGlobal then (1, (0, 0), 0) else (0, group_key h r, uint r))"

text \<open>The comparison subtracts 32-bit numbers, so it only is an order on numbers that are less than \<open>2\<^sup>3\<^sup>1\<close> apart.\<close>

definition near :: "u4 set \<Rightarrow> bool" where
  "near A \<longleftrightarrow> (\<forall>a\<in>A. \<forall>b\<in>A. \<bar>uint a - uint b\<bar> < 2 ^ 31)"

definition comparable_refs :: "object_heap \<Rightarrow> u4 list \<Rightarrow> bool" where
  "comparable_refs h refs \<longleftrightarrow> (let A = set (filter live_ref refs) in near A \<and> near (clazz h ` A) \<and> near (getElementCount h ` A))"

lemma sint_diff:
  assumes "near A" "a \<in> A" "b \<in> A"
  shows "sint (a - b) = uint a - uint b"
proof -
  have "sint (a - b) = sint (word_of_int (uint a - uint b) :: u4)" by simp
  also have "\<dots> = signed_take_bit 31 (uint a - uint b)" by (simp only: signed_of_int) simp
  finally have "sint (a - b) = signed_take_bit 31 (uint a - uint b)" .
  moreover have "\<bar>uint a - uint b\<bar> < 2 ^ 31" using assms by (simp add: near_def)
  ultimately show ?thesis by (simp add: signed_take_bit_int_eq_self abs_less_iff)
qed

lemma compare_rank:
  assumes "comparable_refs h refs" "a \<in> set refs" "b \<in> set refs"
  shows "compareObject h a b \<le> 0 \<longleftrightarrow> ref_rank h a \<le> ref_rank h b" and "compareObject h a b < 0 \<longleftrightarrow> ref_rank h a < ref_rank h b"
proof -
  have "(compareObject h a b \<le> 0 \<longleftrightarrow> ref_rank h a \<le> ref_rank h b) \<and> (compareObject h a b < 0 \<longleftrightarrow> ref_rank h a < ref_rank h b)"
  proof (cases "live_ref a \<and> live_ref b")
    case True
    then have "a \<in> set (filter live_ref refs)" "b \<in> set (filter live_ref refs)" using assms by simp_all
    then have s: "sint (clazz h a - clazz h b) = uint (clazz h a) - uint (clazz h b)"
      "sint (getElementCount h a - getElementCount h b) = uint (getElementCount h a) - uint (getElementCount h b)"
      "sint (a - b) = uint a - uint b"
      using assms(1) unfolding comparable_refs_def Let_def by (blast intro: sint_diff)+
    have ne: "x \<noteq> y \<longleftrightarrow> uint x \<noteq> uint y" for x y :: u4 by (simp add: word_uint_eq_iff)
    from True show ?thesis
      unfolding compareObject_def ref_rank_def group_key_def Let_def s ne [of "clazz h a"] ne [of "getElementCount h a"]
      by (auto simp: live_ref_def)
  next
    case False
    have "kClearedJniWeakGlobal \<noteq> 0" by (simp add: kClearedJniWeakGlobal_def)
    with False show ?thesis by (auto simp: live_ref_def compareObject_def ref_rank_def)
  qed
  then show "compareObject h a b \<le> 0 \<longleftrightarrow> ref_rank h a \<le> ref_rank h b" "compareObject h a b < 0 \<longleftrightarrow> ref_rank h a < ref_rank h b"
    by simp_all
qed

text \<open>What \<open>qsort\<close> is documented to do with a comparison that is an order on the elements.\<close>

definition consistent :: "('a \<Rightarrow> 'a \<Rightarrow> int) \<Rightarrow> 'a set \<Rightarrow> bool" where
  "consistent cmp A \<longleftrightarrow> (\<forall>a\<in>A. \<forall>b\<in>A. (cmp a b < 0 \<longleftrightarrow> 0 < cmp b a) \<and> (\<forall>c\<in>A. cmp a b \<le> 0 \<longrightarrow> cmp b c \<le> 0 \<longrightarrow> cmp a c \<le> 0))"

definition qsort_ok :: "((u4 \<Rightarrow> u4 \<Rightarrow> int) \<Rightarrow> u4 list \<Rightarrow> u4 list) \<Rightarrow> bool" where
  "qsort_ok qsort \<longleftrightarrow> (\<forall>cmp xs. consistent cmp (set xs) \<longrightarrow>
     mset (qsort cmp xs) = mset xs \<and> sorted_wrt (\<lambda>a b. cmp a b \<le> 0) (qsort cmp xs))"

lemma sorted_refs:
  assumes "qsort_ok qsort" "comparable_refs h refs"
  shows "mset (qsort (compareObject h) refs) = mset refs" and "sorted (map (ref_rank h) (qsort (compareObject h) refs))"
proof -
  note rank = compare_rank [OF assms(2)]
  have "consistent (compareObject h) (set refs)"
    unfolding consistent_def
  proof (intro ballI conjI impI)
    fix a b c assume A: "a \<in> set refs" "b \<in> set refs"
    show "compareObject h a b < 0 \<longleftrightarrow> 0 < compareObject h b a" using rank A by (metis not_le)
    assume "c \<in> set refs" "compareObject h a b \<le> 0" "compareObject h b c \<le> 0"
    then show "compareObject h a c \<le> 0" using rank(1) A by (metis order_trans)
  qed
  then have s: "mset (qsort (compareObject h) refs) = mset refs"
    "sorted_wrt (\<lambda>a b. compareObject h a b \<le> 0) (qsort (compareObject h) refs)"
    using assms(1) by (simp_all add: qsort_ok_def)
  show "mset (qsort (compareObject h) refs) = mset refs" by (rule s(1))
  have eq: "set (qsort (compareObject h) refs) = set refs" using s(1) by (metis set_mset_mset)
  show "sorted (map (ref_rank h) (qsort (compareObject h) refs))"
    unfolding sorted_map by (rule sorted_wrt_mono_rel [OF _ s(2)]) (simp add: eq rank(1))
qed

section \<open>The groups\<close>

text \<open>The loop as it walks the list.\<close>

fun summary_list :: "object_heap \<Rightarrow> u4 \<Rightarrow> nat \<Rightarrow> nat \<Rightarrow> u4 list \<Rightarrow> log_line list" where
  "summary_list h prev identical equivs [] = [logSummaryLine h prev (getElementCount h prev) identical equivs]"
| "summary_list h prev identical equivs (x # xs) =
     (if x = prev then summary_list h x (identical + 1) equivs xs
      else if group_key h x = group_key h prev then summary_list h x identical (equivs + 1) xs
      else logSummaryLine h prev (getElementCount h prev) identical equivs # summary_list h x 0 0 xs)"

lemma summary_loop_list:
  "summary_loop h (ys @ prev # xs @ zs) (Suc (length ys + length xs)) (Suc (length ys)) identical equivs =
     summary_list h prev identical equivs xs"
proof (induction xs arbitrary: ys prev identical equivs)
  case Nil
  then show ?case by (subst summary_loop.simps) (simp add: Let_def)
next
  case (Cons x xs)
  have "(ys @ prev # (x # xs) @ zs) ! Suc (length ys) = x" by (simp add: nth_append)
  with Cons [of "ys @ [prev]" x] show ?case
    by (cases "x = prev"; subst summary_loop.simps) (simp_all add: Let_def group_key_def word_uint_eq_iff [symmetric])
qed

text \<open>The line of a reference: how many references there are in its group, and to how many objects.\<close>

definition ref_group :: "object_heap \<Rightarrow> u4 list \<Rightarrow> u4 \<Rightarrow> u4 list" where
  "ref_group h refs r = filter (\<lambda>x. group_key h x = group_key h r) refs"

definition group_line :: "object_heap \<Rightarrow> u4 list \<Rightarrow> u4 \<Rightarrow> log_line" where
  "group_line h refs r =
     (let g = ref_group h refs r; objects = card (set g) in
      logSummaryLine h r (getElementCount h r) (length g - objects) (objects - 1))"

definition one_each :: "object_heap \<Rightarrow> u4 list \<Rightarrow> u4 list \<Rightarrow> bool" where
  "one_each h refs es \<longleftrightarrow> distinct (map (group_key h) es) \<and> set es \<subseteq> set refs \<and> group_key h ` set es = group_key h ` set refs"

abbreviation live_rank :: "object_heap \<Rightarrow> u4 \<Rightarrow> (int \<times> int) \<times> int" where
  "live_rank h r \<equiv> (group_key h r, uint r)"

lemma one_each_cons:
  assumes "one_each h xs es" "p \<in> set g" "\<And>y. y \<in> set g \<Longrightarrow> group_key h y = group_key h p"
    "\<And>y. y \<in> set xs \<Longrightarrow> group_key h y \<noteq> group_key h p"
  shows "one_each h (g @ xs) (p # es)" and "map (group_line h (g @ xs)) es = map (group_line h xs) es"
proof -
  have "group_key h p \<notin> group_key h ` set es" using assms(1,4) unfolding one_each_def by (metis imageE subsetD)
  then have "distinct (map (group_key h) (p # es))" using assms(1) by (simp add: one_each_def)
  moreover have "group_key h ` set g = {group_key h p}" using assms(2,3) by blast
  then have "group_key h ` set (p # es) = group_key h ` set (g @ xs)" using assms(1) by (simp add: one_each_def image_Un)
  moreover have "set (p # es) \<subseteq> set (g @ xs)" using assms(1,2) unfolding one_each_def set_append list.set by blast
  ultimately show "one_each h (g @ xs) (p # es)" by (simp only: one_each_def)
  have "ref_group h (g @ xs) e = ref_group h xs e" if "e \<in> set es" for e
  proof -
    from that assms(1) have "e \<in> set xs" by (auto simp: one_each_def)
    with assms(3,4) have "filter (\<lambda>x. group_key h x = group_key h e) g = []"
      by (metis (mono_tags, lifting) filter_False)
    then show ?thesis by (simp add: ref_group_def)
  qed
  then show "map (group_line h (g @ xs)) es = map (group_line h xs) es" by (simp add: group_line_def)
qed

lemma summary_groups:
  assumes "sorted (map (live_rank h) (g @ [p] @ xs))" "\<And>y. y \<in> set g \<Longrightarrow> group_key h y = group_key h p"
    "identical + equivs = length g" "Suc equivs = card (set (g @ [p]))"
  shows "\<exists>es. summary_list h p identical equivs xs = map (group_line h (g @ [p] @ xs)) es \<and> one_each h (g @ [p] @ xs) es"
  using assms
proof (induction xs arbitrary: g p identical equivs)
  case Nil
  then have "ref_group h (g @ [p]) p = g @ [p]" by (simp add: ref_group_def)
  moreover have "card (set (g @ [p])) = Suc equivs" "length g = identical + equivs" using Nil.prems(3,4) by simp_all
  ultimately have "group_line h (g @ [p]) p = logSummaryLine h p (getElementCount h p) identical equivs"
    by (simp add: group_line_def Let_def)
  with Nil.prems(2) show ?case
    by (intro exI [of _ "[p]"]) (auto simp: one_each_def)
next
  case (Cons x xs)
  show ?case
  proof (cases "group_key h x = group_key h p")
    case True
    let ?i = "if x = p then Suc identical else identical" and ?e = "if x = p then equivs else Suc equivs"
    have "x = p \<or> x \<notin> set (g @ [p])"
      using Cons.prems(1) by (auto simp: sorted_append word_uint_eq_iff True)
    moreover have "set ((g @ [p]) @ [x]) = insert x (set (g @ [p]))" by auto
    ultimately have c: "Suc ?e = card (set ((g @ [p]) @ [x]))"
      using Cons.prems(4) by (cases "x = p") (simp_all only: card_insert_disjoint finite_set if_True if_False, auto simp: insert_absorb)
    have s: "sorted (map (live_rank h) ((g @ [p]) @ [x] @ xs))" using Cons.prems(1) by simp
    have k: "group_key h y = group_key h x" if "y \<in> set (g @ [p])" for y using that Cons.prems(2) True by auto
    have n: "?i + ?e = length (g @ [p])" using Cons.prems(3) by simp
    have "summary_list h p identical equivs (x # xs) = summary_list h x ?i ?e xs" using True by simp
    with Cons.IH [OF s k n c] show ?thesis by simp
  next
    case False
    have s: "sorted (map (live_rank h) ([] @ [x] @ xs))" using Cons.prems(1) by (simp add: sorted_append)
    from Cons.IH [OF s] obtain es where es: "summary_list h x 0 0 xs = map (group_line h (x # xs)) es" "one_each h (x # xs) es"
      by auto
    have less: "group_key h p < group_key h x" using Cons.prems(1) False by (auto simp: sorted_append)
    have other: "group_key h y \<noteq> group_key h p" if "y \<in> set (x # xs)" for y
      using that less Cons.prems(1) by (auto simp: sorted_append)
    have g: "group_key h y = group_key h p" if "y \<in> set (g @ [p])" for y using that Cons.prems(2) by auto
    note oc = one_each_cons [OF es(2), where g = "g @ [p]" and p = p, OF _ g other]
    have "filter (\<lambda>y. group_key h y = group_key h p) (g @ [p]) = g @ [p]" using g by (intro filter_True) blast
    moreover have "filter (\<lambda>y. group_key h y = group_key h p) (x # xs) = []" using other by (intro filter_False) blast
    ultimately have "ref_group h ((g @ [p]) @ x # xs) p = g @ [p]" by (simp only: ref_group_def filter_append append_Nil2)
    then have "group_line h ((g @ [p]) @ x # xs) p = logSummaryLine h p (getElementCount h p) identical equivs"
      by (simp add: group_line_def Let_def Cons.prems(4) [symmetric] Cons.prems(3) [symmetric] del: set_append)
    moreover have "summary_list h p identical equivs (x # xs) =
      logSummaryLine h p (getElementCount h p) identical equivs # map (group_line h (x # xs)) es"
      using False es(1) by auto
    ultimately have "summary_list h p identical equivs (x # xs) = map (group_line h ((g @ [p]) @ x # xs)) (p # es)"
      using oc(2) by simp
    with oc(1) show ?thesis by (intro exI [of _ "p # es"]) simp
  qed
qed

section \<open>The whole table\<close>

lemma trim_end:
  "ys = [] \<or> last ys \<noteq> x \<Longrightarrow> trim x (ys @ replicate m x @ zs) (length ys + m) = length ys"
proof (induction m arbitrary: zs)
  case 0
  then show ?case by (cases ys rule: rev_cases) (auto simp: nth_append)
next
  case (Suc m)
  have "ys @ replicate (Suc m) x @ zs = ys @ replicate m x @ x # zs" by (simp add: replicate_append_same)
  with Suc.IH [of "x # zs"] Suc.prems show ?case by (simp add: nth_append)
qed

text \<open>The sorted table: what is live, the cleared references, and the null ones.\<close>

lemma sorted_split:
  assumes "sorted (map (ref_rank h) xs)"
  shows "\<exists>m k. xs = filter live_ref xs @ replicate m kClearedJniWeakGlobal @ replicate k 0"
  using assms
proof (induction xs)
  case (Cons x xs)
  then obtain m k where mk: "xs = filter live_ref xs @ replicate m kClearedJniWeakGlobal @ replicate k 0" by auto
  have z: "kClearedJniWeakGlobal \<noteq> 0" by (simp add: kClearedJniWeakGlobal_def)
  consider "live_ref x" | "x = kClearedJniWeakGlobal" | "x = 0" by (auto simp: live_ref_def)
  then show ?case
  proof cases
    case 1
    with mk have "x # xs = filter live_ref (x # xs) @ replicate m kClearedJniWeakGlobal @ replicate k 0" by simp
    then show ?thesis by blast
  next
    case 2
    have "ref_rank h x \<le> ref_rank h y" if "y \<in> set xs" for y using Cons.prems that by simp
    then have "filter live_ref xs = []"
      using 2 z unfolding filter_empty_conv by (fastforce simp: ref_rank_def live_ref_def)
    with mk 2 have "x # xs = filter live_ref (x # xs) @ replicate (Suc m) kClearedJniWeakGlobal @ replicate k 0"
      by (simp add: live_ref_def)
    then show ?thesis by blast
  next
    case 3
    have "ref_rank h x \<le> ref_rank h y" if "y \<in> set xs" for y using Cons.prems that by simp
    then have "\<forall>y\<in>set xs. y = 0"
      using 3 by (fastforce simp: ref_rank_def split: if_splits)
    then have "xs = replicate (length xs) 0" "filter live_ref xs = []" by (auto simp: replicate_eqI filter_empty_conv live_ref_def)
    with 3 have "x # xs = filter live_ref (x # xs) @ replicate 0 kClearedJniWeakGlobal @ replicate (Suc (length xs)) 0"
      by (simp add: live_ref_def)
    then show ?thesis by blast
  qed
qed simp

lemma trim_sorted:
  assumes "sorted (map (ref_rank h) xs)"
  shows "trim kClearedJniWeakGlobal xs (trim 0 xs (length xs)) = length (filter live_ref xs)"
    and "take (length (filter live_ref xs)) xs = filter live_ref xs"
proof -
  let ?l = "filter live_ref xs"
  have z: "kClearedJniWeakGlobal \<noteq> 0" by (simp add: kClearedJniWeakGlobal_def)
  obtain m k where xs: "xs = ?l @ replicate m kClearedJniWeakGlobal @ replicate k 0" using sorted_split [OF assms] by blast
  have last: "?l = [] \<or> last ?l \<noteq> 0 \<and> last ?l \<noteq> kClearedJniWeakGlobal"
    using last_in_set [of ?l] by (auto simp: live_ref_def)
  then have "?l @ replicate m kClearedJniWeakGlobal = [] \<or> last (?l @ replicate m kClearedJniWeakGlobal) \<noteq> 0"
    using z by (cases m) auto
  from trim_end [OF this, of k "[]"] have 1: "trim 0 xs (length xs) = length ?l + m"
    using arg_cong [OF xs, of length] xs by (metis (no_types, lifting) append.assoc append_Nil2 length_append length_replicate add.assoc)
  from last have "?l = [] \<or> last ?l \<noteq> kClearedJniWeakGlobal" by blast
  from trim_end [OF this, of m "replicate k 0"] 1 xs
  show "trim kClearedJniWeakGlobal xs (trim 0 xs (length xs)) = length ?l" by metis
  show "take (length ?l) xs = ?l" by (subst (2) xs) simp
qed

lemma group_line_perm:
  assumes "mset xs = mset ys"
  shows "group_line h (filter live_ref xs) = group_line h (filter live_ref ys)"
    and "one_each h (filter live_ref xs) = one_each h (filter live_ref ys)"
proof -
  have "mset (ref_group h (filter live_ref xs) r) = mset (ref_group h (filter live_ref ys) r)" for r
    using assms by (simp add: ref_group_def)
  then have "length (ref_group h (filter live_ref xs) r) = length (ref_group h (filter live_ref ys) r)"
    "set (ref_group h (filter live_ref xs) r) = set (ref_group h (filter live_ref ys) r)" for r
    by (metis size_mset, metis set_mset_mset)
  then show "group_line h (filter live_ref xs) = group_line h (filter live_ref ys)" by (simp add: group_line_def fun_eq_iff Let_def)
  have "set (filter live_ref xs) = set (filter live_ref ys)" using assms by (metis mset_filter set_mset_mset)
  then show "one_each h (filter live_ref xs) = one_each h (filter live_ref ys)" by (simp add: one_each_def fun_eq_iff)
qed

text \<open>On sorted references the loop prints one line for each kind.\<close>

lemma sorted_summary:
  assumes "sorted (map (ref_rank h) xs)" "filter live_ref xs = p # ps"
  shows "\<exists>es. es \<noteq> [] \<and> one_each h (filter live_ref xs) es \<and>
    summary_loop h xs (length (filter live_ref xs)) 1 0 0 = map (group_line h (filter live_ref xs)) es"
proof -
  let ?l = "filter live_ref xs"
  have "xs = p # ps @ drop (length ?l) xs" using trim_sorted(2) [OF assms(1)] assms(2) by (metis append_Cons append_take_drop_id)
  then have loop: "summary_loop h xs (length ?l) 1 0 0 = summary_list h p 0 0 ps"
    using summary_loop_list [of h "[]" p ps "drop (length ?l) xs" 0 0] assms(2)
    by (metis One_nat_def append_Nil length_Cons list.size(3) plus_nat.add_0)
  have "sorted (map (ref_rank h) ?l)" using assms(1) by (rule sorted_filter)
  then have "sorted (map (live_rank h) ?l)" unfolding sorted_map
    by (rule sorted_wrt_mono_rel [rotated]) (auto simp: ref_rank_def live_ref_def)
  then obtain es where es: "summary_list h p 0 0 ps = map (group_line h ?l) es" "one_each h ?l es"
    using summary_groups [of h "[]" p ps 0 0] assms(2) by auto
  then have "es \<noteq> []" by (cases ps) (auto simp: one_each_def assms(2))
  with es loop show ?thesis by auto
qed


text \<open>Three references to two arrays of the same class and length, one to a plain object, a cleared one and a null
  one.\<close>

definition some_heap :: object_heap where
  "some_heap = \<lparr>clazz = (\<lambda>r. if r < 0x100 then 0x900 else 0x800), is_array = (\<lambda>r. r < 0x100), arr_length = (\<lambda>_. 3),
     cstr_chars = (\<lambda>_. []), cstr_length = (\<lambda>_. 0), type_name = (\<lambda>_. ''T''), heap_size = (\<lambda>_. 8),
     classJavaLangClass = 0x700, classJavaLangString = 0x704\<rparr>"

definition some_refs :: "u4 list" where
  "some_refs = [0x20, 0, 0x10, kClearedJniWeakGlobal, 0x20, 0x110]"

text \<open>A sorting function that meets the description of \<open>qsort\<close>.\<close>

fun insert_by :: "('a \<Rightarrow> 'a \<Rightarrow> int) \<Rightarrow> 'a \<Rightarrow> 'a list \<Rightarrow> 'a list" where
  "insert_by cmp x [] = [x]"
| "insert_by cmp x (y # ys) = (if cmp x y \<le> 0 then x # y # ys else y # insert_by cmp x ys)"

definition sort_by :: "('a \<Rightarrow> 'a \<Rightarrow> int) \<Rightarrow> 'a list \<Rightarrow> 'a list" where
  "sort_by cmp xs = foldr (insert_by cmp) xs []"

lemma mset_insert_by [simp]: "mset (insert_by cmp x ys) = add_mset x (mset ys)"
  by (induction ys) auto

lemma set_insert_by [simp]: "set (insert_by cmp x ys) = insert x (set ys)"
  by (induction ys) auto

lemma consistent_subset: "consistent cmp A \<Longrightarrow> B \<subseteq> A \<Longrightarrow> consistent cmp B"
  unfolding consistent_def by (meson subsetD)

lemma consistent_trans:
  "consistent cmp A \<Longrightarrow> a \<in> A \<Longrightarrow> b \<in> A \<Longrightarrow> c \<in> A \<Longrightarrow> cmp a b \<le> 0 \<Longrightarrow> cmp b c \<le> 0 \<Longrightarrow> cmp a c \<le> 0"
  unfolding consistent_def by meson

lemma consistent_total: "consistent cmp A \<Longrightarrow> a \<in> A \<Longrightarrow> b \<in> A \<Longrightarrow> \<not> cmp a b \<le> 0 \<Longrightarrow> cmp b a \<le> 0"
  unfolding consistent_def by (meson less_imp_le not_le)

lemma sorted_insert_by:
  assumes "consistent cmp (insert x (set ys))" "sorted_wrt (\<lambda>a b. cmp a b \<le> 0) ys"
  shows "sorted_wrt (\<lambda>a b. cmp a b \<le> 0) (insert_by cmp x ys)"
  using assms
proof (induction ys)
  case (Cons y ys)
  have t: "cmp x z \<le> 0" if "cmp x y \<le> 0" "z \<in> set ys" for z
    using consistent_trans [OF Cons.prems(1), of x y z] Cons.prems(2) that by simp
  have n: "\<not> cmp x y \<le> 0 \<Longrightarrow> cmp y x \<le> 0" using consistent_total [OF Cons.prems(1), of x y] by simp
  have "consistent cmp (insert x (set ys))" by (rule consistent_subset [OF Cons.prems(1)]) auto
  with Cons.IH Cons.prems(2) have "sorted_wrt (\<lambda>a b. cmp a b \<le> 0) (insert_by cmp x ys)" by simp
  with Cons.prems(2) t n show ?case by simp
qed simp

lemma sort_by_ok: "qsort_ok sort_by"
proof -
  have "mset (sort_by cmp xs) = mset xs \<and> (consistent cmp (set xs) \<longrightarrow> sorted_wrt (\<lambda>a b. cmp a b \<le> 0) (sort_by cmp xs))"
    for cmp :: "u4 \<Rightarrow> u4 \<Rightarrow> int" and xs
  proof (induction xs)
    case (Cons x xs)
    then have "set (sort_by cmp xs) = set xs" by (metis set_mset_mset)
    moreover have "consistent cmp (set (x # xs)) \<longrightarrow> consistent cmp (set xs)" using consistent_subset by fastforce
    moreover have "sort_by cmp (x # xs) = insert_by cmp x (sort_by cmp xs)" by (simp add: sort_by_def)
    ultimately show ?case using Cons sorted_insert_by [of cmp x "sort_by cmp xs"] by simp
  qed (simp add: sort_by_def)
  then show ?thesis by (simp add: qsort_ok_def)
qed


text \<open>Further apart it is not: of these two objects each comes before the other.\<close>

lemma compare_wraps:
  "compareObject some_heap 0x1000 0x80001000 < 0 \<and> compareObject some_heap 0x80001000 0x1000 < 0"
  by (simp add: compareObject_def some_heap_def kClearedJniWeakGlobal_def getElementCount_def)

end
