(* ===== verification/Spec2Isabelle.thy ===== *)
theory Spec2Isabelle
  imports Injector ChatServer DexCatch InstrUtils DexUtf BitVector PointerSet DataMap IndirectRefs ClassIndex
    DexCross ReferenceDump
begin

text \<open>
  A verification library for \<^bold>\<open>elfupspeed\<close>, an Android tool that speeds up or slows down the clock a
  running process sees, and for the parts of the Dalvik VM bundled with it.

  \<^bold>\<open>The program.\<close> The injector (\<^verbatim>\<open>jni/elfinject.c\<close>) attaches to a process with \<open>ptrace\<close> and makes it load a
  library. The library (\<^verbatim>\<open>jni/speed.cpp\<close>) hooks \<open>gettimeofday\<close> and \<open>clock_gettime\<close>, scales the time that
  passes between two calls by a float, and runs a server (\<^verbatim>\<open>jni/ElfIPCServer.cpp\<close>) on the port that is
  its process id. The controller (\<^verbatim>\<open>jni/serverClient.cpp\<close>) finds the process in \<open>/proc\<close>, connects to that
  port and sends the speed as text. \<^verbatim>\<open>jni/epollserver.cpp\<close> is a chat server used to try out epoll.
  \<^verbatim>\<open>jni/dalvik\<close> holds the VM whose dex files, strings and reference tables the tool's other half works
  with.

  \<^bold>\<open>Theories and sources.\<close>
  \<^item> \<open>Prelude\<close>: fixed-width integers, the collections \<open>c_arith\<close> and \<open>frame_simps\<close>, shared list facts.
  \<^item> \<open>CFloat\<close>: float and double as exact rationals with IEEE rounding (24 and 53 bits, half to even),
    and the conversion to a 64-bit integer; \<open>VirtualClock\<close>: the abstract clock and the locale \<open>clock_hook\<close>,
    the contract of a hooked clock; \<open>Speed\<close>: \<^verbatim>\<open>speed.cpp\<close>, with \<open>speed_state\<close> for its static variables and
    one definition per function; it interprets \<open>clock_hook\<close> three times (\<open>gtod\<close>, \<open>mono\<close>, \<open>real\<close>).
  \<^item> \<open>CLib\<close>: \<open>atoi\<close>, \<open>atof\<close>, \<open>strtoul\<close>, \<open>fgets\<close> and the formats of \<open>sprintf\<close> that the sources use; \<open>IpcServer\<close>,
    \<open>Client\<close>, \<open>Injector\<close>, \<open>ChatServer\<close>: the four programs, with what the kernel answers as input. A call
    that never returns, a crash and the death of the process are values.
  \<^item> \<open>Leb128\<close> (\<^verbatim>\<open>libdex/Leb128\<close>; the locale \<open>codec\<close> of a reader and a writer), \<open>DexCatch\<close> (\<^verbatim>\<open>libdex/DexCatch\<close>),
    \<open>InstrUtils\<close> (\<^verbatim>\<open>libdex/InstrUtils\<close>), \<open>DexUtf\<close> (\<^verbatim>\<open>libdex/DexUtf\<close>, \<^verbatim>\<open>vm/UtfString.cpp\<close>), \<open>DataMap\<close>
    (\<^verbatim>\<open>libdex/DexDataMap\<close>): reading dex files.
  \<^item> \<open>SetInterface\<close>: the locales \<open>set_container\<close> and \<open>listed_container\<close>; \<open>BitVector\<close> (\<^verbatim>\<open>vm/BitVector.cpp\<close>) and
    \<open>PointerSet\<close> (\<^verbatim>\<open>vm/PointerSet.cpp\<close>) interpret them.
  \<^item> \<open>HandleTable\<close>: the locale \<open>handle_table\<close>; \<open>IndirectRefs\<close> (\<^verbatim>\<open>vm/IndirectRefTable.cpp\<close>) interprets it for
    every cookie.
  \<^item> \<open>Probing\<close>: the locale \<open>open_table\<close> of open addressing with linear probing; \<open>HashTable\<close> (\<^verbatim>\<open>vm/Hash.cpp\<close>)
    and \<open>ClassIndex\<close> (the class index of \<^verbatim>\<open>libdex/DexFile.cpp\<close>) interpret it: the first implements a map under
    insertion, removal with tombstones and resizing, the second finds the first class with a descriptor.
  \<^item> \<open>DexImage\<close> (\<^verbatim>\<open>libdex/DexFile.h\<close>): a mapped dex file as addresses and bytes, with the accessors of its tables;
    \<open>DexParse\<close> (\<^verbatim>\<open>dexFileParse\<close>, \<^verbatim>\<open>libdex/DexOptData.cpp\<close>): what an accepted file guarantees, and two files that break
    the parser; \<open>DexProto\<close> (\<^verbatim>\<open>libdex/DexProto.cpp\<close>): the text and the order of method prototypes.
  \<^item> \<open>DexClass\<close> (\<^verbatim>\<open>libdex/DexClass.cpp\<close>; the locale \<open>delta_items\<close> of lists of items with growing indices, interpreted for
    fields and methods): class data; \<open>DexDebugInfo\<close> (\<^verbatim>\<open>libdex/DexDebugInfo.cpp\<close>): the interpreter of debug information, with
    its callbacks as parameters; \<open>DexVerify\<close>, \<open>DexItems\<close>,
    \<open>DexSections\<close> and \<open>DexCross\<close> (\<^verbatim>\<open>libdex/DexSwapVerify.cpp\<close>): the verification of every kind of item, the header and
    the map, the first pass over the sections, and the second pass with \<open>dexSwapAndVerify\<close>. An accepted file's items
    do not overlap and the data map lists them, its code is safe to search for handlers, its tables are sorted
    without duplicates, and no class is defined twice; and the flaws that let bad items pass.
  \<^item> \<open>ReferenceTable\<close> and \<open>ReferenceDump\<close> (\<^verbatim>\<open>vm/ReferenceTable.cpp\<close>): the locale \<open>frame_stack\<close> of a stack of references with
    frames, which the table interprets, and the summary that the dump prints.
  \<^bold>\<open>What the lemmas show.\<close> The hooked clocks implement the abstract virtual clock, never go back and are
  exact within the precision of a float; hooks are installed once. A speed travels from the client's
  text to the server's clock; stale bytes and an overflowing buffer are the cases where it does not. An
  injection that succeeds restores the registers and detaches; one that fails does not. The codecs
  are inverses, the searches agree with linear search, the tables of the decoder agree with each other, the
  grammar checks accept their grammar, and the verifier accepts what is well written. The containers implement sets and maps, and where a size field
  wraps this is stated as a theorem.

  \<^bold>\<open>Bounds and loops.\<close> Loops are total functions: over the data, with a measure, or over the list of the
  environment's answers, whose end means that the program is still waiting. The probing loops of the hash
  tables and the walk over the optimizer's data, which can run forever, are partial functions; \<open>None\<close> then
  includes not returning, and the theorems show where they return. The verification of nested values is bounded in
  depth by the length of the file, which is shown to be enough. There is no other fuel.
  Machine integers are words, or \<open>int\<close> and \<open>nat\<close> with the wrap-around written where the code can reach
  it. Sizes are those of a 32-bit target.

  \<^bold>\<open>Not modelled.\<close> The binder and JNI glue of the controller, the x86 variant of the injector's
  \<open>ptrace_call\<close>, test drivers and older copies (\<^verbatim>\<open>inject.cpp\<close>, \<^verbatim>\<open>changemem.cpp\<close>, \<^verbatim>\<open>ipcserver.cpp\<close>, \<^verbatim>\<open>test*\<close>), the bundled ART
  runtime, and of Dalvik the interpreter, the JIT, the collector, the verifier and class loading. Allocation
  succeeds unless a theorem says otherwise; threads do not interleave, since the modelled components run in
  one thread or under their caller's lock.

  \<^bold>\<open>Plan.\<close> Left are register maps and the heap bitmap of the VM (\<^verbatim>\<open>vm/analysis/RegisterMap.cpp\<close>,
  \<^verbatim>\<open>vm/alloc/HeapBitmap.cpp\<close>), the zip archives of \<^verbatim>\<open>libdex/ZipArchive.cpp\<close> and the verifier of bytecode
  (\<^verbatim>\<open>vm/analysis/CodeVerify.cpp\<close>).
\<close>

section \<open>From the client to the clock\<close>

text \<open>What \<open>%.4f\<close> writes for a number that is not negative.\<close>

lemma format_f4_decimal:
  assumes "0 \<le> x"
  defines "n \<equiv> nat (round_half_even (x * 10000))"
  shows "format_f4 (Fin x) = decimal_text (nat_digits (n div 10000)) (pad0 4 (nat_digits (n mod 10000)))"
    and "digits_val (nat_digits (n div 10000) @ pad0 4 (nat_digits (n mod 10000))) = int n"
    and "length (pad0 4 (nat_digits (n mod 10000))) = 4"
    and "\<forall>d \<in> set (pad0 4 (nat_digits (n mod 10000))). is_digit d"
proof -
  show "format_f4 (Fin x) = decimal_text (nat_digits (n div 10000)) (pad0 4 (nat_digits (n mod 10000)))"
    using assms(1) by (simp add: n_def decimal_text_def Let_def)
  have "length (nat_digits (n mod 10000)) \<le> 4" by (rule nat_digits_length) simp_all
  then show len: "length (pad0 4 (nat_digits (n mod 10000))) = 4" by (rule length_pad0)
  have "int (n div 10000) * 10000 + int (n mod 10000) = int n"
    by (metis div_mult_mod_eq of_nat_add of_nat_mult of_nat_numeral)
  then show "digits_val (nat_digits (n div 10000) @ pad0 4 (nat_digits (n mod 10000))) = int n"
    using len by (simp add: digits_val_append)
  show "\<forall>d \<in> set (pad0 4 (nat_digits (n mod 10000))). is_digit d"
    using nat_digits_digits [of "n mod 10000"] by (auto simp: pad0_def is_digit_def)
qed

declare format_f4.simps [simp del]


lemma text_of_2: "format_f4 (Fin 2) = ''2.0000''"
  by code_simp

lemma server_reads_2:
  "\<exists>ss'. handle_message (format_f4 (Fin 2)) 6 \<lparr>speed = initial_speed, buffer = replicate 32 NUL, echoed = []\<rparr> = Inr ss'"
proof -
  have "overlay ''2.0000'' (replicate 32 NUL) = decimal_text ''2'' ''0000'' @ NUL # replicate 25 NUL"
    by (simp add: overlay_def decimal_text_def numeral_eq_Suc)
  moreover have "scan_decimal (decimal_text ''2'' ''0000'' @ NUL # replicate 25 NUL) = (2, NUL # replicate 25 NUL)"
    using scan_decimal_text [of "''2''" "''0000''" NUL "replicate 25 NUL"]
    by (simp add: is_digit_def ends_number_def digits_val_def digit_val_def pow10_def)
  ultimately show ?thesis
    by (simp add: text_of_2 handle_message_def atof_def Let_def SetTimeScale_def initial_speed_def)
qed


end
